(* ===== verification/Radius_Prelude.thy ===== *)
theory Radius_Prelude
  imports Main "HOL-Library.Word"
begin

text \<open>
  Shared vocabulary of the development: machine integers as words, C byte arrays as lists of
  bytes, the block copies and byte-order conversions the code uses everywhere, and the generic
  lemmas about them. The collection \<open>len_simps\<close> holds the length facts that the
  component proofs pass to the simplifier, \<open>bytes_simps\<close> the facts about reading a byte
  array after part of it was overwritten.
\<close>

unbundle bit_operations_syntax

type_synonym byte = "8 word"
type_synonym u16 = "16 word"
type_synonym u32 = "32 word"

named_theorems len_simps \<open>lengths of byte arrays built by the model's operations\<close>
named_theorems bytes_simps \<open>reading a byte array after a block copy\<close>

section \<open>Block operations on byte arrays\<close>

text \<open>\<^verbatim>\<open>memset(p, 0, n)\<close> on a fresh area.\<close>

definition zeros :: "nat \<Rightarrow> byte list" where
  "zeros n = replicate n 0"

text \<open>\<^verbatim>\<open>memcpy(dst + off, src, len(src))\<close>; the copy is in bounds when
  \<open>off + length src \<le> length dst\<close>.\<close>

definition memcpy_at :: "'a list \<Rightarrow> nat \<Rightarrow> 'a list \<Rightarrow> 'a list" where
  "memcpy_at dst off src = take off dst @ src @ drop (off + length src) dst"

text \<open>The \<open>n\<close> bytes from offset \<open>off\<close> on.\<close>

definition bslice :: "nat \<Rightarrow> nat \<Rightarrow> 'a list \<Rightarrow> 'a list" where
  "bslice off n xs = take n (drop off xs)"

definition xor_bytes :: "byte list \<Rightarrow> byte list \<Rightarrow> byte list" where
  "xor_bytes xs ys = map2 (XOR) xs ys"

lemma zeros_0 [simp]: "zeros 0 = []"
  by (simp add: zeros_def)

lemma length_zeros [simp, len_simps]: "length (zeros n) = n"
  by (simp add: zeros_def)

lemma set_zeros: "x \<in> set (zeros n) \<Longrightarrow> x = 0"
  by (simp add: zeros_def)

lemma zeros_add: "zeros (m + n) = zeros m @ zeros n"
  by (simp add: zeros_def replicate_add)

lemma length_memcpy_at [simp, len_simps]:
  "off + length src \<le> length dst \<Longrightarrow> length (memcpy_at dst off src) = length dst"
  by (simp add: memcpy_at_def)

lemma length_bslice [simp, len_simps]: "length (bslice off n xs) = min n (length xs - off)"
  by (simp add: bslice_def)

lemma nth_memcpy_at:
  "off + length src \<le> length dst \<Longrightarrow> i < length dst \<Longrightarrow>
   memcpy_at dst off src ! i =
     (if off \<le> i \<and> i < off + length src then src ! (i - off) else dst ! i)"
  by (auto simp: memcpy_at_def nth_append)

lemma nth_bslice: "i < n \<Longrightarrow> off + i < length xs \<Longrightarrow> bslice off n xs ! i = xs ! (off + i)"
  by (simp add: bslice_def)

lemma bslice_memcpy_same [simp, bytes_simps]:
  "off + length src \<le> length dst \<Longrightarrow> n = length src \<Longrightarrow> bslice off n (memcpy_at dst off src) = src"
  by (simp add: bslice_def memcpy_at_def)

lemma bslice_memcpy_before [bytes_simps]:
  "p + n \<le> off \<Longrightarrow> off + length src \<le> length dst \<Longrightarrow> bslice p n (memcpy_at dst off src) = bslice p n dst"
  by (intro nth_equalityI) (auto simp: nth_bslice nth_memcpy_at)

lemma bslice_memcpy_after [bytes_simps]:
  "off + length src \<le> p \<Longrightarrow> off + length src \<le> length dst \<Longrightarrow>
   bslice p n (memcpy_at dst off src) = bslice p n dst"
  by (simp add: bslice_def memcpy_at_def)

lemma memcpy_at_twice [simp, bytes_simps]:
  "length src = length src' \<Longrightarrow> off + length src \<le> length dst \<Longrightarrow>
   memcpy_at (memcpy_at dst off src) off src' = memcpy_at dst off src'"
  by (simp add: memcpy_at_def)

lemma memcpy_at_bslice [simp, bytes_simps]:
  "off + n \<le> length dst \<Longrightarrow> memcpy_at dst off (bslice off n dst) = dst"
  by (simp add: memcpy_at_def bslice_def) (metis add.commute append_take_drop_id drop_drop)

lemma memcpy_at_commute:
  assumes "p + length xs \<le> q" and "q + length ys \<le> length dst"
  shows "memcpy_at (memcpy_at dst p xs) q ys = memcpy_at (memcpy_at dst q ys) p xs"
  using assms by (intro nth_equalityI) (auto simp: nth_memcpy_at)

lemma length_xor_bytes [simp, len_simps]: "length (xor_bytes xs ys) = min (length xs) (length ys)"
  by (simp add: xor_bytes_def)

lemma nth_xor_bytes [simp]:
  "i < length xs \<Longrightarrow> i < length ys \<Longrightarrow> xor_bytes xs ys ! i = xs ! i XOR ys ! i"
  by (simp add: xor_bytes_def)

text \<open>Hiding a block twice under the same pad gives the block back: the law behind every
  password-hiding scheme of RADIUS.\<close>

lemma xor_bytes_cancel [simp]:
  "length xs \<le> length ys \<Longrightarrow> xor_bytes (xor_bytes xs ys) ys = xs"
  by (intro nth_equalityI) (auto simp: xor.assoc)

lemma xor_bytes_zeros: "length xs = n \<Longrightarrow> xor_bytes xs (zeros n) = xs"
  by (intro nth_equalityI) (auto simp: zeros_def)

lemma xor_bytes_append:
  "length xs = length ys \<Longrightarrow> xor_bytes (xs @ xs') (ys @ ys') = xor_bytes xs ys @ xor_bytes xs' ys'"
  by (simp add: xor_bytes_def)

section \<open>C strings\<close>

text \<open>\<^verbatim>\<open>strlen\<close>: the number of bytes before the first NUL.\<close>

definition strlen :: "byte list \<Rightarrow> nat" where
  "strlen s = length (takeWhile (\<lambda>b. b \<noteq> 0) s)"

lemma strlen_le [simp]: "strlen s \<le> length s"
  by (simp add: strlen_def length_takeWhile_le)

lemma strlen_append_nul: "0 \<notin> set s \<Longrightarrow> strlen (s @ 0 # rest) = length s"
proof -
  assume "0 \<notin> set s"
  then have "takeWhile (\<lambda>b. b \<noteq> 0) (s @ 0 # rest) = s"
    by (subst takeWhile_append2) auto
  then show ?thesis by (simp add: strlen_def)
qed

section \<open>Byte order\<close>

text \<open>\<^verbatim>\<open>htonl\<close>/\<^verbatim>\<open>ntohl\<close> with \<^verbatim>\<open>memcpy\<close>: the big-endian bytes of a
  32-bit value and back; and the little-endian forms of the host (x86) memory.\<close>

definition be32_bytes :: "u32 \<Rightarrow> byte list" where
  "be32_bytes w = [ucast (drop_bit 24 w), ucast (drop_bit 16 w), ucast (drop_bit 8 w), ucast w]"

definition be32 :: "byte \<Rightarrow> byte \<Rightarrow> byte \<Rightarrow> byte \<Rightarrow> u32" where
  "be32 a b c d = push_bit 24 (ucast a) OR push_bit 16 (ucast b) OR push_bit 8 (ucast c) OR ucast d"

definition le32_bytes :: "u32 \<Rightarrow> byte list" where
  "le32_bytes w = [ucast w, ucast (drop_bit 8 w), ucast (drop_bit 16 w), ucast (drop_bit 24 w)]"

definition be16 :: "byte \<Rightarrow> byte \<Rightarrow> nat" where
  "be16 a b = unat a * 256 + unat b"

definition be16_bytes :: "nat \<Rightarrow> byte list" where
  "be16_bytes n = [word_of_nat (n div 256), word_of_nat n]"

lemma length_be32_bytes [simp, len_simps]: "length (be32_bytes w) = 4"
  by (simp add: be32_bytes_def)

lemma length_le32_bytes [simp, len_simps]: "length (le32_bytes w) = 4"
  by (simp add: le32_bytes_def)

lemma length_be16_bytes [simp, len_simps]: "length (be16_bytes n) = 2"
  by (simp add: be16_bytes_def)

lemma le32_rev_be32: "le32_bytes w = rev (be32_bytes w)"
  by (simp add: le32_bytes_def be32_bytes_def)

lemma bit_byte_ge: "8 \<le> n \<Longrightarrow> \<not> bit (b :: byte) n"
  using bit_imp_le_length [of b n] by auto

lemma be32_be32_bytes: "be32_bytes w = [a, b, c, d] \<Longrightarrow> be32 a b c d = w"
proof (rule bit_word_eqI)
  fix n assume eq: "be32_bytes w = [a, b, c, d]" and "n < LENGTH(32)"
  then have "n < 32" by simp
  then consider "n < 8" | "8 \<le> n" "n < 16" | "16 \<le> n" "n < 24" | "24 \<le> n" "n < 32"
    by linarith
  then show "bit (be32 a b c d) n = bit w n"
    using eq by cases (auto simp: be32_def be32_bytes_def bit_simps bit_byte_ge)
qed

lemma be32_bytes_be32 [simp]: "be32_bytes (be32 a b c d) = [a, b, c, d]"
  by (auto simp: be32_bytes_def be32_def bit_simps bit_byte_ge intro!: bit_word_eqI)

lemma be16_be16_bytes: "n < 65536 \<Longrightarrow> be16_bytes n = [a, b] \<Longrightarrow> be16 a b = n"
  by (auto simp: be16_bytes_def be16_def unat_of_nat)

section \<open>Words used as sizes\<close>

lemma unat_byte_lt [simp]: "unat (b :: byte) < 256"
proof -
  have "unat b < 2 ^ LENGTH(8)" by (rule unsigned_less)
  then show ?thesis by simp
qed

lemma unat_u32_lt [simp]: "unat (w :: u32) < 4294967296"
proof -
  have "unat w < 2 ^ LENGTH(32)" by (rule unsigned_less)
  then show ?thesis by simp
qed

lemma be16_bound: "be16 a b < 65536"
  using unat_byte_lt [of a] unat_byte_lt [of b] unfolding be16_def by linarith

lemma unat_byte_of_nat: "n < 256 \<Longrightarrow> unat (word_of_nat n :: byte) = n"
  by (simp add: unat_of_nat)

lemma xor_eq_0_iff: "(a :: 'a::len word) XOR b = 0 \<longleftrightarrow> a = b"
  by (metis bit_word_eqI bit_xor_iff xor_self_eq)

lemma ucast_byte_u32 [simp]: "ucast (ucast (b :: byte) :: u32) = b"
  by (rule bit_word_eqI) (auto simp: bit_simps)

lemma unat_ucast_byte [simp]: "unat (ucast (b :: byte) :: u32) = unat b"
  using unat_byte_lt [of b] by (simp add: unsigned_ucast_eq take_bit_nat_eq_self_iff order.strict_trans del: unat_byte_lt)

lemma ucast_byte_inj: "(ucast (b :: byte) :: u32) = ucast c \<longleftrightarrow> b = c"
  by (metis ucast_byte_u32)

section \<open>Attribute numbers\<close>

lemma unat_mask16: "unat ((a :: u32) AND 0xffff) = unat a mod 65536"
proof -
  have h: "(0xffff :: u32) = mask 16" by (simp add: mask_eq_exp_minus_1)
  show ?thesis unfolding h take_bit_eq_mask [symmetric] unsigned_take_bit_eq take_bit_eq_mod by (simp add: unat_mod_distrib)
qed

lemma unat_drop16: "unat (drop_bit 16 (a :: u32)) = unat a div 65536"
  unfolding unsigned_drop_bit_eq drop_bit_eq_div by (simp add: unat_div_distrib)

lemma small_attr:
  fixes a :: u32
  assumes "drop_bit 16 a AND 0xffff = 0" and "a AND 0xffff \<le> 0xff"
  shows "unat a < 256"
proof -
  have 1: "(unat a div 65536) mod 65536 = 0"
    using arg_cong [OF assms(1), of unat] unfolding unat_mask16 unat_drop16 by simp
  have 2: "unat a mod 65536 \<le> 255"
    using assms(2) unfolding word_le_nat_alt unat_mask16 by simp
  have "unat a div 65536 < 65536" by (rule less_mult_imp_div_less) simp
  with 1 have "unat a div 65536 = 0" by simp
  with 2 show ?thesis using div_mult_mod_eq [of "unat a" 65536] by linarith
qed

lemma take_bit_small: "unat (a :: u32) < 256 \<Longrightarrow> take_bit 8 a = a"
  by (simp add: word_unat_eq_iff unsigned_take_bit_eq take_bit_nat_eq_self_iff)

lemma mask8_small:
  fixes a :: u32
  assumes "unat a < 256"
  shows "a AND 0xff = a"
proof -
  have h: "(0xff :: u32) = mask 8" by (simp add: mask_eq_exp_minus_1)
  show ?thesis unfolding h take_bit_eq_mask [symmetric] by (rule take_bit_small [OF assms])
qed

lemma ucast_u32_small: "unat (a :: u32) < 256 \<Longrightarrow> ucast (ucast a :: byte) = a"
  by (rule trans [OF _ take_bit_small]) (auto simp: word_unat_eq_iff unsigned_ucast_eq unsigned_take_bit_eq)

lemma bit_small:
  fixes a :: u32
  assumes "unat a < 2 ^ k" and "k \<le> n"
  shows "\<not> bit a n"
proof -
  have "unat a < 2 ^ n" using assms by (meson less_le_trans one_le_numeral power_increasing)
  then have "take_bit n a = a" by (simp add: word_unat_eq_iff unsigned_take_bit_eq take_bit_nat_eq_self_iff)
  then show ?thesis by (metis bit_take_bit_iff less_irrefl)
qed

text \<open>Two octets in network order give a 16-bit number back.\<close>

lemma short_octets:
  fixes lv :: u32
  assumes "unat lv < 65536"
  shows "push_bit 8 (ucast (ucast (drop_bit 8 lv AND 0xff) :: byte)) OR ucast (ucast (lv AND 0xff) :: byte) = lv"
proof (rule bit_word_eqI)
  fix n assume n: "n < LENGTH(32)"
  have hi: "bit lv n \<longrightarrow> n < 16" using bit_small [of lv 16 n] assms by force
  have h: "(0xff :: u32) = mask 8" by (simp add: mask_eq_exp_minus_1)
  show "bit (push_bit 8 (ucast (ucast (drop_bit 8 lv AND 0xff) :: byte)) OR ucast (ucast (lv AND 0xff) :: byte) :: u32) n = bit lv n"
    using n hi unfolding h by (auto simp: bit_simps)
qed

end
