(* ===== verification/Dictionary.thy ===== *)
theory Dictionary
  imports Radius_Prelude
begin

text \<open>
  The attribute dictionary of \<^verbatim>\<open>src/lib/dict.cpp\<close>: vendors, attributes and named values.
  Each hash table of the code is a map from the key its comparison function distinguishes
  (names compare without case): that is how the hash table behaves when no two keys have the same hash, which \<open>Dict_Hash\<close> proves for the
  vendors and refutes for the attributes. The properties of this theory that the packet code relies on are about the entries a lookup gives,
  and do not depend on it. The one-entry caches \<^verbatim>\<open>last_vendor\<close> and
  \<^verbatim>\<open>last_attr\<close>, which only save a lookup, are not modelled. Errors are the value \<open>None\<close>, the
  code's -1; the counter \<^verbatim>\<open>max_attr\<close>, which numbers attributes without a number, is left as it was by a call that fails, while the code has
  incremented it. Shown: the checks of \<open>dict_addattr\<close>, \<open>dict_addvendor\<close>,
  \<open>dict_addvalue\<close> and \<open>process_vendor\<close> establish and keep the invariant the
  packet code relies on (legal vendor formats, no encrypted or tagged sub-TLV, numbers in range),
  and what a lookup returns after an insertion.
\<close>

section \<open>Types of \<open>libradius.h\<close> and \<open>radius.h\<close>\<close>

datatype pw_type =
    PW_TYPE_STRING | PW_TYPE_INTEGER | PW_TYPE_IPADDR | PW_TYPE_DATE | PW_TYPE_ABINARY
  | PW_TYPE_OCTETS | PW_TYPE_IFID | PW_TYPE_IPV6ADDR | PW_TYPE_IPV6PREFIX | PW_TYPE_BYTE
  | PW_TYPE_SHORT | PW_TYPE_ETHERNET | PW_TYPE_SIGNED | PW_TYPE_COMBO_IP | PW_TYPE_TLV
  | PW_TYPE_UNKNOWN int

record attr_flags =
  addport :: bool
  has_tag :: bool
  do_xlat :: bool
  unknown_attr :: bool
  array_flag :: bool
  has_value :: bool
  has_value_alias :: bool
  has_tlv :: bool
  is_tlv :: bool
  encoded :: bool
  tag :: byte
  encrypt :: nat

definition FLAG_ENCRYPT_NONE :: nat where "FLAG_ENCRYPT_NONE = 0"
definition FLAG_ENCRYPT_USER_PASSWORD :: nat where "FLAG_ENCRYPT_USER_PASSWORD = 1"
definition FLAG_ENCRYPT_TUNNEL_PASSWORD :: nat where "FLAG_ENCRYPT_TUNNEL_PASSWORD = 2"
definition FLAG_ENCRYPT_ASCEND_SECRET :: nat where "FLAG_ENCRYPT_ASCEND_SECRET = 3"

lemmas encrypt_flags = FLAG_ENCRYPT_NONE_def FLAG_ENCRYPT_USER_PASSWORD_def
  FLAG_ENCRYPT_TUNNEL_PASSWORD_def FLAG_ENCRYPT_ASCEND_SECRET_def

text \<open>\<^verbatim>\<open>memset(&flags, 0, sizeof(flags))\<close>\<close>

definition flags0 :: attr_flags where
  "flags0 = \<lparr>addport = False, has_tag = False, do_xlat = False, unknown_attr = False, array_flag = False,
     has_value = False, has_value_alias = False, has_tlv = False, is_tlv = False, encoded = False,
     tag = 0, encrypt = FLAG_ENCRYPT_NONE\<rparr>"

record dict_attr =
  da_name :: string
  da_attr :: u32
  da_type :: pw_type
  da_vendor :: u32
  da_flags :: attr_flags

record dict_value =
  dval_name :: string
  dval_attr :: u32
  dval_value :: u32

record dict_vendor =
  dv_name :: string
  dv_vendorpec :: u32
  dv_type :: nat
  dv_length :: nat
  dv_flags :: bool

definition VENDOR :: "u32 \<Rightarrow> u32" where
  "VENDOR x = drop_bit 16 x AND 0xffff"

section \<open>The tables\<close>

record dictionary =
  vendors_byname :: "string \<rightharpoonup> dict_vendor"
  vendors_byvalue :: "u32 \<rightharpoonup> dict_vendor"
  attributes_byname :: "string \<rightharpoonup> dict_attr"
  attributes_byvalue :: "u32 \<times> u32 \<rightharpoonup> dict_attr"
  dict_base_attrs :: "u32 \<rightharpoonup> dict_attr"
  values_byname :: "u32 \<times> string \<rightharpoonup> dict_value"
  values_byvalue :: "u32 \<times> u32 \<rightharpoonup> dict_value"
  value_fixup :: "(string \<times> dict_value) list"
  max_attr :: int

text \<open>\<open>dict_free\<close>: every table empty. The static \<^verbatim>\<open>max_attr\<close> survives it.\<close>

text \<open>The tables when the program starts.\<close>

definition dict_start :: dictionary where
  "dict_start = \<lparr>vendors_byname = Map.empty, vendors_byvalue = Map.empty,
     attributes_byname = Map.empty, attributes_byvalue = Map.empty, dict_base_attrs = Map.empty,
     values_byname = Map.empty, values_byvalue = Map.empty, value_fixup = [], max_attr = 0\<rparr>"

definition dict_free :: "dictionary \<Rightarrow> dictionary" where
  "dict_free d = \<lparr>vendors_byname = Map.empty, vendors_byvalue = Map.empty,
     attributes_byname = Map.empty, attributes_byvalue = Map.empty, dict_base_attrs = Map.empty,
     values_byname = Map.empty, values_byvalue = Map.empty, value_fixup = value_fixup d, max_attr = max_attr d\<rparr>"

text \<open>Names are compared with \<^verbatim>\<open>strcasecmp\<close> (the C locale).\<close>

definition tolower :: "char \<Rightarrow> char" where
  "tolower c = (let n = of_char c :: nat in if 65 \<le> n \<and> n \<le> 90 then char_of (n + 32) else c)"

definition dict_key :: "string \<Rightarrow> string" where
  "dict_key = map tolower"

section \<open>Lookups\<close>

definition dict_attrbyvalue :: "dictionary \<Rightarrow> u32 \<Rightarrow> dict_attr option" where
  "dict_attrbyvalue d attr =
     (if 0 < attr \<and> attr < 256 then dict_base_attrs d attr
      else attributes_byvalue d (VENDOR attr, attr))"

definition dict_attrbyname :: "dictionary \<Rightarrow> string \<Rightarrow> dict_attr option" where
  "dict_attrbyname d nm = attributes_byname d (dict_key (take 128 nm))"

definition dict_valbyattr :: "dictionary \<Rightarrow> u32 \<Rightarrow> u32 \<Rightarrow> dict_value option" where
  "dict_valbyattr d attr val =
     (let attr = (case values_byname d (attr, []) of Some dv \<Rightarrow> dval_value dv | None \<Rightarrow> attr)
      in values_byvalue d (attr, val))"

definition dict_valbyname :: "dictionary \<Rightarrow> u32 \<Rightarrow> string \<Rightarrow> dict_value option" where
  "dict_valbyname d attr nm =
     (let attr = (case values_byname d (attr, []) of Some dv \<Rightarrow> dval_value dv | None \<Rightarrow> attr)
      in values_byname d (attr, dict_key (take 128 nm)))"

definition dict_vendorbyname :: "dictionary \<Rightarrow> string \<Rightarrow> u32" where
  "dict_vendorbyname d nm =
     (case vendors_byname d (dict_key (take 128 nm)) of None \<Rightarrow> 0 | Some dv \<Rightarrow> dv_vendorpec dv)"

definition dict_vendorbyvalue :: "dictionary \<Rightarrow> u32 \<Rightarrow> dict_vendor option" where
  "dict_vendorbyvalue d vendorpec = vendors_byvalue d vendorpec"

section \<open>Insertions\<close>

definition dict_addvendor :: "dictionary \<Rightarrow> string \<Rightarrow> nat \<Rightarrow> dictionary option" where
  "dict_addvendor d nm val =
     (if 65535 < val then None
      else if 128 \<le> length nm then None
      else
        let dv = \<lparr>dv_name = nm, dv_vendorpec = word_of_nat val, dv_type = 1, dv_length = 1, dv_flags = False\<rparr>
        in case vendors_byname d (dict_key nm) of
             Some old_dv \<Rightarrow> if dv_vendorpec old_dv \<noteq> dv_vendorpec dv then None else Some d
           | None \<Rightarrow> Some (d\<lparr>vendors_byname := (vendors_byname d)(dict_key nm \<mapsto> dv),
                             vendors_byvalue := (vendors_byvalue d)(dv_vendorpec dv \<mapsto> dv)\<rparr>))"

text \<open>The guards of \<open>dict_addattr\<close> that only apply to vendor attributes.\<close>

definition vendor_attr_ok :: "dictionary \<Rightarrow> nat \<Rightarrow> int \<Rightarrow> attr_flags \<Rightarrow> bool" where
  "vendor_attr_ok d vnd val fl \<longleftrightarrow>
     \<not> (is_tlv fl \<and> encrypt fl \<noteq> FLAG_ENCRYPT_NONE) \<and>
     \<not> (has_tlv fl \<and> encrypt fl \<noteq> FLAG_ENCRYPT_NONE) \<and>
     \<not> (is_tlv fl \<and> has_tag fl) \<and>
     \<not> (has_tlv fl \<and> has_tag fl) \<and>
     (case dict_vendorbyvalue d (word_of_nat vnd) of
        None \<Rightarrow> False
      | Some dv \<Rightarrow> \<not> (dv_type dv = 1 \<and> 256 \<le> val \<and> \<not> is_tlv fl))"

text \<open>The replacements at the end of \<open>dict_addattr\<close>: by name, by value and, for the
  attributes 1 to 255 of no vendor, in the base array.\<close>

definition dict_store_attr :: "dictionary \<Rightarrow> dict_attr \<Rightarrow> dictionary" where
  "dict_store_attr d attr =
     d\<lparr>attributes_byname := (attributes_byname d)(dict_key (da_name attr) \<mapsto> attr),
       attributes_byvalue := (attributes_byvalue d)((da_vendor attr, da_attr attr) \<mapsto> attr),
       dict_base_attrs := (if da_vendor attr = 0 \<and> 0 < da_attr attr \<and> da_attr attr < 256
         then (dict_base_attrs d)(da_attr attr \<mapsto> attr) else dict_base_attrs d)\<rparr>"

definition dict_addattr ::
    "dictionary \<Rightarrow> string \<Rightarrow> nat \<Rightarrow> pw_type \<Rightarrow> int \<Rightarrow> attr_flags \<Rightarrow> dictionary option" where
  "dict_addattr d nm vnd ty val fl =
     (if 128 \<le> length nm then None
      else if val = -1 \<and> dict_attrbyname d nm \<noteq> None then Some d
      else
        let (d, val) =
              (if val = -1 then (d\<lparr>max_attr := max_attr d + 1\<rparr>, max_attr d + 1)
               else if vnd = 0 \<and> max_attr d < val then (d\<lparr>max_attr := val\<rparr>, val)
               else (d, val))
        in if val < 0 then None
           else if 65536 \<le> val then None
           else if vnd \<noteq> 0 \<and> \<not> vendor_attr_ok d vnd val fl then None
           else
             let v = word_of_nat vnd;
                 attr = \<lparr>da_name = nm, da_attr = word_of_int val OR push_bit 16 v, da_type = ty, da_vendor = v, da_flags = fl\<rparr>
             in case attributes_byname d (dict_key nm) of
                  None \<Rightarrow> Some (dict_store_attr d attr)
                | Some a \<Rightarrow>
                    if da_attr a \<noteq> da_attr attr then None
                    else Some (dict_store_attr (d\<lparr>attributes_byvalue := (attributes_byvalue d)((da_vendor a, da_attr a) := None)\<rparr>) attr))"

text \<open>\<^verbatim>\<open>dattr->flags.has_value = 1\<close>: the tables by name, by value and the base array share the
  entry; an entry with the same contents has the same name and is the same object.\<close>

definition mark_has_value :: "dictionary \<Rightarrow> dict_attr \<Rightarrow> dictionary" where
  "mark_has_value d dattr =
     (let mark = map_option (\<lambda>da. if da = dattr then da\<lparr>da_flags := (da_flags da)\<lparr>has_value := True\<rparr>\<rparr> else da)
      in d\<lparr>attributes_byname := mark \<circ> attributes_byname d,
            attributes_byvalue := mark \<circ> attributes_byvalue d,
            dict_base_attrs := mark \<circ> dict_base_attrs d\<rparr>)"

definition dict_addvalue :: "dictionary \<Rightarrow> string \<Rightarrow> string \<Rightarrow> int \<Rightarrow> dictionary option" where
  "dict_addvalue d namestr attrstr val =
     (if namestr = [] then None
      else if 128 \<le> length namestr then None
      else case dict_attrbyname d attrstr of
        None \<Rightarrow>
          let dval = \<lparr>dval_name = namestr, dval_attr = 0, dval_value = word_of_int val\<rparr>
          in Some (d\<lparr>value_fixup := (take 127 attrstr, dval) # value_fixup d\<rparr>)
      | Some dattr \<Rightarrow>
          if has_value_alias (da_flags dattr) then None
          else if da_type dattr = PW_TYPE_BYTE \<and> 255 < val then None
          else if da_type dattr = PW_TYPE_SHORT \<and> 65535 < val then None
          else if da_type dattr \<notin> {PW_TYPE_BYTE, PW_TYPE_SHORT, PW_TYPE_OCTETS, PW_TYPE_INTEGER} then None
          else
            let dval = \<lparr>dval_name = namestr, dval_attr = da_attr dattr, dval_value = word_of_int val\<rparr>;
                key = (da_attr dattr, dict_key namestr);
                d = mark_has_value d dattr
            in case values_byname d key of
                 Some _ \<Rightarrow>
                   (case dict_valbyname d (da_attr dattr) namestr of
                      Some old \<Rightarrow> if dval_value old = dval_value dval then Some d else None
                    | None \<Rightarrow> None)
               | None \<Rightarrow>
                   Some (d\<lparr>values_byname := (values_byname d)(key \<mapsto> dval),
                           values_byvalue := (values_byvalue d)((da_attr dattr, dval_value dval) \<mapsto> dval)\<rparr>))"

section \<open>The VENDOR line\<close>

definition isdigit :: "char \<Rightarrow> bool" where
  "isdigit c \<longleftrightarrow> 48 \<le> (of_char c :: nat) \<and> (of_char c :: nat) \<le> 57"

definition digit_val :: "char \<Rightarrow> nat" where
  "digit_val c = of_char c - 48"

definition atoi_digits :: "string \<Rightarrow> nat" where
  "atoi_digits s = foldl (\<lambda>n c. n * 10 + digit_val c) 0 (takeWhile isdigit s)"

text \<open>The text after \<^verbatim>\<open>format=\<close>: type length, length length and the continuation flag.\<close>

definition parse_vendor_format :: "string \<Rightarrow> (nat \<times> nat \<times> bool) option" where
  "parse_vendor_format p =
     (case p of
        c0 # c1 # c2 # rest \<Rightarrow>
          if isdigit c0 \<and> c1 = CHR '','' \<and> isdigit c2 \<and> (case rest of [] \<Rightarrow> True | c3 # _ \<Rightarrow> c3 = CHR '','') then
            (case rest of
               [] \<Rightarrow> Some (digit_val c0, digit_val c2, False)
             | _ # r \<Rightarrow> if r = ''c'' then Some (digit_val c0, digit_val c2, True) else None)
          else None
      | _ \<Rightarrow> None)"

text \<open>The part of \<open>process_vendor\<close> after the vendor is added: its format.\<close>

definition process_vendor_format :: "dictionary \<Rightarrow> nat \<Rightarrow> string \<Rightarrow> dictionary option" where
  "process_vendor_format d val f =
     (if dict_key (take 7 f) \<noteq> ''format='' then None
      else case parse_vendor_format (drop 7 f) of
             None \<Rightarrow> None
           | Some (ty, len, cont) \<Rightarrow>
               (case dict_vendorbyvalue d (word_of_nat val) of
                  None \<Rightarrow> None
                | Some dv \<Rightarrow>
                    if ty \<notin> {1, 2, 4} then None
                    else if len \<notin> {0, 1, 2} then None
                    else Some (d\<lparr>vendors_byvalue := (vendors_byvalue d)
                           (word_of_nat val \<mapsto> dv\<lparr>dv_type := ty, dv_length := len, dv_flags := cont\<rparr>)\<rparr>)))"

definition process_vendor :: "dictionary \<Rightarrow> string list \<Rightarrow> dictionary option" where
  "process_vendor d argv =
     (if length argv < 2 \<or> 3 < length argv then None
      else case argv ! 1 of [] \<Rightarrow> None
      | c # _ \<Rightarrow>
        if \<not> isdigit c then None
        else
          let val = atoi_digits (argv ! 1)
          in case dict_addvendor d (argv ! 0) val of
               None \<Rightarrow> None
             | Some d \<Rightarrow>
                 let format = (if length argv = 3 then Some (argv ! 2)
                               else if val = 429 then Some ''format=4,0''
                               else if val = 4846 then Some ''format=2,1''
                               else if val = 8164 then Some ''format=2,2''
                               else None)
                 in case format of
                      None \<Rightarrow> Some d
                    | Some f \<Rightarrow> process_vendor_format d val f)"

section \<open>The dictionary invariant\<close>

definition vendor_ok :: "dict_vendor \<Rightarrow> bool" where
  "vendor_ok dv \<longleftrightarrow> dv_type dv \<in> {1, 2, 4} \<and> dv_length dv \<in> {0, 1, 2}"

definition attr_ok :: "dict_attr \<Rightarrow> bool" where
  "attr_ok da \<longleftrightarrow>
     (da_vendor da \<noteq> 0 \<longrightarrow> (is_tlv (da_flags da) \<or> has_tlv (da_flags da) \<longrightarrow>
        encrypt (da_flags da) = FLAG_ENCRYPT_NONE \<and> \<not> has_tag (da_flags da)))"

text \<open>A table all of whose entries satisfy a property of key and entry.\<close>

definition table_all :: "('k \<Rightarrow> 'v \<Rightarrow> bool) \<Rightarrow> ('k \<rightharpoonup> 'v) \<Rightarrow> bool" where
  "table_all P m \<longleftrightarrow> (\<forall>k v. m k = Some v \<longrightarrow> P k v)"

lemma table_all_empty [simp]: "table_all P Map.empty"
  by (simp add: table_all_def)

lemma table_all_upd: "table_all P m \<Longrightarrow> P k v \<Longrightarrow> table_all P (m(k \<mapsto> v))"
  by (simp add: table_all_def)

lemma table_all_del: "table_all P m \<Longrightarrow> table_all P (m(k := None))"
  by (simp add: table_all_def)

lemma table_all_map:
  "table_all P m \<Longrightarrow> (\<And>k v. P k v \<Longrightarrow> P k (f v)) \<Longrightarrow> table_all P (map_option f \<circ> m)"
  by (auto simp: table_all_def)

lemma table_allD: "table_all P m \<Longrightarrow> m k = Some v \<Longrightarrow> P k v"
  by (simp add: table_all_def)

definition dict_ok :: "dictionary \<Rightarrow> bool" where
  "dict_ok d \<longleftrightarrow>
     table_all (\<lambda>k dv. vendor_ok dv \<and> dv_vendorpec dv = k) (vendors_byvalue d) \<and>
     table_all (\<lambda>k da. attr_ok da \<and> k = (da_vendor da, da_attr da)) (attributes_byvalue d) \<and>
     table_all (\<lambda>_ da. attr_ok da) (attributes_byname d) \<and>
     table_all (\<lambda>k da. attr_ok da \<and> da_vendor da = 0 \<and> da_attr da = k) (dict_base_attrs d)"

lemma dict_ok_free: "dict_ok (dict_free d)"
  by (simp add: dict_ok_def dict_free_def)

lemma dict_ok_vendor_upd:
  "dict_ok d \<Longrightarrow> vendor_ok dv \<Longrightarrow> dv_vendorpec dv = k \<Longrightarrow>
   dict_ok (d\<lparr>vendors_byvalue := (vendors_byvalue d)(k \<mapsto> dv)\<rparr>)"
  by (simp add: dict_ok_def table_all_upd)

lemma dict_ok_other [simp]:
  "dict_ok (d\<lparr>vendors_byname := n\<rparr>) = dict_ok d" "dict_ok (d\<lparr>value_fixup := f\<rparr>) = dict_ok d"
  "dict_ok (d\<lparr>values_byname := vn\<rparr>) = dict_ok d" "dict_ok (d\<lparr>values_byvalue := vv\<rparr>) = dict_ok d"
  "dict_ok (d\<lparr>max_attr := m\<rparr>) = dict_ok d"
  by (simp_all add: dict_ok_def)

lemma dict_addvendor_ok: "dict_ok d \<Longrightarrow> dict_addvendor d nm val = Some d' \<Longrightarrow> dict_ok d'"
  unfolding dict_addvendor_def Let_def dict_ok_def
  by (auto split: if_split_asm option.split_asm intro!: table_all_upd simp: vendor_ok_def)

lemma process_vendor_format_ok:
  assumes "dict_ok d" and "process_vendor_format d val f = Some d'"
  shows "dict_ok d'"
proof -
  obtain dv ty len cont where dv: "vendors_byvalue d (word_of_nat val) = Some dv" "ty \<in> {1, 2, 4}" "len \<in> {0, 1, 2}"
    "d' = d\<lparr>vendors_byvalue := (vendors_byvalue d)(word_of_nat val \<mapsto> dv\<lparr>dv_type := ty, dv_length := len, dv_flags := cont\<rparr>)\<rparr>"
    using assms(2) unfolding process_vendor_format_def dict_vendorbyvalue_def
    by (simp split: if_split_asm option.split_asm prod.split_asm) blast
  then have "dv_vendorpec dv = word_of_nat val" using assms(1) by (auto simp: dict_ok_def dest: table_allD)
  with dv assms(1) show ?thesis by (simp add: dict_ok_vendor_upd vendor_ok_def)
qed

lemma process_vendor_cases:
  assumes "process_vendor d argv = Some d'"
  obtains (plain) "dict_addvendor d (argv ! 0) (atoi_digits (argv ! 1)) = Some d'"
  | (format) d1 f where "dict_addvendor d (argv ! 0) (atoi_digits (argv ! 1)) = Some d1"
      "process_vendor_format d1 (atoi_digits (argv ! 1)) f = Some d'"
  using assms unfolding process_vendor_def Let_def by (simp split: if_split_asm option.split_asm list.split_asm)

lemma process_vendor_ok: "dict_ok d \<Longrightarrow> process_vendor d argv = Some d' \<Longrightarrow> dict_ok d'"
  by (erule process_vendor_cases) (auto intro: dict_addvendor_ok process_vendor_format_ok)

lemma attr_ok_mark [simp]:
  "attr_ok (da\<lparr>da_flags := (da_flags da)\<lparr>has_value := b\<rparr>\<rparr>) = attr_ok da"
  by (simp add: attr_ok_def)

lemma mark_has_value_ok:
  assumes "dict_ok d"
  shows "dict_ok (mark_has_value d dattr)"
proof -
  let ?f = "\<lambda>da. if da = dattr then da\<lparr>da_flags := (da_flags da)\<lparr>has_value := True\<rparr>\<rparr> else da"
  have "attr_ok (?f da) = attr_ok da" "da_vendor (?f da) = da_vendor da" "da_attr (?f da) = da_attr da" for da
    by auto
  then show ?thesis
    using assms unfolding mark_has_value_def dict_ok_def Let_def
    by (simp add: table_all_map del: if_split)
qed

lemma dict_addvalue_ok:
  assumes "dict_ok d" and "dict_addvalue d nm attrstr val = Some d'"
  shows "dict_ok d'"
  using assms mark_has_value_ok [OF assms(1)] unfolding dict_addvalue_def Let_def
  by (auto split: if_split_asm option.split_asm)

lemma dict_store_attr_ok: "dict_ok d \<Longrightarrow> attr_ok attr \<Longrightarrow> dict_ok (dict_store_attr d attr)"
  by (simp add: dict_ok_def dict_store_attr_def table_all_upd)

lemma dict_ok_del:
  "dict_ok d \<Longrightarrow> dict_ok (d\<lparr>attributes_byvalue := (attributes_byvalue d)(k := None)\<rparr>)"
  by (simp add: dict_ok_def table_all_del)

text \<open>What a successful \<open>dict_addattr\<close> of a fresh number has checked and done.\<close>

lemma dict_addattr_cases:
  assumes "dict_addattr d nm vnd ty val fl = Some d'"
  obtains (exists) "val = -1" "d' = d"
  | (stored) attr d1 d2 v where "d1 = d \<or> (\<exists>m. d1 = d\<lparr>max_attr := m\<rparr>)" "val \<noteq> -1 \<Longrightarrow> v = val"
      "0 \<le> v" "v < 65536" "length nm < 128"
      "vnd \<noteq> 0 \<Longrightarrow> vendor_attr_ok d1 vnd v fl"
      "attr = \<lparr>da_name = nm, da_attr = word_of_int v OR push_bit 16 (word_of_nat vnd :: u32), da_type = ty,
        da_vendor = word_of_nat vnd, da_flags = fl\<rparr>"
      "d2 = d1 \<or> (\<exists>k. d2 = d1\<lparr>attributes_byvalue := (attributes_byvalue d1)(k := None)\<rparr>)"
      "d' = dict_store_attr d2 attr"
proof (cases "val = -1 \<and> dict_attrbyname d nm \<noteq> None")
  case True
  then show ?thesis using assms exists by (auto simp: dict_addattr_def split: if_split_asm)
next
  case False
  define d1 where "d1 = (if val = -1 then d\<lparr>max_attr := max_attr d + 1\<rparr>
      else if vnd = 0 \<and> max_attr d < val then d\<lparr>max_attr := val\<rparr> else d)"
  define v where "v = (if val = -1 then max_attr d + 1 else val)"
  define attr where "attr = \<lparr>da_name = nm, da_attr = word_of_int v OR push_bit 16 (word_of_nat vnd :: u32), da_type = ty,
      da_vendor = word_of_nat vnd, da_flags = fl\<rparr>"
  have pair: "(if val = -1 then (d\<lparr>max_attr := max_attr d + 1\<rparr>, max_attr d + 1)
      else if vnd = 0 \<and> max_attr d < val then (d\<lparr>max_attr := val\<rparr>, val) else (d, val)) = (d1, v)"
    by (simp add: d1_def v_def)
  from assms have *: "(if v < 0 then None else if 65536 \<le> v then None
      else if vnd \<noteq> 0 \<and> \<not> vendor_attr_ok d1 vnd v fl then None
      else case attributes_byname d1 (dict_key nm) of None \<Rightarrow> Some (dict_store_attr d1 attr)
        | Some a \<Rightarrow> if da_attr a \<noteq> da_attr attr then None
            else Some (dict_store_attr (d1\<lparr>attributes_byvalue := (attributes_byvalue d1)((da_vendor a, da_attr a) := None)\<rparr>) attr))
      = Some d'" and len: "length nm < 128"
    using False unfolding dict_addattr_def pair Let_def prod.case attr_def by (simp_all split: if_split_asm)
  have d1: "d1 = d \<or> (\<exists>m. d1 = d\<lparr>max_attr := m\<rparr>)" by (auto simp: d1_def)
  have v: "val \<noteq> -1 \<Longrightarrow> v = val" by (simp add: v_def)
  from * have rng: "0 \<le> v" "v < 65536" and guard: "vnd \<noteq> 0 \<Longrightarrow> vendor_attr_ok d1 vnd v fl"
    by (auto split: if_split_asm)
  from * obtain d2 where d2: "d2 = d1 \<or> (\<exists>k. d2 = d1\<lparr>attributes_byvalue := (attributes_byvalue d1)(k := None)\<rparr>)"
      and d': "d' = dict_store_attr d2 attr"
    by (auto split: if_split_asm option.split_asm)
  show ?thesis by (rule stored [OF d1 v rng len guard attr_def d2 d'])
qed

lemma dict_addattr_ok:
  assumes "dict_ok d" and "dict_addattr d nm vnd ty val fl = Some d'"
  shows "dict_ok d'"
  using assms(2)
proof (cases rule: dict_addattr_cases)
  case exists
  with assms(1) show ?thesis by simp
next
  case (stored attr d1 d2 v)
  from stored(1) assms(1) have "dict_ok d1" by auto
  with stored(8) have "dict_ok d2" by (auto simp: dict_ok_del)
  moreover have "attr_ok attr"
    by (cases "vnd = 0") (use stored(6) in \<open>auto simp: attr_ok_def stored(7) vendor_attr_ok_def\<close>)
  ultimately show ?thesis unfolding stored(9) by (rule dict_store_attr_ok)
qed

section \<open>Every dictionary the program can build\<close>

text \<open>The tables change only through these operations.\<close>

inductive dict_built :: "dictionary \<Rightarrow> bool" where
  built_start: "dict_built dict_start"
| built_free: "dict_built d \<Longrightarrow> dict_built (dict_free d)"
| built_vendor: "dict_built d \<Longrightarrow> dict_addvendor d nm val = Some d' \<Longrightarrow> dict_built d'"
| built_vendor_line: "dict_built d \<Longrightarrow> process_vendor d argv = Some d' \<Longrightarrow> dict_built d'"
| built_attr: "dict_built d \<Longrightarrow> dict_addattr d nm vnd ty val fl = Some d' \<Longrightarrow> dict_built d'"
| built_value: "dict_built d \<Longrightarrow> dict_addvalue d nm attrstr v = Some d' \<Longrightarrow> dict_built d'"

lemma dict_ok_start: "dict_ok dict_start"
  by (simp add: dict_ok_def dict_start_def)

lemma dict_built_ok: "dict_built d \<Longrightarrow> dict_ok d"
  by (induction rule: dict_built.induct)
    (auto intro: dict_ok_start dict_ok_free dict_addvendor_ok process_vendor_ok dict_addattr_ok dict_addvalue_ok)

text \<open>C26: In every dictionary that can be built by adding vendors, \<^verbatim>\<open>VENDOR\<close> lines, attributes and values and by
  freeing it, a number looked up gives an entry of that number (for attributes of a known vendor, with that vendor), vendor formats have only
  the type and length sizes the packet code handles, and no TLV of a vendor is encrypted or tagged.\<close>

theorem dict_built_lookup:
  assumes "dict_built d"
  shows "(dict_vendorbyvalue d v = Some dv \<longrightarrow>
      dv_vendorpec dv = v \<and> dv_type dv \<in> {1, 2, 4} \<and> dv_length dv \<in> {0, 1, 2}) \<and>
    (dict_attrbyvalue d a = Some da \<longrightarrow> da_attr da = a \<and> (a < 256 \<or> da_vendor da = VENDOR a) \<and>
      (da_vendor da \<noteq> 0 \<and> (is_tlv (da_flags da) \<or> has_tlv (da_flags da)) \<longrightarrow>
        encrypt (da_flags da) = FLAG_ENCRYPT_NONE \<and> \<not> has_tag (da_flags da)))"
proof (intro conjI impI)
  note ok = dict_built_ok [OF assms, unfolded dict_ok_def]
  show "dv_vendorpec dv = v" "dv_type dv \<in> {1, 2, 4}" "dv_length dv \<in> {0, 1, 2}" if "dict_vendorbyvalue d v = Some dv"
    using ok that by (auto simp: dict_vendorbyvalue_def vendor_ok_def dest: table_allD)
  assume "dict_attrbyvalue d a = Some da"
  then have *: "attr_ok da \<and> da_attr da = a \<and> (a < 256 \<or> da_vendor da = VENDOR a)"
    using ok by (auto simp: dict_attrbyvalue_def dest: table_allD split: if_split_asm)
  then show "da_attr da = a" "a < 256 \<or> da_vendor da = VENDOR a" by blast+
  assume "da_vendor da \<noteq> 0 \<and> (is_tlv (da_flags da) \<or> has_tlv (da_flags da))"
  then show "encrypt (da_flags da) = FLAG_ENCRYPT_NONE" "\<not> has_tag (da_flags da)"
    using * by (auto simp: attr_ok_def)
qed

definition sample_vendors :: dictionary where
  "sample_vendors = the (process_vendor dict_start [''USR'', ''429'', ''format=4,0''])"

theorem dict_built_lookup_witness:
  "\<exists>dv. dict_vendorbyvalue sample_vendors 429 = Some dv \<and> dv_vendorpec dv = 429 \<and> dv_type dv \<in> {1, 2, 4}"
proof -
  have "map_option (\<lambda>d. dict_vendorbyvalue d 429 \<noteq> None) (process_vendor dict_start [''USR'', ''429'', ''format=4,0'']) = Some True"
    by (simp add: process_vendor_def process_vendor_format_def isdigit_def digit_val_def atoi_digits_def dict_addvendor_def dict_vendorbyname_def
        dict_vendorbyvalue_def parse_vendor_format_def dict_key_def tolower_def dict_start_def Let_def)
  then obtain dv where dv: "dict_built sample_vendors" "dict_vendorbyvalue sample_vendors 429 = Some dv"
    using built_vendor_line [OF built_start] by (fastforce simp: sample_vendors_def)
  with dict_built_lookup [OF dv(1), of 429] show ?thesis by auto
qed

section \<open>Lookups after an insertion\<close>

lemma da_attr_vendor:
  assumes "0 \<le> v" and "v < 65536" and "vnd < 65536"
  shows "VENDOR (word_of_int v OR push_bit 16 (word_of_nat vnd :: u32)) = word_of_nat vnd"
proof -
  have v: "unat (word_of_int v :: u32) < 2 ^ 16"
    using assms(1,2) by (simp add: unsigned_of_int take_bit_int_eq_self)
  have n: "unat (word_of_nat vnd :: u32) < 2 ^ 16" using assms(3) by (simp add: unsigned_of_nat take_bit_nat_eq_self)
  have h: "(0xffff :: u32) = mask 16" by (simp add: mask_eq_exp_minus_1)
  have "bit (word_of_nat vnd :: u32) i \<Longrightarrow> i < 16" for i using bit_small [OF n, of i] by force
  then show ?thesis
    by (intro bit_eqI) (use bit_small [OF v] in \<open>auto simp: VENDOR_def h bit_simps\<close>)
qed

text \<open>With tables that are maps, an attribute definition that \<open>dict_addattr\<close> accepts with an explicit number is found afterwards under its name, in
  any case, and under its number, with the type, vendor and flags it was given; earlier definitions of the name or number
  are shadowed.\<close>

theorem dict_addattr_lookup:
  assumes "dict_addattr d nm vnd ty val fl = Some d'" and "val \<noteq> -1" and "vnd < 65536" and "dict_key nm' = dict_key nm"
  shows "\<exists>da. dict_attrbyname d' nm' = Some da \<and> dict_attrbyvalue d' (da_attr da) = Some da \<and>
    da_attr da = word_of_int val OR push_bit 16 (word_of_nat vnd) \<and> da_name da = nm \<and> da_type da = ty \<and>
    da_vendor da = word_of_nat vnd \<and> da_flags da = fl"
  using assms(1)
proof (cases rule: dict_addattr_cases)
  case exists
  with assms(2) show ?thesis by simp
next
  case (stored attr d1 d2 v)
  have v: "v = val" using stored(2) assms(2) by blast
  have vendor: "VENDOR (da_attr attr) = da_vendor attr"
    using da_attr_vendor [OF stored(3,4) assms(3)] by (simp add: stored(7))
  have small: "da_vendor attr = 0" if "da_attr attr < 256"
  proof -
    have "unat (VENDOR (da_attr attr)) = 0"
      using that unfolding VENDOR_def unat_mask16 unat_drop16 word_less_nat_alt by simp
    with vendor show ?thesis by (simp add: unat_eq_0)
  qed
  show ?thesis
  proof (intro exI conjI)
    show "dict_attrbyname d' nm' = Some attr"
    proof -
      have "length nm' = length nm" using arg_cong [OF assms(4), of length] by (simp add: dict_key_def)
      then show ?thesis
        using assms(4) stored(5) by (simp add: dict_attrbyname_def stored(9) dict_store_attr_def stored(7))
    qed
    show "dict_attrbyvalue d' (da_attr attr) = Some attr"
      using small by (auto simp: dict_attrbyvalue_def stored(9) dict_store_attr_def vendor)
  qed (simp_all add: stored(7) v)
qed

theorem dict_addattr_lookup_witness:
  "\<exists>da. dict_attrbyname (the (dict_addattr dict_start ''User-Name'' 0 PW_TYPE_STRING 1 flags0)) ''user-name'' = Some da \<and>
    da_attr da = 1 \<and> da_type da = PW_TYPE_STRING"
proof -
  have "dict_addattr dict_start ''User-Name'' 0 PW_TYPE_STRING 1 flags0 \<noteq> None"
    by (simp add: dict_addattr_def dict_start_def)
  then obtain d' where d': "dict_addattr dict_start ''User-Name'' 0 PW_TYPE_STRING 1 flags0 = Some d'" by auto
  have "dict_key ''user-name'' = dict_key ''User-Name''" by (simp add: dict_key_def tolower_def char_of_def bit_0)
  from dict_addattr_lookup [OF d' _ _ this] d' show ?thesis by auto
qed

end
