(* ===== verification/Value_Pair.thy ===== *)
theory Value_Pair
  imports Dictionary "HOL-Library.Multiset"
begin

text \<open>
  The attribute-value pairs of \<^verbatim>\<open>src/lib/valuepair-lib.cpp\<close>: the record \<open>value_pair\<close> is the C struct,
  a linked list of pairs is an Isabelle list. The data union is the 254-octet buffer
  \<open>vp_octets\<close> plus the separately allocated \<open>vp_tlv\<close>; the pointer bytes that a TLV
  pair stores in the union are not modelled, and neither is memory exhaustion. The operations are
  \<open>pairalloc\<close>, \<open>paircreate\<close>, \<open>pairfind\<close>, \<open>pairdelete\<close>, \<open>pairadd\<close>,
  \<open>pairreplace\<close>, \<open>paircopy\<close>, \<open>pairmove\<close>, \<open>pairmove2\<close> and the sort \<open>rad_sortvp\<close>
  of \<^verbatim>\<open>radius.cpp\<close>. Shown: each list operation is the expected function of lists (filter, append, first
  replacement), a merge by \<open>pairmove\<close> follows the operators of the moved pairs, and the bubble
  sort terminates with the stable sort.
\<close>

section \<open>Data\<close>

datatype fr_token =
    T_OP_INVALID | T_EOL | T_LCBRACE | T_RCBRACE | T_LBRACE | T_RBRACE | T_COMMA | T_SEMICOLON
  | T_OP_ADD | T_OP_SUB | T_OP_SET | T_OP_EQ | T_OP_NE | T_OP_GE | T_OP_GT | T_OP_LE | T_OP_LT
  | T_OP_REG_EQ | T_OP_REG_NE | T_OP_CMP_TRUE | T_OP_CMP_FALSE | T_OP_CMP_EQ | T_HASH
  | T_BARE_WORD | T_DOUBLE_QUOTED_STRING | T_SINGLE_QUOTED_STRING | T_BACK_QUOTED_STRING

record value_pair =
  vp_name :: string
  vp_attribute :: u32
  vp_vendor :: u32
  vp_type :: pw_type
  vp_length :: nat
  vp_op :: fr_token
  vp_flags :: attr_flags
  vp_lvalue :: u32
  vp_octets :: "byte list"
  vp_tlv :: "byte list option"

definition MAX_STRING_LEN :: nat where "MAX_STRING_LEN = 254"

definition PW_USER_PASSWORD :: u32 where "PW_USER_PASSWORD = 2"
definition PW_FRAMED_ROUTE :: u32 where "PW_FRAMED_ROUTE = 22"
definition PW_VENDOR_SPECIFIC :: u32 where "PW_VENDOR_SPECIFIC = 26"
definition PW_FALL_THROUGH :: u32 where "PW_FALL_THROUGH = 500"
definition PW_CRYPT_PASSWORD :: u32 where "PW_CRYPT_PASSWORD = 1006"
definition PW_HINT :: u32 where "PW_HINT = 1040"

lemmas pw_attrs = PW_USER_PASSWORD_def PW_FRAMED_ROUTE_def PW_VENDOR_SPECIFIC_def
  PW_FALL_THROUGH_def PW_CRYPT_PASSWORD_def PW_HINT_def

section \<open>Allocation\<close>

text \<open>The fixed lengths that \<open>pairalloc\<close> gives to a new pair.\<close>

definition pairalloc_length :: "pw_type \<Rightarrow> nat" where
  "pairalloc_length ty =
     (case ty of
        PW_TYPE_BYTE \<Rightarrow> 1
      | PW_TYPE_SHORT \<Rightarrow> 2
      | PW_TYPE_INTEGER \<Rightarrow> 4 | PW_TYPE_IPADDR \<Rightarrow> 4 | PW_TYPE_DATE \<Rightarrow> 4 | PW_TYPE_SIGNED \<Rightarrow> 4
      | PW_TYPE_IFID \<Rightarrow> 8
      | PW_TYPE_IPV6ADDR \<Rightarrow> 16
      | PW_TYPE_IPV6PREFIX \<Rightarrow> 18
      | PW_TYPE_ETHERNET \<Rightarrow> 6
      | _ \<Rightarrow> 0)"

definition pairalloc :: "dict_attr option \<Rightarrow> value_pair" where
  "pairalloc da =
     (case da of
        Some da \<Rightarrow>
          \<lparr>vp_name = da_name da, vp_attribute = da_attr da, vp_vendor = da_vendor da, vp_type = da_type da,
           vp_length = pairalloc_length (da_type da), vp_op = T_OP_INVALID, vp_flags = da_flags da,
           vp_lvalue = 0, vp_octets = zeros MAX_STRING_LEN, vp_tlv = None\<rparr>
      | None \<Rightarrow>
          \<lparr>vp_name = [], vp_attribute = 0, vp_vendor = 0, vp_type = PW_TYPE_OCTETS,
           vp_length = pairalloc_length PW_TYPE_OCTETS, vp_op = T_OP_INVALID, vp_flags = flags0\<lparr>unknown_attr := True\<rparr>,
           vp_lvalue = 0, vp_octets = zeros MAX_STRING_LEN, vp_tlv = None\<rparr>)"

text \<open>The conversion \<^verbatim>\<open>%u\<close>.\<close>

fun print_u :: "nat \<Rightarrow> string" where
  "print_u n = (if n < 10 then [char_of (48 + n)] else print_u (n div 10) @ [char_of (48 + n mod 10)])"

declare print_u.simps [simp del]

text \<open>\<open>vp_print_name\<close> of \<^verbatim>\<open>src/lib/print.cpp\<close>. \<^verbatim>\<open>snprintf\<close> writes at most one octet less
  than the buffer holds, so the tests \<^verbatim>\<open>len == bufsize\<close> never succeed for a non-empty buffer.\<close>

definition vp_print_name :: "dictionary \<Rightarrow> nat \<Rightarrow> u32 \<Rightarrow> string" where
  "vp_print_name d bufsize attr =
     (let vendor = VENDOR attr;
          pre = (if vendor = 0 then []
                 else take (bufsize - 1)
                   (case dict_vendorbyvalue d vendor of
                      Some v \<Rightarrow> dv_name v @ ''-''
                    | None \<Rightarrow> ''Vendor-'' @ print_u (unat vendor) @ ''-''));
          len = length pre
      in pre @ take (bufsize - len - 1) (''Attr-'' @ print_u (unat (attr AND 0xffff))))"

definition FR_VP_NAME_LEN :: nat where "FR_VP_NAME_LEN = 24"

definition paircreate_raw :: "dictionary \<Rightarrow> u32 \<Rightarrow> pw_type \<Rightarrow> value_pair \<Rightarrow> value_pair option" where
  "paircreate_raw d attr ty vp =
     (if \<not> unknown_attr (vp_flags vp) then None
      else Some (vp\<lparr>vp_vendor := VENDOR attr, vp_attribute := attr, vp_op := T_OP_EQ,
                    vp_name := vp_print_name d FR_VP_NAME_LEN attr, vp_type := ty, vp_length := 0,
                    vp_flags := flags0\<lparr>unknown_attr := True\<rparr>\<rparr>))"

definition paircreate :: "dictionary \<Rightarrow> u32 \<Rightarrow> pw_type \<Rightarrow> value_pair option" where
  "paircreate d attr ty =
     (let da = dict_attrbyvalue d attr;
          vp = (pairalloc da)\<lparr>vp_op := T_OP_EQ\<rparr>
      in if da = None then paircreate_raw d attr ty vp else Some vp)"

section \<open>Lists of pairs\<close>

fun pairfind :: "value_pair list \<Rightarrow> u32 \<Rightarrow> value_pair option" where
  "pairfind [] attr = None"
| "pairfind (vp # first) attr = (if vp_attribute vp \<noteq> attr then pairfind first attr else Some vp)"

fun pairdelete :: "value_pair list \<Rightarrow> u32 \<Rightarrow> value_pair list" where
  "pairdelete [] attr = []"
| "pairdelete (i # nxt) attr = (if vp_attribute i = attr then pairdelete nxt attr else i # pairdelete nxt attr)"

text \<open>The argument \<open>add\<close> is a list: the code links whatever follows the pair too.\<close>

fun pairadd :: "value_pair list \<Rightarrow> value_pair list \<Rightarrow> value_pair list" where
  "pairadd [] add = add"
| "pairadd (i # first) add = i # pairadd first add"

text \<open>\<open>replace\<close> is one pair; at the end of the list the code keeps its \<^verbatim>\<open>next\<close>, which callers leave
  \<^verbatim>\<open>NULL\<close>.\<close>

fun pairreplace :: "value_pair list \<Rightarrow> value_pair \<Rightarrow> value_pair list" where
  "pairreplace [] replace = [replace]"
| "pairreplace (i # nxt) replace =
     (if vp_attribute i = vp_attribute replace then replace # nxt else i # pairreplace nxt replace)"

text \<open>A TLV is copied with its own buffer of \<^verbatim>\<open>length\<close> octets.\<close>

definition paircopyvp :: "value_pair \<Rightarrow> value_pair" where
  "paircopyvp vp =
     (case vp_tlv vp of
        Some t \<Rightarrow> if vp_type vp = PW_TYPE_TLV then vp\<lparr>vp_tlv := Some (take (vp_length vp) t)\<rparr> else vp
      | None \<Rightarrow> vp)"

fun paircopy2 :: "value_pair list \<Rightarrow> u32 \<Rightarrow> value_pair list" where
  "paircopy2 [] attr = []"
| "paircopy2 (vp # vps) attr =
     (if 0 \<le> sint attr \<and> vp_attribute vp \<noteq> attr then paircopy2 vps attr
      else paircopyvp vp # paircopy2 vps attr)"

definition paircopy :: "value_pair list \<Rightarrow> value_pair list" where
  "paircopy vp = paircopy2 vp (-1)"

subsection \<open>\<open>pairmove\<close>\<close>

definition is_password :: "value_pair \<Rightarrow> bool" where
  "is_password i \<longleftrightarrow> vp_attribute i = PW_USER_PASSWORD \<or> vp_attribute i = PW_CRYPT_PASSWORD"

definition is_comparison :: "fr_token \<Rightarrow> bool" where
  "is_comparison op \<longleftrightarrow> op \<in> {T_OP_NE, T_OP_GE, T_OP_GT, T_OP_LE, T_OP_LT, T_OP_CMP_TRUE, T_OP_CMP_FALSE, T_OP_CMP_EQ}"

definition vp_strvalue :: "value_pair \<Rightarrow> byte list" where
  "vp_strvalue vp = takeWhile (\<lambda>b. b \<noteq> 0) (vp_octets vp)"

text \<open>\<open>memcpy(found, i, sizeof *found)\<close> over the first pair with the attribute, and
  \<open>pairdelete\<close> of the others behind it.\<close>

fun pair_overwrite :: "value_pair list \<Rightarrow> value_pair \<Rightarrow> value_pair list" where
  "pair_overwrite [] i = []"
| "pair_overwrite (vp # vps) i =
     (if vp_attribute vp = vp_attribute i then i # pairdelete vps (vp_attribute i) else vp # pair_overwrite vps i)"

text \<open>
  What happens to one pair of the \<^verbatim>\<open>from\<close> list: it stays, it is moved to the end of
  \<^verbatim>\<open>to\<close>, or it has overwritten its match in \<^verbatim>\<open>to\<close> while still linked in \<^verbatim>\<open>from\<close>.
\<close>

datatype move = Stay | Move | Overwritten

definition pairmove1 :: "bool \<Rightarrow> value_pair list \<Rightarrow> value_pair \<Rightarrow> value_pair list \<times> move" where
  "pairmove1 has_password dst i =
     (if has_password \<and> is_password i then (dst, Stay)
      else if is_comparison (vp_op i) then (dst, Stay)
      else if vp_attribute i = PW_FALL_THROUGH \<or> (vp_attribute i \<noteq> PW_HINT \<and> vp_attribute i \<noteq> PW_FRAMED_ROUTE) then
        (let found = pairfind dst (vp_attribute i)
         in case vp_op i of
              T_OP_SUB \<Rightarrow>
                (case found of
                   Some f \<Rightarrow>
                     if vp_strvalue i = [] \<or> vp_strvalue f = vp_strvalue i
                     then (pairdelete dst (vp_attribute f), Stay) else (dst, Stay)
                 | None \<Rightarrow> (dst, Stay))
            | T_OP_EQ \<Rightarrow> if found \<noteq> None then (dst, Stay) else (dst @ [i], Move)
            | T_OP_SET \<Rightarrow> if found \<noteq> None then (pair_overwrite dst i, Overwritten) else (dst @ [i], Move)
            | _ \<Rightarrow> (dst @ [i], Move))
      else (dst @ [i], Move))"

text \<open>
  The loop. \<open>kept\<close> is the part of \<^verbatim>\<open>from\<close> up to \<^verbatim>\<open>tailfrom\<close>; \<open>pend\<close> are the pairs
  between it and the current one, which stay linked unless a later pair is moved, when
  \<^verbatim>\<open>tailfrom->next = next\<close> unlinks them with it.
\<close>

fun pairmove_loop ::
    "bool \<Rightarrow> value_pair list \<Rightarrow> value_pair list \<Rightarrow> value_pair list \<Rightarrow> value_pair list \<Rightarrow> value_pair list \<times> value_pair list" where
  "pairmove_loop pw dst kept pend [] = (dst, kept @ pend)"
| "pairmove_loop pw dst kept pend (i # nxt) =
     (case pairmove1 pw dst i of
        (dst', Stay) \<Rightarrow> pairmove_loop pw dst' (kept @ pend @ [i]) [] nxt
      | (dst', Move) \<Rightarrow> pairmove_loop pw dst' kept [] nxt
      | (dst', Overwritten) \<Rightarrow> pairmove_loop pw dst' kept (pend @ [i]) nxt)"

definition pairmove :: "value_pair list \<Rightarrow> value_pair list \<Rightarrow> value_pair list \<times> value_pair list" where
  "pairmove dst src = pairmove_loop (list_ex is_password dst) dst [] [] src"

fun pairmove2 :: "value_pair list \<Rightarrow> value_pair list \<Rightarrow> u32 \<Rightarrow> value_pair list \<times> value_pair list" where
  "pairmove2 dst [] attr = (dst, [])"
| "pairmove2 dst (i # nxt) attr =
     (if attr \<noteq> PW_VENDOR_SPECIFIC \<and> vp_attribute i \<noteq> attr
         \<or> attr = PW_VENDOR_SPECIFIC \<and> VENDOR (vp_attribute i) = 0
      then (let (dst', src') = pairmove2 dst nxt attr in (dst', i # src'))
      else pairmove2 (dst @ [i]) nxt attr)"

section \<open>Sorting\<close>

text \<open>One pass of \<open>rad_sortvp\<close>. After a swap the walk goes on behind the pair moved back.\<close>

fun sortvp_pass :: "value_pair list \<Rightarrow> value_pair list \<times> bool" where
  "sortvp_pass (vp # nxt # rest) =
     (if sint (vp_attribute vp) > sint (vp_attribute nxt)
      then (nxt # vp # fst (sortvp_pass rest), True)
      else (let (r, swapped) = sortvp_pass (nxt # rest) in (vp # r, swapped)))"
| "sortvp_pass vps = (vps, False)"

text \<open>The number of inversions, which every swap decreases.\<close>

fun inversions :: "value_pair list \<Rightarrow> nat" where
  "inversions [] = 0"
| "inversions (vp # vps) =
     length (filter (\<lambda>v. sint (vp_attribute v) < sint (vp_attribute vp)) vps) + inversions vps"

lemma sortvp_pass_mset: "mset (fst (sortvp_pass vps)) = mset vps"
  by (induction vps rule: sortvp_pass.induct) (auto simp: case_prod_unfold Let_def)

lemma length_filter_mset: "mset xs = mset ys \<Longrightarrow> length (filter P xs) = length (filter P ys)"
  by (metis mset_filter size_mset)

lemma sortvp_pass_inversions:
  "inversions (fst (sortvp_pass vps)) \<le> inversions vps \<and>
   (snd (sortvp_pass vps) \<longrightarrow> inversions (fst (sortvp_pass vps)) < inversions vps)"
proof (induction vps rule: sortvp_pass.induct)
  case (1 vp nxt rest)
  have len: "length (filter P (fst (sortvp_pass vs))) = length (filter P vs)" for P vs
    by (rule length_filter_mset) (rule sortvp_pass_mset)
  show ?case
    using 1 len [of _ rest] len [of _ "nxt # rest"]
    by (auto simp: case_prod_unfold Let_def simp del: sortvp_pass.simps(1) simp: sortvp_pass.simps(1) [of vp nxt rest])
qed simp_all

function rad_sortvp :: "value_pair list \<Rightarrow> value_pair list" where
  "rad_sortvp head = (let (vps, swapped) = sortvp_pass head in if swapped then rad_sortvp vps else vps)"
  by pat_completeness auto

termination
  by (relation "measure inversions") (use sortvp_pass_inversions in \<open>auto simp: prod_eq_iff\<close>)

declare rad_sortvp.simps [simp del]

section \<open>The list operations as functions of lists\<close>

lemma pairdelete_filter: "pairdelete vps a = filter (\<lambda>v. vp_attribute v \<noteq> a) vps"
  by (induction vps) auto

lemma pairadd_append: "pairadd vps add = vps @ add"
  by (induction vps) auto

lemma pairfind_find: "pairfind vps a = find (\<lambda>v. vp_attribute v = a) vps"
  by (induction vps) auto

lemma pairfind_None_iff: "pairfind vps a = None \<longleftrightarrow> a \<notin> vp_attribute ` set vps"
  by (induction vps) auto

lemma pairfind_SomeD: "pairfind vps a = Some v \<Longrightarrow> v \<in> set vps \<and> vp_attribute v = a"
  by (induction vps) (auto split: if_splits)

lemma pairfind_append:
  "pairfind (xs @ ys) a = (case pairfind xs a of Some v \<Rightarrow> Some v | None \<Rightarrow> pairfind ys a)"
  by (induction xs) auto

lemma pairfind_pairdelete: "pairfind (pairdelete vps a) b = (if a = b then None else pairfind vps b)"
  by (induction vps) auto

lemma pairfind_pairreplace:
  "pairfind (pairreplace vps r) b = (if b = vp_attribute r then Some r else pairfind vps b)"
  by (induction vps) auto

lemma paircopyvp_attr [simp]: "vp_attribute (paircopyvp vp) = vp_attribute vp"
  by (simp add: paircopyvp_def split: option.split)

lemma paircopy2_filter:
  "paircopy2 vps a = map paircopyvp (filter (\<lambda>v. sint a < 0 \<or> vp_attribute v = a) vps)"
  by (induction vps) auto

lemma paircopy_map: "paircopy vps = map paircopyvp vps"
  by (simp add: paircopy_def paircopy2_filter)

section \<open>\<open>pairmove\<close> attribute by attribute\<close>

definition pairs_of :: "u32 \<Rightarrow> value_pair list \<Rightarrow> value_pair list" where
  "pairs_of a vps = filter (\<lambda>v. vp_attribute v = a) vps"

text \<open>What merging the pair \<open>i\<close> does to the instances of its attribute.\<close>

definition merge_attr :: "bool \<Rightarrow> value_pair list \<Rightarrow> value_pair \<Rightarrow> value_pair list" where
  "merge_attr pw ps i =
     (if pw \<and> is_password i \<or> is_comparison (vp_op i) then ps
      else if vp_attribute i = PW_HINT \<or> vp_attribute i = PW_FRAMED_ROUTE then ps @ [i]
      else if vp_op i = T_OP_SUB then
        (if ps \<noteq> [] \<and> (vp_strvalue i = [] \<or> vp_strvalue (hd ps) = vp_strvalue i) then [] else ps)
      else if vp_op i = T_OP_EQ then (if ps = [] then [i] else ps)
      else if vp_op i = T_OP_SET then [i]
      else ps @ [i])"

lemma pairs_of_append [simp]: "pairs_of a (xs @ ys) = pairs_of a xs @ pairs_of a ys"
  by (simp add: pairs_of_def)

lemma pairs_of_Cons: "pairs_of a (x # xs) = (if vp_attribute x = a then x # pairs_of a xs else pairs_of a xs)"
  by (simp add: pairs_of_def)

lemma pairs_of_Nil [simp]: "pairs_of a [] = []"
  by (simp add: pairs_of_def)

lemma pairfind_pairs_of: "pairfind vps a = (case pairs_of a vps of [] \<Rightarrow> None | v # _ \<Rightarrow> Some v)"
  by (induction vps) (auto simp: pairs_of_Cons)

lemma pairs_of_pairdelete: "pairs_of a (pairdelete vps b) = (if a = b then [] else pairs_of a vps)"
  by (induction vps) (auto simp: pairs_of_Cons)

lemma pairs_of_pair_overwrite:
  "pairs_of a (pair_overwrite vps i) =
     (if a = vp_attribute i then (if pairs_of a vps = [] then [] else [i]) else pairs_of a vps)"
  by (induction vps) (auto simp: pairs_of_Cons pairs_of_pairdelete)

lemma pairs_of_ConsD: "pairs_of a vps = f # fs \<Longrightarrow> vp_attribute f = a"
  by (induction vps) (auto simp: pairs_of_Cons split: if_split_asm)

text \<open>The clause about Fall-Through is redundant.\<close>

lemma pairmove_exception:
  "(a = PW_FALL_THROUGH \<or> a \<noteq> PW_HINT \<and> a \<noteq> PW_FRAMED_ROUTE) = (a \<noteq> PW_HINT \<and> a \<noteq> PW_FRAMED_ROUTE)"
  by (auto simp: pw_attrs)

lemma pairmove1_merge_other:
  assumes "a \<noteq> vp_attribute i"
  shows "pairs_of a (fst (pairmove1 pw dst i)) = pairs_of a dst"
proof (cases "pairfind dst (vp_attribute i)")
  case None
  then show ?thesis using assms
    by (cases "vp_op i") (simp_all add: pairmove1_def pairs_of_Cons)
next
  case (Some f)
  from pairfind_SomeD [OF this] have "vp_attribute f = vp_attribute i" by simp
  with Some assms show ?thesis
    by (cases "vp_op i") (auto simp: pairmove1_def pairs_of_Cons pairs_of_pairdelete pairs_of_pair_overwrite)
qed

lemma pairmove1_merge_same:
  assumes "a = vp_attribute i"
  shows "pairs_of a (fst (pairmove1 pw dst i)) = merge_attr pw (pairs_of a dst) i"
proof (cases "pairs_of a dst")
  case Nil
  then show ?thesis
    unfolding pairmove1_def merge_attr_def pairmove_exception pairfind_pairs_of Let_def assms [symmetric]
    by (cases "vp_op i") (auto simp: pairs_of_Cons is_comparison_def assms)
next
  case (Cons f fs)
  from pairs_of_ConsD [OF this] have "vp_attribute f = a" .
  with Cons show ?thesis
    unfolding pairmove1_def merge_attr_def pairmove_exception pairfind_pairs_of Let_def assms [symmetric]
    by (cases "vp_op i")
       (auto simp: pairs_of_Cons is_comparison_def pairs_of_pairdelete pairs_of_pair_overwrite assms)
qed

lemma pairmove1_merge:
  "pairs_of a (fst (pairmove1 pw dst i)) =
     (if a = vp_attribute i then merge_attr pw (pairs_of a dst) i else pairs_of a dst)"
  by (simp add: pairmove1_merge_same pairmove1_merge_other)

lemma pairmove_loop_fst:
  "fst (pairmove_loop pw dst kept pend src) = foldl (\<lambda>dst i. fst (pairmove1 pw dst i)) dst src"
  by (induction pw dst kept pend src rule: pairmove_loop.induct) (auto split: prod.split move.split)

lemma foldl_pairmove1_merge:
  "pairs_of a (foldl (\<lambda>dst i. fst (pairmove1 pw dst i)) dst src) =
   foldl (merge_attr pw) (pairs_of a dst) (pairs_of a src)"
  by (induction src arbitrary: dst) (simp_all add: pairmove1_merge pairs_of_Cons)

text \<open>C21: For every attribute, what \<open>pairmove\<close> leaves in the target list is the merge of the
  attribute's own instances, in order, by the operators of the source pairs: comparison
  operators and second passwords are ignored, \<^verbatim>\<open>=\<close> adds only to an empty set, \<^verbatim>\<open>:=\<close>
  replaces all instances by one, \<^verbatim>\<open>+=\<close> appends, \<^verbatim>\<open>-=\<close> deletes when the first instance matches.
  The instances of other attributes matter in one case only: when the target list has a User-Password or a Crypt-Password at the start, pairs of
  both are left out. Fall-Through is merged as every other attribute, although the comment says it is never moved; Hint and
  Framed-Route are always appended.\<close>

theorem pairmove_refines_merge:
  "pairs_of a (fst (pairmove dst src)) =
   foldl (merge_attr (list_ex is_password dst)) (pairs_of a dst) (pairs_of a src)"
  by (simp add: pairmove_def pairmove_loop_fst foldl_pairmove1_merge)

text \<open>Fall-Through is moved.\<close>

lemma fall_through_moved: "vp_attribute i = PW_FALL_THROUGH \<Longrightarrow> vp_op i = T_OP_EQ \<Longrightarrow> fst (pairmove [] [i]) = [i]"
  by (simp add: pairmove_def pairmove1_def pw_attrs is_password_def is_comparison_def)

text \<open>When no pair deletes or overwrites, pairs are only moved: none is lost and none is copied.\<close>

lemma pairmove1_conserve:
  assumes "vp_op i \<notin> {T_OP_SUB, T_OP_SET}"
  shows "pairmove1 pw dst i = (dst, Stay) \<or> pairmove1 pw dst i = (dst @ [i], Move)"
  using assms by (cases "vp_op i") (simp_all add: pairmove1_def)

lemma pairmove_loop_conserve:
  assumes "\<forall>i\<in>set src. vp_op i \<notin> {T_OP_SUB, T_OP_SET}" and "pairmove_loop pw dst kept [] src = (dst', src')"
  shows "mset dst' + mset src' = mset dst + mset kept + mset src"
  using assms
proof (induction src arbitrary: dst kept)
  case (Cons i nxt)
  then have "vp_op i \<notin> {T_OP_SUB, T_OP_SET}" by simp
  from pairmove1_conserve [OF this, of pw dst] show ?case
    using Cons.prems Cons.IH [of dst "kept @ [i]"] Cons.IH [of "dst @ [i]" kept] by auto
qed auto

text \<open>A merge in which no pair has the operators \<^verbatim>\<open>-=\<close> or \<^verbatim>\<open>:=\<close> loses and duplicates
  nothing: target and source together hold the same pairs before and after.\<close>

theorem pairmove_conserves:
  assumes "\<forall>i\<in>set src. vp_op i \<notin> {T_OP_SUB, T_OP_SET}" and "pairmove dst src = (dst', src')"
  shows "mset dst' + mset src' = mset dst + mset src"
  using pairmove_loop_conserve [OF assms(1)] assms(2) by (auto simp: pairmove_def)

theorem pairmove_conserves_witness:
  "mset (fst (pairmove [pairalloc None] [(pairalloc None)\<lparr>vp_op := T_OP_ADD\<rparr>])) +
   mset (snd (pairmove [pairalloc None] [(pairalloc None)\<lparr>vp_op := T_OP_ADD\<rparr>])) =
   {#pairalloc None, (pairalloc None)\<lparr>vp_op := T_OP_ADD\<rparr>#}"
  using pairmove_conserves [of "[(pairalloc None)\<lparr>vp_op := T_OP_ADD\<rparr>]" "[pairalloc None]", OF _ prod.collapse [symmetric]]
  by (simp add: add_mset_commute)

section \<open>The sort is the stable sort\<close>

lemma sortvp_pass_stable:
  "filter (\<lambda>v. sint (vp_attribute v) = k) (fst (sortvp_pass vps)) = filter (\<lambda>v. sint (vp_attribute v) = k) vps"
  by (induction vps rule: sortvp_pass.induct) (auto simp: case_prod_unfold Let_def)

lemma sortvp_pass_sorted:
  "\<not> snd (sortvp_pass vps) \<Longrightarrow>
   fst (sortvp_pass vps) = vps \<and> sorted (map (\<lambda>v. sint (vp_attribute v)) vps)"
  by (induction vps rule: sortvp_pass.induct) (auto simp: case_prod_unfold Let_def split: if_split_asm)

lemma rad_sortvp_invariants:
  "mset (rad_sortvp vps) = mset vps \<and> sorted (map (\<lambda>v. sint (vp_attribute v)) (rad_sortvp vps)) \<and>
   (\<forall>k. filter (\<lambda>v. sint (vp_attribute v) = k) (rad_sortvp vps) = filter (\<lambda>v. sint (vp_attribute v) = k) vps)"
proof (induction vps rule: rad_sortvp.induct)
  case (1 vps)
  obtain vps' swapped where p: "sortvp_pass vps = (vps', swapped)" by (cases "sortvp_pass vps")
  then show ?case
    using 1 [of "(vps', swapped)" vps' swapped] sortvp_pass_mset [of vps] sortvp_pass_stable [of _ vps] sortvp_pass_sorted [of vps]
    by (cases swapped) (simp_all add: rad_sortvp.simps [of vps])
qed

text \<open>C23: \<open>rad_sortvp\<close>, a bubble sort over the links, terminates and computes the stable sort
  by attribute number: fragments of one attribute keep the order in which they arrived.\<close>

theorem rad_sortvp_stable_sort: "rad_sortvp vps = sort_key (\<lambda>v. sint (vp_attribute v)) vps"
proof (rule properties_for_sort_key [symmetric])
  show "mset (rad_sortvp vps) = mset vps" "sorted (map (\<lambda>v. sint (vp_attribute v)) (rad_sortvp vps))"
    using rad_sortvp_invariants by blast+
  show "filter (\<lambda>x. sint (vp_attribute k) = sint (vp_attribute x)) (rad_sortvp vps) =
      filter (\<lambda>x. sint (vp_attribute k) = sint (vp_attribute x)) vps" for k
    using rad_sortvp_invariants [of vps] by (simp add: eq_commute [of "sint (vp_attribute k)"])
qed

end
