(* ===== verification/Random_Pool.thy ===== *)
theory Random_Pool
  imports Radius_Prelude
begin

text \<open>
  The random pool: the ISAAC generator of \<^verbatim>\<open>src/lib/isaac.cpp\<close>, the FNV hash update of
  \<^verbatim>\<open>src/lib/hash.cpp\<close> that stirs packets into it, and \<open>fr_rand\<close>,
  \<open>fr_rand_seed\<close> of \<^verbatim>\<open>src/lib/radius.cpp\<close>. On Windows the pool is seeded from
  \<^verbatim>\<open>time(NULL)\<close> and \<^verbatim>\<open>errno\<close>, which are fields of the state here. Shown: the
  pool's index stays inside its 256-word arrays through every operation.
\<close>

section \<open>FNV hash\<close>

definition FNV_MAGIC_PRIME :: u32 where
  "FNV_MAGIC_PRIME = 0x01000193"

fun fr_hash_update :: "byte list \<Rightarrow> u32 \<Rightarrow> u32" where
  "fr_hash_update [] hash = hash"
| "fr_hash_update (p # ps) hash = fr_hash_update ps ((hash * FNV_MAGIC_PRIME) XOR ucast p)"

definition fr_hash :: "byte list \<Rightarrow> u32" where
  "fr_hash data = fr_hash_update data 0x811c9dc5"

section \<open>ISAAC\<close>

record fr_randctx =
  randcnt :: nat
  randrsl :: "u32 list"
  randmem :: "u32 list"
  randa :: u32
  randb :: u32
  randc :: u32

text \<open>\<^verbatim>\<open>ind(mm, x)\<close>.\<close>

definition isaac_ind :: "u32 list \<Rightarrow> u32 \<Rightarrow> u32" where
  "isaac_ind mm x = mm ! unat (drop_bit 2 x AND 255)"

text \<open>Step \<open>i\<close> of the 256: \<^verbatim>\<open>m\<close> points at entry \<open>i\<close>, \<^verbatim>\<open>m2\<close> half the array
  further (first loop) or back (second loop), and the four mixes alternate.\<close>

definition rngstep :: "nat \<Rightarrow> u32 list \<times> u32 list \<times> u32 \<times> u32 \<Rightarrow> u32 list \<times> u32 list \<times> u32 \<times> u32" where
  "rngstep i = (\<lambda>(mm, rsl, a, b).
     let mix = (if i mod 4 = 0 then push_bit 13 a else if i mod 4 = 1 then drop_bit 6 a
                else if i mod 4 = 2 then push_bit 2 a else drop_bit 16 a);
         x = mm ! i;
         a = (a XOR mix) + mm ! ((i + 128) mod 256);
         y = isaac_ind mm x + a + b;
         mm = mm[i := y];
         b = isaac_ind mm (drop_bit 8 y) + x
     in (mm, rsl[i := b], a, b))"

definition fr_isaac :: "fr_randctx \<Rightarrow> fr_randctx" where
  "fr_isaac ctx =
     (let c = randc ctx + 1;
          (mm, rsl, a, b) = fold rngstep [0..<256] (randmem ctx, randrsl ctx, randa ctx, randb ctx + c)
      in ctx\<lparr>randmem := mm, randrsl := rsl, randa := a, randb := b, randc := c\<rparr>)"

type_synonym mix8 = "u32 \<times> u32 \<times> u32 \<times> u32 \<times> u32 \<times> u32 \<times> u32 \<times> u32"

definition isaac_mix :: "mix8 \<Rightarrow> mix8" where
  "isaac_mix = (\<lambda>(a, b, c, d, e, f, g, h).
     let a = a XOR push_bit 11 b; d = d + a; b = b + c;
         b = b XOR drop_bit 2 c; e = e + b; c = c + d;
         c = c XOR push_bit 8 d; f = f + c; d = d + e;
         d = d XOR drop_bit 16 e; g = g + d; e = e + f;
         e = e XOR push_bit 10 f; h = h + e; f = f + g;
         f = f XOR drop_bit 4 g; a = a + f; g = g + h;
         g = g XOR push_bit 8 h; b = b + g; h = h + a;
         h = h XOR drop_bit 9 a; c = c + h; a = a + b
     in (a, b, c, d, e, f, g, h))"

definition mix8_list :: "mix8 \<Rightarrow> u32 list" where
  "mix8_list = (\<lambda>(a, b, c, d, e, f, g, h). [a, b, c, d, e, f, g, h])"

definition mix8_add :: "u32 list \<Rightarrow> nat \<Rightarrow> mix8 \<Rightarrow> mix8" where
  "mix8_add r i = (\<lambda>(a, b, c, d, e, f, g, h).
     (a + r ! i, b + r ! (i + 1), c + r ! (i + 2), d + r ! (i + 3),
      e + r ! (i + 4), f + r ! (i + 5), g + r ! (i + 6), h + r ! (i + 7)))"

text \<open>One pass of the initialisation: \<open>src\<close> selects the array that is added in, if any.\<close>

definition randinit_step :: "(u32 list \<Rightarrow> u32 list) option \<Rightarrow> nat \<Rightarrow> mix8 \<times> u32 list \<Rightarrow> mix8 \<times> u32 list" where
  "randinit_step src k = (\<lambda>(v, m).
     let i = 8 * k;
         v = (case src of Some r \<Rightarrow> mix8_add (r m) i v | None \<Rightarrow> v);
         v = isaac_mix v
     in (v, memcpy_at m i (mix8_list v)))"

definition randinit_pass :: "(u32 list \<Rightarrow> u32 list) option \<Rightarrow> mix8 \<times> u32 list \<Rightarrow> mix8 \<times> u32 list" where
  "randinit_pass src s = fold (randinit_step src) [0..<32] s"

definition fr_randinit :: "fr_randctx \<Rightarrow> bool \<Rightarrow> fr_randctx" where
  "fr_randinit ctx flag =
     (let g = 0x9e3779b9; v = (g, g, g, g, g, g, g, g); v = (isaac_mix ^^ 4) v;
          m = (if flag then
                 snd (randinit_pass (Some (\<lambda>m. m)) (randinit_pass (Some (\<lambda>_. randrsl ctx)) (v, randmem ctx)))
               else snd (randinit_pass None (v, randmem ctx)));
          ctx = fr_isaac (ctx\<lparr>randa := 0, randb := 0, randc := 0, randmem := m\<rparr>)
      in ctx\<lparr>randcnt := 256\<rparr>)"

section \<open>The pool\<close>

record rand_state =
  fr_rand_pool :: fr_randctx
  fr_rand_initialized :: bool
  env_time :: u32
  env_errno :: u32

text \<open>The initialisation branch of \<open>fr_rand_seed\<close>.\<close>

definition rand_init :: "'a rand_state_scheme \<Rightarrow> 'a rand_state_scheme" where
  "rand_init s =
     (let p = \<lparr>randcnt = 0, randrsl = replicate 256 0, randmem = replicate 256 0,
               randa = 0, randb = 0, randc = 0\<rparr>;
          p = p\<lparr>randrsl := (randrsl p)[0 := 0, 1 := env_time s, 2 := env_errno s]\<rparr>;
          p = (fr_randinit p True)\<lparr>randcnt := 0\<rparr>
      in s\<lparr>fr_rand_pool := p, fr_rand_initialized := True\<rparr>)"

definition fr_rand :: "'a rand_state_scheme \<Rightarrow> u32 \<times> 'a rand_state_scheme" where
  "fr_rand s =
     (let s = (if fr_rand_initialized s then s else rand_init s);
          p = fr_rand_pool s;
          num = randrsl p ! randcnt p;
          p = p\<lparr>randcnt := randcnt p + 1\<rparr>;
          p = (if 256 \<le> randcnt p then fr_isaac (p\<lparr>randcnt := 0\<rparr>) else p)
      in (num, s\<lparr>fr_rand_pool := p\<rparr>))"

definition fr_rand_seed :: "byte list option \<Rightarrow> 'a rand_state_scheme \<Rightarrow> 'a rand_state_scheme" where
  "fr_rand_seed data s =
     (let s = (if fr_rand_initialized s then s else rand_init s)
      in case data of
           None \<Rightarrow> s
         | Some bytes \<Rightarrow>
             let (hash, s) = fr_rand s;
                 (hash, s) = (if hash = 0 then fr_rand s else (hash, s));
                 hash = fr_hash_update bytes hash;
                 p = fr_rand_pool s
             in s\<lparr>fr_rand_pool := p\<lparr>randmem := (randmem p)[randcnt p := randmem p ! randcnt p XOR hash]\<rparr>\<rparr>)"

section \<open>The pool's arrays are indexed in bounds\<close>

definition pool_ok :: "fr_randctx \<Rightarrow> bool" where
  "pool_ok p \<longleftrightarrow> length (randrsl p) = 256 \<and> length (randmem p) = 256 \<and> randcnt p < 256"

definition rand_ok :: "'a rand_state_scheme \<Rightarrow> bool" where
  "rand_ok s \<longleftrightarrow> (fr_rand_initialized s \<longrightarrow> pool_ok (fr_rand_pool s))"

lemma rngstep_lengths:
  "rngstep i (mm, rsl, a, b) = (mm', rsl', a', b') \<Longrightarrow> length mm' = length mm \<and> length rsl' = length rsl"
  by (auto simp: rngstep_def Let_def)

lemma fold_rngstep_lengths:
  "fold rngstep is (mm, rsl, a, b) = (mm', rsl', a', b') \<Longrightarrow> length mm' = length mm \<and> length rsl' = length rsl"
proof (induction "is" arbitrary: mm rsl a b)
  case Nil
  then show ?case by simp
next
  case (Cons i "is")
  obtain mm1 rsl1 a1 b1 where "rngstep i (mm, rsl, a, b) = (mm1, rsl1, a1, b1)"
    by (metis prod_cases4)
  with Cons rngstep_lengths show ?case by fastforce
qed

lemma fr_isaac_lengths [simp, len_simps]:
  "length (randmem (fr_isaac p)) = length (randmem p)" "length (randrsl (fr_isaac p)) = length (randrsl p)"
  "randcnt (fr_isaac p) = randcnt p"
  by (auto simp: fr_isaac_def Let_def split: prod.splits dest: fold_rngstep_lengths)

lemma length_mix8_list [simp]: "length (mix8_list v) = 8"
  by (simp add: mix8_list_def split: prod.splits)

lemma randinit_step_length:
  "length (snd s) = 256 \<Longrightarrow> k < 32 \<Longrightarrow> length (snd (randinit_step src k s)) = 256"
  by (cases s) (simp add: randinit_step_def Let_def)

lemma fold_randinit_step_length:
  "length (snd s) = 256 \<Longrightarrow> \<forall>k \<in> set ks. k < 32 \<Longrightarrow> length (snd (fold (randinit_step src) ks s)) = 256"
  by (induction ks arbitrary: s) (simp_all add: randinit_step_length)

lemma randinit_pass_length: "length (snd s) = 256 \<Longrightarrow> length (snd (randinit_pass src s)) = 256"
  by (simp add: randinit_pass_def fold_randinit_step_length)

lemma pool_ok_isaac: "pool_ok p \<Longrightarrow> pool_ok (fr_isaac p)"
  by (simp add: pool_ok_def)

lemma rand_init_ok: "pool_ok (fr_rand_pool (rand_init s)) \<and> fr_rand_initialized (rand_init s)"
  by (simp add: rand_init_def Let_def fr_randinit_def pool_ok_def randinit_pass_length)

lemma fr_rand_ok: "rand_ok s \<Longrightarrow> fr_rand s = (n, s') \<Longrightarrow> pool_ok (fr_rand_pool s') \<and> fr_rand_initialized s'"
  using rand_init_ok [of s]
  by (auto simp: fr_rand_def Let_def rand_ok_def pool_ok_def split: if_splits)

lemma fr_rand_seed_ok: "rand_ok s \<Longrightarrow> rand_ok (fr_rand_seed data s)"
proof -
  assume ok: "rand_ok s"
  define s0 where "s0 = (if fr_rand_initialized s then s else rand_init s)"
  have s0: "pool_ok (fr_rand_pool s0)" "fr_rand_initialized s0"
    using ok rand_init_ok [of s] by (simp_all add: s0_def rand_ok_def)
  obtain h1 s1 where r1: "fr_rand s0 = (h1, s1)" by (cases "fr_rand s0")
  obtain h2 s2 where r2: "fr_rand s1 = (h2, s2)" by (cases "fr_rand s1")
  have s1: "pool_ok (fr_rand_pool s1)" "fr_rand_initialized s1"
    using fr_rand_ok [OF _ r1] s0 by (simp_all add: rand_ok_def)
  have s2: "pool_ok (fr_rand_pool s2)" "fr_rand_initialized s2"
    using fr_rand_ok [OF _ r2] s1 by (simp_all add: rand_ok_def)
  show ?thesis
    using s0 s1 s2 by (auto simp: fr_rand_seed_def s0_def [symmetric] r1 r2 Let_def rand_ok_def pool_ok_def
        split: option.splits)
qed

text \<open>Every round of the FNV hash can be undone: multiplication by the odd prime and the exclusive or are both bijections.\<close>

lemma fnv_prime_inverse: "FNV_MAGIC_PRIME * 0x359c449b = 1"
  by (simp add: FNV_MAGIC_PRIME_def)

lemma fnv_round_inj: "(h * FNV_MAGIC_PRIME) XOR b = (k * FNV_MAGIC_PRIME) XOR b \<Longrightarrow> h = k"
proof -
  assume "(h * FNV_MAGIC_PRIME) XOR b = (k * FNV_MAGIC_PRIME) XOR b"
  then have "(h * FNV_MAGIC_PRIME XOR b) XOR b = (k * FNV_MAGIC_PRIME XOR b) XOR b" by simp
  then have "h * FNV_MAGIC_PRIME = k * FNV_MAGIC_PRIME" by (simp add: xor.assoc)
  then have "h * (FNV_MAGIC_PRIME * 0x359c449b) = k * (FNV_MAGIC_PRIME * 0x359c449b)" by (simp add: mult.assoc [symmetric])
  then show ?thesis by (simp only: fnv_prime_inverse mult_1_right)
qed

lemma fr_hash_update_eq_iff: "fr_hash_update data h = fr_hash_update data k \<longleftrightarrow> h = k"
  by (induction data arbitrary: h k) (auto dest: fnv_round_inj)

text \<open>The random pool never leaves its arrays: from any state in which an initialised pool is
  within bounds, drawing a number and seeding keep the 256-word arrays and the index within bounds, also across the
  refill; and the hash that is stirred in is injective in its seed.\<close>

theorem fr_rand_pool_safe:
  assumes "rand_ok s" and "fr_rand s = (num, s')"
  shows "rand_ok s' \<and> randcnt (fr_rand_pool s') < 256 \<and> length (randrsl (fr_rand_pool s')) = 256 \<and>
    rand_ok (fr_rand_seed data s) \<and> inj (fr_hash_update bytes)"
  using fr_rand_ok [OF assms] fr_rand_seed_ok [OF assms(1)]
  by (simp add: rand_ok_def pool_ok_def inj_on_def fr_hash_update_eq_iff)

theorem fr_rand_pool_safe_witness:
  "rand_ok (snd (fr_rand (rand_init \<lparr>fr_rand_pool = \<lparr>randcnt = 0, randrsl = [], randmem = [], randa = 0, randb = 0, randc = 0\<rparr>,
     fr_rand_initialized = False, env_time = 1, env_errno = 0\<rparr>)))"
  by (rule conjunct1 [OF fr_rand_pool_safe [OF _ prod.collapse [symmetric]]]) (simp add: rand_ok_def rand_init_ok)

end
