(* ===== verification/Password_Hiding.thy ===== *)
theory Password_Hiding
  imports Md5 Random_Pool
begin

text \<open>
  The password-hiding functions of \<^verbatim>\<open>src/lib/radius.cpp\<close>: \<open>make_secret\<close>,
  \<open>make_passwd\<close>, \<open>make_tunnel_passwd\<close>, and the library entry points
  \<open>rad_pwencode\<close>, \<open>rad_pwdecode\<close>, \<open>rad_tunnel_pwencode\<close>,
  \<open>rad_tunnel_pwdecode\<close>, each with its in-place loop over a C buffer. The reference is
  block chaining under a keyed digest (RFC 2865 section 5.2, RFC 2868 section 3.5); it is stated once
  for any 16-byte digest in the locale \<open>digest16\<close>, which the MD5 model instantiates.
\<close>

section \<open>Block chaining under a digest\<close>

text \<open>\<open>d\<close> is the pad of the next block; the pad after a block is the digest of its
  ciphertext.\<close>

fun chain_hide :: "(byte list \<Rightarrow> byte list) \<Rightarrow> byte list \<Rightarrow> byte list list \<Rightarrow> byte list list" where
  "chain_hide h d [] = []"
| "chain_hide h d (p # ps) = (let c = xor_bytes p d in c # chain_hide h (h c) ps)"

fun chain_unhide :: "(byte list \<Rightarrow> byte list) \<Rightarrow> byte list \<Rightarrow> byte list list \<Rightarrow> byte list list" where
  "chain_unhide h d [] = []"
| "chain_unhide h d (c # cs) = xor_bytes c d # chain_unhide h (h c) cs"

locale digest16 =
  fixes h :: "byte list \<Rightarrow> byte list"
  assumes length_digest: "length (h xs) = 16"
begin

lemma chain_hide_length: "length (chain_hide h d ps) = length ps"
  by (induction ps arbitrary: d) (simp_all add: Let_def)

lemma chain_hide_blocks:
  "length d = 16 \<Longrightarrow> \<forall>p \<in> set ps. length p = 16 \<Longrightarrow> \<forall>c \<in> set (chain_hide h d ps). length c = 16"
proof (induction ps arbitrary: d)
  case (Cons p ps)
  have "\<forall>c \<in> set (chain_hide h (h (xor_bytes p d)) ps). length c = 16"
    using Cons by (intro Cons.IH) (auto simp: length_digest)
  with Cons.prems show ?case by (simp add: Let_def)
qed simp

lemma chain_roundtrip:
  "length d = 16 \<Longrightarrow> \<forall>p \<in> set ps. length p = 16 \<Longrightarrow> chain_unhide h d (chain_hide h d ps) = ps"
  by (induction ps arbitrary: d) (simp_all add: Let_def length_digest)

end

text \<open>The digest of a shared secret followed by one more string, as the code computes it.\<close>

definition md5_secret :: "byte list \<Rightarrow> fr_md5_ctx" where
  "md5_secret secret = fr_MD5Update (fr_MD5Init md5_stack) secret"

definition md5_keyed :: "byte list \<Rightarrow> byte list \<Rightarrow> byte list" where
  "md5_keyed secret xs = fst (fr_MD5Final (fr_MD5Update (md5_secret secret) xs))"

interpretation keyed: digest16 "md5_keyed secret" for secret
  by unfold_locales (simp add: md5_keyed_def)

lemma length_md5_keyed [simp, len_simps]: "length (md5_keyed secret xs) = 16"
  by (rule keyed.length_digest)

section \<open>make_secret\<close>

definition make_secret :: "byte list \<Rightarrow> byte list \<Rightarrow> byte list \<Rightarrow> byte list" where
  "make_secret vector secret val =
     (let context = fr_MD5Init md5_stack;
          context = fr_MD5Update context (take 16 vector);
          context = fr_MD5Update context secret;
          digest = fst (fr_MD5Final context)
      in xor_bytes digest (take 16 val))"

section \<open>make_passwd\<close>

definition MAX_PASS_LEN :: nat where "MAX_PASS_LEN = 128"

text \<open>The loop over \<open>passwd\<close>; \<open>context\<close> is the running context, \<open>old\<close> the one saved after
  the secret.\<close>

function make_passwd_loop :: "fr_md5_ctx \<Rightarrow> fr_md5_ctx \<Rightarrow> byte list \<Rightarrow> nat \<Rightarrow> nat \<Rightarrow> byte list" where
  "make_passwd_loop old context passwd n len =
     (if n < len then
        let context = (if 0 < n then fr_MD5Update old (bslice (n - 16) 16 passwd) else context);
            (digest, context) = fr_MD5Final context;
            passwd = memcpy_at passwd n (xor_bytes (bslice n 16 passwd) digest)
        in make_passwd_loop old context passwd (n + 16) len
      else passwd)"
  by pat_completeness auto
termination
  by (relation "measure (\<lambda>(old, context, passwd, n, len). len - n)") auto

declare make_passwd_loop.simps [simp del]

definition round16 :: "nat \<Rightarrow> nat" where
  "round16 len = (if len mod 16 \<noteq> 0 then (len + 15) div 16 * 16 else len)"

definition make_passwd :: "byte list \<Rightarrow> byte list \<Rightarrow> byte list \<Rightarrow> byte list" where
  "make_passwd input secret vector =
     (let len = (if MAX_PASS_LEN < length input then MAX_PASS_LEN else length input);
          passwd = take len input @ zeros (MAX_PASS_LEN - len);
          len = (if len = 0 then 16 else round16 len);
          context = fr_MD5Init md5_stack;
          context = fr_MD5Update context secret;
          old = context;
          context = fr_MD5Update context (take 16 vector)
      in take len (make_passwd_loop old context passwd 0 len))"

section \<open>rad_pwencode and rad_pwdecode\<close>

function pwencode_loop :: "byte list \<Rightarrow> fr_md5_ctx \<Rightarrow> fr_md5_ctx \<Rightarrow> byte list \<Rightarrow> nat \<Rightarrow> nat \<Rightarrow> byte list" where
  "pwencode_loop vector old context passwd n len =
     (if n < len then
        let context = (if n = 0 then fr_MD5Update context (take 16 vector)
                       else fr_MD5Update old (bslice (n - 16) 16 passwd));
            (digest, context) = fr_MD5Final context;
            passwd = memcpy_at passwd n (xor_bytes (bslice n 16 passwd) digest)
        in pwencode_loop vector old context passwd (n + 16) len
      else passwd)"
  by pat_completeness auto
termination
  by (relation "measure (\<lambda>(vector, old, context, passwd, n, len). len - n)") auto

declare pwencode_loop.simps [simp del]

text \<open>In place: the buffer \<open>passwd\<close> and its length come back updated.\<close>

definition rad_pwencode :: "byte list \<Rightarrow> nat \<Rightarrow> byte list \<Rightarrow> byte list \<Rightarrow> byte list \<times> nat" where
  "rad_pwencode passwd pwlen secret vector =
     (let len = (if 128 < pwlen then 128 else pwlen);
          (passwd, len) =
            (if len = 0 then (memcpy_at passwd 0 (zeros 16), 16)
             else if len mod 16 \<noteq> 0 then (memcpy_at passwd len (zeros (16 - len mod 16)), len + (16 - len mod 16))
             else (passwd, len));
          context = fr_MD5Update (fr_MD5Init md5_stack) secret
      in (pwencode_loop vector context context passwd 0 len, len))"

function pwdecode_loop :: "byte list \<Rightarrow> fr_md5_ctx \<Rightarrow> fr_md5_ctx \<Rightarrow> byte list \<Rightarrow> nat \<Rightarrow> nat \<Rightarrow> byte list" where
  "pwdecode_loop vector old context passwd n pwlen =
     (if n < pwlen then
        let (digest, context) =
              (if n = 0 then
                 let (digest, _) = fr_MD5Final (fr_MD5Update context (take 16 vector))
                 in (digest, if 16 < pwlen then fr_MD5Update old (bslice 0 16 passwd) else old)
               else
                 let (digest, _) = fr_MD5Final context
                 in (digest, if n + 16 < pwlen then fr_MD5Update old (bslice n 16 passwd) else old));
            passwd = memcpy_at passwd n (xor_bytes (bslice n 16 passwd) digest)
        in pwdecode_loop vector old context passwd (n + 16) pwlen
      else passwd)"
  by pat_completeness auto
termination
  by (relation "measure (\<lambda>(vector, old, context, passwd, n, pwlen). pwlen - n)") auto

declare pwdecode_loop.simps [simp del]

definition rad_pwdecode :: "byte list \<Rightarrow> nat \<Rightarrow> byte list \<Rightarrow> byte list \<Rightarrow> byte list \<times> nat" where
  "rad_pwdecode passwd pwlen secret vector =
     (let pwlen = (if 128 < pwlen then 128 else pwlen);
          passwd = (if pwlen = 0 then passwd
                    else let context = fr_MD5Update (fr_MD5Init md5_stack) secret
                         in pwdecode_loop vector context context passwd 0 pwlen);
          passwd = passwd[pwlen := 0]
      in (passwd, strlen passwd))"

section \<open>Tunnel passwords\<close>

text \<open>The library's other global: the salt counter.\<close>

record lib_state = rand_state +
  salt_offset :: u32

text \<open>The values the static variables have when the program starts.\<close>

definition lib_start :: "u32 \<Rightarrow> u32 \<Rightarrow> lib_state" where
  "lib_start t e =
     \<lparr>fr_rand_pool = \<lparr>randcnt = 0, randrsl = replicate 256 0, randmem = replicate 256 0, randa = 0, randb = 0, randc = 0\<rparr>,
      fr_rand_initialized = False, env_time = t, env_errno = e, salt_offset = 0\<rparr>"

definition tunnel_salt :: "lib_state \<Rightarrow> byte list \<times> lib_state" where
  "tunnel_salt s =
     (let off = salt_offset s; s = s\<lparr>salt_offset := off + 1\<rparr>;
          (r1, s) = fr_rand s;
          (r2, s) = fr_rand s
      in ([0x80 OR push_bit 3 (ucast (off AND 0x0f)) OR ucast (r1 AND 0x07), ucast r2], s))"

text \<open>The loop of \<open>make_tunnel_passwd\<close>: the buffer starts with the two salt bytes.\<close>

function tunnel_loop :: "fr_md5_ctx \<Rightarrow> fr_md5_ctx \<Rightarrow> byte list \<Rightarrow> nat \<Rightarrow> nat \<Rightarrow> byte list" where
  "tunnel_loop old context passwd n len =
     (if n < len then
        let context = (if 0 < n then fr_MD5Update old (bslice (2 + n - 16) 16 passwd) else context);
            (digest, context) = fr_MD5Final context;
            passwd = memcpy_at passwd (2 + n) (xor_bytes (bslice (2 + n) 16 passwd) digest)
        in tunnel_loop old context passwd (n + 16) len
      else passwd)"
  by pat_completeness auto
termination
  by (relation "measure (\<lambda>(old, context, passwd, n, len). len - n)") auto

declare tunnel_loop.simps [simp del]

text \<open>\<open>room\<close> and the subtractions from it are unsigned; callers pass at least 18.\<close>

definition tunnel_room :: "nat \<Rightarrow> nat" where
  "tunnel_room room = (let room = (if 253 < room then 253 else room); room = room - 2 in room - room mod 16 - 1)"

definition make_tunnel_passwd ::
    "byte list \<Rightarrow> nat \<Rightarrow> byte list \<Rightarrow> byte list \<Rightarrow> lib_state \<Rightarrow> byte list \<times> lib_state" where
  "make_tunnel_passwd input room secret vector s =
     (let room = tunnel_room room;
          inlen = (if room < length input then room else length input);
          len = round16 (inlen + 1);
          (salt, s) = tunnel_salt s;
          passwd = salt @ [word_of_nat inlen] @ take inlen input @ zeros (254 + 16 - 3 - inlen);
          context = fr_MD5Init md5_stack;
          context = fr_MD5Update context secret;
          old = context;
          context = fr_MD5Update context (take 16 vector);
          context = fr_MD5Update context (bslice 0 2 passwd)
      in (take (len + 2) (tunnel_loop old context passwd 0 len), s))"

text \<open>The client library's encoder works in place on the caller's buffer and shifts the password
  up by three bytes first.\<close>

function tunnel_pwencode_loop ::
    "byte list \<Rightarrow> byte list \<Rightarrow> byte list \<Rightarrow> nat \<Rightarrow> nat \<Rightarrow> byte list" where
  "tunnel_pwencode_loop secret vector passwd n2 len =
     (if n2 < len then
        let digest = (if n2 = 0 then fr_md5_calc (secret @ take 16 vector @ bslice 0 2 passwd)
                      else fr_md5_calc (secret @ bslice (2 + n2 - 16) 16 passwd));
            passwd = memcpy_at passwd (2 + n2) (xor_bytes (bslice (2 + n2) 16 passwd) digest)
        in tunnel_pwencode_loop secret vector passwd (n2 + 16) len
      else passwd)"
  by pat_completeness auto
termination
  by (relation "measure (\<lambda>(secret, vector, passwd, n2, len). len - n2)") auto

declare tunnel_pwencode_loop.simps [simp del]

definition rad_tunnel_pwencode ::
    "byte list \<Rightarrow> nat \<Rightarrow> byte list \<Rightarrow> byte list \<Rightarrow> lib_state \<Rightarrow> (byte list \<times> nat) \<times> lib_state" where
  "rad_tunnel_pwencode passwd pwlen secret vector s =
     (let len = (if 127 < pwlen then 127 else pwlen);
          passwd = memcpy_at passwd 3 (take (len + 1) passwd);
          passwd = passwd[2 := word_of_nat len];
          len = len + 1;
          (salt, s) = tunnel_salt s;
          passwd = memcpy_at passwd 0 salt;
          n = len mod 16;
          (passwd, len) = (if n \<noteq> 0 then (memcpy_at passwd (2 + len) (zeros (16 - n)), len + (16 - n)) else (passwd, len));
          passwd = tunnel_pwencode_loop secret vector passwd 0 len;
          passwd = passwd[2 + len := 0]
      in ((passwd, len + 2), s))"

text \<open>The decoding loop shifts the plaintext down over salt and length byte while it runs; \<open>None\<close>
  is the early return for a length octet larger than the data.\<close>

function tunnel_pwdecode_loop ::
    "fr_md5_ctx \<Rightarrow> fr_md5_ctx \<Rightarrow> byte list \<Rightarrow> nat \<Rightarrow> nat \<Rightarrow> nat \<Rightarrow> (byte list \<times> nat) option" where
  "tunnel_pwdecode_loop old context passwd reallen n len =
     (if n < len then
        let (digest, _) = fr_MD5Final context
        in if n = 0 then
             let reallen = unat (passwd ! 2 XOR digest ! 0)
             in if len \<le> reallen then None
                else let context = fr_MD5Update old (bslice 2 16 passwd);
                         passwd = memcpy_at passwd 0 (drop 1 (xor_bytes (bslice 2 16 passwd) digest))
                     in tunnel_pwdecode_loop old context passwd reallen (n + 16) len
           else
             let context = fr_MD5Update old (bslice (n + 2) 16 passwd);
                 passwd = memcpy_at passwd (n - 1) (xor_bytes (bslice (n + 2) 16 passwd) digest)
             in tunnel_pwdecode_loop old context passwd reallen (n + 16) len
      else Some (passwd, reallen))"
  by pat_completeness auto
termination
  by (relation "measure (\<lambda>(old, context, passwd, reallen, n, len). len - n)") auto

declare tunnel_pwdecode_loop.simps [simp del]

definition rad_tunnel_pwdecode :: "byte list \<Rightarrow> nat \<Rightarrow> byte list \<Rightarrow> byte list \<Rightarrow> (byte list \<times> nat) option" where
  "rad_tunnel_pwdecode passwd pwlen secret vector =
     (if pwlen < 2 then None
      else if pwlen \<le> 3 then Some (passwd[0 := 0], 0)
      else
        let len = pwlen - 2;
            context = fr_MD5Init md5_stack;
            context = fr_MD5Update context secret;
            old = context;
            context = fr_MD5Update context (take 16 vector);
            context = fr_MD5Update context (bslice 0 2 passwd)
        in case tunnel_pwdecode_loop old context passwd 0 0 len of
             None \<Rightarrow> None
           | Some (passwd, reallen) \<Rightarrow>
               let reallen = (if 239 < reallen then 239 else reallen)
               in Some (passwd[reallen := 0], reallen))"

section \<open>The loops compute the chaining\<close>

lemma concat_length16: "\<forall>p \<in> set ps. length p = 16 \<Longrightarrow> length (concat ps) = 16 * length ps"
  by (induction ps) simp_all

lemma bslice_prefix: "length xs = off \<Longrightarrow> length ys = n \<Longrightarrow> bslice off n (xs @ ys @ zs) = ys"
  by (simp add: bslice_def)

lemma memcpy_prefix:
  "length xs = off \<Longrightarrow> length ys = length ys' \<Longrightarrow> memcpy_at (xs @ ys @ zs) off ys' = xs @ ys' @ zs"
  by (simp add: memcpy_at_def)

lemma bslice_last16: "16 \<le> length xs \<Longrightarrow> bslice (length xs - 16) 16 (xs @ ys) = drop (length xs - 16) xs"
  by (simp add: bslice_def)

lemma make_passwd_loop_chain:
  assumes "\<forall>p \<in> set ps. length p = 16" and "pre = [] \<or> 16 \<le> length pre"
    and "d = (if pre = [] then fst (fr_MD5Final ctx) else md5_keyed secret (drop (length pre - 16) pre))"
  shows "make_passwd_loop (md5_secret secret) ctx (pre @ concat ps @ rest) (length pre) (length pre + 16 * length ps)
     = pre @ concat (chain_hide (md5_keyed secret) d ps) @ rest"
  using assms
proof (induction ps arbitrary: pre ctx d)
  case Nil
  then show ?case by (subst make_passwd_loop.simps) simp
next
  case (Cons p ps)
  define ctx' where "ctx' = (if pre = [] then ctx else fr_MD5Update (md5_secret secret) (drop (length pre - 16) pre))"
  have d: "fst (fr_MD5Final ctx') = d" using Cons.prems(3) by (simp add: ctx'_def md5_keyed_def)
  have len: "length p = 16" "length d = 16" using Cons.prems d length_fr_MD5Final by auto
  define c where "c = xor_bytes p d"
  have clen: "length c = 16" using len by (simp add: c_def)
  have "make_passwd_loop (md5_secret secret) ctx (pre @ concat (p # ps) @ rest) (length pre) (length pre + 16 * length (p # ps))
      = make_passwd_loop (md5_secret secret) (snd (fr_MD5Final ctx')) ((pre @ c) @ concat ps @ rest)
          (length (pre @ c)) (length (pre @ c) + 16 * length ps)"
    using Cons.prems(2) len clen
    by (subst make_passwd_loop.simps)
      (auto simp: Let_def split_beta bslice_last16 bslice_prefix memcpy_prefix c_def d [symmetric] ctx'_def algebra_simps)
  also have "\<dots> = (pre @ c) @ concat (chain_hide (md5_keyed secret) (md5_keyed secret c) ps) @ rest"
    using Cons.prems clen by (intro Cons.IH) auto
  finally show ?case by (simp add: c_def Let_def)
qed

lemma pwencode_loop_eq_pos:
  "0 < n \<Longrightarrow> pwencode_loop vector old ctx passwd n len = make_passwd_loop old ctx' passwd n len"
proof (induction old ctx' passwd n len arbitrary: ctx rule: make_passwd_loop.induct)
  case (1 old ctx' passwd n len)
  then show ?case
    by (subst make_passwd_loop.simps, subst pwencode_loop.simps) (auto simp: Let_def split_beta)
qed

lemma pwencode_loop_eq:
  "pwencode_loop vector old ctx passwd 0 len = make_passwd_loop old (fr_MD5Update ctx (take 16 vector)) passwd 0 len"
  by (subst make_passwd_loop.simps, subst pwencode_loop.simps)
    (auto simp: Let_def split_beta pwencode_loop_eq_pos)

lemma tunnel_loop_eq:
  "length salt = 2 \<Longrightarrow> n mod 16 = 0 \<Longrightarrow>
   tunnel_loop old ctx (salt @ passwd) n len = salt @ make_passwd_loop old ctx passwd n len"
proof (induction old ctx passwd n len rule: make_passwd_loop.induct)
  case (1 old ctx passwd n len)
  have "n = 0 \<or> 16 \<le> n" using 1 by (metis mod_less not_less)
  then have sl: "0 < n \<Longrightarrow> bslice (2 + n - 16) 16 (salt @ passwd) = bslice (n - 16) 16 passwd"
    using 1 by (auto simp: bslice_def)
  have cp: "bslice (2 + n) 16 (salt @ passwd) = bslice n 16 passwd"
    "memcpy_at (salt @ passwd) (2 + n) xs = salt @ memcpy_at passwd n xs" for xs
    using 1 by (simp_all add: bslice_def memcpy_at_def)
  define ctx' where "ctx' = (if 0 < n then fr_MD5Update old (bslice (n - 16) 16 passwd) else ctx)"
  define passwd' where "passwd' = memcpy_at passwd n (xor_bytes (bslice n 16 passwd) (fst (fr_MD5Final ctx')))"
  have "tunnel_loop old ctx (salt @ passwd) n len =
      (if n < len then tunnel_loop old (snd (fr_MD5Final ctx')) (salt @ passwd') (n + 16) len else salt @ passwd)"
    by (subst tunnel_loop.simps) (simp only: Let_def split_beta sl cp ctx'_def passwd'_def cong: if_cong)
  moreover have "make_passwd_loop old ctx passwd n len =
      (if n < len then make_passwd_loop old (snd (fr_MD5Final ctx')) passwd' (n + 16) len else passwd)"
    by (subst make_passwd_loop.simps) (simp only: Let_def split_beta ctx'_def passwd'_def)
  moreover have "n < len \<Longrightarrow> tunnel_loop old (snd (fr_MD5Final ctx')) (salt @ passwd') (n + 16) len
      = salt @ make_passwd_loop old (snd (fr_MD5Final ctx')) passwd' (n + 16) len"
    using 1 by (intro "1.IH") (auto simp: ctx'_def passwd'_def)
  ultimately show ?case by simp
qed

lemma pwdecode_loop_chain:
  assumes "\<forall>c \<in> set cs. length c = 16"
    and "pre = [] \<Longrightarrow> d = fst (fr_MD5Final (fr_MD5Update ctx (take 16 vector)))"
    and "pre \<noteq> [] \<Longrightarrow> cs \<noteq> [] \<Longrightarrow> d = fst (fr_MD5Final ctx)"
  shows "pwdecode_loop vector (md5_secret secret) ctx (pre @ concat cs @ rest) (length pre) (length pre + 16 * length cs)
     = pre @ concat (chain_unhide (md5_keyed secret) d cs) @ rest"
  using assms
proof (induction cs arbitrary: pre ctx d)
  case Nil
  then show ?case by (subst pwdecode_loop.simps) simp
next
  case (Cons c cs)
  define p where "p = xor_bytes c d"
  have d: "d = fst (fr_MD5Final (if pre = [] then fr_MD5Update ctx (take 16 vector) else ctx))"
    using Cons.prems by simp
  then have len: "length c = 16" "length d = 16" "length p = 16"
    using Cons.prems(1) by (simp_all add: p_def)
  define ctx' where "ctx' = (if cs \<noteq> [] then fr_MD5Update (md5_secret secret) c else md5_secret secret)"
  have "pwdecode_loop vector (md5_secret secret) ctx (pre @ concat (c # cs) @ rest) (length pre) (length pre + 16 * length (c # cs))
     = pwdecode_loop vector (md5_secret secret) ctx' ((pre @ p) @ concat cs @ rest) (length (pre @ p)) (length (pre @ p) + 16 * length cs)"
    using len d
    by (subst pwdecode_loop.simps)
      (auto simp: Let_def split_beta bslice_prefix bslice_prefix [of "[]" 0, simplified] memcpy_prefix
        memcpy_prefix [of "[]" 0, simplified] ctx'_def p_def algebra_simps)
  also have "\<dots> = (pre @ p) @ concat (chain_unhide (md5_keyed secret) (md5_keyed secret c) cs) @ rest"
    using Cons.prems len by (intro Cons.IH) (auto simp: ctx'_def md5_keyed_def)
  finally show ?case by (simp add: p_def)
qed

text \<open>The tunnel decoder: \<open>out\<close> is the plaintext written so far, three bytes of old ciphertext
  lie between it and the blocks still to be decoded.\<close>

lemma tunnel_pwdecode_loop_chain:
  assumes "\<forall>c \<in> set cs. length c = 16" and "length junk = 3" and "0 < n" and "length out + 1 = n"
    and "cs \<noteq> [] \<Longrightarrow> d = fst (fr_MD5Final ctx)"
  shows "\<exists>junk'. length junk' = 3 \<and>
    tunnel_pwdecode_loop (md5_secret secret) ctx (out @ junk @ concat cs @ rest) rl n (n + 16 * length cs)
      = Some (out @ concat (chain_unhide (md5_keyed secret) d cs) @ junk' @ rest, rl)"
  using assms
proof (induction cs arbitrary: out junk n ctx d)
  case Nil
  then show ?case by (subst tunnel_pwdecode_loop.simps) auto
next
  case (Cons c cs)
  define p where "p = xor_bytes c d"
  have d: "d = fst (fr_MD5Final ctx)" using Cons.prems by simp
  have len: "length c = 16" "length d = 16" "length p = 16"
    using Cons.prems(1) d by (simp_all add: p_def)
  have sl: "bslice (n + 2) 16 (out @ junk @ c @ xs) = c" for xs
    using Cons.prems len by (simp add: bslice_def)
  have cp: "memcpy_at (out @ junk @ c @ xs) (n - 1) p = (out @ p) @ drop 13 c @ xs" for xs
    using Cons.prems(2) len unfolding Cons.prems(4) [symmetric] by (simp add: memcpy_at_def)
  have step: "tunnel_pwdecode_loop (md5_secret secret) ctx (out @ junk @ concat (c # cs) @ rest) rl n (n + 16 * length (c # cs))
     = tunnel_pwdecode_loop (md5_secret secret) (fr_MD5Update (md5_secret secret) c)
         ((out @ p) @ drop 13 c @ concat cs @ rest) rl (n + 16) ((n + 16) + 16 * length cs)"
    using Cons.prems(3) sl cp
    by (subst tunnel_pwdecode_loop.simps) (simp add: Let_def split_beta d [symmetric] p_def [symmetric] algebra_simps)
  have "\<exists>junk'. length junk' = 3 \<and>
    tunnel_pwdecode_loop (md5_secret secret) (fr_MD5Update (md5_secret secret) c)
         ((out @ p) @ drop 13 c @ concat cs @ rest) rl (n + 16) ((n + 16) + 16 * length cs)
      = Some ((out @ p) @ concat (chain_unhide (md5_keyed secret) (md5_keyed secret c) cs) @ junk' @ rest, rl)"
    using Cons.prems len by (intro Cons.IH) (auto simp: md5_keyed_def)
  then show ?case unfolding step by (simp add: p_def)
qed

lemma tunnel_pwdecode_loop_first:
  assumes "length salt = 2" and "\<forall>c \<in> set (c # cs). length c = 16"
    and "d = fst (fr_MD5Final ctx)" and "len = 16 * length (c # cs)" and "unat (xor_bytes c d ! 0) < len"
  shows "\<exists>junk. length junk = 3 \<and>
    tunnel_pwdecode_loop (md5_secret secret) ctx (salt @ concat (c # cs) @ rest) rl 0 len
      = Some (drop 1 (concat (chain_unhide (md5_keyed secret) d (c # cs))) @ junk @ rest, unat (xor_bytes c d ! 0))"
proof -
  have len: "length c = 16" "length d = 16" using assms by simp_all
  have sl: "bslice 2 16 (salt @ c @ xs) = c" for xs using assms(1) len by (simp add: bslice_def)
  have cp: "memcpy_at (salt @ c @ xs) 0 (drop 1 (xor_bytes c d)) = drop 1 (xor_bytes c d) @ drop 13 c @ xs" for xs
    using assms(1) len by (simp add: memcpy_at_def)
  have rl: "(salt @ c @ xs) ! 2 XOR d ! 0 = xor_bytes c d ! 0" for xs
    using assms(1) len by (simp add: nth_append)
  have "tunnel_pwdecode_loop (md5_secret secret) ctx (salt @ concat (c # cs) @ rest) rl 0 len
     = tunnel_pwdecode_loop (md5_secret secret) (fr_MD5Update (md5_secret secret) c)
         (drop 1 (xor_bytes c d) @ drop 13 c @ concat cs @ rest) (unat (xor_bytes c d ! 0)) 16 (16 + 16 * length cs)"
    using assms(4,5) sl cp rl
    by (subst tunnel_pwdecode_loop.simps) (simp add: Let_def split_beta assms(3) [symmetric] del: nth_xor_bytes)
  moreover have "\<exists>junk. length junk = 3 \<and>
     tunnel_pwdecode_loop (md5_secret secret) (fr_MD5Update (md5_secret secret) c)
         (drop 1 (xor_bytes c d) @ drop 13 c @ concat cs @ rest) (unat (xor_bytes c d ! 0)) 16 (16 + 16 * length cs)
      = Some (drop 1 (xor_bytes c d) @ concat (chain_unhide (md5_keyed secret) (md5_keyed secret c) cs) @ junk @ rest, unat (xor_bytes c d ! 0))"
    using assms(2) len by (intro tunnel_pwdecode_loop_chain) (auto simp: md5_keyed_def)
  ultimately show ?thesis using len by simp
qed

section \<open>Round trips\<close>

lemma split16:
  "length xs = 16 * k \<Longrightarrow> \<exists>ps. xs = concat ps \<and> length ps = k \<and> (\<forall>p \<in> set ps. length p = (16 :: nat))"
proof (induction k arbitrary: xs)
  case 0
  then show ?case by (intro exI [of _ "[]"]) simp
next
  case (Suc k)
  then obtain ps where "drop 16 xs = concat ps" "length ps = k" "\<forall>p \<in> set ps. length p = 16"
    by (metis add_diff_cancel_left' length_drop mult_Suc_right)
  then show ?case
    using Suc.prems append_take_drop_id [of 16 xs] by (intro exI [of _ "take 16 xs # ps"]) simp
qed

lemma round16_props: "16 dvd round16 n" "n \<le> round16 n" "round16 n < n + 16"
proof -
  have "(n + 15) mod 16 < 16" by simp
  then have "n \<le> (n + 15) div 16 * 16" "(n + 15) div 16 * 16 < n + 16"
    using div_mult_mod_eq [of "n + 15" 16] by linarith+
  then show "16 dvd round16 n" "n \<le> round16 n" "round16 n < n + 16"
    by (auto simp: round16_def dvd_eq_mod_eq_0)
qed

lemma round16_le: "16 dvd m \<Longrightarrow> n \<le> m \<Longrightarrow> round16 n \<le> m"
proof -
  assume "16 dvd m" "n \<le> m"
  then obtain k where m: "m = 16 * k" by blast
  obtain j where j: "round16 n = 16 * j" using round16_props(1) by blast
  from round16_props(3) [of n] \<open>n \<le> m\<close> have "16 * j < 16 * k + 16" unfolding j m by linarith
  then have "j \<le> k" by simp
  then show ?thesis unfolding j m by simp
qed

lemma make_passwd_chain:
  assumes "length vector = 16" and "length input \<le> 128"
  obtains ps where "\<forall>p \<in> set ps. length p = 16" "16 * length ps \<le> 128" "length input \<le> 16 * length ps" "ps \<noteq> []"
    "concat ps = input @ zeros (16 * length ps - length input)"
    "make_passwd input secret vector = concat (chain_hide (md5_keyed secret) (md5_keyed secret vector) ps)"
proof -
  define len where "len = (if input = [] then 16 else round16 (length input))"
  have len: "16 dvd len" "length input \<le> len" "len \<le> 128" "0 < len"
    using round16_props [of "length input"] round16_le [of 128 "length input"] assms(2)
      less_le_trans [of 0 "length input" "round16 (length input)"]
    by (auto simp: len_def)
  then obtain k where k: "len = 16 * k" by blast
  obtain ps where ps: "input @ zeros (len - length input) = concat ps" "length ps = k" "\<forall>p \<in> set ps. length p = 16"
    using split16 [of "input @ zeros (len - length input)" k] len k by auto
  have "128 - length input = (len - length input) + (128 - len)" using len by simp
  then have buf: "input @ zeros (128 - length input) = concat ps @ zeros (128 - len)"
    unfolding ps(1) [symmetric] by (simp add: zeros_add)
  have "make_passwd input secret vector =
      take len (make_passwd_loop (md5_secret secret) (fr_MD5Update (md5_secret secret) vector) (concat ps @ zeros (128 - len)) 0 len)"
    using assms buf by (simp add: make_passwd_def MAX_PASS_LEN_def Let_def md5_secret_def len_def)
  also have "\<dots> = take len (concat (chain_hide (md5_keyed secret) (md5_keyed secret vector) ps) @ zeros (128 - len))"
    using make_passwd_loop_chain [OF ps(3), of "[]" "md5_keyed secret vector" "fr_MD5Update (md5_secret secret) vector" secret] ps(2) k
    by (simp add: md5_keyed_def)
  also have "\<dots> = concat (chain_hide (md5_keyed secret) (md5_keyed secret vector) ps)"
    using concat_length16 [OF keyed.chain_hide_blocks [of "md5_keyed secret vector" ps secret]] ps k
    by (simp add: keyed.chain_hide_length)
  finally show thesis
    using that ps len k by (metis length_0_conv mult_zero_right neq0_conv)
qed

lemma rad_pwdecode_chain:
  assumes "\<forall>c \<in> set cs. length c = 16" "cs \<noteq> []" "16 * length cs \<le> 128" "length vector = 16"
  shows "rad_pwdecode (concat cs @ rest) (16 * length cs) secret vector =
    (let out = (concat (chain_unhide (md5_keyed secret) (md5_keyed secret vector) cs) @ rest)[16 * length cs := 0]
     in (out, strlen out))"
  using pwdecode_loop_chain [OF assms(1), of "[]" "md5_keyed secret vector" "md5_secret secret" vector secret rest] assms
  by (simp add: rad_pwdecode_def Let_def md5_secret_def [symmetric] md5_keyed_def)

lemma strlen_padded:
  assumes "0 \<notin> set pw" and "length pw \<le> n" and "n < n + length rest"
  shows "strlen ((pw @ zeros (n - length pw) @ rest)[n := 0]) = length pw"
    and "take (length pw) ((pw @ zeros (n - length pw) @ rest)[n := 0]) = pw"
proof -
  obtain r rs where r: "rest = r # rs" using assms(3) by (cases rest) auto
  have buf: "(pw @ zeros (n - length pw) @ rest)[n := 0] = pw @ zeros (n - length pw) @ 0 # rs"
    using assms(2) by (simp add: r list_update_append)
  show "take (length pw) ((pw @ zeros (n - length pw) @ rest)[n := 0]) = pw"
    unfolding buf by simp
  show "strlen ((pw @ zeros (n - length pw) @ rest)[n := 0]) = length pw"
  proof (cases "n - length pw")
    case 0
    then show ?thesis unfolding buf using strlen_append_nul [OF assms(1)] by simp
  next
    case (Suc m)
    then show ?thesis unfolding buf using strlen_append_nul [OF assms(1)] by (simp add: zeros_def)
  qed
qed

text \<open>C19: User-Password hiding is inverted by the receiver: a password of at most 128 bytes without
  NUL that \<open>make_passwd\<close> hides under a secret and a request authenticator is recovered by
  \<open>rad_pwdecode\<close> under the same secret and authenticator, in any 254-byte value buffer.\<close>

theorem user_password_roundtrip:
  assumes "length vector = 16" and "length pw \<le> 128" and "0 \<notin> set pw" and "length buf = 254"
    and "rad_pwdecode (memcpy_at buf 0 (make_passwd pw secret vector)) (length (make_passwd pw secret vector)) secret vector = (buf', n)"
  shows "n = length pw \<and> take n buf' = pw"
proof -
  obtain ps where ps: "\<forall>p \<in> set ps. length p = 16" "16 * length ps \<le> 128" "length pw \<le> 16 * length ps" "ps \<noteq> []"
    "concat ps = pw @ zeros (16 * length ps - length pw)"
    and enc: "make_passwd pw secret vector = concat (chain_hide (md5_keyed secret) (md5_keyed secret vector) ps)"
    using make_passwd_chain [OF assms(1,2), of secret] by blast
  define cs where "cs = chain_hide (md5_keyed secret) (md5_keyed secret vector) ps"
  have cs: "\<forall>c \<in> set cs. length c = 16" "length cs = length ps" "chain_unhide (md5_keyed secret) (md5_keyed secret vector) cs = ps"
    unfolding cs_def using keyed.chain_hide_blocks [OF length_md5_keyed ps(1)] ps(1)
    by (auto simp: keyed.chain_hide_length keyed.chain_roundtrip)
  define rest where "rest = drop (16 * length ps) buf"
  have len: "length (concat cs) = 16 * length ps" using concat_length16 [OF cs(1)] cs(2) by simp
  have rest: "0 < length rest" using ps(2) assms(4) by (simp add: rest_def)
  have "memcpy_at buf 0 (concat cs) = concat cs @ rest" by (simp add: memcpy_at_def rest_def len)
  then have "(buf', n) = rad_pwdecode (concat cs @ rest) (16 * length cs) secret vector"
    using assms(5) by (simp add: enc cs_def [symmetric] len cs(2))
  also have "\<dots> = (let out = (concat ps @ rest)[16 * length ps := 0] in (out, strlen out))"
    using rad_pwdecode_chain [OF cs(1), of vector rest secret] cs(2) ps(2,4) assms(1)
    by (cases "cs = []") (auto simp: cs(3))
  finally have "buf' = (pw @ zeros (16 * length ps - length pw) @ rest)[16 * length ps := 0]" "n = strlen buf'"
    by (simp_all add: Let_def ps(5))
  with strlen_padded [OF assms(3) ps(3), of rest] rest show ?thesis by simp
qed

theorem user_password_roundtrip_witness:
  "snd (rad_pwdecode (memcpy_at (zeros 254) 0 (make_passwd [98, 111, 98] [120, 121] (zeros 16)))
      (length (make_passwd [98, 111, 98] [120, 121] (zeros 16))) [120, 121] (zeros 16)) = 3"
  using user_password_roundtrip [of "zeros 16" "[98, 111, 98]" "zeros 254" "[120, 121]", OF _ _ _ _ prod.collapse [symmetric]]
  by simp

lemma length_tunnel_salt: "tunnel_salt s = (salt, s') \<Longrightarrow> length salt = 2"
  by (auto simp: tunnel_salt_def Let_def split: prod.splits)

lemma tunnel_room_props: "18 \<le> room \<Longrightarrow> tunnel_room room \<le> 239 \<and> 16 dvd (tunnel_room room + 1) \<and> 15 \<le> tunnel_room room"
proof -
  assume room: "18 \<le> room"
  define r where "r = (if 253 < room then 253 else room) - 2"
  have r: "16 \<le> r" "r \<le> 251" using room by (auto simp: r_def)
  have q: "r - r mod 16 = 16 * (r div 16)" by (simp add: minus_mod_eq_mult_div)
  have "1 \<le> r div 16" "r div 16 \<le> 15" using r by auto
  moreover have "tunnel_room room = r - r mod 16 - 1" by (simp add: tunnel_room_def Let_def r_def)
  ultimately have "tunnel_room room + 1 = 16 * (r div 16)" unfolding q by linarith
  with \<open>1 \<le> r div 16\<close> \<open>r div 16 \<le> 15\<close> show ?thesis by (intro conjI) (linarith, simp, linarith)
qed

text \<open>The hidden form of a tunnel password: salt, then the chained blocks of length octet, password
  and zero padding.\<close>

lemma make_tunnel_passwd_chain:
  assumes "length vector = 16" and "18 \<le> room" and "length pw \<le> tunnel_room room"
    and "make_tunnel_passwd pw room secret vector s = (enc, s')"
  obtains salt ps where "length salt = 2" "\<forall>p \<in> set ps. length p = 16" "16 * length ps \<le> 240"
    "length pw < 16 * length ps" "ps \<noteq> []"
    "concat ps = word_of_nat (length pw) # pw @ zeros (16 * length ps - length pw - 1)"
    "enc = salt @ concat (chain_hide (md5_keyed secret)
       (fst (fr_MD5Final (fr_MD5Update (fr_MD5Update (md5_secret secret) vector) salt))) ps)"
proof -
  obtain salt where salt: "tunnel_salt s = (salt, s')"
    using assms(4) by (auto simp: make_tunnel_passwd_def Let_def split: prod.splits)
  have sl: "length salt = 2" using salt by (rule length_tunnel_salt)
  define len where "len = round16 (length pw + 1)"
  have len: "16 dvd len" "length pw + 1 \<le> len" "len \<le> 240"
    using round16_props [of "length pw + 1"] round16_le [of "tunnel_room room + 1" "length pw + 1"]
      tunnel_room_props [OF assms(2)] assms(3) by (auto simp: len_def)
  then obtain k where k: "len = 16 * k" by blast
  define body where "body = word_of_nat (length pw) # pw @ zeros (len - length pw - 1)"
  have "length body = 16 * k" using len k by (simp add: body_def)
  then obtain ps where ps: "body = concat ps" "length ps = k" "\<forall>p \<in> set ps. length p = 16"
    using split16 by blast
  define d where "d = fst (fr_MD5Final (fr_MD5Update (fr_MD5Update (md5_secret secret) vector) salt))"
  have dlen: "length d = 16" by (simp add: d_def)
  have "254 + 16 - 3 - length pw = (len - length pw - 1) + (268 - len)" using len by simp
  then have buf: "salt @ [word_of_nat (length pw)] @ pw @ zeros (254 + 16 - 3 - length pw) = salt @ concat ps @ zeros (268 - len)"
    unfolding ps(1) [symmetric] body_def by (simp add: zeros_add)
  have "enc = take (len + 2) (tunnel_loop (md5_secret secret) (fr_MD5Update (fr_MD5Update (md5_secret secret) vector) salt)
      (salt @ concat ps @ zeros (268 - len)) 0 len)"
    using assms salt sl buf
    by (simp add: make_tunnel_passwd_def Let_def md5_secret_def len_def bslice_def)
  also have "\<dots> = take (len + 2) (salt @ concat (chain_hide (md5_keyed secret) d ps) @ zeros (268 - len))"
    using make_passwd_loop_chain [OF ps(3), of "[]" d "fr_MD5Update (fr_MD5Update (md5_secret secret) vector) salt" secret] ps(2) k sl
    by (simp add: tunnel_loop_eq d_def)
  also have "\<dots> = salt @ concat (chain_hide (md5_keyed secret) d ps)"
    using concat_length16 [OF keyed.chain_hide_blocks [OF dlen ps(3)], of secret] ps(2) k sl
    by (simp add: keyed.chain_hide_length)
  finally have enc: "enc = salt @ concat (chain_hide (md5_keyed secret) d ps)" .
  have "ps \<noteq> []" using len k ps(2) by auto
  with that [OF sl ps(3)] enc len k ps show thesis by (simp add: body_def d_def)
qed

text \<open>C20: Tunnel-Password hiding is inverted by the receiver: whatever salt the random pool and the
  counter give, a password that fits the attribute is recovered by \<open>rad_tunnel_pwdecode\<close> under
  the same secret and request authenticator.\<close>

theorem tunnel_password_roundtrip:
  assumes "length vector = 16" and "18 \<le> room" and "length pw \<le> tunnel_room room"
    and "make_tunnel_passwd pw room secret vector s = (enc, s')" and "length buf = 254"
  shows "\<exists>buf'. rad_tunnel_pwdecode (memcpy_at buf 0 enc) (length enc) secret vector = Some (buf', length pw)
    \<and> take (length pw) buf' = pw"
proof -
  obtain salt ps where salt: "length salt = 2" and ps: "\<forall>p \<in> set ps. length p = 16" "16 * length ps \<le> 240"
    "length pw < 16 * length ps" "ps \<noteq> []"
    "concat ps = word_of_nat (length pw) # pw @ zeros (16 * length ps - length pw - 1)"
    and enc: "enc = salt @ concat (chain_hide (md5_keyed secret)
       (fst (fr_MD5Final (fr_MD5Update (fr_MD5Update (md5_secret secret) vector) salt))) ps)"
    using make_tunnel_passwd_chain [OF assms(1-4)] by blast
  define ctx where "ctx = fr_MD5Update (fr_MD5Update (md5_secret secret) vector) salt"
  define d cs where "d = fst (fr_MD5Final ctx)" and "cs = chain_hide (md5_keyed secret) d ps"
  have dlen: "length d = 16" by (simp add: d_def)
  have cs: "\<forall>c \<in> set cs. length c = 16" "length cs = length ps" "chain_unhide (md5_keyed secret) d cs = ps"
    unfolding cs_def using keyed.chain_hide_blocks [OF dlen ps(1)] ps(1) dlen
    by (auto simp: keyed.chain_hide_length keyed.chain_roundtrip)
  then obtain c cs' where cc: "cs = c # cs'" using ps(4) by (cases cs) auto
  obtain p ps' where pp: "ps = p # ps'" and p: "p = xor_bytes c d" using cs(3) by (auto simp: cc)
  have "length pw \<le> 239" using ps(2,3) by simp
  have p0: "p ! 0 = word_of_nat (length pw)"
  proof -
    have "p ! 0 = concat ps ! 0" using ps(1) pp by (simp add: nth_append)
    then show ?thesis by (simp add: ps(5))
  qed
  have rl: "unat (xor_bytes c d ! 0) = length pw"
    using p0 \<open>length pw \<le> 239\<close> unfolding p [symmetric] by (simp add: unat_byte_of_nat)
  have clen: "length (concat cs) = 16 * length ps" using concat_length16 [OF cs(1)] cs(2) by simp
  define rest where "rest = drop (2 + 16 * length ps) buf"
  have mem: "memcpy_at buf 0 enc = salt @ concat cs @ rest"
    by (simp add: memcpy_at_def enc rest_def ctx_def [symmetric] d_def [symmetric] cs_def [symmetric] salt clen)
  have elen: "length enc = 16 * length ps + 2"
    by (simp add: enc ctx_def [symmetric] d_def [symmetric] cs_def [symmetric] salt clen)
  obtain junk where junk: "length junk = 3"
    "tunnel_pwdecode_loop (md5_secret secret) ctx (salt @ concat cs @ rest) 0 0 (16 * length ps)
      = Some (drop 1 (concat ps) @ junk @ rest, length pw)"
    using tunnel_pwdecode_loop_first [of salt c cs' d ctx "16 * length ps" secret rest 0] salt cs ps(3) rl
    unfolding cc d_def by auto
  have "1 \<le> length ps" using ps(4) by (simp add: Suc_leI)
  then have many: "\<not> 16 * length ps \<le> Suc 0" by simp
  have "rad_tunnel_pwdecode (memcpy_at buf 0 enc) (length enc) secret vector
     = Some ((drop 1 (concat ps) @ junk @ rest)[length pw := 0], length pw)"
    using junk ps(3) \<open>length pw \<le> 239\<close> salt assms(1) many
    by (simp add: rad_tunnel_pwdecode_def mem elen Let_def md5_secret_def [symmetric] bslice_def ctx_def)
  moreover have "take (length pw) ((drop 1 (concat ps) @ junk @ rest)[length pw := 0]) = pw"
    by (simp add: ps(5) take_update_cancel)
  ultimately show ?thesis by blast
qed

theorem tunnel_password_roundtrip_witness:
  "\<exists>buf'. rad_tunnel_pwdecode (memcpy_at (zeros 254) 0 (fst (make_tunnel_passwd [98, 111, 98] 250 [120, 121] (zeros 16) (lib_start 0 0))))
      (length (fst (make_tunnel_passwd [98, 111, 98] 250 [120, 121] (zeros 16) (lib_start 0 0)))) [120, 121] (zeros 16) = Some (buf', 3)
    \<and> take 3 buf' = [98, 111, 98]"
  using tunnel_password_roundtrip [of "zeros 16" 250 "[98, 111, 98]" "[120, 121]" "lib_start 0 0" _ _ "zeros 254", OF _ _ _ prod.collapse [symmetric]]
  by (simp add: tunnel_room_def numeral_3_eq_3)

end
