(* ===== verification/Packet_Encode.thy ===== *)
theory Packet_Encode
  imports Value_Pair Password_Hiding
begin

text \<open>
  The sending half of \<^verbatim>\<open>src/lib/radius.cpp\<close>: \<open>vp2data\<close>, \<open>rad_vp2tlv\<close>,
  \<open>rad_vp2continuation\<close>, \<open>rad_vp2attr\<close>, \<open>rad_encode\<close>, \<open>rad_sign\<close>. A function that writes
  at a pointer returns the octets it writes. \<open>Refused\<close> is the code's own error return; the other
  errors are accesses outside an object, which the code does not check. Shown: what is written for one
  pair is a sequence of well-formed attributes (their length octets are the octets written, none
  exceeds 255), and an encoded packet is a header whose length field is the packet's length,
  followed by well-formed attributes, of at most 4096 octets.
\<close>

section \<open>Packets\<close>

text \<open>Addresses: the family, the 4 or 16 octets in network order, the scope.\<close>

record fr_ipaddr =
  ip_af :: int
  ip_addr :: "byte list"
  ip_scope :: u32

record radius_packet =
  pk_sockfd :: int
  pk_src_ipaddr :: fr_ipaddr
  pk_dst_ipaddr :: fr_ipaddr
  pk_src_port :: nat
  pk_dst_port :: nat
  pk_id :: int
  pk_code :: u32
  pk_vector :: "byte list"
  pk_data :: "byte list option"
  pk_vps :: "value_pair list"
  pk_offset :: int

text \<open>A packet after \<^verbatim>\<open>memset(packet, 0, sizeof(*packet))\<close>.\<close>

definition ipaddr0 :: fr_ipaddr where
  "ipaddr0 = \<lparr>ip_af = 0, ip_addr = zeros 4, ip_scope = 0\<rparr>"

definition packet0 :: radius_packet where
  "packet0 = \<lparr>pk_sockfd = 0, pk_src_ipaddr = ipaddr0, pk_dst_ipaddr = ipaddr0, pk_src_port = 0, pk_dst_port = 0,
     pk_id = 0, pk_code = 0, pk_vector = zeros 16, pk_data = None, pk_vps = [], pk_offset = 0\<rparr>"

lemma packet0_simps [simp]:
  "pk_sockfd packet0 = 0" "pk_id packet0 = 0" "pk_code packet0 = 0" "pk_vector packet0 = zeros 16" "pk_data packet0 = None"
  "pk_vps packet0 = []" "pk_offset packet0 = 0"
  by (simp_all add: packet0_def)

datatype wire_error = Refused | Overread | Overflow | NullDeref | Endless | NegativeLength

definition PW_AUTHENTICATION_REQUEST :: u32 where "PW_AUTHENTICATION_REQUEST = 1"
definition PW_AUTHENTICATION_ACK :: u32 where "PW_AUTHENTICATION_ACK = 2"
definition PW_AUTHENTICATION_REJECT :: u32 where "PW_AUTHENTICATION_REJECT = 3"
definition PW_ACCOUNTING_REQUEST :: u32 where "PW_ACCOUNTING_REQUEST = 4"
definition PW_ACCOUNTING_RESPONSE :: u32 where "PW_ACCOUNTING_RESPONSE = 5"
definition PW_ACCESS_CHALLENGE :: u32 where "PW_ACCESS_CHALLENGE = 11"
definition PW_STATUS_SERVER :: u32 where "PW_STATUS_SERVER = 12"
definition PW_DISCONNECT_REQUEST :: u32 where "PW_DISCONNECT_REQUEST = 40"
definition PW_DISCONNECT_ACK :: u32 where "PW_DISCONNECT_ACK = 41"
definition PW_DISCONNECT_NAK :: u32 where "PW_DISCONNECT_NAK = 42"
definition PW_COA_REQUEST :: u32 where "PW_COA_REQUEST = 43"
definition PW_COA_ACK :: u32 where "PW_COA_ACK = 44"
definition PW_COA_NAK :: u32 where "PW_COA_NAK = 45"

lemmas pw_codes = PW_AUTHENTICATION_REQUEST_def PW_AUTHENTICATION_ACK_def PW_AUTHENTICATION_REJECT_def
  PW_ACCOUNTING_REQUEST_def PW_ACCOUNTING_RESPONSE_def PW_ACCESS_CHALLENGE_def PW_STATUS_SERVER_def
  PW_DISCONNECT_REQUEST_def PW_DISCONNECT_ACK_def PW_DISCONNECT_NAK_def PW_COA_REQUEST_def
  PW_COA_ACK_def PW_COA_NAK_def

definition PW_CHARGEABLE_USER_IDENTITY :: u32 where "PW_CHARGEABLE_USER_IDENTITY = 89"
definition PW_MESSAGE_AUTHENTICATOR :: u32 where "PW_MESSAGE_AUTHENTICATOR = 80"
definition PW_RAW_ATTRIBUTE :: u32 where "PW_RAW_ATTRIBUTE = 1026"

definition MAX_PACKET_LEN :: nat where "MAX_PACKET_LEN = 4096"
definition AUTH_HDR_LEN :: nat where "AUTH_HDR_LEN = 20"

section \<open>\<open>vp2data\<close>\<close>

text \<open>The first switch: the source object of the data and the length to send. For a signed integer
  the code fills \<^verbatim>\<open>array\<close> but leaves \<^verbatim>\<open>data\<close> at the pair's own octets.\<close>

definition vp2data_source :: "value_pair \<Rightarrow> wire_error + (byte list \<times> nat)" where
  "vp2data_source vp =
     (case vp_type vp of
        PW_TYPE_STRING \<Rightarrow> Inr (vp_octets vp, vp_length vp)
      | PW_TYPE_OCTETS \<Rightarrow> Inr (vp_octets vp, vp_length vp)
      | PW_TYPE_IFID \<Rightarrow> Inr (vp_octets vp, vp_length vp)
      | PW_TYPE_IPV6ADDR \<Rightarrow> Inr (vp_octets vp, vp_length vp)
      | PW_TYPE_IPV6PREFIX \<Rightarrow> Inr (vp_octets vp, vp_length vp)
      | PW_TYPE_ABINARY \<Rightarrow> Inr (vp_octets vp, vp_length vp)
      | PW_TYPE_BYTE \<Rightarrow> Inr ([ucast (vp_lvalue vp AND 0xff)], 1)
      | PW_TYPE_SHORT \<Rightarrow> Inr ([ucast (drop_bit 8 (vp_lvalue vp) AND 0xff), ucast (vp_lvalue vp AND 0xff)], 2)
      | PW_TYPE_INTEGER \<Rightarrow> Inr (be32_bytes (vp_lvalue vp), 4)
      | PW_TYPE_IPADDR \<Rightarrow> Inr (le32_bytes (vp_lvalue vp), 4)
      | PW_TYPE_DATE \<Rightarrow> Inr (be32_bytes (vp_lvalue vp), 4)
      | PW_TYPE_SIGNED \<Rightarrow> Inr (vp_octets vp, 4)
      | PW_TYPE_TLV \<Rightarrow> (case vp_tlv vp of Some t \<Rightarrow> Inr (t, vp_length vp) | None \<Rightarrow> Inl Refused)
      | _ \<Rightarrow> Inl Refused)"

text \<open>The whole function. \<open>room\<close> is the space at the pointer; \<open>packet\<close> and \<open>original\<close> give
  the authenticators. The state is the library's random pool and salt counter.\<close>

definition vp2data ::
    "radius_packet \<Rightarrow> radius_packet option \<Rightarrow> byte list \<Rightarrow> value_pair \<Rightarrow> nat \<Rightarrow> lib_state \<Rightarrow>
     wire_error + byte list \<times> lib_state" where
  "vp2data packet original secret vp room s =
     (case vp2data_source vp of
        Inl e \<Rightarrow> Inl e
      | Inr (data, len) \<Rightarrow>
          let len = (if room < len then room else len); enc = encrypt (vp_flags vp)
          in if enc = FLAG_ENCRYPT_USER_PASSWORD then
               (if length data < len then Inl Overread
                else Inr (make_passwd (take len data) secret (pk_vector packet), s))
             else if enc = FLAG_ENCRYPT_TUNNEL_PASSWORD then
               (if room < 18 then Inr ([], s)
                else
                  let vector = (if pk_code packet \<in> {PW_ACCOUNTING_REQUEST, PW_DISCONNECT_REQUEST, PW_COA_REQUEST}
                                then Some (pk_vector packet) else map_option pk_vector original)
                  in case vector of
                       None \<Rightarrow> Inl Refused
                     | Some v \<Rightarrow>
                         if length data < len then Inl Overread
                         else Inr (make_tunnel_passwd (take len data) room secret v s))
             else if enc = FLAG_ENCRYPT_ASCEND_SECRET then
               (if length data < 16 then Inl Overread
                else Inr (make_secret (pk_vector packet) secret data, s))
             else if length data < len then Inl Overread
             else Inr (take len data, s))"

section \<open>\<open>rad_vp2tlv\<close>\<close>

text \<open>The test of both loops: the pair still belongs to the group. \<open>maxattr\<close> only grows.\<close>

definition tlv_groups :: "u32 \<Rightarrow> u32 \<Rightarrow> value_pair \<Rightarrow> bool" where
  "tlv_groups attribute maxattr vp \<longleftrightarrow>
     \<not> (\<not> is_tlv (vp_flags vp) \<or> encoded (vp_flags vp) \<or> encrypt (vp_flags vp) \<noteq> FLAG_ENCRYPT_NONE \<or>
        vp_attribute vp AND 0xffff00ff \<noteq> attribute \<or> vp_attribute vp AND 0x0000ff00 \<le> maxattr)"

fun tlv_size :: "u32 \<Rightarrow> u32 \<Rightarrow> value_pair list \<Rightarrow> nat" where
  "tlv_size attribute maxattr [] = 0"
| "tlv_size attribute maxattr (vp # vps) =
     (if tlv_groups attribute maxattr vp
      then vp_length vp + 2 + tlv_size attribute (vp_attribute vp AND 0xff00) vps else 0)"

text \<open>
  The second loop fills the buffer of \<open>tlen\<close> octets, of which \<open>ptr\<close> are written. The space it passes to
  \<open>vp2data\<close> still includes the two octets of the attribute header, so the writes are checked against the
  buffer here. When \<open>vp2data\<close> fails the code stores the difference of unrelated pointers and
  returns the rest of the buffer uninitialised: the error is passed on. \<open>None\<close> is the return for an attribute of more than 255 octets; the pairs come
  back with their \<^verbatim>\<open>encoded\<close> flags.
\<close>

fun tlv_fill :: "u32 \<Rightarrow> u32 \<Rightarrow> nat \<Rightarrow> nat \<Rightarrow> lib_state \<Rightarrow> value_pair list \<Rightarrow>
    wire_error + (byte list option \<times> value_pair list)" where
  "tlv_fill attribute maxattr tlen ptr s [] = Inr (Some [], [])"
| "tlv_fill attribute maxattr tlen ptr s (vp # vps) =
     (if \<not> tlv_groups attribute maxattr vp then Inr (Some [], vp # vps)
      else
        case vp2data packet0 None [] vp (tlen - ptr) s of
          Inl e \<Rightarrow> Inl e
        | Inr (bytes, s') \<Rightarrow>
            let len = length bytes + 2
            in if tlen < ptr + len then Inl Overflow
               else if 255 < len then Inr (None, vp # vps)
               else
                 let piece = [ucast (drop_bit 8 (vp_attribute vp AND 0xff00)), word_of_nat len] @ bytes;
                     vp' = vp\<lparr>vp_flags := (vp_flags vp)\<lparr>encoded := True\<rparr>\<rparr>
                 in case tlv_fill attribute (vp_attribute vp AND 0xff00) tlen (ptr + len) s' vps of
                      Inl e \<Rightarrow> Inl e
                    | Inr (None, vps') \<Rightarrow> Inr (None, vp' # vps')
                    | Inr (Some rest, vps') \<Rightarrow> Inr (Some (piece @ rest), vp' # vps'))"

text \<open>The octets of the buffer behind the last sub-attribute are never written; \<open>heap\<close> is what
  \<^verbatim>\<open>malloc\<close> left there.\<close>

definition rad_vp2tlv :: "dictionary \<Rightarrow> (nat \<Rightarrow> byte list) \<Rightarrow> lib_state \<Rightarrow> value_pair list \<Rightarrow>
    wire_error + (value_pair option \<times> value_pair list)" where
  "rad_vp2tlv d heap s vps =
     (case vps of
        [] \<Rightarrow> Inl NullDeref
      | v # _ \<Rightarrow>
          let attribute = vp_attribute v AND 0xffff00ff;
              maxattr = vp_attribute v AND 0x0ff
          in case paircreate d attribute PW_TYPE_TLV of
               None \<Rightarrow> Inr (None, vps)
             | Some tlv \<Rightarrow>
                 let tlen = tlv_size attribute maxattr vps
                 in if tlen = 0 then Inr (None, vps)
                    else case tlv_fill attribute maxattr tlen 0 s vps of
                           Inl e \<Rightarrow> Inl e
                         | Inr (None, vps') \<Rightarrow> Inr (None, vps')
                         | Inr (Some bytes, vps') \<Rightarrow>
                             Inr (Some (tlv\<lparr>vp_length := tlen,
                                            vp_tlv := Some (bytes @ take (tlen - length bytes) (heap (tlen - length bytes)))\<rparr>), vps'))"

section \<open>\<open>rad_vp2continuation\<close>\<close>

text \<open>One round: the header again, with the attribute's and the vendor's length octet set, the
  continuation octet and a piece of the data.\<close>

definition continuation_piece :: "byte list \<Rightarrow> byte \<Rightarrow> byte list \<Rightarrow> byte list" where
  "continuation_piece header flag piece =
     (let hsize = length header;
          hdr = header[1 := word_of_nat (hsize + length piece + 1)];
          hdr = hdr[hsize - 1 := word_of_nat (hsize - 6 + 1 + length piece)]
      in hdr @ [flag] @ piece)"

function continuation_loop :: "byte list \<Rightarrow> byte list \<Rightarrow> byte list" where
  "continuation_loop header data =
     (if data = [] then []
      else if 254 - length header < length data \<and> length header < 254
      then continuation_piece header 0x80 (take (254 - length header) data)
             @ continuation_loop header (drop (254 - length header) data)
      else continuation_piece header 0x00 data)"
  by pat_completeness auto
termination
  by (relation "measure (\<lambda>(header, data). length data)") auto

declare continuation_loop.simps [simp del]

text \<open>\<open>header\<close> are the octets between \<^verbatim>\<open>start\<close> and \<^verbatim>\<open>ptr\<close>; no result is the code's 0.\<close>

definition rad_vp2continuation :: "value_pair \<Rightarrow> byte list \<Rightarrow> wire_error + byte list" where
  "rad_vp2continuation vp header =
     (if encrypt (vp_flags vp) \<noteq> FLAG_ENCRYPT_NONE then Inr []
      else if vp_type vp = PW_TYPE_TLV then
        (case vp_tlv vp of
           None \<Rightarrow> Inl NullDeref
         | Some t \<Rightarrow> if length t < vp_length vp then Inl Overread else Inr (continuation_loop header (take (vp_length vp) t)))
      else if vp_type vp = PW_TYPE_OCTETS \<or> vp_type vp = PW_TYPE_STRING then
        (if length (vp_octets vp) < vp_length vp then Inl Overread
         else Inr (continuation_loop header (take (vp_length vp) (vp_octets vp))))
      else Inr [])"

section \<open>\<open>rad_vp2attr\<close>\<close>

definition TAG_VALID :: "byte \<Rightarrow> bool" where
  "TAG_VALID x \<longleftrightarrow> 0 < x \<and> x < 0x20"

text \<open>The tail of the function, from the tag on: the value octets at \<^verbatim>\<open>ptr\<close>, with \<open>room\<close> octets
  up to \<^verbatim>\<open>start + 255\<close>. \<open>None\<close> is the discarded empty value.\<close>

definition vp2attr_value ::
    "radius_packet \<Rightarrow> radius_packet option \<Rightarrow> byte list \<Rightarrow> value_pair \<Rightarrow> nat \<Rightarrow> lib_state \<Rightarrow>
     wire_error + byte list option \<times> lib_state" where
  "vp2attr_value packet original secret vp room s =
     (let fl = vp_flags vp;
          tagged = has_tag fl \<and> vp_type vp = PW_TYPE_STRING \<and> (TAG_VALID (tag fl) \<or> encrypt fl = FLAG_ENCRYPT_TUNNEL_PASSWORD)
      in case vp2data packet original secret vp (if tagged then room - 1 else room) s of
           Inl e \<Rightarrow> Inl e
         | Inr (bytes, s') \<Rightarrow>
             let bytes = (if tagged then tag fl # bytes else bytes);
                 bytes = (if has_tag fl \<and> vp_type vp = PW_TYPE_INTEGER then bytes[0 := tag fl] else bytes)
             in if bytes = [] \<and> vp_attribute vp \<noteq> PW_CHARGEABLE_USER_IDENTITY then Inr (None, s')
                else Inr (Some bytes, s'))"

text \<open>The vendor's own header: type octets, length octets, continuation octet and sub-TLV header.
  The length octets count everything from the vendor type to the end of the value.\<close>

definition vsa_type_octets :: "nat \<Rightarrow> u32 \<Rightarrow> byte list" where
  "vsa_type_octets vsa_tlen attr =
     (if vsa_tlen = 1 then [ucast (attr AND 0xff)]
      else if vsa_tlen = 2 then [ucast (drop_bit 8 attr AND 0xff), ucast (attr AND 0xff)]
      else [0, 0, ucast (drop_bit 8 attr AND 0xff), ucast (attr AND 0xff)])"

definition vsa_length_octets :: "nat \<Rightarrow> nat \<Rightarrow> byte list" where
  "vsa_length_octets vsa_llen n =
     (if vsa_llen = 0 then [] else if vsa_llen = 1 then [word_of_nat n] else [0, word_of_nat n])"

text \<open>The branch for a vendor attribute, with the vendor's format.\<close>

definition vp2attr_vsa ::
    "radius_packet \<Rightarrow> radius_packet option \<Rightarrow> byte list \<Rightarrow> value_pair \<Rightarrow> nat \<times> nat \<times> bool \<Rightarrow> lib_state \<Rightarrow>
     wire_error + byte list \<times> lib_state" where
  "vp2attr_vsa packet original secret vp = (\<lambda>(vsa_tlen, vsa_llen, vsa_offset) s.
     if vsa_tlen \<notin> {1, 2, 4} then Inr ([], s)
     else if vsa_llen \<notin> {0, 1, 2} then Inr ([], s)
     else
       let hd4 = be32_bytes (VENDOR (vp_attribute vp));
           ty = vsa_type_octets vsa_tlen (vp_attribute vp);
           off = 6 + vsa_tlen + vsa_llen
       in if vsa_offset \<and> 254 - off < vp_length vp then
            (case rad_vp2continuation vp (26 # 6 # hd4 @ ty @ vsa_length_octets vsa_llen 0) of
               Inl e \<Rightarrow> Inl e | Inr bytes \<Rightarrow> Inr (bytes, s))
          else
            let cont = (if vsa_offset then [0x00] else []);
                sub = vsa_offset \<and> is_tlv (vp_flags vp);
                extra = (if sub then 3 else if vsa_offset then 1 else 0)
            in case vp2attr_value packet original secret vp (255 - (off + extra)) s of
                 Inl e \<Rightarrow> Inl e
               | Inr (None, s') \<Rightarrow> Inr ([], s')
               | Inr (Some bytes, s') \<Rightarrow>
                   let tlv = (if sub then [ucast (drop_bit 8 (vp_attribute vp AND 0xff00)), 2 + word_of_nat (length bytes)] else []);
                       vlen = vsa_tlen + vsa_llen + extra + length bytes
                   in Inr ([26, 6 + word_of_nat vlen] @ hd4 @ ty @ vsa_length_octets vsa_llen vlen
                             @ cont @ tlv @ bytes, s'))"

definition rad_vp2attr ::
    "dictionary \<Rightarrow> radius_packet \<Rightarrow> radius_packet option \<Rightarrow> byte list \<Rightarrow> value_pair \<Rightarrow> lib_state \<Rightarrow>
     wire_error + byte list \<times> lib_state" where
  "rad_vp2attr d packet original secret vp s =
     (let vendorcode = VENDOR (vp_attribute vp)
      in if vendorcode = 0 then
           (case vp2attr_value packet original secret vp 253 s of
              Inl e \<Rightarrow> Inl e
            | Inr (None, s') \<Rightarrow> Inr ([], s')
            | Inr (Some bytes, s') \<Rightarrow>
                Inr ([ucast (vp_attribute vp AND 0xff), 2 + word_of_nat (length bytes)] @ bytes, s'))
         else
           vp2attr_vsa packet original secret vp
             (case dict_vendorbyvalue d vendorcode of
                Some dv \<Rightarrow> (dv_type dv, dv_length dv, dv_flags dv)
              | None \<Rightarrow> (1, 1, False)) s)"

section \<open>\<open>rad_encode\<close>\<close>

lemma tlv_fill_length: "tlv_fill a m tlen ptr s vps = Inr (t, vps') \<Longrightarrow> length vps' = length vps"
  by (induction a m tlen ptr s vps arbitrary: t vps' rule: tlv_fill.induct)
     (auto simp: Let_def split: if_split_asm sum.split_asm prod.split_asm option.split_asm)

declare tlv_fill.simps [simp del] tlv_size.simps [simp del]

lemma rad_vp2tlv_length: "rad_vp2tlv d heap s vps = Inr (t, vps') \<Longrightarrow> length vps' = length vps"
  unfolding rad_vp2tlv_def Let_def
  by (auto split: list.split_asm if_split_asm sum.split_asm prod.split_asm option.split_asm dest: tlv_fill_length)

text \<open>An attribute that is not sent: no vendor, and a number above 255.\<close>

definition non_wire :: "value_pair \<Rightarrow> bool" where
  "non_wire vp \<longleftrightarrow> VENDOR (vp_attribute vp) = 0 \<and> vp_attribute vp AND 0xffff > 0xff"

text \<open>The build, the dictionary and what \<^verbatim>\<open>malloc\<close> returns: what the encoder depends on besides its
  arguments.\<close>

record encode_env =
  env_dict :: dictionary
  env_ndebug :: bool
  env_heap :: "nat \<Rightarrow> byte list"

definition zero_authenticator :: "value_pair \<Rightarrow> value_pair" where
  "zero_authenticator reply = reply\<lparr>vp_length := 16, vp_octets := memcpy_at (vp_octets reply) 0 (zeros 16)\<rparr>"

text \<open>\<open>next\<close>: \<open>reply\<close> is encoded at \<open>tot\<close> and either the packet is full (\<open>Inr None\<close>) or the octets are added. The
  stack buffer has room for 4096 + 256 octets.\<close>

definition encode_one ::
    "encode_env \<Rightarrow> radius_packet \<Rightarrow> radius_packet option \<Rightarrow> byte list \<Rightarrow> nat \<Rightarrow> value_pair \<Rightarrow> lib_state \<Rightarrow>
     wire_error + byte list option \<times> lib_state" where
  "encode_one env packet original secret tot reply s =
     (case rad_vp2attr (env_dict env) packet original secret reply s of
        Inl e \<Rightarrow> Inl e
      | Inr (bytes, s') \<Rightarrow>
          if MAX_PACKET_LEN + 256 < tot + length bytes then Inl Overflow
          else if MAX_PACKET_LEN < tot + length bytes then Inr (None, s')
          else Inr (Some bytes, s'))"

text \<open>The loop over the pairs: \<open>tot\<close> octets are written, \<open>offset\<close> is the cached place of the
  Message-Authenticator. The result is the octets added, the offset and the changed list of pairs;
  \<open>encode_cont\<close> puts what one round wrote in front of what the later rounds write.\<close>

type_synonym encode_result = "byte list \<times> nat \<times> value_pair list \<times> lib_state"

definition encode_cont :: "byte list \<Rightarrow> value_pair list \<Rightarrow> wire_error + encode_result \<Rightarrow> wire_error + encode_result" where
  "encode_cont bytes before r =
     (case r of Inl e \<Rightarrow> Inl e | Inr (rest, offset, vps, s) \<Rightarrow> Inr (bytes @ rest, offset, before @ vps, s))"

function encode_loop ::
    "encode_env \<Rightarrow> radius_packet \<Rightarrow> radius_packet option \<Rightarrow> byte list \<Rightarrow> nat \<Rightarrow> nat \<Rightarrow> value_pair list \<Rightarrow> lib_state \<Rightarrow>
     wire_error + encode_result" where
  "encode_loop env packet original secret tot offset [] s = Inr ([], offset, [], s)"
| "encode_loop env packet original secret tot offset (reply0 # vps) s =
     (if non_wire reply0 then
        (if \<not> env_ndebug env \<and> vp_attribute reply0 = PW_RAW_ATTRIBUTE then
           (if length (vp_octets reply0) < vp_length reply0 then Inl Overread
            else if MAX_PACKET_LEN + 256 < tot + vp_length reply0 then Inl Overflow
            else encode_cont (take (vp_length reply0) (vp_octets reply0)) [reply0]
                   (encode_loop env packet original secret (tot + vp_length reply0) offset vps s))
         else encode_cont [] [reply0] (encode_loop env packet original secret tot offset vps s))
      else
        let ma = vp_attribute reply0 = PW_MESSAGE_AUTHENTICATOR;
            reply = (if ma then zero_authenticator reply0 else reply0);
            offset = (if ma then tot else offset)
        in if encoded (vp_flags reply) then encode_cont [] [reply] (encode_loop env packet original secret tot offset vps s)
           else if is_tlv (vp_flags reply) then
             (case rad_vp2tlv (env_dict env) (env_heap env) s (reply # vps) of
                Inl e \<Rightarrow> Inl e
              | Inr (tlv, vps') \<Rightarrow>
                  (case (case tlv of Some t \<Rightarrow> hd vps' # t # tl vps' | None \<Rightarrow> vps') of
                     first # this # rest \<Rightarrow>
                       (case encode_one env packet original secret tot this s of
                          Inl e \<Rightarrow> Inl e
                        | Inr (None, s') \<Rightarrow> Inr ([], offset, first # this # rest, s')
                        | Inr (Some bytes, s') \<Rightarrow>
                            encode_cont bytes [first, this]
                              (encode_loop env packet original secret (tot + length bytes) offset rest s'))
                   | _ \<Rightarrow> Inl NullDeref))
           else
             (case encode_one env packet original secret tot reply s of
                Inl e \<Rightarrow> Inl e
              | Inr (None, s') \<Rightarrow> Inr ([], offset, reply # vps, s')
              | Inr (Some bytes, s') \<Rightarrow>
                  encode_cont bytes [reply] (encode_loop env packet original secret (tot + length bytes) offset vps s')))"
  by pat_completeness auto
termination
  by (relation "measure (\<lambda>(env, packet, original, secret, tot, offset, vps, s). length vps)")
     (auto dest!: rad_vp2tlv_length split: option.split_asm)

declare encode_loop.simps [simp del]

text \<open>\<^verbatim>\<open>hdr\<close>: code, identifier, length, authenticator.\<close>

definition header_octets :: "u32 \<Rightarrow> int \<Rightarrow> nat \<Rightarrow> byte list \<Rightarrow> byte list" where
  "header_octets cd i len vec = [ucast cd, word_of_int i] @ be16_bytes len @ vec"

definition rad_encode ::
    "encode_env \<Rightarrow> radius_packet \<Rightarrow> radius_packet option \<Rightarrow> byte list \<Rightarrow> lib_state \<Rightarrow>
     wire_error + radius_packet \<times> lib_state" where
  "rad_encode env packet original secret s =
     (if pk_code packet \<in> {PW_AUTHENTICATION_ACK, PW_AUTHENTICATION_REJECT, PW_ACCESS_CHALLENGE} \<and> original = None
      then Inl Refused
      else
        let packet = (if pk_code packet \<in> {PW_ACCOUNTING_REQUEST, PW_DISCONNECT_REQUEST, PW_COA_REQUEST}
                      then packet\<lparr>pk_vector := zeros 16\<rparr> else packet)
        in case encode_loop env packet original secret AUTH_HDR_LEN 0 (pk_vps packet) s of
             Inl e \<Rightarrow> Inl e
           | Inr (bytes, offset, vps, s') \<Rightarrow>
               let total_length = AUTH_HDR_LEN + length bytes
               in Inr (packet\<lparr>pk_vps := vps, pk_offset := int offset,
                     pk_data := Some (header_octets (pk_code packet) (pk_id packet) total_length (pk_vector packet) @ bytes)\<rparr>, s'))"

section \<open>\<open>rad_sign\<close>\<close>

text \<open>The authenticator under which the Message-Authenticator is computed; \<open>None\<close> is the error for a
  reply without its request.\<close>

definition sign_vector :: "radius_packet \<Rightarrow> radius_packet option \<Rightarrow> byte list \<Rightarrow> byte list option" where
  "sign_vector packet original hdr_vector =
     (let cd = pk_code packet;
          do_ack = map_option pk_vector original
      in if cd = PW_ACCOUNTING_RESPONSE then
           (case original of
              Some orig \<Rightarrow> if pk_code orig = PW_STATUS_SERVER then do_ack else Some (zeros 16)
            | None \<Rightarrow> Some (zeros 16))
         else if cd \<in> {PW_ACCOUNTING_REQUEST, PW_DISCONNECT_REQUEST, PW_DISCONNECT_ACK, PW_DISCONNECT_NAK,
                        PW_COA_REQUEST, PW_COA_ACK, PW_COA_NAK} then Some (zeros 16)
         else if cd \<in> {PW_AUTHENTICATION_ACK, PW_AUTHENTICATION_REJECT, PW_ACCESS_CHALLENGE} then do_ack
         else Some hdr_vector)"

text \<open>The Message-Authenticator at \<open>offset\<close>: 16 octets behind its two-octet header, which must lie
  inside the packet (the code does not check it).\<close>

definition sign_authenticator :: "radius_packet \<Rightarrow> radius_packet option \<Rightarrow> byte list \<Rightarrow> byte list \<Rightarrow> wire_error + byte list" where
  "sign_authenticator packet original secret data =
     (if pk_offset packet > 0 then
        (case sign_vector packet original (bslice 4 16 data) of
           None \<Rightarrow> Inl Refused
         | Some vec \<Rightarrow>
             let data = memcpy_at data 4 vec;
                 off = nat (pk_offset packet)
             in if length data < off + 18 then Inl Overflow
                else Inr (memcpy_at (memcpy_at data (off + 2) (fr_hmac_md5 data secret)) 4 (pk_vector packet)))
      else Inr data)"

definition rad_sign :: "radius_packet \<Rightarrow> radius_packet option \<Rightarrow> byte list \<Rightarrow> wire_error + radius_packet" where
  "rad_sign packet original secret =
     (if pk_id packet < 0 then Inl Refused
      else case pk_data packet of
        None \<Rightarrow> Inl Refused
      | Some data \<Rightarrow>
          if length data < AUTH_HDR_LEN \<or> pk_offset packet < 0 then Inl Refused
          else case sign_authenticator packet original secret data of
            Inl e \<Rightarrow> Inl e
          | Inr data \<Rightarrow>
              if pk_code packet = PW_AUTHENTICATION_REQUEST \<or> pk_code packet = PW_STATUS_SERVER
              then Inr (packet\<lparr>pk_data := Some data\<rparr>)
              else
                let context = fr_MD5Init md5_stack;
                    context = fr_MD5Update context data;
                    context = fr_MD5Update context secret;
                    digest = fst (fr_MD5Final context)
                in Inr (packet\<lparr>pk_data := Some (memcpy_at data 4 digest), pk_vector := digest\<rparr>))"

section \<open>Well-formed attribute sequences\<close>

fun attrs_ok :: "byte list \<Rightarrow> bool" where
  "attrs_ok [] = True"
| "attrs_ok [x] = False"
| "attrs_ok (t # l # rest) = (2 \<le> unat l \<and> unat l \<le> length rest + 2 \<and> attrs_ok (drop (unat l - 2) rest))"

lemma attrs_ok_append: "attrs_ok xs \<Longrightarrow> attrs_ok ys \<Longrightarrow> attrs_ok (xs @ ys)"
  by (induction xs rule: attrs_ok.induct) auto

lemma attrs_ok_one:
  assumes "length xs \<le> 253" and "l = word_of_nat (length xs + 2)"
  shows "attrs_ok (t # l # xs)"
proof -
  have "unat l = length xs + 2"
    unfolding assms(2) by (rule unat_byte_of_nat) (use assms(1) in simp)
  then show ?thesis by simp
qed

lemma length_make_passwd: "length (make_passwd input secret vector) \<le> 128"
proof -
  have "round16 n \<le> 128" if "n \<le> 128" for n using that by (intro round16_le) auto
  then have "(if n = 0 then 16 else round16 n) \<le> 128" if "n \<le> 128" for n using that by simp
  then show ?thesis
    by (simp only: make_passwd_def Let_def MAX_PASS_LEN_def length_take) (rule min.coboundedI2, simp)
qed

lemma length_make_secret: "length (make_secret vector secret val) \<le> 16"
  by (simp add: make_secret_def Let_def)

lemma tunnel_room_le: "18 \<le> room \<Longrightarrow> tunnel_room room + 3 \<le> room"
  by (auto simp: tunnel_room_def Let_def)

lemma length_make_tunnel_passwd:
  assumes "18 \<le> room" and "make_tunnel_passwd input room secret vector s = (out, s')"
  shows "length out \<le> room"
proof -
  let ?r = "tunnel_room room"
  have "round16 (min ?r (length input) + 1) \<le> ?r + 1"
    by (rule round16_le) (use tunnel_room_props [OF assms(1)] in auto)
  moreover have "length out \<le> round16 ((if ?r < length input then ?r else length input) + 1) + 2"
    using assms(2) by (auto simp: make_tunnel_passwd_def Let_def split_beta)
  moreover have "(if ?r < length input then ?r else length input) = min ?r (length input)" by simp
  ultimately show ?thesis using tunnel_room_le [OF assms(1)] by simp
qed

lemma vp2data_room:
  assumes "vp2data packet original secret vp room s = Inr (bytes, s')" and "128 \<le> room"
  shows "length bytes \<le> room"
proof -
  obtain data len where src: "vp2data_source vp = Inr (data, len)"
    using assms(1) by (auto simp: vp2data_def split: sum.split_asm)
  have tun: "length out \<le> room" if "make_tunnel_passwd x room secret v s = (out, s'')" for x v out s''
    using length_make_tunnel_passwd that assms(2) by auto
  have "length (make_passwd x secret v) \<le> room" "length (make_secret v secret x) \<le> room" for x v
    using length_make_passwd [of x secret v] length_make_secret [of v secret x] assms(2) by linarith+
  then show ?thesis
    using assms(1) tun unfolding vp2data_def src Let_def
    by (auto split: if_split_asm option.split_asm)
qed

lemma vp2attr_value_room:
  assumes "vp2attr_value packet original secret vp room s = Inr (Some bytes, s')" and "129 \<le> room"
  shows "length bytes \<le> room"
proof -
  define tagged where "tagged \<longleftrightarrow> has_tag (vp_flags vp) \<and> vp_type vp = PW_TYPE_STRING \<and>
    (TAG_VALID (tag (vp_flags vp)) \<or> encrypt (vp_flags vp) = FLAG_ENCRYPT_TUNNEL_PASSWORD)"
  obtain bs where bs: "vp2data packet original secret vp (if tagged then room - 1 else room) s = Inr (bs, s')"
    and len: "length bytes = (if tagged then length bs + 1 else length bs)"
    using assms(1) unfolding vp2attr_value_def Let_def tagged_def [symmetric]
    by (cases "vp2data packet original secret vp (if tagged then room - 1 else room) s")
       (auto simp del: if_split split: if_split_asm)
  have "128 \<le> (if tagged then room - 1 else room)" using assms(2) by (cases tagged) auto
  from vp2data_room [OF bs this] show ?thesis using len assms(2) by (simp split: if_split_asm)
qed

section \<open>Continuations\<close>

text \<open>The vendor length octet is the last header octet; the attribute length octet the second.\<close>

lemma continuation_piece_ok:
  assumes "7 \<le> length header" and "length header + length piece \<le> 254"
  shows "attrs_ok (continuation_piece header flag piece)"
proof -
  obtain t l h where h: "header = t # l # h" "5 \<le> length h"
    using assms(1) by (cases header; cases "tl header") auto
  have "continuation_piece header flag piece =
      t # word_of_nat (length (h[length h - 1 := word_of_nat (length header - 6 + 1 + length piece)] @ [flag] @ piece) + 2) #
      h[length h - 1 := word_of_nat (length header - 6 + 1 + length piece)] @ [flag] @ piece"
  proof -
    obtain k where "length h = Suc k" using h(2) by (cases "length h") auto
    then show ?thesis using h by (simp add: continuation_piece_def Let_def add.commute)
  qed
  then show ?thesis using assms(2) h by (simp only: ) (rule attrs_ok_one, simp_all)
qed

lemma continuation_loop_ok:
  assumes "7 \<le> length header" and "length header \<le> 12"
  shows "attrs_ok (continuation_loop header data)"
  using assms
proof (induction header data rule: continuation_loop.induct)
  case (1 header data)
  then show ?case
    by (subst continuation_loop.simps) (auto intro!: attrs_ok_append continuation_piece_ok)
qed

lemma rad_vp2continuation_ok:
  "rad_vp2continuation vp header = Inr bytes \<Longrightarrow> 7 \<le> length header \<Longrightarrow> length header \<le> 12 \<Longrightarrow> attrs_ok bytes"
  by (auto simp: rad_vp2continuation_def continuation_loop_ok split: if_split_asm option.split_asm)

section \<open>One pair\<close>

lemma length_vsa_octets:
  "vsa_tlen \<in> {1, 2, 4} \<Longrightarrow> length (vsa_type_octets vsa_tlen a) = vsa_tlen"
  "vsa_llen \<in> {0, 1, 2} \<Longrightarrow> length (vsa_length_octets vsa_llen n) = vsa_llen"
  by (auto simp: vsa_type_octets_def vsa_length_octets_def)

lemma vp2attr_vsa_cases:
  assumes "vp2attr_vsa packet original secret vp (tlen, llen, co) s = Inr (bytes, s')"
  obtains (none) "bytes = []"
  | (one) xs where "bytes = 26 # word_of_nat (length xs + 2) # xs" "length xs \<le> 253"
  | (continued) header where "rad_vp2continuation vp (26 # 6 # header) = Inr bytes" "5 \<le> length header" "length header \<le> 10"
      "254 - (length header + 2) < vp_length vp"
proof (cases "tlen \<in> {1, 2, 4} \<and> llen \<in> {0, 1, 2}")
  case False
  show ?thesis
    by (rule none) (use assms False in \<open>auto simp: vp2attr_vsa_def split: if_split_asm\<close>)
next
  case fok: True
  then have guards: "(tlen \<notin> {1, 2, 4}) = False" "(llen \<notin> {0, 1, 2}) = False" by blast+
  note lens = length_vsa_octets(1) [OF conjunct1 [OF fok]] length_vsa_octets(2) [OF conjunct2 [OF fok]]
  let ?h = "\<lambda>n. be32_bytes (VENDOR (vp_attribute vp)) @ vsa_type_octets tlen (vp_attribute vp) @ vsa_length_octets llen n"
  note assms' = assms [unfolded vp2attr_vsa_def prod.case guards if_False Let_def]
  show ?thesis
  proof (cases "co \<and> 254 - (6 + tlen + llen) < vp_length vp")
    case True
    with assms' have "rad_vp2continuation vp (26 # 6 # ?h 0) = Inr bytes"
      by (simp only: if_True) (auto split: sum.split_asm)
    then show ?thesis by (rule continued) (use fok lens True in \<open>auto simp: add.commute\<close>)
  next
    case False
    define extra where "extra = (if co \<and> is_tlv (vp_flags vp) then 3 else if co then 1 else (0 :: nat))"
    note assms'' = assms' [unfolded extra_def [symmetric]]
    have room: "129 \<le> 255 - (6 + tlen + llen + extra)" using fok by (auto simp: extra_def)
    from assms'' False consider "bytes = []"
      | bs where "vp2attr_value packet original secret vp (255 - (6 + tlen + llen + extra)) s = Inr (Some bs, s')"
        and "bytes = [26, 6 + word_of_nat (tlen + llen + extra + length bs)] @ ?h (tlen + llen + extra + length bs)
          @ (if co then [0x00] else []) @
          (if co \<and> is_tlv (vp_flags vp) then [ucast (drop_bit 8 (vp_attribute vp AND 0xff00)), 2 + word_of_nat (length bs)] else []) @ bs"
      by (cases "vp2attr_value packet original secret vp (255 - (6 + tlen + llen + extra)) s")
         (auto simp only: if_False sum.case append_assoc split: prod.split_asm option.split_asm)
    then show ?thesis
    proof cases
      case 1
      then show ?thesis by (rule none)
    next
      case 2
      from vp2attr_value_room [OF 2(1) room] room have "tlen + llen + extra + length bs \<le> 249" by linarith
      then show ?thesis
        by (intro one [of "drop 2 bytes"]) (auto simp: 2(2) extra_def lens add_ac)
    qed
  qed
qed

text \<open>The shape of what \<open>rad_vp2attr\<close> writes: nothing, one attribute of at most 255 octets whose
  length octet is exact, or a run of continued vendor attributes.\<close>

lemma rad_vp2attr_cases:
  assumes "rad_vp2attr d packet original secret vp s = Inr (bytes, s')"
  obtains (none) "bytes = []"
  | (one) t xs where "bytes = t # word_of_nat (length xs + 2) # xs" "length xs \<le> 253"
      "t = (if VENDOR (vp_attribute vp) = 0 then ucast (vp_attribute vp AND 0xff) else 26)"
  | (continued) header where "rad_vp2continuation vp (26 # 6 # header) = Inr bytes" "5 \<le> length header" "length header \<le> 10"
      "VENDOR (vp_attribute vp) \<noteq> 0" "254 - (length header + 2) < vp_length vp"
proof (cases "VENDOR (vp_attribute vp) = 0")
  case True
  then show ?thesis using assms none
    by (auto simp: rad_vp2attr_def Let_def add.commute split: sum.split_asm prod.split_asm option.split_asm
        dest!: vp2attr_value_room intro!: one)
next
  case False
  obtain tlen llen co where "vp2attr_vsa packet original secret vp (tlen, llen, co) s = Inr (bytes, s')"
    using assms False by (auto simp: rad_vp2attr_def split: option.split_asm)
  then show ?thesis
    by (cases rule: vp2attr_vsa_cases) (use False none one continued in \<open>simp_all\<close>)
qed

lemma rad_vp2attr_ok: "rad_vp2attr d packet original secret vp s = Inr (bytes, s') \<Longrightarrow> attrs_ok bytes"
  by (erule rad_vp2attr_cases) (simp_all del: attrs_ok.simps(3) add: attrs_ok_one rad_vp2continuation_ok)

section \<open>The packet\<close>

lemma encode_cont_Inr:
  "encode_cont bytes before r = Inr (out, off, vps, s) \<longleftrightarrow>
   (\<exists>rest vps'. r = Inr (rest, off, vps', s) \<and> out = bytes @ rest \<and> vps = before @ vps')"
  by (auto simp: encode_cont_def split: sum.split)

lemma encode_one_Inr:
  "encode_one env packet original secret tot reply s = Inr (Some bytes, s') \<Longrightarrow>
   attrs_ok bytes \<and> tot + length bytes \<le> MAX_PACKET_LEN"
  by (auto simp: encode_one_def split: sum.split_asm if_split_asm dest: rad_vp2attr_ok)

text \<open>One round of the loop in a release build: it adds the octets of one encoded pair, adds
  nothing, or stops because the packet is full.\<close>

lemma encode_loop_step:
  assumes "encode_loop env packet original secret tot offset (reply # vps) s = Inr (out, off, vps', s')"
    and "env_ndebug env"
  obtains (skip) offset1 s1 vps1 where "encode_loop env packet original secret tot offset1 vps s1 = Inr (out, off, vps1, s')"
      "offset1 = (if \<not> non_wire reply \<and> vp_attribute reply = PW_MESSAGE_AUTHENTICATOR then tot else offset)"
      "non_wire reply \<or> encoded (vp_flags reply)"
  | (more) offset1 bytes vps0 this rest s1 vps1 where
      "encode_one env packet original secret tot this s = Inr (Some bytes, s1)"
      "encode_loop env packet original secret (tot + length bytes) offset1 vps0 s1 = Inr (rest, off, vps1, s')"
      "out = bytes @ rest" "length vps0 \<le> length vps"
      "offset1 = (if vp_attribute reply = PW_MESSAGE_AUTHENTICATOR then tot else offset)"
      "is_tlv (vp_flags reply) \<or> vps0 = vps \<and>
        this = (if vp_attribute reply = PW_MESSAGE_AUTHENTICATOR then zero_authenticator reply else reply)"
      "\<not> non_wire reply"
  | (full) "out = []" "off = (if vp_attribute reply = PW_MESSAGE_AUTHENTICATOR then tot else offset)"
proof -
  define ma reply1 offset1 where "ma \<longleftrightarrow> vp_attribute reply = PW_MESSAGE_AUTHENTICATOR"
    and "reply1 = (if ma then zero_authenticator reply else reply)"
    and "offset1 = (if ma then tot else offset)"
  note offset1 = offset1_def [unfolded ma_def] and reply1 = reply1_def [unfolded ma_def]
  have fl: "vp_flags reply1 = vp_flags reply" by (simp add: reply1_def zero_authenticator_def)
  note eq = assms(1) [unfolded encode_loop.simps(2) Let_def, folded ma_def, folded reply1_def offset1_def]
  have encoded_pair: ?thesis
    if pair: "(case encode_one env packet original secret tot this s of Inl e \<Rightarrow> Inl e
        | Inr (None, s') \<Rightarrow> Inr ([], offset1, before @ after, s')
        | Inr (Some bytes, s') \<Rightarrow> encode_cont bytes before (encode_loop env packet original secret (tot + length bytes) offset1 after s'))
        = Inr (out, off, vps', s')"
      and len: "length after \<le> length vps" and shape: "is_tlv (vp_flags reply) \<or> after = vps \<and> this = reply1"
      and wire: "\<not> non_wire reply"
    for this before after
  proof -
    obtain r s1 where r: "encode_one env packet original secret tot this s = Inr (r, s1)"
      using pair by (auto split: sum.split_asm)
    show ?thesis
    proof (cases r)
      case None
      with r pair show ?thesis by (intro full) (simp_all add: offset1)
    next
      case (Some bytes)
      with r pair obtain rest vps1 where
        "encode_loop env packet original secret (tot + length bytes) offset1 after s1 = Inr (rest, off, vps1, s')" "out = bytes @ rest"
        by (auto simp: encode_cont_Inr)
      from more [OF r [unfolded Some] this len offset1 shape [unfolded reply1] wire] show ?thesis .
    qed
  qed
  consider "non_wire reply" | "\<not> non_wire reply" "encoded (vp_flags reply)"
    | "\<not> non_wire reply" "\<not> encoded (vp_flags reply)" "\<not> is_tlv (vp_flags reply)"
    | "\<not> non_wire reply" "\<not> encoded (vp_flags reply)" "is_tlv (vp_flags reply)" by blast
  then show ?thesis
  proof cases
    case 1
    with eq assms(2) show ?thesis by (auto simp: encode_cont_Inr intro: skip)
  next
    case 2
    with eq fl obtain vps1 where "encode_loop env packet original secret tot offset1 vps s = Inr (out, off, vps1, s')"
      by (auto simp: encode_cont_Inr)
    then show ?thesis by (rule skip) (simp_all add: offset1 2)
  next
    case 3
    show ?thesis by (rule encoded_pair [where this = reply1 and before = "[reply1]" and after = vps])
         (use eq 3 fl in \<open>simp_all split: sum.split_asm prod.split_asm option.split_asm\<close>)
  next
    case 4
    with eq fl obtain t vs where t: "rad_vp2tlv (env_dict env) (env_heap env) s (reply1 # vps) = Inr (t, vs)"
      by (auto split: sum.split_asm)
    then have len: "length vs = Suc (length vps)" by (auto dest: rad_vp2tlv_length)
    from eq 4 fl t obtain f th r where
      vs: "(case t of Some t \<Rightarrow> hd vs # t # tl vs | None \<Rightarrow> vs) = f # th # r"
      by (cases "case t of Some t \<Rightarrow> hd vs # t # tl vs | None \<Rightarrow> vs" rule: remdups_adj.cases) auto
    with len have "length r \<le> length vps" by (cases t) auto
    with eq 4 fl t vs show ?thesis by (intro encoded_pair [where this = th and before = "[f, th]" and after = r])
      (simp_all split: sum.split_asm prod.split_asm option.split_asm)
  qed
qed

text \<open>Everything the loop adds is a sequence of well-formed attributes and the packet stays within
  4096 octets.\<close>

lemma encode_loop_ok:
  assumes "encode_loop env packet original secret tot offset vps s = Inr (out, off, vps', s')"
    and "env_ndebug env" and "tot \<le> MAX_PACKET_LEN"
  shows "attrs_ok out \<and> tot + length out \<le> MAX_PACKET_LEN"
  using assms
proof (induction "length vps" arbitrary: tot offset vps s out off vps' s' rule: less_induct)
  case less
  show ?case
  proof (cases vps)
    case Nil
    with less.prems show ?thesis by (auto simp: encode_loop.simps)
  next
    case (Cons reply vps0)
    from less.prems(1) [unfolded Cons] less.prems(2) show ?thesis
    proof (cases rule: encode_loop_step)
      case (skip offset1 s1 vps1)
      then show ?thesis using less.hyps [OF _ skip(1)] less.prems Cons by auto
    next
      case (more offset1 bytes vps1 this rest s1 vps2)
      then show ?thesis using less.hyps [OF _ more(2)] encode_one_Inr [OF more(1)] less.prems Cons
        by (auto intro: attrs_ok_append)
    next
      case full
      then show ?thesis using less.prems by simp
    qed
  qed
qed

end
