(* ===== verification/Packet_Verify.thy ===== *)
theory Packet_Verify
  imports Packet_Encode
begin

text \<open>
  The receiving checks of \<^verbatim>\<open>src/lib/radius.cpp\<close>: \<open>rad_packet_ok\<close> on the received octets and
  \<open>rad_verify\<close> with \<open>rad_digest_cmp\<close>, \<open>calc_acctdigest\<close> and \<open>calc_replydigest\<close> on the
  authenticators. The loop of \<open>rad_verify\<close> advances by a length octet it does not check, so it is a
  partial function: \<open>None\<close> is an endless loop and \<open>Overread\<close> an access behind the packet. Shown:
  \<open>rad_packet_ok\<close> accepts exactly the well-formed packets; after it \<open>rad_verify\<close> always returns
  and stays inside the packet; what \<open>rad_encode\<close> and \<open>rad_sign\<close> produce, \<open>rad_packet_ok\<close> and
  \<open>rad_verify\<close> accept under the same secret.
\<close>

section \<open>\<open>rad_packet_ok\<close>\<close>

definition FR_MAX_PACKET_CODE :: nat where "FR_MAX_PACKET_CODE = 52"

text \<open>The checks of the header against the received size; the result is the packet's length.\<close>

definition packet_ok_header :: "byte list \<Rightarrow> nat option" where
  "packet_ok_header data =
     (if length data < AUTH_HDR_LEN then None
      else if MAX_PACKET_LEN < length data then None
      else
        let totallen = be16 (data ! 2) (data ! 3)
        in if data ! 0 = 0 \<or> FR_MAX_PACKET_CODE \<le> unat (data ! 0) then None
           else if totallen < AUTH_HDR_LEN then None
           else if MAX_PACKET_LEN < totallen then None
           else if length data < totallen then None
           else Some totallen)"

text \<open>The walk over the attributes: \<^verbatim>\<open>require_ma\<close>, \<^verbatim>\<open>seen_ma\<close> and \<^verbatim>\<open>num_attributes\<close>.\<close>

fun packet_ok_loop :: "bool \<Rightarrow> bool \<Rightarrow> nat \<Rightarrow> byte list \<Rightarrow> (bool \<times> bool \<times> nat) option" where
  "packet_ok_loop require_ma seen_ma num_attributes [] = Some (require_ma, seen_ma, num_attributes)"
| "packet_ok_loop require_ma seen_ma num_attributes [_] = None"
| "packet_ok_loop require_ma seen_ma num_attributes (t # l # rest) =
     (if t = 0 then None
      else if l < 2 then None
      else if length rest + 2 < unat l then None
      else if t = 80 \<and> l \<noteq> 18 then None
      else packet_ok_loop (require_ma \<or> t = 79) (seen_ma \<or> t = 80) (num_attributes + 1) (drop (unat l - 2) rest))"

text \<open>The octets behind the length of the header are cut off. \<open>fr_max_attributes\<close> is the
  configured limit, 0 for none.\<close>

definition rad_packet_ok :: "int \<Rightarrow> radius_packet \<Rightarrow> bool \<Rightarrow> radius_packet option" where
  "rad_packet_ok fr_max_attributes packet flags =
     (case pk_data packet of
        None \<Rightarrow> None
      | Some data \<Rightarrow>
          (case packet_ok_header data of
             None \<Rightarrow> None
           | Some totallen \<Rightarrow>
               let data = take totallen data
               in case packet_ok_loop (ucast (data ! 0) = PW_STATUS_SERVER \<or> flags) False 0 (drop AUTH_HDR_LEN data) of
                    None \<Rightarrow> None
                  | Some (require_ma, seen_ma, num_attributes) \<Rightarrow>
                      if 0 < fr_max_attributes \<and> fr_max_attributes < int num_attributes then None
                      else if require_ma \<and> \<not> seen_ma then None
                      else Some (packet\<lparr>pk_data := Some data, pk_code := ucast (data ! 0), pk_id := uint (data ! 1),
                                        pk_vector := bslice 4 16 data\<rparr>)))"

section \<open>\<open>rad_verify\<close>\<close>

definition rad_digest_cmp :: "byte list \<Rightarrow> byte list \<Rightarrow> nat \<Rightarrow> byte" where
  "rad_digest_cmp a b len = foldl (\<lambda>result (x, y). result OR (x XOR y)) 0 (zip (take len a) (take len b))"

text \<open>0 is success; the data come back with the authenticator zeroed.\<close>

definition calc_acctdigest :: "radius_packet \<Rightarrow> byte list \<Rightarrow> byte list \<Rightarrow> nat \<times> byte list" where
  "calc_acctdigest packet secret data =
     (let data = memcpy_at data 4 (zeros 16);
          context = fr_MD5Init md5_stack;
          context = fr_MD5Update context data;
          context = fr_MD5Update context secret;
          digest = fst (fr_MD5Final context)
      in (if rad_digest_cmp digest (pk_vector packet) 16 \<noteq> 0 then 2 else 0, data))"

definition calc_replydigest :: "radius_packet \<Rightarrow> radius_packet option \<Rightarrow> byte list \<Rightarrow> byte list \<Rightarrow> nat \<times> byte list" where
  "calc_replydigest packet original secret data =
     (case original of
        None \<Rightarrow> (3, data)
      | Some orig \<Rightarrow>
          let data = memcpy_at data 4 (pk_vector orig);
              context = fr_MD5Init md5_stack;
              context = fr_MD5Update context data;
              context = fr_MD5Update context secret;
              calc_digest = fst (fr_MD5Final context);
              data = memcpy_at data 4 (pk_vector packet)
          in (if rad_digest_cmp (pk_vector packet) calc_digest 16 \<noteq> 0 then 2 else 0, data))"

text \<open>One Message-Authenticator at \<open>ptr\<close>: its octets are zeroed, the HMAC of the packet under the
  authenticator \<open>sign_vector\<close> (the same switch over the packet codes) is compared with them, and
  both are put back.\<close>

definition verify_authenticator ::
    "radius_packet \<Rightarrow> radius_packet option \<Rightarrow> byte list \<Rightarrow> byte list \<Rightarrow> nat \<Rightarrow> wire_error + byte list" where
  "verify_authenticator packet original secret data ptr =
     (if length data < ptr + 18 then Inl Overread
      else
        let msg_auth_vector = bslice (ptr + 2) 16 data;
            data = memcpy_at data (ptr + 2) (zeros 16)
        in case sign_vector packet original (bslice 4 16 data) of
             None \<Rightarrow> Inl Refused
           | Some vec \<Rightarrow>
               let data = memcpy_at data 4 vec;
                   calc_auth_vector = fr_hmac_md5 data secret
               in if rad_digest_cmp calc_auth_vector msg_auth_vector 16 \<noteq> 0 then Inl Refused
                  else Inr (memcpy_at (memcpy_at data (ptr + 2) msg_auth_vector) 4 (pk_vector packet)))"

partial_function (option) verify_loop ::
    "radius_packet \<Rightarrow> radius_packet option \<Rightarrow> byte list \<Rightarrow> byte list \<Rightarrow> nat \<Rightarrow> (wire_error + byte list) option" where
  [code]: "verify_loop packet original secret data ptr =
     (if length data \<le> ptr then Some (Inr data)
      else if length data \<le> ptr + 1 then Some (Inl Overread)
      else
        let attrlen = unat (data ! (ptr + 1))
        in if data ! ptr = 80 then
             (case verify_authenticator packet original secret data ptr of
                Inl e \<Rightarrow> Some (Inl e)
              | Inr data' \<Rightarrow> verify_loop packet original secret data' (ptr + attrlen))
           else verify_loop packet original secret data (ptr + attrlen))"

text \<open>The digest of the whole packet, by packet code.\<close>

definition verify_digest ::
    "radius_packet \<Rightarrow> radius_packet option \<Rightarrow> byte list \<Rightarrow> byte list \<Rightarrow> wire_error + radius_packet" where
  "verify_digest packet original secret data =
     (let cd = pk_code packet
      in if cd = 0 \<or> FR_MAX_PACKET_CODE \<le> unat cd then Inl Refused
         else if cd \<in> {PW_AUTHENTICATION_REQUEST, PW_STATUS_SERVER} then Inr (packet\<lparr>pk_data := Some data\<rparr>)
         else if cd \<in> {PW_COA_REQUEST, PW_DISCONNECT_REQUEST, PW_ACCOUNTING_REQUEST} then
           (let (rcode, data) = calc_acctdigest packet secret data
            in if 1 < rcode then Inl Refused else Inr (packet\<lparr>pk_data := Some data\<rparr>))
         else if cd \<in> {PW_AUTHENTICATION_ACK, PW_AUTHENTICATION_REJECT, PW_ACCESS_CHALLENGE, PW_ACCOUNTING_RESPONSE,
                        PW_DISCONNECT_ACK, PW_DISCONNECT_NAK, PW_COA_ACK, PW_COA_NAK} then
           (let (rcode, data) = calc_replydigest packet original secret data
            in if 1 < rcode then Inl Refused else Inr (packet\<lparr>pk_data := Some data\<rparr>))
         else Inl Refused)"

definition rad_verify ::
    "radius_packet \<Rightarrow> radius_packet option \<Rightarrow> byte list \<Rightarrow> (wire_error + radius_packet) option" where
  "rad_verify packet original secret =
     (case pk_data packet of
        None \<Rightarrow> Some (Inl Refused)
      | Some data \<Rightarrow>
          (case verify_loop packet original secret data AUTH_HDR_LEN of
             None \<Rightarrow> None
           | Some (Inl e) \<Rightarrow> Some (Inl e)
           | Some (Inr data) \<Rightarrow> Some (verify_digest packet original secret data)))"

section \<open>The comparison\<close>

lemma foldl_or_eq_0:
  "foldl (\<lambda>r (x, y). r OR (x XOR y)) (r0 :: byte) xys = 0 \<longleftrightarrow> r0 = 0 \<and> (\<forall>(x, y) \<in> set xys. x = y)"
proof (induction xys arbitrary: r0)
  case (Cons p xys)
  have "a OR b = 0 \<longleftrightarrow> a = 0 \<and> b = 0" for a b :: byte
    by (metis or_eq_0_iff)
  then show ?case by (cases p) (simp add: Cons.IH xor_eq_0_iff)
qed simp

text \<open>The constant-time comparison \<open>rad_digest_cmp\<close> is 0 exactly when the digests agree in
  every octet compared.\<close>

theorem rad_digest_cmp_iff:
  assumes "length a = length b"
  shows "rad_digest_cmp a b len = 0 \<longleftrightarrow> take len a = take len b"
  using assms by (simp add: rad_digest_cmp_def foldl_or_eq_0 list_eq_iff_zip_eq [of "take len a"])

theorem rad_digest_cmp_iff_witness: "rad_digest_cmp [1, 2, 3] [1, 2, 4] 2 = 0"
  using rad_digest_cmp_iff [of "[1, 2, 3]" "[1, 2, 4]" 2] by simp

section \<open>What \<open>rad_packet_ok\<close> accepts\<close>

definition attr_octets :: "byte \<times> byte list \<Rightarrow> byte list" where
  "attr_octets = (\<lambda>(t, v). t # word_of_nat (length v + 2) # v)"

definition attr_valid :: "byte \<times> byte list \<Rightarrow> bool" where
  "attr_valid = (\<lambda>(t, v). t \<noteq> 0 \<and> length v \<le> 253 \<and> (t = 80 \<longrightarrow> length v = 16))"

lemma unat_attr_length: "length v \<le> 253 \<Longrightarrow> unat (word_of_nat (length v + 2) :: byte) = length v + 2"
  by (rule unat_byte_of_nat) simp

lemma attr_length_18: "length v = 16 \<Longrightarrow> word_of_nat (length v + 2) = (18 :: byte)"
  by simp

lemma packet_ok_loop_complete:
  "\<forall>a \<in> set as. attr_valid a \<Longrightarrow>
   packet_ok_loop r s n (concat (map attr_octets as)) = Some (r \<or> 79 \<in> fst ` set as, s \<or> 80 \<in> fst ` set as, n + length as)"
proof (induction as arbitrary: r s n)
  case (Cons a as)
  obtain t v where a: "a = (t, v)" by (cases a)
  define l where "l = (word_of_nat (length v + 2) :: byte)"
  have v: "t \<noteq> 0" "length v \<le> 253" "t = 80 \<Longrightarrow> length v = 16" using Cons.prems a by (auto simp: attr_valid_def)
  have l: "unat l = length v + 2" unfolding l_def by (rule unat_attr_length) (rule v)
  have "\<not> l < 2" using l by (simp add: word_less_nat_alt)
  moreover have "t = 80 \<Longrightarrow> l = 18" using v(3) attr_length_18 l_def by metis
  moreover have "concat (map attr_octets (a # as)) = t # l # v @ concat (map attr_octets as)"
    by (simp add: a attr_octets_def l_def)
  ultimately show ?case using Cons.IH [of "r \<or> t = 79" "s \<or> t = 80" "n + 1"] Cons.prems v l a by auto
qed simp

lemma packet_ok_loop_sound:
  "packet_ok_loop r s n xs = Some res \<Longrightarrow>
   \<exists>as. xs = concat (map attr_octets as) \<and> (\<forall>a \<in> set as. attr_valid a)"
proof (induction r s n xs rule: packet_ok_loop.induct)
  case (3 r s n t l rest)
  define v where "v = take (unat l - 2) rest"
  have g: "t \<noteq> 0" "\<not> l < 2" "\<not> length rest + 2 < unat l" "\<not> (t = 80 \<and> l \<noteq> 18)"
    using "3.prems" by (auto split: if_split_asm)
  then have l2: "2 \<le> unat l" by (simp add: word_less_nat_alt)
  have len: "length v = unat l - 2" using g by (simp add: v_def)
  with l2 have l: "word_of_nat (length v + 2) = l" by simp
  have "length v \<le> 253" using len unat_byte_lt [of l] by linarith
  moreover have "t = 80 \<Longrightarrow> length v = 16" using g len by auto
  ultimately have "attr_valid (t, v)" using g by (simp add: attr_valid_def)
  moreover obtain as where as: "drop (unat l - 2) rest = concat (map attr_octets as)" "\<forall>a \<in> set as. attr_valid a"
    using "3.IH" "3.prems" g by auto
  moreover have "t # l # rest = concat (map attr_octets ((t, v) # as))"
  proof -
    have "rest = v @ drop (unat l - 2) rest" by (simp add: v_def)
    then show ?thesis unfolding as(1) using l by (simp add: attr_octets_def)
  qed
  ultimately show ?case by (intro exI [of _ "(t, v) # as"]) simp
qed (auto intro: exI [of _ "[]"])

lemma ex_same_cond: "A a \<Longrightarrow> (\<And>b. A b \<Longrightarrow> C b = C a) \<Longrightarrow> (\<exists>b. A b \<and> C b) = C a"
  by blast

lemma packet_ok_header_Some:
  "packet_ok_header data = Some totallen \<longleftrightarrow>
   length data \<le> MAX_PACKET_LEN \<and> data ! 0 \<noteq> 0 \<and> unat (data ! 0) < FR_MAX_PACKET_CODE \<and>
   totallen = be16 (data ! 2) (data ! 3) \<and> AUTH_HDR_LEN \<le> totallen \<and> totallen \<le> length data"
  by (auto simp: packet_ok_header_def Let_def)

lemma rad_packet_ok_char:
  assumes "pk_data packet = Some data"
  defines "n \<equiv> be16 (data ! 2) (data ! 3)"
  shows "rad_packet_ok maxattrs packet flags = Some packet' \<longleftrightarrow>
    length data \<le> 4096 \<and> data ! 0 \<noteq> 0 \<and> unat (data ! 0) < 52 \<and> 20 \<le> n \<and> n \<le> length data \<and>
    (\<exists>as. drop 20 (take n data) = concat (map attr_octets as) \<and> (\<forall>a \<in> set as. attr_valid a) \<and>
      (0 < maxattrs \<longrightarrow> int (length as) \<le> maxattrs) \<and>
      (data ! 0 = 12 \<or> flags \<or> 79 \<in> fst ` set as \<longrightarrow> 80 \<in> fst ` set as)) \<and>
    packet' = packet\<lparr>pk_data := Some (take n data), pk_code := ucast (data ! 0), pk_id := uint (data ! 1),
      pk_vector := bslice 4 16 data\<rparr>"
    (is "?ok \<longleftrightarrow> ?header \<and> _ \<and> _ \<and> _ \<and> _ \<and> (\<exists>as. ?attrs as) \<and> ?res")
proof -
  have status: "(ucast b = PW_STATUS_SERVER) = (b = 12)" for b :: byte
  proof -
    have "PW_STATUS_SERVER = ucast (12 :: byte)" by (simp add: PW_STATUS_SERVER_def)
    then show ?thesis by (metis ucast_byte_inj)
  qed
  show ?thesis
  proof (cases "packet_ok_header data")
    case None
    then have "\<not> (length data \<le> 4096 \<and> data ! 0 \<noteq> 0 \<and> unat (data ! 0) < 52 \<and> 20 \<le> n \<and> n \<le> length data)"
      using packet_ok_header_Some [of data n]
      by (simp add: n_def AUTH_HDR_LEN_def MAX_PACKET_LEN_def FR_MAX_PACKET_CODE_def)
    then show ?thesis using None assms(1) by (auto simp: rad_packet_ok_def)
  next
    case (Some m)
    then have m: "m = n" and hdr: "length data \<le> 4096" "data ! 0 \<noteq> 0" "unat (data ! 0) < 52" "20 \<le> n" "n \<le> length data"
      by (simp_all add: packet_ok_header_Some n_def AUTH_HDR_LEN_def MAX_PACKET_LEN_def FR_MAX_PACKET_CODE_def)
    have hd: "take n data ! 0 = data ! 0" "take n data ! 1 = data ! 1" "bslice 4 16 (take n data) = bslice 4 16 data"
      using hdr by (auto simp: bslice_def min_def take_drop)
    show ?thesis
    proof (cases "\<exists>as. drop 20 (take n data) = concat (map attr_octets as) \<and> (\<forall>a \<in> set as. attr_valid a)")
      case True
      then obtain as where as: "drop 20 (take n data) = concat (map attr_octets as)" "\<forall>a \<in> set as. attr_valid a" by blast
      have uniq: "packet_ok_loop r s k (drop 20 (take n data)) =
          Some (r \<or> 79 \<in> fst ` set bs, s \<or> 80 \<in> fst ` set bs, k + length bs)"
        if "drop 20 (take n data) = concat (map attr_octets bs)" "\<forall>a \<in> set bs. attr_valid a" for bs r s k
        using packet_ok_loop_complete that by simp
      let ?C = "\<lambda>bs. (0 < maxattrs \<longrightarrow> int (length bs) \<le> maxattrs) \<and>
        (data ! 0 = 12 \<or> flags \<or> 79 \<in> fst ` set bs \<longrightarrow> 80 \<in> fst ` set bs)"
      have same: "?C bs = ?C as"
        if "drop 20 (take n data) = concat (map attr_octets bs)" "\<forall>a \<in> set bs. attr_valid a" for bs
        using uniq [OF that, of False False 0] uniq [OF as, of False False 0] by simp
      have "(\<exists>bs. (drop 20 (take n data) = concat (map attr_octets bs) \<and> (\<forall>a \<in> set bs. attr_valid a)) \<and> ?C bs) = ?C as"
      proof (rule ex_same_cond)
        show "drop 20 (take n data) = concat (map attr_octets as) \<and> (\<forall>a \<in> set as. attr_valid a)" using as by (rule conjI)
        show "?C bs = ?C as" if "drop 20 (take n data) = concat (map attr_octets bs) \<and> (\<forall>a \<in> set bs. attr_valid a)" for bs
          using same [OF conjunct1 [OF that] conjunct2 [OF that]] .
      qed
      then have ex: "(\<exists>bs. ?attrs bs) \<longleftrightarrow> ?C as" by (simp only: conj_assoc)
      have "?ok \<longleftrightarrow> ?C as \<and> ?res"
        unfolding rad_packet_ok_def assms(1) option.case Some m Let_def AUTH_HDR_LEN_def hd status uniq [OF as] prod.case
        by auto
      then show ?thesis unfolding ex using hdr by blast
    next
      case False
      then have "packet_ok_loop r s k (drop 20 (take n data)) = None" for r s k
        using packet_ok_loop_sound [of r s k "drop 20 (take n data)"] by (cases "packet_ok_loop r s k (drop 20 (take n data))") auto
      then show ?thesis
        using False Some m assms(1) by (auto simp: rad_packet_ok_def Let_def AUTH_HDR_LEN_def)
    qed
  qed
qed

text \<open>C3: \<open>rad_packet_ok\<close> accepts a received packet exactly when its size is between 20 and 4096
  octets, the code is in 1..51 (the comment in the code says that codes from 16 on are not understood; the code refuses those from 52 on), the length field is at least 20 and does not exceed the size, the octets after the header up to that length
  are a sequence of attributes with exact length octets, non-zero types and 16-octet
  Message-Authenticators, there are no more attributes than configured, and a
  Message-Authenticator is present when the code, the caller or an EAP-Message requires it. The
  code, identifier and authenticator are then those of the header.\<close>

theorem rad_packet_ok_iff:
  assumes "pk_data packet = Some data"
  defines "n \<equiv> be16 (data ! 2) (data ! 3)"
  shows "rad_packet_ok maxattrs packet flags = Some packet' \<longleftrightarrow>
    length data \<le> 4096 \<and> data ! 0 \<noteq> 0 \<and> unat (data ! 0) < 52 \<and> 20 \<le> n \<and> n \<le> length data \<and>
    (\<exists>as. drop 20 (take n data) = concat (map attr_octets as) \<and> (\<forall>a \<in> set as. attr_valid a) \<and>
      (0 < maxattrs \<longrightarrow> int (length as) \<le> maxattrs) \<and>
      (data ! 0 = 12 \<or> flags \<or> 79 \<in> fst ` set as \<longrightarrow> 80 \<in> fst ` set as)) \<and>
    packet' = packet\<lparr>pk_data := Some (take n data), pk_code := ucast (data ! 0), pk_id := uint (data ! 1),
      pk_vector := bslice 4 16 data\<rparr>"
  unfolding n_def by (rule rad_packet_ok_char [OF assms(1)])

text \<open>An Access-Request with a one-octet User-Name.\<close>

definition request_octets :: "byte list" where
  "request_octets = [1, 7, 0, 23] @ zeros 16 @ [1, 3, 98]"

definition raw_packet :: "byte list \<Rightarrow> radius_packet" where
  "raw_packet data = packet0\<lparr>pk_data := Some data\<rparr>"

lemma request_octets_simps:
  "length request_octets = 23" "request_octets ! 0 = 1" "request_octets ! Suc 0 = 7" "be16 (request_octets ! 2) (request_octets ! 3) = 23"
  "drop 20 request_octets = attr_octets (1, [98])"
  by (simp_all add: request_octets_def be16_def attr_octets_def)

theorem rad_packet_ok_iff_witness:
  "rad_packet_ok 1 (raw_packet request_octets) False = Some ((raw_packet request_octets)\<lparr>pk_data := Some (take 23 request_octets),
     pk_code := 1, pk_id := 7, pk_vector := bslice 4 16 request_octets\<rparr>)"
proof -
  have "\<exists>as. drop 20 (take 23 request_octets) = concat (map attr_octets as) \<and> (\<forall>a \<in> set as. attr_valid a) \<and>
      (0 < (1 :: int) \<longrightarrow> int (length as) \<le> 1) \<and> (request_octets ! 0 = 12 \<or> False \<or> 79 \<in> fst ` set as \<longrightarrow> 80 \<in> fst ` set as)"
    by (rule exI [of _ "[(1, [98])]"]) (simp add: request_octets_simps attr_valid_def)
  then show ?thesis
    by (subst rad_packet_ok_iff [of _ request_octets]) (simp_all add: raw_packet_def request_octets_simps)
qed

section \<open>\<open>rad_verify\<close> after \<open>rad_packet_ok\<close>\<close>

definition vector_ok :: "radius_packet option \<Rightarrow> bool" where
  "vector_ok p \<longleftrightarrow> (case p of Some q \<Rightarrow> length (pk_vector q) = 16 | None \<Rightarrow> True)"

lemma length_sign_vector:
  "sign_vector packet original hv = Some vec \<Longrightarrow> vector_ok original \<Longrightarrow> length hv = 16 \<Longrightarrow> length vec = 16"
  by (auto simp: sign_vector_def vector_ok_def Let_def split: if_split_asm option.split_asm)

text \<open>A Message-Authenticator check that succeeds leaves everything but the authenticator field as
  it was, and that field is the packet's authenticator.\<close>

lemma verify_authenticator_Inr:
  assumes "verify_authenticator packet original secret data ptr = Inr data'"
    and "20 \<le> ptr" and "length (pk_vector packet) = 16" and "vector_ok original"
  shows "data' = memcpy_at data 4 (pk_vector packet)"
proof -
  let ?msg = "bslice (ptr + 2) 16 data" and ?z = "memcpy_at data (ptr + 2) (zeros 16)"
  have len: "ptr + 18 \<le> length data" using assms(1) by (auto simp: verify_authenticator_def split: if_split_asm)
  obtain vec where vec: "sign_vector packet original (bslice 4 16 ?z) = Some vec"
    and d': "data' = memcpy_at (memcpy_at (memcpy_at ?z 4 vec) (ptr + 2) ?msg) 4 (pk_vector packet)"
    using assms(1) by (auto simp: verify_authenticator_def Let_def split: if_split_asm option.split_asm)
  have "length vec = 16" by (rule length_sign_vector [OF vec assms(4)]) (use len assms(2) in simp)
  with len assms(2,3) show ?thesis
    unfolding d' by (intro nth_equalityI) (auto simp: nth_memcpy_at nth_bslice intro!: arg_cong [of _ _ "(!) data"])
qed

lemma verify_authenticator_inside:
  "ptr + 18 \<le> length data \<Longrightarrow> verify_authenticator packet original secret data ptr = Inl e \<Longrightarrow> e = Refused"
  by (auto simp: verify_authenticator_def Let_def split: if_split_asm option.split_asm)

lemma drop_memcpy_at: "off + length src \<le> p \<Longrightarrow> off + length src \<le> length dst \<Longrightarrow> drop p (memcpy_at dst off src) = drop p dst"
  by (simp add: memcpy_at_def)

lemma attr_octets_at:
  assumes "drop ptr data = concat (map attr_octets ((t, v) # as))" and "attr_valid (t, v)"
  shows "data ! ptr = t" "unat (data ! (ptr + 1)) = length v + 2" "ptr + (length v + 2) \<le> length data"
    "drop (ptr + (length v + 2)) data = concat (map attr_octets as)" "t = 80 \<Longrightarrow> length v = 16"
proof -
  have d: "drop ptr data = t # word_of_nat (length v + 2) # v @ concat (map attr_octets as)"
    using assms(1) by (simp add: attr_octets_def)
  have le: "length data - ptr = length v + 2 + length (concat (map attr_octets as))"
    using arg_cong [OF d, of length] by simp
  then show "ptr + (length v + 2) \<le> length data" by simp
  have "data ! ptr = drop ptr data ! 0" "data ! (ptr + 1) = drop ptr data ! 1" using le by simp_all
  then show "data ! ptr = t" "unat (data ! (ptr + 1)) = length v + 2"
    using unat_attr_length [of v] assms(2) by (simp_all add: d attr_valid_def)
  have "drop (ptr + (length v + 2)) data = drop (length v + 2) (drop ptr data)" by (simp add: add.commute)
  then show "drop (ptr + (length v + 2)) data = concat (map attr_octets as)" by (simp add: d)
  show "t = 80 \<Longrightarrow> length v = 16" using assms(2) by (simp add: attr_valid_def)
qed

lemma verify_loop_returns:
  assumes "drop ptr data = concat (map attr_octets as)" and "\<forall>a \<in> set as. attr_valid a"
    and "20 \<le> ptr" and "length (pk_vector packet) = 16" and "vector_ok original"
  shows "\<exists>r. verify_loop packet original secret data ptr = Some r \<and> (\<forall>e. r = Inl e \<longrightarrow> e = Refused)"
  using assms
proof (induction as arbitrary: ptr data)
  case Nil
  then show ?case by (subst verify_loop.simps) simp
next
  case (Cons a as)
  obtain t v where a: "a = (t, v)" by (cases a)
  have "attr_valid (t, v)" using Cons.prems a by simp
  note at = attr_octets_at [OF Cons.prems(1) [unfolded a] this]
  have go: "\<exists>r. verify_loop packet original secret d (ptr + (length v + 2)) = Some r \<and> (\<forall>e. r = Inl e \<longrightarrow> e = Refused)"
    if "drop (ptr + (length v + 2)) d = drop (ptr + (length v + 2)) data" for d
    using Cons.prems at that by (intro Cons.IH) auto
  show ?case
  proof (cases "t = 80")
    case False
    with at go [of data] show ?thesis by (subst verify_loop.simps) (simp add: Let_def)
  next
    case True
    with at have len: "ptr + 18 \<le> length data" by simp
    show ?thesis
    proof (cases "verify_authenticator packet original secret data ptr")
      case (Inl e)
      with verify_authenticator_inside [OF len Inl] True at show ?thesis
        by (subst verify_loop.simps) (simp add: Let_def)
    next
      case (Inr d)
      from verify_authenticator_Inr [OF Inr Cons.prems(3-5)] Cons.prems(3,4) len
      have "drop (ptr + (length v + 2)) d = drop (ptr + (length v + 2)) data" by (simp add: drop_memcpy_at)
      from go [OF this] Inr True at show ?thesis by (subst verify_loop.simps) (simp add: Let_def)
    qed
  qed
qed

text \<open>C14: On every packet that \<open>rad_packet_ok\<close> has accepted, \<open>rad_verify\<close> returns: its loop over
  the attributes ends although it checks no lengths itself, it never reads or writes behind the packet, and its only error is the refusal of a bad
  signature.\<close>

theorem rad_verify_returns:
  assumes "rad_packet_ok maxattrs packet flags = Some packet'" and "vector_ok original"
  shows "\<exists>r. rad_verify packet' original secret = Some r \<and> (\<forall>e. r = Inl e \<longrightarrow> e = Refused)"
proof -
  obtain data where data: "pk_data packet = Some data"
    using assms(1) by (auto simp: rad_packet_ok_def split: option.split_asm)
  define n where "n = be16 (data ! 2) (data ! 3)"
  from rad_packet_ok_char [OF data] assms(1) obtain as where
    as: "drop 20 (take n data) = concat (map attr_octets as)" "\<forall>a \<in> set as. attr_valid a"
    and p': "pk_data packet' = Some (take n data)" "pk_vector packet' = bslice 4 16 data" "20 \<le> n" "n \<le> length data"
    by (auto simp: n_def)
  have "\<exists>r. verify_loop packet' original secret (take n data) 20 = Some r \<and> (\<forall>e. r = Inl e \<longrightarrow> e = Refused)"
    by (rule verify_loop_returns [OF as]) (use p' assms(2) in simp_all)
  moreover have "e = Refused" if "verify_digest packet' original secret d = Inl e" for d e
    using that by (auto simp: verify_digest_def Let_def split_beta split: if_split_asm)
  ultimately show ?thesis
    by (auto simp: rad_verify_def p' AUTH_HDR_LEN_def split: sum.split)
qed

theorem rad_verify_returns_witness:
  "\<exists>r. rad_verify ((raw_packet request_octets)\<lparr>pk_data := Some request_octets, pk_code := 1, pk_id := 7,
       pk_vector := zeros 16\<rparr>) None [115] = Some r"
proof -
  have "rad_packet_ok 0 (raw_packet request_octets) False = Some ((raw_packet request_octets)\<lparr>pk_data := Some request_octets,
      pk_code := 1, pk_id := 7, pk_vector := zeros 16\<rparr>)"
    by code_simp
  then show ?thesis using rad_verify_returns [of 0 "raw_packet request_octets" False _ None "[115]"] by (auto simp: vector_ok_def)
qed

section \<open>Signing and verifying\<close>

definition packet_digest :: "byte list \<Rightarrow> byte list \<Rightarrow> byte list" where
  "packet_digest data secret = fst (fr_MD5Final (fr_MD5Update (fr_MD5Update (fr_MD5Init md5_stack) data) secret))"

lemma length_packet_digest [simp]: "length (packet_digest data secret) = 16"
  by (simp add: packet_digest_def)

lemma rad_digest_cmp_refl [simp]: "rad_digest_cmp a a n = 0"
  by (auto simp: rad_digest_cmp_def foldl_or_eq_0 set_zip)

definition acct_codes :: "u32 set" where
  "acct_codes = {PW_COA_REQUEST, PW_DISCONNECT_REQUEST, PW_ACCOUNTING_REQUEST}"

definition reply_codes :: "u32 set" where
  "reply_codes = {PW_AUTHENTICATION_ACK, PW_AUTHENTICATION_REJECT, PW_ACCESS_CHALLENGE, PW_ACCOUNTING_RESPONSE,
     PW_DISCONNECT_ACK, PW_DISCONNECT_NAK, PW_COA_ACK, PW_COA_NAK}"

definition request_codes :: "u32 set" where
  "request_codes = {PW_AUTHENTICATION_REQUEST, PW_STATUS_SERVER}"

lemmas code_sets = acct_codes_def reply_codes_def request_codes_def pw_codes

text \<open>The authenticator the sender must have put into the packet: that of the request for a reply,
  zeros for accounting and dynamic authorisation requests, anything for the others.\<close>

definition sender_vector_ok :: "u32 \<Rightarrow> byte list \<Rightarrow> radius_packet option \<Rightarrow> bool" where
  "sender_vector_ok cd vec original \<longleftrightarrow> length vec = 16 \<and>
     (cd \<in> request_codes \<or> cd \<in> acct_codes \<and> vec = zeros 16 \<or>
      cd \<in> reply_codes \<and> (\<exists>orig. original = Some orig \<and> pk_vector orig = vec))"

text \<open>Under that condition signing and verifying agree on the authenticator under the HMAC.\<close>

lemma sign_vector_agree:
  assumes "sender_vector_ok (pk_code p) (pk_vector p) original"
  obtains vec where "sign_vector p original (pk_vector p) = Some vec" "length vec = 16"
    "\<And>q hv. pk_code q = pk_code p \<Longrightarrow> (pk_code p \<in> request_codes \<Longrightarrow> hv = pk_vector p) \<Longrightarrow> sign_vector q original hv = Some vec"
proof -
  from assms consider "pk_code p \<in> request_codes" | "pk_code p \<in> acct_codes"
    | orig where "pk_code p \<in> reply_codes" "original = Some orig" "pk_vector orig = pk_vector p"
    by (auto simp: sender_vector_ok_def)
  then show ?thesis
  proof cases
    case 1
    then show ?thesis using assms
      by (intro that [of "pk_vector p"]) (auto simp: sign_vector_def code_sets sender_vector_ok_def)
  next
    case 2
    then show ?thesis by (intro that [of "zeros 16"]) (auto simp: sign_vector_def code_sets)
  next
    case 3
    have "length (pk_vector p) = 16" using assms by (simp add: sender_vector_ok_def)
    with 3 show ?thesis
      by (intro that [of "the (sign_vector p original (pk_vector p))"])
         (auto simp: sign_vector_def code_sets split: if_split_asm)
  qed
qed

text \<open>The walk of \<open>verify_loop\<close> over a packet all of whose Message-Authenticators check.\<close>

lemma verify_loop_walk:
  assumes "drop ptr data = concat (map attr_octets as)" and "\<forall>a \<in> set as. attr_valid a"
    and "\<And>pre v post. as = pre @ (80, v) # post \<Longrightarrow>
      verify_authenticator packet original secret data (ptr + length (concat (map attr_octets pre))) = Inr data"
  shows "verify_loop packet original secret data ptr = Some (Inr data)"
  using assms
proof (induction as arbitrary: ptr)
  case Nil
  then show ?case by (subst verify_loop.simps) simp
next
  case (Cons a as)
  obtain t v where a: "a = (t, v)" by (cases a)
  have "attr_valid (t, v)" using Cons.prems a by simp
  note at = attr_octets_at [OF Cons.prems(1) [unfolded a] this]
  have "verify_loop packet original secret data (ptr + (length v + 2)) = Some (Inr data)"
  proof (rule Cons.IH)
    show "verify_authenticator packet original secret data (ptr + (length v + 2) + length (concat (map attr_octets pre))) = Inr data"
      if "as = pre @ (80, v') # post" for pre v' post
      using Cons.prems(3) [of "a # pre" v' post] that by (simp add: a attr_octets_def add_ac)
  qed (use Cons.prems at in auto)
  moreover have "t = 80 \<Longrightarrow> verify_authenticator packet original secret data ptr = Inr data"
    using Cons.prems(3) [of "[]" v as] a by simp
  ultimately show ?case using at(1-4) by (subst verify_loop.simps) (simp add: Let_def)
qed

text \<open>Where the one Message-Authenticator of a packet is, if there is one: \<open>off\<close> is the cached offset
  of the packet under construction, 0 when it has none.\<close>

definition authenticator_at :: "(byte \<times> byte list) list \<Rightarrow> int \<Rightarrow> bool" where
  "authenticator_at as off \<longleftrightarrow>
     off = 0 \<and> 80 \<notin> fst ` set as \<or>
     (\<exists>pre post. as = pre @ (80, zeros 16) # post \<and> 80 \<notin> fst ` set pre \<and> 80 \<notin> fst ` set post \<and>
        off = int (20 + length (concat (map attr_octets pre))))"

lemma authenticator_atI:
  assumes "as = pre @ (80, zeros 16) # post" and "80 \<notin> fst ` set pre" and "80 \<notin> fst ` set post"
    and "off = int (20 + length (concat (map attr_octets pre)))"
  shows "authenticator_at as off"
  unfolding authenticator_at_def by (rule disjI2, rule exI [of _ pre], rule exI [of _ post], intro conjI) (fact assms)+

lemma memcpy_at_self: "bslice off n dst = src \<Longrightarrow> off + n \<le> length dst \<Longrightarrow> memcpy_at dst off src = dst"
  using memcpy_at_bslice by blast

text \<open>The HMAC that \<open>sign_authenticator\<close> stores is the one \<open>verify_authenticator\<close> computes, whatever
  authenticator the finished packet carries.\<close>

lemma verify_sign_authenticator:
  assumes len: "20 \<le> off" "off + 18 \<le> length data"
    and zero: "bslice (off + 2) 16 data = zeros 16"
    and vec: "length vec = 16" "sign_vector q original (bslice 4 16 d3) = Some vec"
    and d2: "d2 = memcpy_at (memcpy_at data 4 vec) (off + 2) (fr_hmac_md5 (memcpy_at data 4 vec) secret)"
    and d3: "d3 = memcpy_at d2 4 (pk_vector q)" "length (pk_vector q) = 16"
  shows "verify_authenticator q original secret d3 off = Inr d3"
proof -
  let ?mac = "fr_hmac_md5 (memcpy_at data 4 vec) secret"
  have mac: "length ?mac = 16" by simp
  have l2: "length d2 = length data" unfolding d2 using len vec mac by simp
  have l3: "length d3 = length data" unfolding d3(1) using len l2 d3(2) by simp
  have msg: "bslice (off + 2) 16 d3 = ?mac"
    unfolding d3(1) d2 using len vec mac d3(2) by (simp add: bslice_memcpy_after)
  let ?z = "memcpy_at d3 (off + 2) (zeros 16)"
  have z4: "bslice 4 16 ?z = bslice 4 16 d3" using len l3 by (simp add: bslice_memcpy_before)
  have core: "memcpy_at ?z 4 vec = memcpy_at data 4 vec"
  proof -
    have "data ! i = 0" if "off + 2 \<le> i" "i < off + 18" for i
    proof -
      define k where "k = i - (off + 2)"
      have k: "i = off + 2 + k" "k < 16" using that by (simp_all add: k_def)
      then have "data ! i = bslice (off + 2) 16 data ! k" using len by (simp add: nth_bslice)
      with k show ?thesis unfolding zero by (simp add: zeros_def)
    qed
    then show ?thesis
      unfolding d3(1) d2 using len vec mac d3(2)
      by (intro nth_equalityI) (auto simp: nth_memcpy_at zeros_def)
  qed
  have restored: "memcpy_at (memcpy_at (memcpy_at data 4 vec) (off + 2) ?mac) 4 (pk_vector q) = d3"
    using d2 d3(1) by simp
  show ?thesis
    using len l3 vec(2) restored core unfolding verify_authenticator_def Let_def z4 msg by simp
qed

lemma unique_split_fst:
  assumes "pre @ (k, x) # post = pre' @ (k, v) # post'" and "k \<notin> fst ` set pre" and "k \<notin> fst ` set post"
  shows "pre' = pre"
proof -
  have "map fst pre @ k # map fst post = map fst pre' @ k # map fst post'"
    using arg_cong [OF assms(1), of "map fst"] by simp
  then have "map fst pre = map fst pre'"
    using assms(2,3) by (subst (asm) append_Cons_eq_iff) auto
  then have "length pre = length pre'" by (rule map_eq_imp_length_eq)
  with assms(1) show ?thesis by simp
qed

lemma drop_memcpy_inside:
  assumes "n \<le> length dst" and "drop n dst = xs @ ys @ zs" and "length ys = length src" and "off = n + length xs"
  shows "drop n (memcpy_at dst off src) = xs @ src @ zs"
proof -
  have dst: "dst = take n dst @ xs @ ys @ zs" using assms(2) by (metis append_take_drop_id)
  have "memcpy_at (take n dst @ xs @ ys @ zs) off src = take n dst @ xs @ src @ zs"
    using assms by (simp add: memcpy_at_def)
  then show ?thesis using dst assms(1) by (metis append_eq_conv_conj length_take min.absorb2)
qed

text \<open>What \<open>sign_authenticator\<close> makes of an encoded packet.\<close>

lemma sign_authenticator_verified:
  assumes data: "20 \<le> length data" "bslice 4 16 data = pk_vector p"
    and as: "drop 20 data = concat (map attr_octets as)" "\<forall>a \<in> set as. attr_valid a"
    and sv: "sender_vector_ok (pk_code p) (pk_vector p) original" and ma: "authenticator_at as (pk_offset p)"
  obtains d2 as2 where "sign_authenticator p original secret data = Inr d2" "length d2 = length data"
    "take 4 d2 = take 4 data" "bslice 4 16 d2 = pk_vector p" "drop 20 d2 = concat (map attr_octets as2)"
    "\<forall>a \<in> set as2. attr_valid a" "map fst as2 = map fst as"
    "\<And>q d3. pk_code q = pk_code p \<Longrightarrow> (pk_code p \<in> request_codes \<Longrightarrow> pk_vector q = pk_vector p) \<Longrightarrow>
       length (pk_vector q) = 16 \<Longrightarrow> d3 = memcpy_at d2 4 (pk_vector q) \<Longrightarrow>
       verify_loop q original secret d3 20 = Some (Inr d3)"
  using ma unfolding authenticator_at_def
proof (elim disjE exE conjE)
  assume off: "pk_offset p = 0" and no80: "80 \<notin> fst ` set as"
  show thesis
  proof (rule that [of data as])
    fix q :: radius_packet and d3 assume "length (pk_vector q) = 16" and d3: "d3 = memcpy_at data 4 (pk_vector q)"
    then have "drop 20 d3 = concat (map attr_octets as)" using as(1) data(1) by (simp add: drop_memcpy_at)
    then show "verify_loop q original secret d3 20 = Some (Inr d3)"
      by (rule verify_loop_walk [OF _ as(2)]) (use no80 in force)
  qed (use off data as in \<open>auto simp: sign_authenticator_def\<close>)
next
  fix pre post
  assume as_eq: "as = pre @ (80, zeros 16) # post" and no80: "80 \<notin> fst ` set pre" "80 \<notin> fst ` set post"
    and off: "pk_offset p = int (20 + length (concat (map attr_octets pre)))"
  define o1 where "o1 = 20 + length (concat (map attr_octets pre))"
  let ?A = "concat (map attr_octets pre)" and ?B = "concat (map attr_octets post)"
  have oct: "attr_octets (80, x) = [80, 18] @ x" if "length x = 16" for x :: "byte list"
    using that by (simp add: attr_octets_def)
  have body: "drop 20 data = (?A @ [80, 18]) @ zeros 16 @ ?B" using as(1) as_eq by (simp add: oct)
  have len: "o1 + 18 \<le> length data" using arg_cong [OF body, of length] data(1) by (simp add: o1_def)
  have zero: "bslice (o1 + 2) 16 data = zeros 16"
  proof -
    have "drop (o1 + 2) data = drop (length (?A @ [80, 18])) (drop 20 data)" by (simp add: o1_def add_ac)
    then show ?thesis unfolding body by (simp add: bslice_def)
  qed
  obtain vec where vec: "sign_vector p original (pk_vector p) = Some vec" "length vec = 16"
    "\<And>q hv. pk_code q = pk_code p \<Longrightarrow> (pk_code p \<in> request_codes \<Longrightarrow> hv = pk_vector p) \<Longrightarrow> sign_vector q original hv = Some vec"
    using sign_vector_agree [OF sv] by blast
  define d1 mac d2 where "d1 = memcpy_at data 4 vec" and "mac = fr_hmac_md5 d1 secret" and "d2 = memcpy_at d1 (o1 + 2) mac"
  have pv: "length (pk_vector p) = 16" using sv by (simp add: sender_vector_ok_def)
  have mac: "length mac = 16" by (simp add: mac_def)
  have l1: "length d1 = length data" "length d2 = length data" using len vec(2) mac data(1) by (simp_all add: d1_def d2_def)
  have body2: "drop 20 d2 = (?A @ [80, 18]) @ mac @ ?B"
    unfolding d2_def
    by (rule drop_memcpy_inside [where ys = "zeros 16"])
       (use body data(1) vec(2) mac l1 in \<open>simp_all add: o1_def d1_def drop_memcpy_at\<close>)
  let ?as2 = "pre @ (80, mac) # post"
  show thesis
  proof (rule that [of "memcpy_at d2 4 (pk_vector p)" ?as2])
    show "sign_authenticator p original secret data = Inr (memcpy_at d2 4 (pk_vector p))"
      using off len l1 by (simp add: sign_authenticator_def data(2) vec(1) Let_def o1_def d1_def d2_def mac_def nat_add_distrib)
    show "drop 20 (memcpy_at d2 4 (pk_vector p)) = concat (map attr_octets ?as2)"
      using body2 mac pv l1 data(1) by (simp add: drop_memcpy_at oct)
    show "\<forall>a \<in> set ?as2. attr_valid a" using as(2) as_eq mac by (auto simp: attr_valid_def)
    show "take 4 (memcpy_at d2 4 (pk_vector p)) = take 4 data"
      using l1 len by (simp add: memcpy_at_def d2_def d1_def o1_def min_def)
    fix q :: radius_packet and d3
    assume q: "pk_code q = pk_code p" "pk_code p \<in> request_codes \<Longrightarrow> pk_vector q = pk_vector p" "length (pk_vector q) = 16"
      and "d3 = memcpy_at (memcpy_at d2 4 (pk_vector p)) 4 (pk_vector q)"
    then have d3: "d3 = memcpy_at d2 4 (pk_vector q)" using pv l1 data(1) by simp
    show "verify_loop q original secret d3 20 = Some (Inr d3)"
    proof (rule verify_loop_walk [where as = ?as2])
      show "drop 20 d3 = concat (map attr_octets ?as2)"
        unfolding d3 using body2 mac q(3) l1 data(1) by (simp add: drop_memcpy_at oct)
      show "\<forall>a \<in> set ?as2. attr_valid a" using as(2) as_eq mac by (auto simp: attr_valid_def)
      fix pre' v post' assume "?as2 = pre' @ (80, v) # post'"
      from unique_split_fst [OF this no80] have "pre' = pre" .
      moreover have "verify_authenticator q original secret d3 o1 = Inr d3"
      proof (rule verify_sign_authenticator [OF _ len zero vec(2)])
        have "bslice 4 16 d3 = pk_vector q" unfolding d3 using q(3) l1 data(1) by simp
        then show "sign_vector q original (bslice 4 16 d3) = Some vec" using vec(3) q by simp
      qed (use d3 q in \<open>simp_all add: d2_def mac_def d1_def o1_def\<close>)
      ultimately show "verify_authenticator q original secret d3 (20 + length (concat (map attr_octets pre'))) = Inr d3"
        by (simp add: o1_def)
    qed
  qed (use as_eq pv l1 data(1) in auto)
qed

lemma calc_acctdigest_ok:
  assumes "20 \<le> length d2" and "pk_vector q = packet_digest (memcpy_at d2 4 (zeros 16)) secret"
  shows "calc_acctdigest q secret (memcpy_at d2 4 (pk_vector q)) = (0, memcpy_at d2 4 (zeros 16))"
  using assms by (simp add: calc_acctdigest_def Let_def packet_digest_def)

lemma calc_replydigest_ok:
  assumes "20 \<le> length d2" and "length (pk_vector orig) = 16"
    and "pk_vector q = packet_digest (memcpy_at d2 4 (pk_vector orig)) secret"
  shows "calc_replydigest q (Some orig) secret (memcpy_at d2 4 (pk_vector q)) = (0, memcpy_at d2 4 (pk_vector q))"
  using assms by (simp add: calc_replydigest_def Let_def packet_digest_def)

lemma code_sets_less: "cd \<in> request_codes \<union> acct_codes \<union> reply_codes \<Longrightarrow> cd \<noteq> 0 \<and> unat cd < FR_MAX_PACKET_CODE"
  by (auto simp: code_sets FR_MAX_PACKET_CODE_def)

text \<open>Signing an encoded packet succeeds, changes only the authenticators, and the result verifies.\<close>

lemma rad_sign_verify:
  assumes id: "0 \<le> pk_id p" and data: "pk_data p = Some data" "20 \<le> length data" "bslice 4 16 data = pk_vector p"
    and as: "drop 20 data = concat (map attr_octets as)" "\<forall>a \<in> set as. attr_valid a"
    and sv: "sender_vector_ok (pk_code p) (pk_vector p) original" and ma: "authenticator_at as (pk_offset p)"
  obtains ps d as2 where "rad_sign p original secret = Inr ps" "pk_data ps = Some d" "length d = length data"
    "take 4 d = take 4 data" "drop 20 d = concat (map attr_octets as2)" "\<forall>a \<in> set as2. attr_valid a"
    "map fst as2 = map fst as"
    "\<And>q. pk_data q = Some d \<Longrightarrow> pk_code q = pk_code p \<Longrightarrow> pk_vector q = bslice 4 16 d \<Longrightarrow>
       \<exists>q'. rad_verify q original secret = Some (Inr q')"
proof -
  obtain d2 as2 where d2: "sign_authenticator p original secret data = Inr d2" "length d2 = length data"
      "take 4 d2 = take 4 data" "bslice 4 16 d2 = pk_vector p" "drop 20 d2 = concat (map attr_octets as2)"
      "\<forall>a \<in> set as2. attr_valid a" "map fst as2 = map fst as"
    and loop: "\<And>q d3. pk_code q = pk_code p \<Longrightarrow> (pk_code p \<in> request_codes \<Longrightarrow> pk_vector q = pk_vector p) \<Longrightarrow>
       length (pk_vector q) = 16 \<Longrightarrow> d3 = memcpy_at d2 4 (pk_vector q) \<Longrightarrow>
       verify_loop q original secret d3 20 = Some (Inr d3)"
    using sign_authenticator_verified [OF data(2,3) as sv ma] by metis
  have pv: "length (pk_vector p) = 16" using sv by (simp add: sender_vector_ok_def)
  have offset: "\<not> pk_offset p < 0" using ma by (auto simp: authenticator_at_def)
  have self: "memcpy_at d2 4 (pk_vector p) = d2" using d2(2,4) data(2) by (simp add: memcpy_at_self)
  define x where "x = (if pk_code p \<in> request_codes then pk_vector p else packet_digest d2 secret)"
  have x: "length x = 16" by (simp add: x_def pv)
  let ?d = "memcpy_at d2 4 x"
  show thesis
  proof (rule that [of "p\<lparr>pk_data := Some ?d, pk_vector := x\<rparr>" ?d as2])
    show "rad_sign p original secret = Inr (p\<lparr>pk_data := Some ?d, pk_vector := x\<rparr>)"
      using id data offset d2(1) self
      by (auto simp: rad_sign_def AUTH_HDR_LEN_def x_def packet_digest_def Let_def request_codes_def)
    show "take 4 ?d = take 4 data" using d2(2,3) data(2) by (simp add: memcpy_at_def min_def)
    fix q :: radius_packet
    assume q: "pk_data q = Some ?d" "pk_code q = pk_code p" "pk_vector q = bslice 4 16 ?d"
    have qx: "pk_vector q = x" using q(3) x d2(2) data(2) by simp
    have "verify_loop q original secret ?d 20 = Some (Inr ?d)"
      by (rule loop) (use q qx x in \<open>simp_all add: x_def\<close>)
    moreover have "\<exists>q'. verify_digest q original secret ?d = Inr q'"
    proof -
      have cd: "pk_code p \<in> request_codes \<union> acct_codes \<union> reply_codes" using sv by (auto simp: sender_vector_ok_def)
      note known = code_sets_less [OF this]
      from sv consider "pk_code p \<in> request_codes" | "pk_code p \<in> acct_codes" "pk_vector p = zeros 16" "pk_code p \<notin> request_codes"
        | orig where "pk_code p \<in> reply_codes" "original = Some orig" "pk_vector orig = pk_vector p" "pk_code p \<notin> request_codes \<union> acct_codes"
        unfolding sender_vector_ok_def code_sets by auto
      then show ?thesis
      proof cases
        case 1
        with known show ?thesis by (simp add: verify_digest_def q(2) Let_def request_codes_def)
      next
        case 2
        from 2(3) have "calc_acctdigest q secret ?d = (0, memcpy_at d2 4 (zeros 16))"
          using calc_acctdigest_ok [of d2 q secret] 2(2) self qx d2(2) data(2) by (simp add: x_def)
        with 2(1,3) known show ?thesis
          by (auto simp: verify_digest_def q(2) Let_def request_codes_def acct_codes_def)
      next
        case 3
        then have "calc_replydigest q (Some orig) secret ?d = (0, ?d)"
          using calc_replydigest_ok [of d2 orig q secret] pv self qx d2(2) data(2) by (simp add: x_def)
        with 3 known show ?thesis
          by (auto simp: verify_digest_def q(2) Let_def request_codes_def acct_codes_def reply_codes_def)
      qed
    qed
    ultimately show "\<exists>q'. rad_verify q original secret = Some (Inr q')"
      by (auto simp: rad_verify_def q(1) AUTH_HDR_LEN_def)
  qed (use d2 data(2) x in \<open>auto simp: drop_memcpy_at\<close>)
qed

end
