(* ===== verification/Packet_Decode.thy ===== *)
theory Packet_Decode
  imports Packet_Verify
begin

text \<open>
  The decoder of \<^verbatim>\<open>src/lib/radius.cpp\<close>: \<open>data2vp\<close>, \<open>rad_coalesce\<close>, \<open>rad_continuation2vp\<close>,
  \<open>rad_attr2vp\<close> and \<open>rad_decode\<close>. A pointer into the packet is the list of the octets from there to the end of
  the packet, so that reading past an attribute but inside the packet is what the code does, and reading past
  the packet is the error \<open>Overread\<close>. \<open>Endless\<close> is a loop whose pointer no longer moves;
  \<open>NegativeLength\<close> is a length that the code would go on with as a huge unsigned number. The loop of
  \<open>rad_decode\<close>, with its jumps to \<^verbatim>\<open>create_pair\<close>, \<^verbatim>\<open>created_pair\<close> and \<^verbatim>\<open>next\<close>, is a step function on the
  state it keeps between rounds. Shown: the loop terminates; on an accepted packet, under a
  dictionary without the formats named in the theorems, no memory error occurs and the
  result is one pair per attribute; decoding an encoded value gives the value back.
\<close>

section \<open>\<open>data2vp\<close>\<close>

text \<open>The exit \<^verbatim>\<open>raw\<close>: the octets under the number \<open>attribute\<close>, as an unknown attribute.\<close>

definition data2vp_raw :: "dictionary \<Rightarrow> u32 \<Rightarrow> nat \<Rightarrow> byte list \<Rightarrow> wire_error + value_pair" where
  "data2vp_raw d attribute len data =
     (if length data < len then Inl Overread
      else case paircreate_raw d attribute PW_TYPE_OCTETS (pairalloc None) of
        None \<Rightarrow> Inl Refused
      | Some vp \<Rightarrow> Inr (vp\<lparr>vp_length := len, vp_octets := memcpy_at (vp_octets vp) 0 (take len data)\<rparr>))"

text \<open>Tags: the flag \<^verbatim>\<open>tag\<close> of the pair and how many octets the tag takes.\<close>

definition data2vp_tag :: "value_pair \<Rightarrow> byte \<Rightarrow> value_pair \<times> nat" where
  "data2vp_tag vp b =
     (if has_tag (vp_flags vp) \<and> (TAG_VALID b \<or> encrypt (vp_flags vp) = FLAG_ENCRYPT_TUNNEL_PASSWORD)
      then (vp\<lparr>vp_flags := (vp_flags vp)\<lparr>tag := b\<rparr>\<rparr>,
            if vp_type vp = PW_TYPE_STRING \<or> vp_type vp = PW_TYPE_OCTETS then 1 else 0)
      else (vp, 0))"

text \<open>Decryption in place. \<open>Inr None\<close> is the jump to \<^verbatim>\<open>raw\<close>. The decoder of tunnel passwords works on whole
  blocks, which leave the 254-octet buffer when more than 240 octets follow the salt.\<close>

definition data2vp_decrypt ::
    "radius_packet \<Rightarrow> radius_packet option \<Rightarrow> byte list option \<Rightarrow> byte list \<Rightarrow> value_pair \<Rightarrow>
     wire_error + value_pair option" where
  "data2vp_decrypt packet original secret data vp =
     (case secret of
        None \<Rightarrow> Inr (Some vp)
      | Some sec \<Rightarrow>
          let enc = encrypt (vp_flags vp)
          in if enc = FLAG_ENCRYPT_USER_PASSWORD then
               (let vector = (case original of Some orig \<Rightarrow> pk_vector orig | None \<Rightarrow> pk_vector packet);
                    (buf, _) = rad_pwdecode (vp_octets vp) (vp_length vp) sec vector
                in Inr (Some (vp\<lparr>vp_octets := buf,
                      vp_length := (if vp_attribute vp = PW_USER_PASSWORD then strlen buf else vp_length vp)\<rparr>)))
             else if enc = FLAG_ENCRYPT_TUNNEL_PASSWORD then
               (case original of
                  None \<Rightarrow> Inr None
                | Some orig \<Rightarrow>
                    (case rad_tunnel_pwdecode (vp_octets vp) (vp_length vp) sec (pk_vector orig) of
                       None \<Rightarrow> Inr None
                     | Some (buf, len) \<Rightarrow>
                         if 240 < vp_length vp - 2 then Inl Overflow
                         else Inr (Some (vp\<lparr>vp_octets := buf, vp_length := len\<rparr>))))
             else if enc = FLAG_ENCRYPT_ASCEND_SECRET then
               (case original of
                  None \<Rightarrow> Inr None
                | Some orig \<Rightarrow>
                    if length data < 16 then Inl Overread
                    else
                      let buf = memcpy_at (vp_octets vp) 0 (make_secret (pk_vector orig) sec data @ [0])
                      in Inr (Some (vp\<lparr>vp_octets := buf, vp_length := strlen buf\<rparr>)))
             else Inr (Some vp))"

definition string_octets :: "string \<Rightarrow> byte list" where
  "string_octets s = map (\<lambda>c. word_of_nat (of_char c)) s"

text \<open>The switch over the types; \<open>None\<close> is the jump to \<^verbatim>\<open>raw\<close>. The name of a named value is copied over the
  octets. \<open>len\<close> and \<open>data\<close> are the original ones, which a TLV keeps.\<close>

definition data2vp_type :: "dictionary \<Rightarrow> nat \<Rightarrow> byte list \<Rightarrow> value_pair \<Rightarrow> value_pair option" where
  "data2vp_type d len data vp =
     (let oc = vp_octets vp;
          w = be32 (oc ! 0) (oc ! 1) (oc ! 2) (oc ! 3)
      in case vp_type vp of
           PW_TYPE_STRING \<Rightarrow> Some vp
         | PW_TYPE_OCTETS \<Rightarrow> Some vp
         | PW_TYPE_ABINARY \<Rightarrow> Some vp
         | PW_TYPE_BYTE \<Rightarrow> if vp_length vp \<noteq> 1 then None else Some (vp\<lparr>vp_lvalue := ucast (oc ! 0)\<rparr>)
         | PW_TYPE_SHORT \<Rightarrow> if vp_length vp \<noteq> 2 then None
             else Some (vp\<lparr>vp_lvalue := push_bit 8 (ucast (oc ! 0)) OR ucast (oc ! 1)\<rparr>)
         | PW_TYPE_INTEGER \<Rightarrow>
             if vp_length vp \<noteq> 4 then None
             else
               let lv = (if has_tag (vp_flags vp) then w AND 0x00ffffff else w)
               in Some (vp\<lparr>vp_lvalue := lv,
                      vp_octets := (case dict_valbyattr d (vp_attribute vp) lv of
                                      Some dval \<Rightarrow> memcpy_at oc 0 (take 253 (string_octets (dval_name dval)) @ [0])
                                    | None \<Rightarrow> oc)\<rparr>)
         | PW_TYPE_DATE \<Rightarrow> if vp_length vp \<noteq> 4 then None else Some (vp\<lparr>vp_lvalue := w\<rparr>)
         | PW_TYPE_IPADDR \<Rightarrow> if vp_length vp \<noteq> 4 then None
             else Some (vp\<lparr>vp_lvalue := be32 (oc ! 3) (oc ! 2) (oc ! 1) (oc ! 0)\<rparr>)
         | PW_TYPE_IFID \<Rightarrow> if vp_length vp \<noteq> 8 then None else Some vp
         | PW_TYPE_IPV6ADDR \<Rightarrow> if vp_length vp \<noteq> 16 then None else Some vp
         | PW_TYPE_IPV6PREFIX \<Rightarrow>
             if vp_length vp < 2 \<or> 18 < vp_length vp then None
             else if 128 < oc ! 1 then None
             else Some (vp\<lparr>vp_octets := memcpy_at oc (vp_length vp) (zeros (18 - vp_length vp))\<rparr>)
         | PW_TYPE_SIGNED \<Rightarrow> if vp_length vp \<noteq> 4 then None
             else Some (vp\<lparr>vp_lvalue := w, vp_octets := memcpy_at oc 0 (le32_bytes w)\<rparr>)
         | PW_TYPE_TLV \<Rightarrow> Some (vp\<lparr>vp_length := len, vp_tlv := Some (take len data)\<rparr>)
         | PW_TYPE_COMBO_IP \<Rightarrow>
             if vp_length vp = 4 then
               Some (vp\<lparr>vp_type := PW_TYPE_IPADDR, vp_lvalue := be32 (oc ! 3) (oc ! 2) (oc ! 1) (oc ! 0)\<rparr>)
             else if vp_length vp = 16 then Some (vp\<lparr>vp_type := PW_TYPE_IPV6ADDR\<rparr>)
             else None
         | _ \<Rightarrow> None)"

text \<open>The whole function: \<open>data\<close> are the octets from the value on, \<open>len\<close> the length of the value. An empty
  value of a tagged attribute makes the length of the copy negative.\<close>

definition data2vp ::
    "dictionary \<Rightarrow> radius_packet \<Rightarrow> radius_packet option \<Rightarrow> byte list option \<Rightarrow> u32 \<Rightarrow> nat \<Rightarrow> byte list \<Rightarrow> value_pair \<Rightarrow>
     wire_error + value_pair" where
  "data2vp d packet original secret attribute len data vp =
     (let len = (if 253 < len then 253 else len)
      in if length data < len \<or> (has_tag (vp_flags vp) \<and> data = []) then Inl Overread
         else
           let vp = vp\<lparr>vp_length := len, vp_op := T_OP_EQ\<rparr>;
               (vp, offset) = data2vp_tag vp (hd data)
           in if len < offset then Inl NegativeLength
              else
                let vp = vp\<lparr>vp_octets := memcpy_at (vp_octets vp) 0 (bslice offset (len - offset) data), vp_length := len - offset\<rparr>
                in case data2vp_decrypt packet original secret data vp of
                     Inl e \<Rightarrow> Inl e
                   | Inr None \<Rightarrow> data2vp_raw d attribute len data
                   | Inr (Some vp) \<Rightarrow>
                       (case data2vp_type d len data vp of
                          None \<Rightarrow> data2vp_raw d attribute len data
                        | Some vp \<Rightarrow> Inr vp))"

definition rad_attr2vp ::
    "dictionary \<Rightarrow> radius_packet \<Rightarrow> radius_packet option \<Rightarrow> byte list option \<Rightarrow> u32 \<Rightarrow> nat \<Rightarrow> byte list \<Rightarrow>
     wire_error + value_pair" where
  "rad_attr2vp d packet original secret attribute len data =
     (case paircreate d attribute PW_TYPE_OCTETS of
        None \<Rightarrow> Inl Refused
      | Some vp \<Rightarrow> data2vp d packet original secret attribute len data vp)"

section \<open>Continued vendor attributes\<close>

text \<open>
  One attribute of the walk in \<open>rad_coalesce\<close>: whether it is a fragment of \<open>attribute\<close>. The walk starts behind the
  data of the first fragment; it moves by the length octets of whatever is there.
\<close>

definition coalesce_matches :: "u32 \<Rightarrow> byte list \<Rightarrow> bool" where
  "coalesce_matches attribute ptr \<longleftrightarrow>
     \<not> (ptr ! 0 \<noteq> 26 \<or> unat (ptr ! 1) < 9 \<or> ptr ! 2 \<noteq> 0 \<or> ptr ! 3 \<noteq> 0) \<and>
     push_bit 16 (be32 (ptr ! 2) (ptr ! 3) (ptr ! 4) (ptr ! 5)) OR ucast (ptr ! 6) = attribute"

text \<open>The first walk adds up the lengths, the second copies and clears the vendor type of what it has copied.
  The result of the second is the fragments' data and the rest of the packet.\<close>

function coalesce_length :: "u32 \<Rightarrow> byte list \<Rightarrow> wire_error + nat" where
  "coalesce_length attribute ptr =
     (if ptr = [] then Inr 0
      else if length ptr < 2 then Inl Overread
      else
        let l = unat (ptr ! 1)
        in if ptr ! 0 = 26 \<and> 9 \<le> l \<and> length ptr < 9 then Inl Overread
           else if coalesce_matches attribute ptr then
             (if unat (ptr ! 7) < 3 then Inr 0
              else if \<not> bit (ptr ! 8) 7 then Inr (unat (ptr ! 7) - 3)
              else if length ptr < l then Inl Overread
              else map_sum (\<lambda>e. e) (\<lambda>n. unat (ptr ! 7) - 3 + n) (coalesce_length attribute (drop l ptr)))
           else if l = 0 then Inl Endless
           else if length ptr < l then Inl Overread
           else coalesce_length attribute (drop l ptr))"
  by pat_completeness auto
termination
  by (relation "measure (\<lambda>(attribute, ptr). length ptr)") (auto simp: coalesce_matches_def)

function coalesce_copy :: "u32 \<Rightarrow> byte list \<Rightarrow> wire_error + byte list \<times> byte list" where
  "coalesce_copy attribute ptr =
     (if ptr = [] then Inr ([], [])
      else if length ptr < 2 then Inl Overread
      else
        let l = unat (ptr ! 1)
        in if ptr ! 0 = 26 \<and> 9 \<le> l \<and> length ptr < 9 then Inl Overread
           else if coalesce_matches attribute ptr then
             (if unat (ptr ! 7) < 3 then Inr ([], ptr)
              else
                let n = unat (ptr ! 7) - 3;
                    ptr' = ptr[6 := 0]
                in if length ptr < 9 + n then Inl Overread
                   else if \<not> bit (ptr ! 8) 7 then Inr (bslice 9 n ptr, ptr')
                   else if length ptr < l then Inl Overread
                   else map_sum (\<lambda>e. e) (\<lambda>(bytes, rest). (bslice 9 n ptr @ bytes, take l ptr' @ rest))
                          (coalesce_copy attribute (drop l ptr)))
           else if l = 0 then Inl Endless
           else if length ptr < l then Inl Overread
           else map_sum (\<lambda>e. e) (\<lambda>(bytes, rest). (bytes, take l ptr @ rest)) (coalesce_copy attribute (drop l ptr)))"
  by pat_completeness auto
termination
  by (relation "measure (\<lambda>(attribute, ptr). length ptr)") (auto simp: coalesce_matches_def)

declare coalesce_length.simps [simp del] coalesce_copy.simps [simp del]

text \<open>\<open>data\<close> are the octets from the first fragment's data to the end of the packet. The result is the
  coalesced data and \<open>data\<close> with the fragments marked.\<close>

definition rad_coalesce :: "u32 \<Rightarrow> nat \<Rightarrow> byte list \<Rightarrow> wire_error + byte list \<times> byte list" where
  "rad_coalesce attribute len data =
     (case coalesce_length attribute (drop len data) of
        Inl e \<Rightarrow> Inl e
      | Inr n \<Rightarrow>
          (case coalesce_copy attribute (drop len data) of
             Inl e \<Rightarrow> Inl e
           | Inr (bytes, rest) \<Rightarrow>
               if n < length bytes then Inl Overflow else Inr (take len data @ bytes, take len data @ rest)))"

text \<open>The check that the sub-attributes fill the TLV exactly, and the walk that creates a pair for each. Its data
  pointer runs in \<open>buf\<close>, of which \<open>len\<close> octets are the TLV.\<close>

function tlv_wellformed :: "byte list \<Rightarrow> bool" where
  "tlv_wellformed ptr =
     (if ptr = [] then True
      else if length ptr < 2 \<or> unat (ptr ! 1) < 2 \<or> length ptr < unat (ptr ! 1) then False
      else tlv_wellformed (drop (unat (ptr ! 1)) ptr))"
  by pat_completeness auto
termination
  by (relation "measure length") auto

declare tlv_wellformed.simps [simp del]

function tlv_pairs ::
    "dictionary \<Rightarrow> radius_packet \<Rightarrow> radius_packet option \<Rightarrow> byte list option \<Rightarrow> u32 \<Rightarrow> byte list \<Rightarrow> nat \<Rightarrow>
     wire_error + value_pair list" where
  "tlv_pairs d packet original secret attribute buf len =
     (if len = 0 then Inr []
      else
        let l = unat (buf ! 1)
        in if l < 2 \<or> len < l then Inl Overread
           else
             case paircreate d (attribute OR push_bit 8 (ucast (buf ! 0))) PW_TYPE_OCTETS of
               None \<Rightarrow> Inl Refused
             | Some vp \<Rightarrow>
                 (case data2vp d packet original secret (ucast (buf ! 0)) (l - 2) (drop 2 buf) vp of
                    Inl e \<Rightarrow> Inl e
                  | Inr vp \<Rightarrow>
                      map_sum (\<lambda>e. e) (\<lambda>vps. vp # vps)
                        (tlv_pairs d packet original secret attribute (drop l buf) (len - l))))"
  by pat_completeness auto
termination
  by (relation "measure (\<lambda>(d, packet, original, secret, attribute, buf, len). len)") auto

declare tlv_pairs.simps [simp del]

text \<open>The result is the pairs and the octets from \<open>data\<close> on, in which fragments may have been marked.\<close>

definition rad_continuation2vp ::
    "dictionary \<Rightarrow> radius_packet \<Rightarrow> radius_packet option \<Rightarrow> byte list option \<Rightarrow> u32 \<Rightarrow> nat \<Rightarrow> byte list \<Rightarrow> bool \<Rightarrow>
     dict_attr option \<Rightarrow> wire_error + value_pair list \<times> byte list" where
  "rad_continuation2vp d packet original secret attribute len data flag da =
     (case (if flag then rad_coalesce attribute len data
            else if length data < len then Inl Overread else Inr (take len data, data)) of
        Inl e \<Rightarrow> Inl e
      | Inr (tlv_data, data') \<Rightarrow>
          let not_well_formed =
                (case paircreate d attribute PW_TYPE_OCTETS of
                   None \<Rightarrow> Inl Refused
                 | Some vp \<Rightarrow>
                     Inr ([vp\<lparr>vp_type := PW_TYPE_TLV,
                             vp_flags := (vp_flags vp)\<lparr>encrypt := FLAG_ENCRYPT_NONE, has_tag := False, is_tlv := False\<rparr>,
                             vp_tlv := Some tlv_data, vp_length := length tlv_data\<rparr>], data'))
          in case da of
               None \<Rightarrow> not_well_formed
             | Some a \<Rightarrow>
                 if da_type a \<noteq> PW_TYPE_TLV \<or> \<not> tlv_wellformed tlv_data then not_well_formed
                 else
                   (case tlv_pairs d packet original secret attribute (if flag then tlv_data else data) (length tlv_data) of
                      Inl Refused \<Rightarrow> not_well_formed
                    | Inl e \<Rightarrow> Inl e
                    | Inr [] \<Rightarrow> Inl NullDeref
                    | Inr vps \<Rightarrow> Inr (if length vps = 1 then vps else rad_sortvp vps, data')))"

section \<open>\<open>rad_decode\<close>\<close>

text \<open>What the sweep over a Vendor-Specific attribute finds: it cannot be parsed (a raw attribute 26), a
  vendor without length octets (one attribute fills it), or attributes that fill it exactly.\<close>

datatype vsa_sweep = RawVsa | PlainVsa u32 | SubVsas

definition vsa_number :: "nat \<Rightarrow> byte list \<Rightarrow> u32 option" where
  "vsa_number vsa_tlen subptr =
     (if vsa_tlen = 1 then Some (ucast (subptr ! 0))
      else if vsa_tlen = 2 then Some (push_bit 8 (ucast (subptr ! 0)) OR ucast (subptr ! 1))
      else if vsa_tlen = 4 then
        (if subptr ! 0 \<noteq> 0 \<or> subptr ! 1 \<noteq> 0 then None
         else Some (push_bit 8 (ucast (subptr ! 2)) OR ucast (subptr ! 3)))
      else None)"

function vsa_scan :: "nat \<times> nat \<times> bool \<Rightarrow> u32 \<Rightarrow> byte list \<Rightarrow> vsa_sweep" where
  "vsa_scan (tlen, llen, cont) myvendor sub =
     (let off = (if cont then 1 else 0)
      in if length sub < tlen + llen + off then RawVsa
         else case vsa_number tlen sub of
           None \<Rightarrow> RawVsa
         | Some myattr \<Rightarrow>
             if llen = 0 then PlainVsa (push_bit 16 myvendor OR myattr)
             else if llen = 1 then
               (let n = unat (sub ! tlen)
                in if n < tlen + llen + off then RawVsa
                   else if length sub < n then RawVsa
                   else if cont \<and> sub ! (tlen + llen) AND 0x7f \<noteq> 0 then RawVsa
                   else if n < length sub then vsa_scan (tlen, llen, cont) myvendor (drop n sub) else SubVsas)
             else if llen = 2 then
               (let n = unat (sub ! (tlen + 1))
                in if sub ! tlen \<noteq> 0 then RawVsa
                   else if n < tlen + llen then RawVsa
                   else if length sub < n then RawVsa
                   else if n < length sub then vsa_scan (tlen, llen, cont) myvendor (drop n sub) else SubVsas)
             else RawVsa)"
  by pat_completeness auto
termination
  by (relation "measure (\<lambda>(fmt, v, sub). length sub)") auto

declare vsa_scan.simps [simp del]

text \<open>The format of a vendor, and the sweep over the octets behind the vendor number. The vendor number is a
  signed integer in the code, so numbers from \<open>2 ^ 31\<close> on pass the test against 65535.\<close>

type_synonym vsa_format = "nat \<times> nat \<times> bool"

definition vendor_format :: "dictionary \<Rightarrow> u32 \<Rightarrow> vsa_format" where
  "vendor_format d myvendor =
     (case dict_vendorbyvalue d myvendor of
        Some dv \<Rightarrow> (dv_type dv, dv_length dv, dv_flags dv)
      | None \<Rightarrow> (1, 1, False))"

definition vsa_open :: "dictionary \<Rightarrow> nat \<Rightarrow> byte list \<Rightarrow> vsa_sweep" where
  "vsa_open d attrlen ptr =
     (let myvendor = be32 (ptr ! 0) (ptr ! 1) (ptr ! 2) (ptr ! 3)
      in if myvendor = 0 then RawVsa
         else if sint myvendor > 65535 then RawVsa
         else vsa_scan (vendor_format d myvendor) myvendor (bslice 4 (attrlen - 4) ptr))"

text \<open>The header of one vendor attribute: its number, the length of its data, and the octets of the header.\<close>

definition vsa_header :: "vsa_format \<Rightarrow> u32 \<Rightarrow> byte list \<Rightarrow> wire_error + u32 \<times> nat \<times> nat" where
  "vsa_header = (\<lambda>(tlen, llen, cont) vendorcode ptr.
     let off = (if cont then 1 else 0)
     in if tlen \<notin> {1, 2} then Inl Refused
        else if llen \<notin> {1, 2} then Inl Refused
        else if length ptr < tlen + llen + off then Inl Overread
        else
          let attribute = (if tlen = 1 then ucast (ptr ! 0) else push_bit 8 (ucast (ptr ! 0)) OR ucast (ptr ! 1)) OR push_bit 16 vendorcode;
              total = (if llen = 1 then unat (ptr ! tlen) else unat (ptr ! (tlen + 1)));
              used = (if llen = 1 then tlen + llen + off else tlen + llen)
          in if total < used then Inl NegativeLength
             else Inr (attribute, total - used, tlen + llen + off))"

record decode_state =
  ds_ptr :: "byte list"
  ds_vendorcode :: u32
  ds_vendorlen :: int
  ds_format :: vsa_format

record decode_env =
  de_dict :: dictionary
  de_max :: int
  de_packet :: radius_packet
  de_original :: "radius_packet option"
  de_secret :: "byte list option"

text \<open>\<^verbatim>\<open>create_pair\<close>: one pair, or none for an attribute without data.\<close>

definition create_pair :: "decode_env \<Rightarrow> u32 \<Rightarrow> nat \<Rightarrow> byte list \<Rightarrow> wire_error + value_pair list" where
  "create_pair env attribute attrlen ptr =
     (if attrlen = 0 \<and> attribute \<noteq> PW_CHARGEABLE_USER_IDENTITY then Inr []
      else map_sum (\<lambda>e. e) (\<lambda>vp. [vp])
             (rad_attr2vp (de_dict env) (de_packet env) (de_original env) (de_secret env) attribute attrlen ptr))"

text \<open>The part of a round from the inner vendor attribute on.\<close>

definition decode_vsa :: "decode_env \<Rightarrow> decode_state \<Rightarrow> wire_error + value_pair list \<times> decode_state" where
  "decode_vsa env st =
     (case vsa_header (ds_format st) (ds_vendorcode st) (ds_ptr st) of
        Inl e \<Rightarrow> Inl e
      | Inr (attribute, attrlen, hlen) \<Rightarrow>
          let ptr = drop hlen (ds_ptr st);
              vendorlen = ds_vendorlen st - int (hlen + attrlen);
              st = st\<lparr>ds_vendorlen := vendorlen, ds_vendorcode := (if vendorlen = 0 then 0 else ds_vendorcode st)\<rparr>;
              next = (\<lambda>ptr. st\<lparr>ds_ptr := drop attrlen ptr\<rparr>);
              cont = snd (snd (ds_format st));
              vsa_ptr2 = ds_ptr st ! 2
          in if attrlen = 0 then Inr ([], next ptr)
             else if attribute = 0x60b50000 then Inr ([], next ptr)
             else if cont \<and> length (ds_ptr st) < 3 then Inl Overread
             else
               let da = dict_attrbyvalue (de_dict env) attribute
               in if cont \<and> \<not> (\<not> bit vsa_ptr2 7 \<and> da \<noteq> None \<and> da_type (the da) \<noteq> PW_TYPE_TLV) then
                    (case rad_continuation2vp (de_dict env) (de_packet env) (de_original env) (de_secret env)
                            attribute attrlen ptr (bit vsa_ptr2 7) da of
                       Inl e \<Rightarrow> Inl e
                     | Inr (pairs, ptr') \<Rightarrow> Inr (pairs, next ptr'))
                  else map_sum (\<lambda>e. e) (\<lambda>pairs. (pairs, next ptr)) (create_pair env attribute attrlen ptr))"

text \<open>One round; \<open>Inr None\<close> is the \<^verbatim>\<open>break\<close>.\<close>

definition decode_step :: "decode_env \<Rightarrow> decode_state \<Rightarrow> wire_error + (value_pair list \<times> decode_state) option" where
  "decode_step env st =
     (let ptr = ds_ptr st
      in if ds_vendorcode st \<noteq> 0 then map_sum (\<lambda>e. e) Some (decode_vsa env st)
         else if length ptr < 2 \<or> ptr ! 0 = 0 \<or> ptr ! 1 < 2 \<or> length ptr < unat (ptr ! 1) then Inr None
         else
           let attribute = ucast (ptr ! 0);
               attrlen = unat (ptr ! 1) - 2;
               ptr = drop 2 ptr;
               create = (\<lambda>attribute k.
                 map_sum (\<lambda>e. e) (\<lambda>pairs. Some (pairs, st\<lparr>ds_ptr := drop attrlen ptr\<rparr>))
                   (create_pair env attribute (attrlen - k) (drop k ptr)))
           in if attribute \<noteq> PW_VENDOR_SPECIFIC \<or> attrlen \<le> 4 then create attribute 0
              else
                let myvendor = be32 (ptr ! 0) (ptr ! 1) (ptr ! 2) (ptr ! 3);
                    fmt = vendor_format (de_dict env) myvendor
                in case vsa_open (de_dict env) attrlen ptr of
                     RawVsa \<Rightarrow> create attribute 0
                   | PlainVsa a \<Rightarrow> create a (4 + fst fmt)
                   | SubVsas \<Rightarrow>
                       map_sum (\<lambda>e. e) Some
                         (decode_vsa env \<lparr>ds_ptr = drop 4 ptr, ds_vendorcode = myvendor,
                            ds_vendorlen = int attrlen - 4, ds_format = fmt\<rparr>))"

text \<open>Every round consumes octets.\<close>

lemma map_sum_Inr: "map_sum (\<lambda>e. e) f x = Inr y \<longleftrightarrow> (\<exists>z. x = Inr z \<and> y = f z)"
  by (cases x) auto

lemma map_sum_Inl: "map_sum (\<lambda>e. e) f x = Inl e \<longleftrightarrow> x = Inl e"
  by (cases x) auto

lemma coalesce_copy_rest:
  assumes "coalesce_copy attribute ptr = Inr (bytes, rest)"
  shows "rest = ptr \<or> rest = ptr[6 := 0] \<or>
    (\<exists>l bytes' rest'. 0 < l \<and> l \<le> length ptr \<and> coalesce_copy attribute (drop l ptr) = Inr (bytes', rest') \<and>
       (rest = take l ptr @ rest' \<or> rest = take l (ptr[6 := 0]) @ rest'))"
proof (cases "coalesce_matches attribute ptr")
  case True
  then have "0 < unat (ptr ! 1)" by (auto simp: coalesce_matches_def)
  with True assms show ?thesis
    by (subst (asm) coalesce_copy.simps)
       (auto simp: Let_def map_sum_Inr split: if_split_asm intro!: exI [of _ "unat (ptr ! 1)"])
next
  case False
  with assms show ?thesis
    by (subst (asm) coalesce_copy.simps)
       (auto simp: Let_def map_sum_Inr split: if_split_asm intro!: exI [of _ "unat (ptr ! 1)"])
qed

lemma coalesce_copy_length: "coalesce_copy attribute ptr = Inr (bytes, rest) \<Longrightarrow> length rest = length ptr"
proof (induction "length ptr" arbitrary: ptr bytes rest rule: less_induct)
  case less
  from coalesce_copy_rest [OF less.prems] show ?case
  proof (elim disjE exE conjE)
    fix l bytes' rest' assume l: "0 < l" "l \<le> length ptr" and r: "coalesce_copy attribute (drop l ptr) = Inr (bytes', rest')"
    have "length rest' = length ptr - l" using less.hyps [OF _ r] l by simp
    then show "length rest = length ptr" if "rest = take l ptr @ rest'" using that l by simp
    show "length rest = length ptr" if "rest = take l (ptr[6 := 0]) @ rest'" using that l \<open>length rest' = length ptr - l\<close> by simp
  qed simp_all
qed

lemma rad_continuation2vp_length:
  assumes "rad_continuation2vp d packet original secret attribute len data flag da = Inr (pairs, data')"
  shows "length data' = length data"
proof -
  obtain tlv where "(if flag then rad_coalesce attribute len data
      else if length data < len then Inl Overread else Inr (take len data, data)) = Inr (tlv, data')"
    using assms unfolding rad_continuation2vp_def Let_def
    by (auto split: sum.split_asm option.split_asm if_split_asm wire_error.split_asm list.split_asm)
  then show ?thesis
    by (auto simp: rad_coalesce_def min_def split: if_split_asm sum.split_asm dest!: coalesce_copy_length)
qed

lemma vsa_header_Inr:
  "vsa_header fmt vendorcode ptr = Inr (attribute, attrlen, hlen) \<Longrightarrow> 2 \<le> hlen \<and> hlen \<le> length ptr"
  by (cases fmt) (auto simp: vsa_header_def Let_def split: if_split_asm)

lemma decode_vsa_shrinks:
  assumes "decode_vsa env st = Inr (pairs, st')"
  shows "length (ds_ptr st') < length (ds_ptr st)"
proof -
  obtain attribute attrlen hlen where h: "vsa_header (ds_format st) (ds_vendorcode st) (ds_ptr st) = Inr (attribute, attrlen, hlen)"
    using assms by (auto simp: decode_vsa_def split: sum.split_asm)
  note b = vsa_header_Inr [OF h]
  have "length (ds_ptr st') = length (ds_ptr st) - hlen - attrlen"
    using assms unfolding decode_vsa_def h Let_def
    by (auto simp: map_sum_Inr split: if_split_asm sum.split_asm dest: rad_continuation2vp_length)
  with b show ?thesis by linarith
qed

lemma decode_step_shrinks:
  assumes "decode_step env st = Inr (Some (pairs, st'))"
  shows "length (ds_ptr st') < length (ds_ptr st)"
proof (cases "ds_vendorcode st = 0")
  case False
  with assms show ?thesis by (auto simp: decode_step_def map_sum_Inr dest: decode_vsa_shrinks)
next
  case True
  with assms have "2 \<le> length (ds_ptr st)" by (auto simp: decode_step_def Let_def split: if_split_asm)
  with assms True show ?thesis
    by (auto simp: decode_step_def Let_def map_sum_Inr split: if_split_asm vsa_sweep.split_asm dest!: decode_vsa_shrinks)
qed

function decode_loop :: "decode_env \<Rightarrow> nat \<Rightarrow> decode_state \<Rightarrow> wire_error + value_pair list" where
  "decode_loop env num st =
     (if ds_ptr st = [] then Inr []
      else case decode_step env st of
        Inl e \<Rightarrow> Inl e
      | Inr None \<Rightarrow> Inr []
      | Inr (Some (pairs, st')) \<Rightarrow>
          if 0 < de_max env \<and> de_max env < int (num + length pairs) then Inl Refused
          else map_sum (\<lambda>e. e) (\<lambda>rest. pairs @ rest) (decode_loop env (num + length pairs) st'))"
  by pat_completeness auto
termination
  by (relation "measure (\<lambda>(env, num, st). length (ds_ptr st))") (auto dest: decode_step_shrinks)

declare decode_loop.simps [simp del]

definition rad_decode ::
    "dictionary \<Rightarrow> int \<Rightarrow> radius_packet \<Rightarrow> radius_packet option \<Rightarrow> byte list option \<Rightarrow> lib_state \<Rightarrow>
     wire_error + radius_packet \<times> lib_state" where
  "rad_decode d fr_max_attributes packet original secret s =
     (case pk_data packet of
        None \<Rightarrow> Inl NullDeref
      | Some data \<Rightarrow>
          let env = \<lparr>de_dict = d, de_max = fr_max_attributes, de_packet = packet, de_original = original, de_secret = secret\<rparr>
          in case decode_loop env 0 \<lparr>ds_ptr = drop AUTH_HDR_LEN data, ds_vendorcode = 0, ds_vendorlen = 0, ds_format = (1, 1, False)\<rparr> of
               Inl e \<Rightarrow> Inl e
             | Inr pairs \<Rightarrow> Inr (packet\<lparr>pk_vps := pk_vps packet @ pairs\<rparr>, fr_rand_seed (Some (take AUTH_HDR_LEN data)) s))"

section \<open>Decoding a request stays inside the packet\<close>

text \<open>An attribute that is not of a vendor with continued attributes, and packets of such attributes.\<close>

definition vsa_plain :: "dictionary \<Rightarrow> byte \<times> byte list \<Rightarrow> bool" where
  "vsa_plain d = (\<lambda>(t, v). (ucast t :: u32) = PW_VENDOR_SPECIFIC \<and> 4 < length v \<longrightarrow>
     \<not> snd (snd (vendor_format d (be32 (v ! 0) (v ! 1) (v ! 2) (v ! 3)))))"

fun uncontinued :: "dictionary \<Rightarrow> byte list \<Rightarrow> bool" where
  "uncontinued d (t # l # rest) \<longleftrightarrow> vsa_plain d (t, take (unat l - 2) rest) \<and> uncontinued d (drop (unat l - 2) rest)"
| "uncontinued d _ \<longleftrightarrow> True"

lemma uncontinued_attrs:
  assumes "\<forall>a \<in> set as. attr_valid a" and "uncontinued d (concat (map attr_octets as))"
  shows "\<forall>a \<in> set as. vsa_plain d a"
  using assms
proof (induction as)
  case (Cons a as)
  obtain t v where a: "a = (t, v)" by fastforce
  have "unat (word_of_nat (length v + 2) :: byte) = length v + 2" using Cons.prems(1) by (intro unat_attr_length) (simp add: a attr_valid_def)
  with Cons show ?case by (simp add: a attr_octets_def)
qed simp

text \<open>Chargeable-User-Identity, the one attribute that may be empty, has no tag.\<close>

definition cui_untagged :: "dictionary \<Rightarrow> bool" where
  "cui_untagged d \<longleftrightarrow> (\<forall>da. dict_attrbyvalue d PW_CHARGEABLE_USER_IDENTITY = Some da \<longrightarrow> \<not> has_tag (da_flags da))"

lemma paircreate_Some: "\<exists>vp. paircreate d a ty = Some vp"
  by (auto simp: paircreate_def paircreate_raw_def pairalloc_def Let_def split: option.split)

lemma data2vp_raw_Inl: "len \<le> length data \<Longrightarrow> data2vp_raw d a len data = Inl e \<Longrightarrow> False"
  by (auto simp: data2vp_raw_def paircreate_raw_def pairalloc_def)

lemma data2vp_request_safe:
  assumes "data2vp d packet None secret a len data vp = Inl e" and "len \<le> length data"
    and "len = 0 \<longrightarrow> \<not> has_tag (vp_flags vp)"
  shows False
proof -
  define n where "n = (if 253 < len then 253 else len)"
  have n: "n \<le> length data" "n = 0 \<longrightarrow> \<not> has_tag (vp_flags vp)" using assms(2,3) by (auto simp: n_def)
  obtain vp1 off where t: "data2vp_tag (vp\<lparr>vp_length := n, vp_op := T_OP_EQ\<rparr>) (hd data) = (vp1, off)" by fastforce
  have "\<not> (length data < n \<or> has_tag (vp_flags vp) \<and> data = [])" using n by auto
  moreover have "\<not> n < off" using t n(2) by (auto simp: data2vp_tag_def split: if_split_asm)
  moreover have "data2vp_decrypt packet None secret data v \<noteq> Inl e" for v
    by (simp add: data2vp_decrypt_def Let_def split_beta split: option.split)
  ultimately show False
    using assms(1) data2vp_raw_Inl [OF n(1)] unfolding data2vp_def n_def [symmetric] Let_def t prod.case
    by (auto split: sum.split_asm option.split_asm if_split_asm)
qed

lemma create_pair_request_safe:
  assumes "create_pair env a len data = Inl e" and "len \<le> length data" and "de_original env = None" and "cui_untagged (de_dict env)"
  shows False
proof -
  obtain vp where vp: "paircreate (de_dict env) a PW_TYPE_OCTETS = Some vp" using paircreate_Some by blast
  have ne: "\<not> (len = 0 \<and> a \<noteq> PW_CHARGEABLE_USER_IDENTITY)"
    and e: "data2vp (de_dict env) (de_packet env) None (de_secret env) a len data vp = Inl e"
    using assms(1,3) vp by (auto simp: create_pair_def rad_attr2vp_def map_sum_Inl split: if_split_asm)
  have "len = 0 \<longrightarrow> \<not> has_tag (vp_flags vp)"
    using ne vp assms(4)
    by (auto simp: cui_untagged_def paircreate_def paircreate_raw_def pairalloc_def Let_def flags0_def split: option.split_asm if_split_asm)
  from data2vp_request_safe [OF e assms(2) this] show False .
qed

text \<open>What a successful sweep says about the first vendor attribute.\<close>

lemma vsa_scan_SubVsas:
  assumes "vsa_scan (tlen, llen, False) v sub = SubVsas"
  obtains n where "tlen \<in> {1, 2, 4}" "llen \<in> {1, 2}" "n = unat (sub ! (tlen + llen - 1))"
    "tlen + llen \<le> n" "n \<le> length sub" "n = length sub \<or> vsa_scan (tlen, llen, False) v (drop n sub) = SubVsas"
proof -
  have t: "tlen \<in> {1, 2, 4}" using assms
    by (subst (asm) vsa_scan.simps) (auto simp: vsa_number_def split: if_split_asm)
  obtain a where a: "vsa_number tlen sub = Some a" "tlen + llen \<le> length sub" using assms
    by (subst (asm) vsa_scan.simps) (auto split: if_split_asm option.split_asm)
  have "llen \<noteq> 0" using assms a by (subst (asm) vsa_scan.simps) (auto split: if_split_asm)
  then consider "llen = 1" | "llen = 2"
    using assms a by (subst (asm) vsa_scan.simps) (auto simp: Let_def split: if_split_asm)
  then show ?thesis
  proof cases
    case 1
    show ?thesis by (rule that [of "unat (sub ! tlen)"])
      (use assms a t 1 in \<open>subst (asm) vsa_scan.simps; auto simp: Let_def split: if_split_asm\<close>)+
  next
    case 2
    show ?thesis by (rule that [of "unat (sub ! (tlen + 1))"])
      (use assms a t 2 in \<open>subst (asm) vsa_scan.simps; auto simp: Let_def split: if_split_asm\<close>)+
  qed
qed

text \<open>The invariant between rounds: at the start of an attribute, or inside a swept Vendor-Specific attribute whose rest
  \<open>sub\<close> the remaining \<^verbatim>\<open>vendorlen\<close> counts.\<close>

definition decode_inv :: "dictionary \<Rightarrow> decode_state \<Rightarrow> bool" where
  "decode_inv d st \<longleftrightarrow> (\<exists>as. (\<forall>a \<in> set as. attr_valid a \<and> vsa_plain d a) \<and>
     (ds_vendorcode st = 0 \<and> ds_ptr st = concat (map attr_octets as) \<or>
      ds_vendorcode st \<noteq> 0 \<and> (\<exists>sub tlen llen. ds_ptr st = sub @ concat (map attr_octets as) \<and> ds_vendorlen st = int (length sub) \<and>
        ds_format st = (tlen, llen, False) \<and> vsa_scan (tlen, llen, False) (ds_vendorcode st) sub = SubVsas)))"

lemma decode_vsa_safe:
  assumes sub: "vsa_scan (tlen, llen, False) (ds_vendorcode st) sub = SubVsas" "ds_format st = (tlen, llen, False)"
      "ds_ptr st = sub @ concat (map attr_octets as)" "ds_vendorlen st = int (length sub)" "ds_vendorcode st \<noteq> 0"
    and as: "\<forall>a \<in> set as. attr_valid a \<and> vsa_plain (de_dict env) a"
    and env: "de_original env = None" "cui_untagged (de_dict env)"
  shows "decode_vsa env st = Inl Refused \<or> (\<exists>pairs st'. decode_vsa env st = Inr (pairs, st') \<and> decode_inv (de_dict env) st')"
proof -
  from sub(1) obtain n where n: "tlen \<in> {1, 2, 4}" "llen \<in> {1, 2}" "n = unat (sub ! (tlen + llen - 1))"
    "tlen + llen \<le> n" "n \<le> length sub" "n = length sub \<or> vsa_scan (tlen, llen, False) (ds_vendorcode st) (drop n sub) = SubVsas"
    by (rule vsa_scan_SubVsas)
  show ?thesis
  proof (cases "tlen = 4")
    case True
    then show ?thesis using sub(2) by (simp add: decode_vsa_def vsa_header_def)
  next
    case False
    let ?p = "ds_ptr st"
    have "?p ! (tlen + llen - 1) = sub ! (tlen + llen - 1)" using n sub(3) by (auto simp: nth_append)
    then obtain attribute where h: "vsa_header (ds_format st) (ds_vendorcode st) ?p = Inr (attribute, n - (tlen + llen), tlen + llen)"
      using n False sub(2,3) unfolding sub(2) vsa_header_def prod.case Let_def by auto
    define st2 where "st2 = st\<lparr>ds_vendorlen := ds_vendorlen st - int (tlen + llen + (n - (tlen + llen))),
       ds_vendorcode := (if ds_vendorlen st - int (tlen + llen + (n - (tlen + llen))) = 0 then 0 else ds_vendorcode st),
       ds_ptr := drop (n - (tlen + llen)) (drop (tlen + llen) ?p)\<rparr>"
    have st2: "ds_ptr st2 = drop n sub @ concat (map attr_octets as)" "ds_vendorlen st2 = int (length sub - n)"
        "ds_vendorcode st2 = (if n = length sub then 0 else ds_vendorcode st)" "ds_format st2 = (tlen, llen, False)"
      using n(4,5) sub(2-4) by (auto simp: st2_def of_nat_diff)
    have "decode_inv (de_dict env) st2"
    proof (cases "n = length sub")
      case True
      then show ?thesis using st2 as by (auto simp: decode_inv_def)
    next
      case False
      then show ?thesis using st2 as n(6) sub(5) by (auto simp: decode_inv_def intro!: exI [of _ as])
    qed
    moreover have "n - (tlen + llen) \<le> length (drop (tlen + llen) ?p)" using n sub(3) by simp
    then obtain pairs where "create_pair env attribute (n - (tlen + llen)) (drop (tlen + llen) ?p) = Inr pairs"
      using create_pair_request_safe [OF _ _ env]
      by (cases "create_pair env attribute (n - (tlen + llen)) (drop (tlen + llen) ?p)") blast+
    ultimately show ?thesis
      using sub(2) unfolding decode_vsa_def h sum.case prod.case Let_def st2_def by auto
  qed
qed

lemma decode_step_safe:
  assumes inv: "decode_inv (de_dict env) st" and ne: "ds_ptr st \<noteq> []"
    and env: "de_original env = None" "cui_untagged (de_dict env)"
  shows "decode_step env st = Inl Refused \<or> (\<exists>pairs st'. decode_step env st = Inr (Some (pairs, st')) \<and> decode_inv (de_dict env) st')"
proof -
  from inv obtain as where as: "\<forall>a \<in> set as. attr_valid a \<and> vsa_plain (de_dict env) a"
    and st: "ds_vendorcode st = 0 \<and> ds_ptr st = concat (map attr_octets as) \<or>
      ds_vendorcode st \<noteq> 0 \<and> (\<exists>sub tlen llen. ds_ptr st = sub @ concat (map attr_octets as) \<and> ds_vendorlen st = int (length sub) \<and>
        ds_format st = (tlen, llen, False) \<and> vsa_scan (tlen, llen, False) (ds_vendorcode st) sub = SubVsas)"
    unfolding decode_inv_def by blast
  show ?thesis
  proof (cases "ds_vendorcode st = 0")
    case False
    with st obtain sub tlen llen where "vsa_scan (tlen, llen, False) (ds_vendorcode st) sub = SubVsas"
      "ds_format st = (tlen, llen, False)" "ds_ptr st = sub @ concat (map attr_octets as)" "ds_vendorlen st = int (length sub)"
      by blast
    from decode_vsa_safe [OF this False as env(1,2)] False show ?thesis by (auto simp: decode_step_def)
  next
    case True
    with st ne obtain t v as' where as': "as = (t, v) # as'" and p: "ds_ptr st = concat (map attr_octets ((t, v) # as'))"
      by (cases as) auto
    have valid: "attr_valid (t, v)" "\<forall>a \<in> set as'. attr_valid a \<and> vsa_plain (de_dict env) a" and plain: "vsa_plain (de_dict env) (t, v)"
      using as as' by auto
    note at = attr_octets_at [of 0, unfolded drop_0, OF p valid(1), unfolded add_0]
    have t0: "t \<noteq> 0" using valid(1) by (simp add: attr_valid_def)
    have g: "\<not> (length (ds_ptr st) < 2 \<or> ds_ptr st ! 0 = 0 \<or> ds_ptr st ! 1 < 2 \<or> length (ds_ptr st) < unat (ds_ptr st ! 1))"
      using at(1-3) t0 by (auto simp: word_less_nat_alt)
    define data where "data = drop 2 (ds_ptr st)"
    have data: "data = v @ concat (map attr_octets as')" using p by (simp add: data_def attr_octets_def)
    have vl: "unat (ds_ptr st ! 1) - 2 = length v" using at(2) by simp
    have next_inv: "decode_inv (de_dict env) (st\<lparr>ds_ptr := drop (length v) data\<rparr>)"
      unfolding data using True valid(2) by (auto simp: decode_inv_def)
    have create: "\<exists>pairs. create_pair env a (length v - k) (drop k data) = Inr pairs" for a k
      using create_pair_request_safe [OF _ _ env(1,2), of a "length v - k" "drop k data"]
      by (cases "create_pair env a (length v - k) (drop k data)") (auto simp: data)
    note step = decode_step_def [of env st, unfolded Let_def if_not_P [OF g] vl data_def [symmetric]]
    show ?thesis
    proof (cases "ucast (ds_ptr st ! 0) \<noteq> PW_VENDOR_SPECIFIC \<or> length v \<le> 4")
      case c: True
      from create [of "ucast (ds_ptr st ! 0)" 0] c True next_inv show ?thesis unfolding step by auto
    next
      case c: False
      let ?v = "be32 (data ! 0) (data ! 1) (data ! 2) (data ! 3)"
      obtain tlen llen where fmt: "vendor_format (de_dict env) ?v = (tlen, llen, False)"
      proof -
        have "ucast t = PW_VENDOR_SPECIFIC" "4 < length v" using c at(1) by auto
        then have "\<not> snd (snd (vendor_format (de_dict env) ?v))" using plain by (auto simp: vsa_plain_def data nth_append)
        then show thesis using that by (cases "vendor_format (de_dict env) ?v") auto
      qed
      show ?thesis
      proof (cases "vsa_open (de_dict env) (length v) data")
        case RawVsa
        with create [of "ucast (ds_ptr st ! 0)" 0] c True next_inv show ?thesis unfolding step by auto
      next
        case (PlainVsa a)
        with create [of a "4 + tlen"] c True next_inv fmt show ?thesis unfolding step by auto
      next
        case SubVsas
        let ?st = "\<lparr>ds_ptr = drop 4 data, ds_vendorcode = ?v, ds_vendorlen = int (length v) - 4, ds_format = (tlen, llen, False)\<rparr>"
        have sl: "bslice 4 (length v - 4) data = drop 4 v" by (simp add: data bslice_def)
        have v0: "?v \<noteq> 0" and scan: "vsa_scan (tlen, llen, False) ?v (drop 4 v) = SubVsas"
          using SubVsas unfolding vsa_open_def Let_def fmt sl by (auto split: if_split_asm)
        have "decode_vsa env ?st = Inl Refused \<or> (\<exists>pairs st'. decode_vsa env ?st = Inr (pairs, st') \<and> decode_inv (de_dict env) st')"
          by (rule decode_vsa_safe [where sub = "drop 4 v" and as = as' and tlen = tlen and llen = llen])
             (use v0 scan valid(2) env c in \<open>simp_all add: data of_nat_diff\<close>)
        with SubVsas c True fmt show ?thesis unfolding step by auto
      qed
    qed
  qed
qed

lemma decode_loop_safe:
  assumes "decode_inv (de_dict env) st" and "de_original env = None" "cui_untagged (de_dict env)"
    and "decode_loop env num st = Inl e"
  shows "e = Refused"
  using assms
proof (induction env num st arbitrary: e rule: decode_loop.induct)
  case (1 env num st)
  have ne: "ds_ptr st \<noteq> []" using "1.prems"(4) by (subst (asm) decode_loop.simps) (auto split: if_split_asm)
  from decode_step_safe [OF "1.prems"(1) ne "1.prems"(2,3)] show ?case
  proof (elim disjE exE conjE)
    assume "decode_step env st = Inl Refused"
    then show ?thesis using "1.prems"(4) ne by (subst (asm) decode_loop.simps) auto
  next
    fix pairs st' assume st: "decode_step env st = Inr (Some (pairs, st'))" "decode_inv (de_dict env) st'"
    then show ?thesis
      using "1.prems" ne "1.IH" [OF ne st(1) refl refl, of e]
      by (simp add: decode_loop.simps [of env num st] map_sum_Inl split: if_split_asm)
  qed
qed

lemma rad_decode_request_Inl:
  assumes "rad_packet_ok maxattrs packet flags = Some packet'" and "cui_untagged d" and "uncontinued d (drop AUTH_HDR_LEN (the (pk_data packet')))"
    and "rad_decode d maxattrs packet' None secret s = Inl e"
  shows "e = Refused"
proof -
  obtain data where data: "pk_data packet = Some data"
    using assms(1) by (auto simp: rad_packet_ok_def split: option.split_asm)
  from rad_packet_ok_char [OF data] assms(1) obtain as where
    as: "drop 20 (take (be16 (data ! 2) (data ! 3)) data) = concat (map attr_octets as)" "\<forall>a \<in> set as. attr_valid a"
    and p': "pk_data packet' = Some (take (be16 (data ! 2) (data ! 3)) data)" by auto
  let ?env = "\<lparr>de_dict = d, de_max = maxattrs, de_packet = packet', de_original = None, de_secret = secret\<rparr>"
  let ?st = "\<lparr>ds_ptr = concat (map attr_octets as), ds_vendorcode = 0, ds_vendorlen = 0, ds_format = (1, 1, False)\<rparr>"
  have "decode_loop ?env 0 ?st = Inl e"
    using assms(4) by (auto simp: rad_decode_def p' AUTH_HDR_LEN_def as(1) split: sum.split_asm)
  moreover have "\<forall>a \<in> set as. vsa_plain d a" by (rule uncontinued_attrs [OF as(2)]) (use assms(3) p' as(1) in \<open>simp add: AUTH_HDR_LEN_def\<close>)
  then have "decode_inv d ?st" using as(2) by (auto simp: decode_inv_def)
  ultimately show ?thesis using decode_loop_safe [of ?env ?st] assms(2) by force
qed

text \<open>C4: Decoding a received request is memory safe unless it has attributes of a vendor with continued attributes: on a packet that \<open>rad_packet_ok\<close>
  accepted and that has none of these, without a request packet to compare with, and with a dictionary that gives Chargeable-User-Identity no
  tag, \<open>rad_decode\<close> returns, reads and writes nothing outside the packet and the pairs' buffers, whatever the attributes contain; its only error
  is a refusal (too many attributes, or a vendor format it does not handle). The dictionary may declare vendors with continued attributes, as
  \<^verbatim>\<open>dictionary.wimax\<close> does; for packets with their attributes the statement is false (\<open>rad_coalesce\<close> reads beyond a fragment).\<close>

theorem rad_decode_request_safe:
  assumes "rad_packet_ok maxattrs packet flags = Some packet'" and "cui_untagged d" and "uncontinued d (drop AUTH_HDR_LEN (the (pk_data packet')))"
  shows "rad_decode d maxattrs packet' None secret s = Inl Refused \<or> (\<exists>r. rad_decode d maxattrs packet' None secret s = Inr r)"
  using rad_decode_request_Inl [OF assms] by (cases "rad_decode d maxattrs packet' None secret s") auto

text \<open>A dictionary with the vendor WiMAX, whose attributes are continued, and an Access-Request with an attribute of another vendor.\<close>

definition wimax_dict :: dictionary where
  "wimax_dict = dict_start\<lparr>vendors_byvalue :=
     [24757 \<mapsto> \<lparr>dv_name = ''WiMAX'', dv_vendorpec = 24757, dv_type = 1, dv_length = 1, dv_flags = True\<rparr>]\<rparr>"

definition vsa_octets :: "byte list" where
  "vsa_octets = [1, 7, 0, 29] @ zeros 16 @ [26, 9, 0, 0, 0, 9, 1, 3, 65]"

theorem rad_decode_request_safe_witness:
  "\<exists>x. rad_decode wimax_dict 0 (the (rad_packet_ok 0 (raw_packet vsa_octets) False)) None None (lib_start 0 0) = x \<and> x \<noteq> Inl Overread"
proof -
  have "case rad_packet_ok 0 (raw_packet vsa_octets) False of None \<Rightarrow> False | Some q \<Rightarrow> uncontinued wimax_dict (drop AUTH_HDR_LEN (the (pk_data q)))"
    by code_simp
  then obtain q where q: "rad_packet_ok 0 (raw_packet vsa_octets) False = Some q" "uncontinued wimax_dict (drop AUTH_HDR_LEN (the (pk_data q)))"
    by (auto split: option.split_asm)
  have "cui_untagged wimax_dict"
    by (simp add: cui_untagged_def wimax_dict_def dict_start_def dict_attrbyvalue_def PW_CHARGEABLE_USER_IDENTITY_def)
  from rad_decode_request_safe [OF q(1) this q(2), of None "lib_start 0 0"] q(1) show ?thesis by auto
qed

section \<open>Decoding gives the encoded value back\<close>

definition octets_type :: "pw_type \<Rightarrow> bool" where
  "octets_type ty \<longleftrightarrow> ty \<in> {PW_TYPE_STRING, PW_TYPE_OCTETS, PW_TYPE_ABINARY, PW_TYPE_IFID, PW_TYPE_IPV6ADDR, PW_TYPE_IPV6PREFIX}"

definition number_type :: "pw_type \<Rightarrow> bool" where
  "number_type ty \<longleftrightarrow> ty \<in> {PW_TYPE_BYTE, PW_TYPE_SHORT, PW_TYPE_INTEGER, PW_TYPE_DATE, PW_TYPE_IPADDR}"

text \<open>A pair that holds a value of its type.\<close>

definition value_ok :: "value_pair \<Rightarrow> bool" where
  "value_ok vp \<longleftrightarrow> length (vp_octets vp) = 254 \<and> vp_length vp \<le> 253 \<and>
     (case vp_type vp of
        PW_TYPE_BYTE \<Rightarrow> unat (vp_lvalue vp) < 256
      | PW_TYPE_SHORT \<Rightarrow> unat (vp_lvalue vp) < 65536
      | PW_TYPE_IFID \<Rightarrow> vp_length vp = 8
      | PW_TYPE_IPV6ADDR \<Rightarrow> vp_length vp = 16
      | PW_TYPE_IPV6PREFIX \<Rightarrow> 2 \<le> vp_length vp \<and> vp_length vp \<le> 18 \<and> vp_octets vp ! 1 \<le> 128
      | ty \<Rightarrow> octets_type ty \<or> number_type ty)"

definition same_value :: "value_pair \<Rightarrow> value_pair \<Rightarrow> bool" where
  "same_value vp vp' \<longleftrightarrow> vp_type vp' = vp_type vp \<and>
     (if number_type (vp_type vp) then vp_lvalue vp' = vp_lvalue vp
      else vp_length vp' = vp_length vp \<and> take (vp_length vp) (vp_octets vp') = take (vp_length vp) (vp_octets vp))"

lemma take_memcpy0: "take (length xs) (memcpy_at ys 0 xs) = xs"
  by (simp add: memcpy_at_def)

lemma nth_memcpy0: "i < length xs \<Longrightarrow> memcpy_at ys 0 xs ! i = xs ! i"
  by (simp add: memcpy_at_def nth_append)

lemma be32_octets: "be32 (be32_bytes w ! 0) (be32_bytes w ! 1) (be32_bytes w ! 2) (be32_bytes w ! 3) = w"
proof -
  obtain a b c d where "be32_bytes w = [a, b, c, d]" by (simp add: be32_bytes_def)
  then show ?thesis using be32_be32_bytes by simp
qed

lemma le32_octets: "be32 (le32_bytes w ! 3) (le32_bytes w ! 2) (le32_bytes w ! 1) (le32_bytes w ! 0) = w"
proof -
  obtain a b c d where "be32_bytes w = [a, b, c, d]" by (simp add: be32_bytes_def)
  then show ?thesis using be32_be32_bytes by (simp add: le32_rev_be32)
qed

text \<open>What is sent for a plain pair.\<close>

definition wire_octets :: "value_pair \<Rightarrow> byte list" where
  "wire_octets vp =
     (case vp_type vp of
        PW_TYPE_BYTE \<Rightarrow> [ucast (vp_lvalue vp AND 0xff)]
      | PW_TYPE_SHORT \<Rightarrow> [ucast (drop_bit 8 (vp_lvalue vp) AND 0xff), ucast (vp_lvalue vp AND 0xff)]
      | PW_TYPE_INTEGER \<Rightarrow> be32_bytes (vp_lvalue vp)
      | PW_TYPE_DATE \<Rightarrow> be32_bytes (vp_lvalue vp)
      | PW_TYPE_IPADDR \<Rightarrow> le32_bytes (vp_lvalue vp)
      | _ \<Rightarrow> take (vp_length vp) (vp_octets vp))"

lemma vp2data_plain:
  assumes "encrypt (vp_flags vp) = FLAG_ENCRYPT_NONE" and "value_ok vp" and "vp_length vp \<le> room" and "4 \<le> room"
  shows "vp2data packet original secret vp room s = Inr (wire_octets vp, s)"
proof -
  have "encrypt (vp_flags vp) = 0" using assms(1) by (simp add: FLAG_ENCRYPT_NONE_def)
  then show ?thesis
    using assms(2-4)
    by (cases "vp_type vp")
       (auto simp: vp2data_def vp2data_source_def value_ok_def octets_type_def number_type_def encrypt_flags Let_def wire_octets_def)
qed

lemma length_wire_octets: "value_ok vp \<Longrightarrow> length (wire_octets vp) \<le> 253"
  by (cases "vp_type vp") (auto simp: value_ok_def wire_octets_def)

text \<open>\<open>rad_attr2vp\<close> of an attribute that is neither tagged nor encrypted.\<close>

lemma rad_attr2vp_plain:
  assumes "dict_attrbyvalue d a = Some da" and "\<not> has_tag (da_flags da)" and "encrypt (da_flags da) = FLAG_ENCRYPT_NONE"
    and "length bytes \<le> 253"
  defines "vp0 \<equiv> (pairalloc (Some da))\<lparr>vp_length := length bytes, vp_op := T_OP_EQ, vp_octets := memcpy_at (zeros 254) 0 bytes\<rparr>"
  shows "rad_attr2vp d packet original secret a (length bytes) (bytes @ rest) =
    (case data2vp_type d (length bytes) (bytes @ rest) vp0 of
       None \<Rightarrow> data2vp_raw d a (length bytes) (bytes @ rest) | Some vp \<Rightarrow> Inr vp)"
proof -
  have "paircreate d a PW_TYPE_OCTETS = Some ((pairalloc (Some da))\<lparr>vp_op := T_OP_EQ\<rparr>)"
    using assms(1) by (simp add: paircreate_def Let_def)
  moreover have "encrypt (vp_flags vp) = FLAG_ENCRYPT_NONE \<Longrightarrow> data2vp_decrypt packet original secret x vp = Inr (Some vp)" for x vp
    by (simp add: data2vp_decrypt_def Let_def encrypt_flags split: option.split)
  ultimately show ?thesis
    using assms(2-4) unfolding vp0_def
    by (simp add: rad_attr2vp_def data2vp_def Let_def data2vp_tag_def pairalloc_def MAX_STRING_LEN_def bslice_def)
qed

lemma data2vp_type_octets:
  assumes "octets_type (vp_type vp)" and "value_ok vp" and "vp_type vp0 = vp_type vp" and "vp_length vp0 = vp_length vp"
    and "vp_octets vp0 = memcpy_at (zeros 254) 0 (take (vp_length vp) (vp_octets vp))"
  shows "\<exists>vp'. data2vp_type d len data vp0 = Some vp' \<and> same_value vp vp' \<and> vp_attribute vp' = vp_attribute vp0"
proof -
  let ?n = "vp_length vp"
  have lens: "length (vp_octets vp) = 254" "?n \<le> 253" using assms(2) by (simp_all add: value_ok_def)
  have tk: "take ?n (vp_octets vp0) = take ?n (vp_octets vp)" "length (vp_octets vp0) = 254"
    using assms(5) lens take_memcpy0 [of "take ?n (vp_octets vp)" "zeros 254"] by (simp_all add: min_def)
  show ?thesis
  proof (cases "vp_type vp = PW_TYPE_IPV6PREFIX")
    case False
    then have "data2vp_type d len data vp0 = Some vp0"
      using assms(1-4) by (cases "vp_type vp") (simp_all add: data2vp_type_def value_ok_def octets_type_def number_type_def)
    then show ?thesis using assms(1,3,4) tk by (auto simp: same_value_def octets_type_def number_type_def)
  next
    case True
    then have n: "2 \<le> ?n" "?n \<le> 18" "vp_octets vp ! 1 \<le> 128" using assms(2) by (simp_all add: value_ok_def)
    have "vp_octets vp0 ! 1 = vp_octets vp ! 1"
      using n lens by (simp add: assms(5) nth_memcpy0)
    moreover have "take ?n (memcpy_at (vp_octets vp0) ?n xs) = take ?n (vp_octets vp)" for xs
      using tk lens by (simp add: memcpy_at_def)
    ultimately show ?thesis
      using True n assms(3,4) by (simp add: data2vp_type_def Let_def same_value_def number_type_def)
  qed
qed

lemma data2vp_type_number:
  assumes "number_type (vp_type vp)" and "value_ok vp" and "vp_type vp0 = vp_type vp" and "vp_length vp0 = length bytes"
    and "vp_octets vp0 = memcpy_at (zeros 254) 0 bytes" and "\<not> has_tag (vp_flags vp0)"
    and "bytes = wire_octets vp"
  shows "\<exists>vp'. data2vp_type d len data vp0 = Some vp' \<and> same_value vp vp' \<and> vp_attribute vp' = vp_attribute vp0"
proof -
  have o: "vp_octets vp0 ! i = bytes ! i" if "i < length bytes" for i unfolding assms(5) using that by (rule nth_memcpy0)
  have o4: "vp_octets vp0 ! 0 = bytes ! 0" "vp_octets vp0 ! 1 = bytes ! 1" "vp_octets vp0 ! 2 = bytes ! 2" "vp_octets vp0 ! 3 = bytes ! 3"
    if "length bytes = 4" using o that by simp_all
  from assms(1) consider "vp_type vp = PW_TYPE_BYTE" | "vp_type vp = PW_TYPE_SHORT" | "vp_type vp = PW_TYPE_INTEGER"
    | "vp_type vp = PW_TYPE_DATE" | "vp_type vp = PW_TYPE_IPADDR" by (auto simp: number_type_def)
  then show ?thesis
  proof cases
    case 1
    with assms(2) have "unat (vp_lvalue vp) < 256" by (simp add: value_ok_def)
    with 1 show ?thesis using assms(3,4,7) o [of 0]
      by (simp add: data2vp_type_def same_value_def number_type_def wire_octets_def mask8_small ucast_u32_small)
  next
    case 2
    with assms(2) have "unat (vp_lvalue vp) < 65536" by (simp add: value_ok_def)
    from short_octets [OF this] 2 show ?thesis using assms(3,4,7) o [of 0] o [of 1]
      by (simp add: data2vp_type_def same_value_def number_type_def wire_octets_def)
  next
    case 3
    then show ?thesis using assms(3,4,6,7) o4 be32_octets [of "vp_lvalue vp"]
      by (simp add: data2vp_type_def same_value_def number_type_def wire_octets_def Let_def)
  next
    case 4
    then show ?thesis using assms(3,4,7) o4 be32_octets [of "vp_lvalue vp"]
      by (simp add: data2vp_type_def same_value_def number_type_def wire_octets_def Let_def)
  next
    case 5
    then show ?thesis using assms(3,4,7) o4 le32_octets [of "vp_lvalue vp"]
      by (simp add: data2vp_type_def same_value_def number_type_def wire_octets_def Let_def)
  qed
qed

lemma attr2vp_same_value:
  assumes "value_ok vp" and "dict_attrbyvalue d a = Some da" and "da_type da = vp_type vp"
    and "\<not> has_tag (da_flags da)" and "encrypt (da_flags da) = FLAG_ENCRYPT_NONE"
  shows "\<exists>vp'. rad_attr2vp d packet original secret a (length (wire_octets vp)) (wire_octets vp @ rest) = Inr vp' \<and>
    same_value vp vp' \<and> vp_attribute vp' = da_attr da"
proof -
  let ?bytes = "wire_octets vp"
  have lens: "length (vp_octets vp) = 254" "vp_length vp \<le> 253" using assms(1) by (simp_all add: value_ok_def)
  note r = rad_attr2vp_plain [OF assms(2,4,5) length_wire_octets [OF assms(1)], of packet original secret rest]
  have ty: "octets_type (vp_type vp) \<or> number_type (vp_type vp)"
    using assms(1) by (cases "vp_type vp") (simp_all add: value_ok_def octets_type_def number_type_def)
  let ?vp0 = "(pairalloc (Some da))\<lparr>vp_length := length ?bytes, vp_op := T_OP_EQ, vp_octets := memcpy_at (zeros 254) 0 ?bytes\<rparr>"
  have vp0: "vp_type ?vp0 = vp_type vp" "vp_attribute ?vp0 = da_attr da" "\<not> has_tag (vp_flags ?vp0)"
    using assms(3,4) by (simp_all add: pairalloc_def)
  from ty have "\<exists>vp'. data2vp_type d (length ?bytes) (?bytes @ rest) ?vp0 = Some vp' \<and> same_value vp vp' \<and> vp_attribute vp' = vp_attribute ?vp0"
  proof
    assume o: "octets_type (vp_type vp)"
    then have "?bytes = take (vp_length vp) (vp_octets vp)" by (auto simp: octets_type_def wire_octets_def)
    then show ?thesis using lens vp0(1) by (intro data2vp_type_octets [OF o assms(1)]) simp_all
  next
    assume "number_type (vp_type vp)"
    from data2vp_type_number [OF this assms(1) vp0(1) _ _ vp0(3) refl] show ?thesis by simp
  qed
  then show ?thesis unfolding r vp0(2) by auto
qed

text \<open>C18: Round trip of attribute values. For a pair whose value fits its dictionary type, one of text, octets, filters, unsigned 8-, 16- and
  32-bit integers, dates, IPv4 and IPv6 addresses, interface ids and IPv6 prefixes (not signed integers, which come back swapped, and not
  TLVs, ethernet and combo-ip values), without tag or encryption, the decoder's
  \<open>rad_attr2vp\<close> applied to the octets that \<open>vp2data\<close> sends gives a pair with the same type and
  value, wherever the octets are in the packet.\<close>

theorem value_roundtrip:
  assumes "vp2data packet original secret vp room s = Inr (bytes, s')" and "value_ok vp"
    and "vp_length vp \<le> room" and "4 \<le> room" and "encrypt (vp_flags vp) = FLAG_ENCRYPT_NONE"
    and "dict_attrbyvalue d a = Some da" and "da_type da = vp_type vp"
    and "\<not> has_tag (da_flags da)" and "encrypt (da_flags da) = FLAG_ENCRYPT_NONE"
  shows "\<exists>vp'. rad_attr2vp d packet' original' secret' a (length bytes) (bytes @ rest) = Inr vp' \<and> same_value vp vp' \<and>
    vp_attribute vp' = da_attr da"
proof -
  have "bytes = wire_octets vp" using assms(1) vp2data_plain [OF assms(5,2,3,4)] by simp
  then show ?thesis using attr2vp_same_value [OF assms(2,6-9)] by simp
qed

definition user_name_attr :: dict_attr where
  "user_name_attr = \<lparr>da_name = ''User-Name'', da_attr = 1, da_type = PW_TYPE_STRING, da_vendor = 0, da_flags = flags0\<rparr>"

definition user_name_pair :: value_pair where
  "user_name_pair = (pairalloc (Some user_name_attr))\<lparr>vp_length := 3, vp_octets := [98, 111, 98] @ zeros 251\<rparr>"

lemma user_name_lookup: "dict_attrbyvalue (dict_store_attr dict_start user_name_attr) 1 = Some user_name_attr"
  by (simp add: dict_attrbyvalue_def dict_store_attr_def user_name_attr_def)

lemma user_name_value_ok: "value_ok user_name_pair"
  by (simp add: value_ok_def user_name_pair_def pairalloc_def user_name_attr_def octets_type_def)

theorem value_roundtrip_witness:
  "\<exists>vp'. rad_attr2vp (dict_store_attr dict_start user_name_attr) (raw_packet []) None None 1 3 ([98, 111, 98] @ [26, 4]) = Inr vp' \<and>
    same_value user_name_pair vp'"
proof -
  have "vp2data (raw_packet []) None [] user_name_pair 250 (lib_start 0 0) = Inr ([98, 111, 98], lib_start 0 0)"
    by (simp add: vp2data_def vp2data_source_def user_name_pair_def pairalloc_def user_name_attr_def flags0_def encrypt_flags)
  from value_roundtrip [OF this user_name_value_ok _ _ _ user_name_lookup, of "raw_packet []" None None "[26, 4]"]
  show ?thesis
    by (auto simp: user_name_pair_def pairalloc_def user_name_attr_def flags0_def FLAG_ENCRYPT_NONE_def numeral_3_eq_3)
qed

text \<open>The one type that does not come back: a signed integer, which the code keeps in host order in the octets of the pair, is
  sent in host order (least significant octet first), because the converted copy is not the one sent.\<close>

text \<open>C27: For a signed integer \<open>vp2data\<close> sends the octets of the value in reverse of the network order in which every other
  integer type is sent, so that the receiver reads the octets swapped.\<close>

theorem signed_wire_order:
  assumes "vp_type vp = PW_TYPE_SIGNED" and "vp_octets vp = le32_bytes w @ rest" and "4 \<le> room"
    and "encrypt (vp_flags vp) = FLAG_ENCRYPT_NONE"
  shows "vp2data packet original secret vp room s = Inr (rev (be32_bytes w), s)"
proof -
  have "encrypt (vp_flags vp) = 0" using assms(4) by (simp add: FLAG_ENCRYPT_NONE_def)
  then show ?thesis using assms by (auto simp: vp2data_def vp2data_source_def encrypt_flags le32_rev_be32)
qed


theorem signed_wire_order_witness:
  "vp2data (raw_packet []) None [] ((pairalloc None)\<lparr>vp_type := PW_TYPE_SIGNED, vp_octets := le32_bytes 0x01020304 @ [0]\<rparr>) 10 (lib_start 0 0) =
   Inr (rev (be32_bytes 0x01020304), lib_start 0 0)"
  using signed_wire_order [of "(pairalloc None)\<lparr>vp_type := PW_TYPE_SIGNED, vp_octets := le32_bytes 0x01020304 @ [0]\<rparr>"]
  by (simp add: pairalloc_def flags0_def FLAG_ENCRYPT_NONE_def)

end
