(* ===== verification/Packet_Exchange.thy ===== *)
theory Packet_Exchange
  imports Packet_Decode
begin

text \<open>
  Whole packets on the wire: \<open>rad_alloc\<close>, \<open>rad_alloc_reply\<close>, \<open>rad_send\<close>, \<open>rad_recvfrom\<close>,
  \<open>rad_recv\<close> and \<open>rad_chap_encode\<close> of \<^verbatim>\<open>src/lib/radius.cpp\<close>. The datagram is a list of octets; the
  socket calls, addresses and debug output are left out. Shown: a packet that one side encodes, signs
  and sends is received, accepted and verified by the other side that has the same secret and the
  same request; the cases in which \<open>rad_sign\<close> would write behind the packet are identified.
\<close>

section \<open>Allocation\<close>

definition rad_alloc :: "bool \<Rightarrow> 'a rand_state_scheme \<Rightarrow> radius_packet \<times> 'a rand_state_scheme" where
  "rad_alloc newvector s =
     (let rp = packet0\<lparr>pk_id := -1, pk_offset := -1\<rparr>;
          (rp, s) =
            (if newvector then
               let (base, s) = fr_rand s;
                   (h0, s) = fr_rand s; (h1, s) = fr_rand s; (h2, s) = fr_rand s; (h3, s) = fr_rand s
               in (rp\<lparr>pk_vector := le32_bytes (h0 XOR base) @ le32_bytes (h1 XOR base)
                                 @ le32_bytes (h2 XOR base) @ le32_bytes (h3 XOR base)\<rparr>, s)
             else (rp, s));
          (_, s) = fr_rand s
      in (rp, s))"

definition rad_alloc_reply :: "radius_packet \<Rightarrow> 'a rand_state_scheme \<Rightarrow> radius_packet \<times> 'a rand_state_scheme" where
  "rad_alloc_reply packet s =
     (let (reply, s) = rad_alloc False s
      in (reply\<lparr>pk_sockfd := pk_sockfd packet, pk_dst_ipaddr := pk_src_ipaddr packet, pk_src_ipaddr := pk_dst_ipaddr packet,
            pk_dst_port := pk_src_port packet, pk_src_port := pk_dst_port packet, pk_id := pk_id packet, pk_code := 0, pk_vector := pk_vector packet, pk_vps := [], pk_data := None\<rparr>, s))"

section \<open>Sending and receiving\<close>

text \<open>The octets handed to \<^verbatim>\<open>rad_sendto\<close>, with the packet updated; no octets for a fake packet, which has no
  socket. A packet that has data already is sent again as it is.\<close>

definition rad_send ::
    "encode_env \<Rightarrow> radius_packet \<Rightarrow> radius_packet option \<Rightarrow> byte list \<Rightarrow> lib_state \<Rightarrow>
     wire_error + byte list option \<times> radius_packet \<times> lib_state" where
  "rad_send env packet original secret s =
     (if pk_sockfd packet < 0 then Inr (None, packet, s)
      else case pk_data packet of
        Some data \<Rightarrow> Inr (Some data, packet, s)
      | None \<Rightarrow>
          (case rad_encode env packet original secret s of
             Inl e \<Rightarrow> Inl e
           | Inr (packet, s) \<Rightarrow>
               (case rad_sign packet original secret of
                  Inl e \<Rightarrow> Inl e
                | Inr packet \<Rightarrow> Inr (pk_data packet, packet, s))))"

text \<open>
  What the socket calls of \<open>rad_recvfrom\<close> deliver: the datagram, the address of the sender and the address of the socket.
\<close>

record datagram =
  dg_octets :: "byte list"
  dg_src_ipaddr :: fr_ipaddr
  dg_src_port :: nat
  dg_dst_ipaddr :: fr_ipaddr
  dg_dst_port :: nat

definition AF_INET :: int where "AF_INET = 2"
definition AF_INET6 :: int where "AF_INET6 = 23"

text \<open>
  \<open>rad_recvfrom\<close>: the first four octets are peeked at for the length, and that many octets are read.
  The port for Windows sets the number of octets read by the first call to 4 whatever it returned, so that for a
  shorter datagram the rest of \<^verbatim>\<open>header\<close> is what was on the stack. \<open>None\<close> is the return of 0 or -1 without
  data, and of a length above 4096.
\<close>

definition rad_recvfrom :: "byte list \<Rightarrow> datagram \<Rightarrow> byte list option" where
  "rad_recvfrom stack dg =
     (let header = take 4 (dg_octets dg) @ drop (length (dg_octets dg)) stack;
          len = be16 (header ! 2) (header ! 3)
      in if len < AUTH_HDR_LEN then None
         else if MAX_PACKET_LEN < len then None
         else if ip_af (dg_src_ipaddr dg) \<notin> {AF_INET, AF_INET6} then None
         else if ip_af (dg_src_ipaddr dg) \<noteq> ip_af (dg_dst_ipaddr dg) then None
         else Some (take len (dg_octets dg)))"

definition rad_recv :: "int \<Rightarrow> int \<Rightarrow> byte list \<Rightarrow> datagram \<Rightarrow> bool \<Rightarrow> radius_packet option" where
  "rad_recv fr_max_attributes fd stack dg flags =
     (case rad_recvfrom stack dg of
        None \<Rightarrow> None
      | Some data \<Rightarrow>
          if data = [] then None
          else
            map_option (\<lambda>p. p\<lparr>pk_sockfd := fd, pk_vps := []\<rparr>)
              (rad_packet_ok fr_max_attributes
                 (packet0\<lparr>pk_data := Some data, pk_src_ipaddr := dg_src_ipaddr dg, pk_src_port := dg_src_port dg,
                    pk_dst_ipaddr := dg_dst_ipaddr dg, pk_dst_port := dg_dst_port dg\<rparr>) flags))"

section \<open>CHAP\<close>

definition PW_CHAP_CHALLENGE :: u32 where "PW_CHAP_CHALLENGE = 60"

definition rad_chap_encode :: "radius_packet \<Rightarrow> byte \<Rightarrow> value_pair \<Rightarrow> byte list" where
  "rad_chap_encode packet i password =
     (let challenge = (case pairfind (pk_vps packet) PW_CHAP_CHALLENGE of
                         Some c \<Rightarrow> take (vp_length c) (vp_octets c)
                       | None \<Rightarrow> pk_vector packet)
      in i # fr_md5_calc (i # take (vp_length password) (vp_octets password) @ challenge))"

section \<open>The attributes of an encoded packet\<close>

lemma continuation_piece_attr:
  assumes "header = t # l # h" and "5 \<le> length h" and "length header + length piece \<le> 254"
  shows "\<exists>v. continuation_piece header flag piece = attr_octets (t, v) \<and> length v \<le> 253"
proof -
  obtain k where k: "length h = Suc k" using assms(2) by (cases "length h") auto
  show ?thesis
    by (rule exI [of _ "h[k := word_of_nat (length header - 6 + 1 + length piece)] @ [flag] @ piece"])
       (use assms k in \<open>simp add: continuation_piece_def attr_octets_def Let_def add_ac\<close>)
qed

lemma continuation_loop_attrs:
  assumes "header = t # l # h" and "5 \<le> length h" and "length h \<le> 10"
  shows "\<exists>as. continuation_loop header data = concat (map attr_octets as) \<and> (\<forall>a \<in> set as. fst a = t \<and> length (snd a) \<le> 253)"
  using assms
proof (induction header data rule: continuation_loop.induct)
  case (1 header data)
  show ?case
  proof (cases "data = []")
    case True
    then show ?thesis by (intro exI [of _ "[]"]) (simp add: continuation_loop.simps)
  next
    case ne: False
    show ?thesis
    proof (cases "254 - length header < length data \<and> length header < 254")
      case False
      then have "length header + length data \<le> 254" using "1.prems" by auto
      then obtain v where "continuation_piece header 0 data = attr_octets (t, v)" "length v \<le> 253"
        using continuation_piece_attr "1.prems" by metis
      then show ?thesis using ne False
        by (intro exI [of _ "[(t, v)]"]) (subst continuation_loop.simps, auto)
    next
      case True
      then obtain v where v: "continuation_piece header 0x80 (take (254 - length header) data) = attr_octets (t, v)" "length v \<le> 253"
        using continuation_piece_attr [of header t l h "take (254 - length header) data"] "1.prems" by auto
      from "1.IH" [OF ne True] "1.prems" obtain as where
        "continuation_loop header (drop (254 - length header) data) = concat (map attr_octets as)"
        "\<forall>a \<in> set as. fst a = t \<and> length (snd a) \<le> 253" by blast
      then show ?thesis using ne True v
        by (intro exI [of _ "(t, v) # as"]) (subst continuation_loop.simps, auto)
    qed
  qed
qed

lemma rad_vp2attr_attrs:
  assumes "rad_vp2attr d packet original secret vp s = Inr (bytes, s')"
  obtains as where "bytes = concat (map attr_octets as)"
    "\<forall>a \<in> set as. length (snd a) \<le> 253 \<and> fst a = (if VENDOR (vp_attribute vp) = 0 then ucast (vp_attribute vp AND 0xff) else 26)"
  using assms
proof (cases rule: rad_vp2attr_cases)
  case none
  then show ?thesis by (intro that [of "[]"]) simp_all
next
  case (one t xs)
  then show ?thesis by (intro that [of "[(t, xs)]"]) (simp_all add: attr_octets_def)
next
  case (continued header)
  have "bytes = [] \<or> (\<exists>data. bytes = continuation_loop (26 # 6 # header) data)"
    using continued(1) by (auto simp: rad_vp2continuation_def split: if_split_asm option.split_asm)
  then show ?thesis
  proof
    assume "bytes = []"
    then show ?thesis by (intro that [of "[]"]) simp_all
  next
    assume "\<exists>data. bytes = continuation_loop (26 # 6 # header) data"
    then obtain as where "bytes = concat (map attr_octets as)" "\<forall>a \<in> set as. fst a = 26 \<and> length (snd a) \<le> 253"
      using continuation_loop_attrs [of "26 # 6 # header" 26 6 header] continued by metis
    then show ?thesis using continued(4) by (intro that [of as]) auto
  qed
qed

text \<open>Pairs whose encoding is one attribute each: no sub-TLVs, a non-zero number, and a
  Message-Authenticator as the dictionary defines it (octets, not encrypted, not tagged).\<close>

definition plain_pair :: "value_pair \<Rightarrow> bool" where
  "plain_pair vp \<longleftrightarrow> \<not> is_tlv (vp_flags vp) \<and> (VENDOR (vp_attribute vp) = 0 \<longrightarrow> vp_attribute vp AND 0xff \<noteq> 0) \<and>
     (vp_attribute vp = PW_MESSAGE_AUTHENTICATOR \<longrightarrow>
        vp_type vp = PW_TYPE_OCTETS \<and> encrypt (vp_flags vp) = FLAG_ENCRYPT_NONE \<and>
        \<not> has_tag (vp_flags vp) \<and> \<not> encoded (vp_flags vp) \<and> 16 \<le> length (vp_octets vp))"

definition is_authenticator :: "value_pair \<Rightarrow> bool" where
  "is_authenticator vp \<longleftrightarrow> vp_attribute vp = PW_MESSAGE_AUTHENTICATOR"

lemma wire_attr_type:
  assumes "\<not> non_wire vp" and "VENDOR (vp_attribute vp) = 0"
  shows "ucast (ucast (vp_attribute vp AND 0xff) :: byte) = vp_attribute vp"
proof -
  have "unat (vp_attribute vp) < 256"
    using assms by (intro small_attr) (auto simp: non_wire_def VENDOR_def not_less)
  then show ?thesis by (simp add: mask8_small ucast_u32_small)
qed

text \<open>One round of the loop on a plain pair.\<close>

lemma encode_one_attrs:
  assumes "encode_one env packet original secret tot vp s = Inr (Some bytes, s')"
    and "plain_pair vp" and "\<not> non_wire vp" and "\<not> is_authenticator vp"
  obtains as where "bytes = concat (map attr_octets as)" "\<forall>a \<in> set as. attr_valid a" "80 \<notin> fst ` set as"
    "79 \<in> fst ` set as \<longrightarrow> vp_attribute vp = 79"
proof -
  have "rad_vp2attr (env_dict env) packet original secret vp s = Inr (bytes, s')"
    using assms(1) by (auto simp: encode_one_def split: sum.split_asm if_split_asm)
  then obtain as where as: "bytes = concat (map attr_octets as)"
    "\<forall>a \<in> set as. length (snd a) \<le> 253 \<and> fst a = (if VENDOR (vp_attribute vp) = 0 then ucast (vp_attribute vp AND 0xff) else 26)"
    by (rule rad_vp2attr_attrs)
  define t where "t = (if VENDOR (vp_attribute vp) = 0 then ucast (vp_attribute vp AND 0xff) else (26 :: byte))"
  have t: "t \<noteq> 0 \<and> t \<noteq> 80 \<and> (t = 79 \<longrightarrow> vp_attribute vp = 79)"
  proof (cases "VENDOR (vp_attribute vp) = 0")
    case True
    note w = wire_attr_type [OF assms(3) True]
    have "t = ucast (vp_attribute vp AND 0xff)" using True by (simp add: t_def)
    with w have tw: "ucast t = vp_attribute vp" by simp
    have "vp_attribute vp \<noteq> 80" using assms(4) by (simp add: is_authenticator_def PW_MESSAGE_AUTHENTICATOR_def)
    moreover have "vp_attribute vp \<noteq> 0" using assms(2) True by (auto simp: plain_pair_def)
    ultimately show ?thesis using tw by auto
  qed (simp add: t_def)
  have types: "\<forall>a \<in> set as. length (snd a) \<le> 253 \<and> fst a = t" using as(2) by (simp add: t_def)
  show ?thesis
  proof (rule that [OF as(1)])
    show "\<forall>a \<in> set as. attr_valid a" using types t by (auto simp: attr_valid_def split_beta)
    show "80 \<notin> fst ` set as" using types t by auto
    show "79 \<in> fst ` set as \<longrightarrow> vp_attribute vp = 79" using types t by auto
  qed
qed

lemma encode_one_authenticator:
  assumes "encode_one env packet original secret tot (zero_authenticator vp) s = Inr (Some bytes, s')"
    and "plain_pair vp" and "is_authenticator vp"
  shows "bytes = attr_octets (80, zeros 16)"
proof -
  have vp: "vp_attribute vp = 80" "vp_type vp = PW_TYPE_OCTETS" "encrypt (vp_flags vp) = 0"
      "\<not> has_tag (vp_flags vp)" "16 \<le> length (vp_octets vp)"
    using assms(2,3) by (auto simp: plain_pair_def is_authenticator_def PW_MESSAGE_AUTHENTICATOR_def FLAG_ENCRYPT_NONE_def)
  have "take 16 (memcpy_at (vp_octets vp) 0 (zeros 16)) = zeros 16" by (simp add: memcpy_at_def)
  moreover have "length (memcpy_at (vp_octets vp) 0 (zeros 16)) = length (vp_octets vp)" using vp by simp
  moreover have "zeros 16 \<noteq> []" by (simp add: zeros_def)
  ultimately have "rad_vp2attr (env_dict env) packet original secret (zero_authenticator vp) s = Inr (attr_octets (80, zeros 16), s)"
    using vp by (simp add: rad_vp2attr_def vp2attr_value_def vp2data_def vp2data_source_def zero_authenticator_def
        VENDOR_def encrypt_flags attr_octets_def)
  with assms(1) show ?thesis by (auto simp: encode_one_def split: if_split_asm)
qed

lemma encode_loop_no_authenticator:
  assumes "encode_loop env packet original secret tot offset vps s = Inr (out, off, vps', s')"
    and "env_ndebug env" and "\<forall>vp \<in> set vps. plain_pair vp \<and> \<not> is_authenticator vp"
  shows "\<exists>as. out = concat (map attr_octets as) \<and> (\<forall>a \<in> set as. attr_valid a) \<and> 80 \<notin> fst ` set as \<and> off = offset \<and>
    (79 \<in> fst ` set as \<longrightarrow> 79 \<in> vp_attribute ` set vps)"
  using assms
proof (induction vps arbitrary: tot offset s out off vps' s')
  case Nil
  then show ?case by (intro exI [of _ "[]"]) (auto simp: encode_loop.simps)
next
  case (Cons reply vps)
  have plain: "plain_pair reply" "\<not> is_authenticator reply" using Cons.prems by auto
  from Cons.prems(1,2) show ?case
  proof (cases rule: encode_loop_step)
    case (skip offset1 s1 vps1)
    with Cons.IH [OF skip(1)] Cons.prems plain show ?thesis by (auto simp: is_authenticator_def)
  next
    case (more offset1 bytes vps0 this rest s1 vps1)
    from more(6) plain have eq: "vps0 = vps" "this = reply" by (auto simp: plain_pair_def is_authenticator_def)
    obtain as1 where as1: "bytes = concat (map attr_octets as1)" "\<forall>a \<in> set as1. attr_valid a" "80 \<notin> fst ` set as1"
        "79 \<in> fst ` set as1 \<longrightarrow> vp_attribute reply = 79"
      using more(1) plain(1) more(7) plain(2) unfolding eq by (rule encode_one_attrs)
    obtain as2 where "rest = concat (map attr_octets as2)" "\<forall>a \<in> set as2. attr_valid a" "80 \<notin> fst ` set as2" "off = offset1"
        "79 \<in> fst ` set as2 \<longrightarrow> 79 \<in> vp_attribute ` set vps"
      using Cons.IH [OF more(2) [unfolded eq]] Cons.prems by auto
    then show ?thesis using as1 more(3,5) plain
      by (intro exI [of _ "as1 @ as2"] conjI) (auto simp: is_authenticator_def image_Un)
  next
    case full
    then show ?thesis using plain by (intro exI [of _ "[]"]) (auto simp: is_authenticator_def)
  qed
qed

text \<open>With at most one Message-Authenticator in the list: it is in the packet at the offset, or it is the
  pair that did not fit any more and the offset is the end of the packet.\<close>

lemma encode_loop_attrs:
  assumes "encode_loop env packet original secret tot offset vps s = Inr (out, off, vps', s')"
    and "env_ndebug env" and "\<forall>vp \<in> set vps. plain_pair vp" and "length (filter is_authenticator vps) \<le> 1"
  shows "\<exists>as. out = concat (map attr_octets as) \<and> (\<forall>a \<in> set as. attr_valid a) \<and>
    (79 \<in> fst ` set as \<longrightarrow> 79 \<in> vp_attribute ` set vps) \<and>
    (80 \<notin> fst ` set as \<and> (off = offset \<or> off = tot + length out) \<or>
     (\<exists>pre post. as = pre @ (80, zeros 16) # post \<and> 80 \<notin> fst ` set pre \<and> 80 \<notin> fst ` set post \<and>
        off = tot + length (concat (map attr_octets pre))))"
    (is "\<exists>as. _ \<and> _ \<and> _ \<and> ?place tot out offset off as")
  using assms
proof (induction vps arbitrary: tot offset s out off vps' s')
  case Nil
  then show ?case by (intro exI [of _ "[]"]) (auto simp: encode_loop.simps)
next
  case (Cons reply vps)
  have plain: "plain_pair reply" using Cons.prems by auto
  from Cons.prems(1,2) show ?case
  proof (cases rule: encode_loop_step)
    case (skip offset1 s1 vps1)
    have "offset1 = offset" using skip(2,3) plain by (auto simp: plain_pair_def)
    with Cons.IH [OF skip(1)] Cons.prems show ?thesis by (auto split: if_split_asm)
  next
    case (more offset1 bytes vps0 this rest s1 vps1)
    have vps0: "vps0 = vps" using more(6) plain by (simp add: plain_pair_def)
    show ?thesis
    proof (cases "is_authenticator reply")
      case True
      then have th: "this = zero_authenticator reply" and off1: "offset1 = tot"
        using more(5,6) plain by (auto simp: plain_pair_def is_authenticator_def)
      have bytes: "bytes = attr_octets (80, zeros 16)"
        by (rule encode_one_authenticator [OF more(1) [unfolded th] plain True])
      have "\<forall>vp \<in> set vps. plain_pair vp \<and> \<not> is_authenticator vp"
        using Cons.prems(3,4) True by (auto simp: filter_empty_conv)
      from encode_loop_no_authenticator [OF more(2) [unfolded vps0] Cons.prems(2) this] obtain as where
        "rest = concat (map attr_octets as)" "\<forall>a \<in> set as. attr_valid a" "80 \<notin> fst ` set as" "off = tot"
        "79 \<in> fst ` set as \<longrightarrow> 79 \<in> vp_attribute ` set vps"
        using off1 by auto
      then show ?thesis using more(3) bytes
        by (intro exI [of _ "(80, zeros 16) # as"])
           (simp add: attr_valid_def, intro conjI disjI2 exI [of _ "[]"] exI [of _ as], simp_all)
    next
      case False
      then have th: "this = reply" and off1: "offset1 = offset"
        using more(5,6) plain by (auto simp: plain_pair_def is_authenticator_def)
      obtain as1 where as1: "bytes = concat (map attr_octets as1)" "\<forall>a \<in> set as1. attr_valid a" "80 \<notin> fst ` set as1"
          "79 \<in> fst ` set as1 \<longrightarrow> vp_attribute reply = 79"
        using more(1) plain more(7) False unfolding th by (rule encode_one_attrs)
      obtain as2 where as2: "rest = concat (map attr_octets as2)" "\<forall>a \<in> set as2. attr_valid a"
          "79 \<in> fst ` set as2 \<longrightarrow> 79 \<in> vp_attribute ` set vps" "?place (tot + length bytes) rest offset off as2"
        using Cons.IH [OF more(2) [unfolded vps0]] Cons.prems off1 False by auto
      from as2(4) have "?place tot (bytes @ rest) offset off (as1 @ as2)"
      proof (elim disjE conjE exE)
        fix pre post
        assume "as2 = pre @ (80, zeros 16) # post" "80 \<notin> fst ` set pre" "80 \<notin> fst ` set post"
          "off = tot + length bytes + length (concat (map attr_octets pre))"
        then show ?thesis using as1 by (intro disjI2 exI [of _ "as1 @ pre"] exI [of _ post]) auto
      qed (use as1 in auto)
      moreover have "79 \<in> fst ` set (as1 @ as2) \<longrightarrow> 79 \<in> vp_attribute ` set (reply # vps)"
        using as1(4) as2(3) by (auto simp: image_Un)
      ultimately show ?thesis using as1 as2(1,2) more(3)
        by (intro exI [of _ "as1 @ as2"] conjI) (simp_all add: ball_Un)
    qed
  next
    case full
    then show ?thesis by (intro exI [of _ "[]"]) auto
  qed
qed

section \<open>The exchange\<close>

text \<open>What the sender hands to the network, in the terms of the receiver.\<close>

lemma rad_encode_shape:
  assumes "rad_encode env packet original secret s = Inr (pe, s')" and "env_ndebug env"
    and "\<forall>vp \<in> set (pk_vps packet). plain_pair vp" and "length (filter is_authenticator (pk_vps packet)) \<le> 1"
    and "length (pk_vector packet) = 16"
  obtains data as where "pk_data pe = Some data" "20 \<le> length data" "length data \<le> 4096"
    "take 4 data = [ucast (pk_code packet), word_of_int (pk_id packet)] @ be16_bytes (length data)"
    "bslice 4 16 data = pk_vector pe" "drop 20 data = concat (map attr_octets as)" "\<forall>a \<in> set as. attr_valid a"
    "pk_code pe = pk_code packet" "pk_id pe = pk_id packet"
    "pk_vector pe = (if pk_code packet \<in> acct_codes then zeros 16 else pk_vector packet)"
    "pk_offset pe < int (length data) \<Longrightarrow> authenticator_at as (pk_offset pe)"
    "79 \<in> fst ` set as \<longrightarrow> 79 \<in> vp_attribute ` set (pk_vps packet)"
proof -
  define p where "p = (if pk_code packet \<in> {PW_ACCOUNTING_REQUEST, PW_DISCONNECT_REQUEST, PW_COA_REQUEST}
      then packet\<lparr>pk_vector := zeros 16\<rparr> else packet)"
  have p: "pk_code p = pk_code packet" "pk_id p = pk_id packet" "pk_vps p = pk_vps packet" "length (pk_vector p) = 16"
      "pk_vector p = (if pk_code packet \<in> acct_codes then zeros 16 else pk_vector packet)"
    using assms(5) by (auto simp: p_def acct_codes_def)
  obtain out off vps where loop: "encode_loop env p original secret 20 0 (pk_vps packet) s = Inr (out, off, vps, s')"
    and pe: "pe = p\<lparr>pk_vps := vps, pk_offset := int off,
        pk_data := Some (header_octets (pk_code p) (pk_id p) (20 + length out) (pk_vector p) @ out)\<rparr>"
    using assms(1) unfolding rad_encode_def p_def [symmetric] Let_def AUTH_HDR_LEN_def
    by (auto simp: p(3) split: if_split_asm sum.split_asm)
  obtain as where as: "out = concat (map attr_octets as)" "\<forall>a \<in> set as. attr_valid a"
    and eap: "79 \<in> fst ` set as \<longrightarrow> 79 \<in> vp_attribute ` set (pk_vps packet)"
    and place: "80 \<notin> fst ` set as \<and> (off = 0 \<or> off = 20 + length out) \<or>
     (\<exists>pre post. as = pre @ (80, zeros 16) # post \<and> 80 \<notin> fst ` set pre \<and> 80 \<notin> fst ` set post \<and>
        off = 20 + length (concat (map attr_octets pre)))"
    using encode_loop_attrs [OF loop assms(2-4)] by blast
  have max: "20 + length out \<le> 4096"
    using encode_loop_ok [OF loop assms(2)] by (simp add: MAX_PACKET_LEN_def)
  let ?h = "header_octets (pk_code p) (pk_id p) (20 + length out) (pk_vector p)"
  have h: "length ?h = 20" using p(4) by (simp add: header_octets_def)
  show ?thesis
  proof (rule that [of "?h @ out" as])
    show "take 4 (?h @ out) = [ucast (pk_code packet), word_of_int (pk_id packet)] @ be16_bytes (length (?h @ out))"
      using h by (simp add: header_octets_def p be16_bytes_def)
    show "bslice 4 16 (?h @ out) = pk_vector pe"
      using p(4) by (simp add: bslice_def header_octets_def pe be16_bytes_def)
    show "authenticator_at as (pk_offset pe)" if "pk_offset pe < int (length (?h @ out))"
      using place
    proof
      assume "80 \<notin> fst ` set as \<and> (off = 0 \<or> off = 20 + length out)"
      then show ?thesis using that h by (auto simp: pe authenticator_at_def)
    next
      assume "\<exists>pre post. as = pre @ (80, zeros 16) # post \<and> 80 \<notin> fst ` set pre \<and> 80 \<notin> fst ` set post \<and>
        off = 20 + length (concat (map attr_octets pre))"
      then obtain pre post where *: "as = pre @ (80, zeros 16) # post" "80 \<notin> fst ` set pre" "80 \<notin> fst ` set post"
        and "off = 20 + length (concat (map attr_octets pre))" by (elim exE conjE)
      then have "pk_offset pe = int (20 + length (concat (map attr_octets pre)))" by (simp add: pe)
      with * show ?thesis by (rule authenticator_atI)
    qed
  qed (use h max as pe p eap in simp_all)
qed

lemma be16_header:
  assumes "take 4 d = [a, b] @ be16_bytes n" and "n < 65536"
  shows "d ! 0 = a" "d ! 1 = b" "be16 (d ! 2) (d ! 3) = n"
proof -
  obtain x y where xy: "be16_bytes n = [x, y]" by (simp add: be16_bytes_def)
  then have *: "take 4 d = [a, b, x, y]" using assms(1) by simp
  have "d ! i = [a, b, x, y] ! i" if "i < 4" for i
    using that unfolding * [symmetric] by (rule nth_take [symmetric])
  from this [of 0] this [of 1] this [of 2] this [of 3] show "d ! 0 = a" "d ! 1 = b" "be16 (d ! 2) (d ! 3) = n"
    using be16_be16_bytes [OF assms(2) xy] by simp_all
qed

text \<open>Signing fails on the packet whose Message-Authenticator was dropped: the offset is the end of
  the packet, and the 16 octets would be written behind it.\<close>

lemma rad_sign_offset:
  assumes "rad_sign p original secret = Inr ps" and "pk_data p = Some data" and "20 \<le> length data"
    and "bslice 4 16 data = pk_vector p" and "sender_vector_ok (pk_code p) (pk_vector p) original"
  shows "pk_offset p < int (length data) \<and> pk_offset ps = pk_offset p"
proof -
  obtain vec where vec: "sign_vector p original (bslice 4 16 data) = Some vec" "length vec = 16"
    using sign_vector_agree [OF assms(5)] unfolding assms(4) by metis
  obtain d where d: "sign_authenticator p original secret data = Inr d"
    using assms(1,2) by (auto simp: rad_sign_def split: if_split_asm sum.split_asm)
  have "pk_offset p < int (length data)"
  proof (cases "0 < pk_offset p")
    case True
    have "length (memcpy_at data 4 vec) = length data" using vec(2) assms(3) by simp
    with d True vec(1) have "nat (pk_offset p) + 18 \<le> length data"
      by (auto simp: sign_authenticator_def Let_def split: if_split_asm)
    with True show ?thesis by linarith
  qed (use assms(3) in linarith)
  moreover have "pk_offset ps = pk_offset p"
    using assms(1,2) d by (auto simp: rad_sign_def Let_def split: if_split_asm)
  ultimately show ?thesis by simp
qed

lemma authenticator_at_types: "authenticator_at as off \<Longrightarrow> 0 < off \<Longrightarrow> 80 \<in> fst ` set as"
  unfolding authenticator_at_def by force

text \<open>C1: Exchange. Whenever the sender's \<open>rad_send\<close> succeeds for a packet of plain pairs with a known
  code and its proper authenticator (the request's for a reply), the receiver's \<open>rad_recv\<close> accepts the
  datagram, whatever was on its stack, with the same code and identifier, and its \<open>rad_verify\<close> with the same secret accepts the
  signatures. A packet that needs a Message-Authenticator has to carry one, no packet carries two, and the build is the release build.\<close>

theorem rad_send_recv_verify:
  assumes "rad_send env packet original secret s = Inr (Some (dg_octets dg), ps, s')" and "pk_data packet = None"
    and "env_ndebug env" and "\<forall>vp \<in> set (pk_vps packet). plain_pair vp"
    and "length (filter is_authenticator (pk_vps packet)) \<le> 1"
    and "0 \<le> pk_id packet" and "pk_id packet < 256" and "length (pk_vector packet) = 16"
    and "sender_vector_ok (pk_code packet) (if pk_code packet \<in> acct_codes then zeros 16 else pk_vector packet) original"
    and "0 < pk_offset ps \<or> pk_code packet \<noteq> PW_STATUS_SERVER \<and> 79 \<notin> vp_attribute ` set (pk_vps packet)"
    and "ip_af (dg_src_ipaddr dg) \<in> {AF_INET, AF_INET6}" and "ip_af (dg_dst_ipaddr dg) = ip_af (dg_src_ipaddr dg)"
  shows "\<exists>q q'. rad_recv 0 fd stack dg False = Some q \<and> pk_code q = pk_code packet \<and> pk_id q = pk_id packet \<and>
    rad_verify q original secret = Some (Inr q')"
proof -
  obtain pe where pe: "rad_encode env packet original secret s = Inr (pe, s')" "rad_sign pe original secret = Inr ps"
      "pk_data ps = Some (dg_octets dg)"
    using assms(1,2) by (auto simp: rad_send_def split: sum.split_asm if_split_asm)
  obtain data as where data: "pk_data pe = Some data" "20 \<le> length data" "length data \<le> 4096"
    "take 4 data = [ucast (pk_code packet), word_of_int (pk_id packet)] @ be16_bytes (length data)"
    "bslice 4 16 data = pk_vector pe" "drop 20 data = concat (map attr_octets as)" "\<forall>a \<in> set as. attr_valid a"
    "pk_code pe = pk_code packet" "pk_id pe = pk_id packet"
    "pk_vector pe = (if pk_code packet \<in> acct_codes then zeros 16 else pk_vector packet)"
    and place: "pk_offset pe < int (length data) \<Longrightarrow> authenticator_at as (pk_offset pe)"
    and eap: "79 \<in> fst ` set as \<longrightarrow> 79 \<in> vp_attribute ` set (pk_vps packet)"
    using rad_encode_shape [OF pe(1) assms(3,4,5,8)] by metis
  have sv: "sender_vector_ok (pk_code pe) (pk_vector pe) original" using assms(9) by (simp add: data)
  note off = rad_sign_offset [OF pe(2) data(1,2,5) sv]
  have ma: "authenticator_at as (pk_offset pe)" using off by (intro place) simp
  have id: "0 \<le> pk_id pe" using assms(6) data by simp
  obtain ps' d as2 where d: "rad_sign pe original secret = Inr ps'" "pk_data ps' = Some d" "length d = length data"
    "take 4 d = take 4 data" "drop 20 d = concat (map attr_octets as2)" "\<forall>a \<in> set as2. attr_valid a"
    "map fst as2 = map fst as"
    and verify: "\<And>q. pk_data q = Some d \<Longrightarrow> pk_code q = pk_code pe \<Longrightarrow> pk_vector q = bslice 4 16 d \<Longrightarrow>
       \<exists>q'. rad_verify q original secret = Some (Inr q')"
    using rad_sign_verify [OF id data(1,2,5,6,7) sv ma, of secret] by metis
  have oct: "dg_octets dg = d" using pe d by simp
  have cd: "pk_code packet \<noteq> 0 \<and> unat (pk_code packet) < 52"
    using code_sets_less [of "pk_code packet"] assms(9) by (auto simp: sender_vector_ok_def FR_MAX_PACKET_CODE_def)
  have "length data < 65536" using data(3) by simp
  note hdr = be16_header [OF trans [OF d(4) data(4)] this]
  have code8: "ucast (ucast (pk_code packet) :: byte) = pk_code packet" using cd by (intro ucast_u32_small) simp
  have types: "fst ` set as2 = fst ` set as" using arg_cong [OF d(7), of set] by simp
  have code52: "(ucast (pk_code packet) :: byte) \<noteq> 0" "unat (ucast (pk_code packet) :: byte) < 52"
    using cd code8 unat_ucast_byte [of "ucast (pk_code packet)"] by auto
  have need: "d ! 0 = 12 \<or> False \<or> 79 \<in> fst ` set as2 \<longrightarrow> 80 \<in> fst ` set as2"
    using assms(10) off eap code8 hdr(1) authenticator_at_types [OF ma] unfolding types
    by (auto simp: PW_STATUS_SERVER_def)
  define p where "p = packet0\<lparr>pk_data := Some d, pk_src_ipaddr := dg_src_ipaddr dg, pk_src_port := dg_src_port dg,
      pk_dst_ipaddr := dg_dst_ipaddr dg, pk_dst_port := dg_dst_port dg\<rparr>"
  have p: "pk_data p = Some d" by (simp add: p_def)
  define q where "q = p\<lparr>pk_id := uint (d ! 1), pk_code := ucast (d ! 0), pk_vector := bslice 4 16 d\<rparr>"
  have "rad_recvfrom stack dg = Some d"
    using hdr(3) data(2,3) d(3) assms(11,12)
    by (simp add: rad_recvfrom_def Let_def nth_append AUTH_HDR_LEN_def MAX_PACKET_LEN_def oct)
  moreover have "rad_packet_ok 0 p False = Some q"
    unfolding rad_packet_ok_char [OF p] hdr(3)
    using hdr code52 data(2,3) d(3,5,6) need by (auto simp: q_def p_def intro!: exI [of _ as2])
  moreover have "d \<noteq> []" using d(3) data(2) by auto
  ultimately have "rad_recv 0 fd stack dg False = Some (q\<lparr>pk_sockfd := fd, pk_vps := []\<rparr>)" by (simp add: rad_recv_def p_def)
  moreover have "\<exists>q'. rad_verify (q\<lparr>pk_sockfd := fd, pk_vps := []\<rparr>) original secret = Some (Inr q')"
    by (rule verify) (use hdr(1) code8 data(8) in \<open>simp_all add: q_def p_def\<close>)
  moreover have "pk_code q = pk_code packet" "pk_id q = pk_id packet"
    using hdr(1,2) code8 assms(6,7) by (simp_all add: q_def uint_word_of_int_eq take_bit_int_eq_self_iff)
  ultimately show ?thesis by auto
qed

text \<open>An Access-Request of one User-Name.\<close>

definition sample_env :: encode_env where
  "sample_env = \<lparr>env_dict = dict_store_attr dict_start user_name_attr, env_ndebug = True, env_heap = zeros\<rparr>"

definition sample_packet :: radius_packet where
  "sample_packet = packet0\<lparr>pk_id := 7, pk_code := 1, pk_vps := [user_name_pair]\<rparr>"

definition sample_octets :: "byte list" where
  "sample_octets = [1, 7, 0, 25] @ zeros 16 @ [1, 5, 98, 111, 98]"

definition sample_datagram :: datagram where
  "sample_datagram = \<lparr>dg_octets = sample_octets, dg_src_ipaddr = ipaddr0\<lparr>ip_af := AF_INET\<rparr>, dg_src_port = 5000,
     dg_dst_ipaddr = ipaddr0\<lparr>ip_af := AF_INET\<rparr>, dg_dst_port = 1812\<rparr>"

lemma sample_send:
  "rad_send sample_env sample_packet None [115] (lib_start 0 0) =
   Inr (Some (dg_octets sample_datagram), sample_packet\<lparr>pk_data := Some sample_octets\<rparr>, lib_start 0 0)"
  by code_simp

theorem rad_send_recv_verify_witness:
  "\<exists>q q'. rad_recv 0 3 [] sample_datagram False = Some q \<and> pk_code q = 1 \<and> pk_id q = 7 \<and> rad_verify q None [115] = Some (Inr q')"
  using rad_send_recv_verify [OF sample_send, of 3 "[]"]
  by (auto simp: sample_packet_def sample_env_def plain_pair_def user_name_pair_def pairalloc_def user_name_attr_def flags0_def
      is_authenticator_def PW_MESSAGE_AUTHENTICATOR_def VENDOR_def sender_vector_ok_def code_sets PW_STATUS_SERVER_def
      sample_datagram_def ipaddr0_def)

text \<open>C15: Whatever pairs a packet holds, TLVs and vendor attributes included, what \<open>rad_encode\<close> builds in a
  release build fits a datagram: the length field is the number of octets, at most 4096, and the octets after the header are a
  sequence of attributes whose length octets add up exactly.\<close>

theorem rad_encode_wellformed:
  assumes "rad_encode env packet original secret s = Inr (p, s')" and "env_ndebug env" and "length (pk_vector packet) = 16"
  shows "\<exists>data. pk_data p = Some data \<and> length data \<le> 4096 \<and> be16 (data ! 2) (data ! 3) = length data \<and> attrs_ok (drop 20 data)"
proof -
  define q where "q = (if pk_code packet \<in> {PW_ACCOUNTING_REQUEST, PW_DISCONNECT_REQUEST, PW_COA_REQUEST}
      then packet\<lparr>pk_vector := zeros 16\<rparr> else packet)"
  have vec: "length (pk_vector q) = 16" using assms(3) by (simp add: q_def)
  from assms(1) obtain out off vps' where loop: "encode_loop env q original secret AUTH_HDR_LEN 0 (pk_vps q) s = Inr (out, off, vps', s')"
    and data: "pk_data p = Some (header_octets (pk_code q) (pk_id q) (AUTH_HDR_LEN + length out) (pk_vector q) @ out)"
    unfolding rad_encode_def q_def [symmetric] by (auto simp: Let_def split: if_split_asm sum.split_asm)
  have ok: "attrs_ok out" "AUTH_HDR_LEN + length out \<le> MAX_PACKET_LEN"
    using encode_loop_ok [OF loop assms(2)] by (simp_all add: AUTH_HDR_LEN_def MAX_PACKET_LEN_def)
  define d where "d = header_octets (pk_code q) (pk_id q) (AUTH_HDR_LEN + length out) (pk_vector q) @ out"
  have len: "length d = AUTH_HDR_LEN + length out" "drop 20 d = out"
    using vec by (simp_all add: d_def header_octets_def be16_bytes_def AUTH_HDR_LEN_def)
  have "take 4 d = [ucast (pk_code q), word_of_int (pk_id q)] @ be16_bytes (length d)"
    unfolding len by (simp add: d_def header_octets_def be16_bytes_def)
  moreover have small: "length d \<le> 4096" using ok(2) len(1) by (simp add: MAX_PACKET_LEN_def)
  ultimately have "be16 (d ! 2) (d ! 3) = length d" by (intro be16_header(3)) simp_all
  moreover have "pk_data p = Some d" "attrs_ok (drop 20 d)" using data ok(1) len(2) by (simp_all only: d_def)
  ultimately show ?thesis using small by blast
qed

theorem rad_encode_wellformed_witness: "be16 (sample_octets ! 2) (sample_octets ! 3) = length sample_octets \<and> attrs_ok (drop 20 sample_octets)"
proof -
  have "rad_encode sample_env sample_packet None [115] (lib_start 0 0) =
      Inr (sample_packet\<lparr>pk_data := Some sample_octets\<rparr>, lib_start 0 0)" by code_simp
  from rad_encode_wellformed [OF this] show ?thesis by (simp add: sample_env_def sample_packet_def)
qed

section \<open>Round trip of a packet's attributes\<close>

text \<open>Pairs of the RFC attribute space that are sent one to one: known to the dictionary under their type, without tag or
  encryption, not empty, and not one of the two attributes with a meaning of their own.\<close>

definition simple_pair :: "dictionary \<Rightarrow> value_pair \<Rightarrow> bool" where
  "simple_pair d vp \<longleftrightarrow> value_ok vp \<and> \<not> is_tlv (vp_flags vp) \<and> \<not> encoded (vp_flags vp) \<and>
     encrypt (vp_flags vp) = FLAG_ENCRYPT_NONE \<and> \<not> has_tag (vp_flags vp) \<and> wire_octets vp \<noteq> [] \<and>
     0 < vp_attribute vp \<and> vp_attribute vp < 256 \<and> vp_attribute vp \<noteq> PW_VENDOR_SPECIFIC \<and> vp_attribute vp \<noteq> PW_MESSAGE_AUTHENTICATOR \<and>
     (\<exists>da. dict_attrbyvalue d (vp_attribute vp) = Some da \<and> da_type da = vp_type vp \<and> da_attr da = vp_attribute vp \<and>
        \<not> has_tag (da_flags da) \<and> encrypt (da_flags da) = FLAG_ENCRYPT_NONE)"

definition pair_attr :: "value_pair \<Rightarrow> byte \<times> byte list" where
  "pair_attr vp = (ucast (vp_attribute vp), wire_octets vp)"

lemma simple_attr_number:
  assumes "0 < a" and "a < (256 :: u32)"
  shows "unat a < 256" "VENDOR a = 0" "a AND 0xff = a" "a AND 0xffff = a" "ucast (ucast a :: byte) = a" "(ucast a :: byte) \<noteq> 0"
proof -
  show s: "unat a < 256" using assms(2) by (simp add: word_less_nat_alt)
  show "a AND 0xff = a" by (rule mask8_small [OF s])
  show u: "ucast (ucast a :: byte) = a" by (rule ucast_u32_small [OF s])
  show "(ucast a :: byte) \<noteq> 0" using u assms(1) by auto
  have "unat (a AND 0xffff) = unat a" using s by (simp add: unat_mask16)
  then show "a AND 0xffff = a" by (simp add: word_unat_eq_iff)
  have "unat (drop_bit 16 a AND 0xffff) = 0" unfolding unat_mask16 unat_drop16 using s by simp
  then show "VENDOR a = 0" by (simp add: VENDOR_def word_unat_eq_iff)
qed

lemma simple_pair_attr:
  assumes "simple_pair d vp"
  shows "attr_valid (pair_attr vp)" "rad_vp2attr d packet original secret vp s = Inr (attr_octets (pair_attr vp), s)" "\<not> non_wire vp"
proof -
  have a: "0 < vp_attribute vp" "vp_attribute vp < 256" using assms by (simp_all add: simple_pair_def)
  note n = simple_attr_number [OF a]
  have ok: "value_ok vp" "encrypt (vp_flags vp) = FLAG_ENCRYPT_NONE" "\<not> has_tag (vp_flags vp)" "wire_octets vp \<noteq> []"
    using assms by (simp_all add: simple_pair_def)
  have len: "length (wire_octets vp) \<le> 253" "vp_length vp \<le> 253" using ok(1) length_wire_octets by (auto simp: value_ok_def)
  have "ucast (vp_attribute vp) \<noteq> (80 :: byte)"
    using n(5) assms by (auto simp: simple_pair_def PW_MESSAGE_AUTHENTICATOR_def)
  then show "attr_valid (pair_attr vp)" using n len by (simp add: attr_valid_def pair_attr_def)
  show "\<not> non_wire vp" using n a by (simp add: non_wire_def word_le_nat_alt word_less_nat_alt)
  have "vp2attr_value packet original secret vp 253 s = Inr (Some (wire_octets vp), s)"
    using vp2data_plain [OF ok(2,1), of 253] len ok(3,4) by (simp add: vp2attr_value_def Let_def)
  then show "rad_vp2attr d packet original secret vp s = Inr (attr_octets (pair_attr vp), s)"
    using n by (simp add: rad_vp2attr_def attr_octets_def pair_attr_def)
qed

lemma encode_loop_simple:
  assumes "\<forall>vp \<in> set vps. simple_pair (env_dict env) vp"
    and "tot + length (concat (map attr_octets (map pair_attr vps))) \<le> 4096"
  shows "encode_loop env packet original secret tot offset vps s = Inr (concat (map attr_octets (map pair_attr vps)), offset, vps, s)"
  using assms
proof (induction vps arbitrary: tot)
  case Nil
  then show ?case by (simp add: encode_loop.simps)
next
  case (Cons vp vps)
  have sp: "simple_pair (env_dict env) vp" using Cons.prems by simp
  note a = simple_pair_attr [OF sp]
  have "encode_one env packet original secret tot vp s = Inr (Some (attr_octets (pair_attr vp)), s)"
    using Cons.prems(2) by (simp add: encode_one_def a(2) MAX_PACKET_LEN_def)
  moreover have "encode_loop env packet original secret (tot + length (attr_octets (pair_attr vp))) offset vps s =
      Inr (concat (map attr_octets (map pair_attr vps)), offset, vps, s)"
    using Cons.prems by (intro Cons.IH) (auto simp: add_ac)
  ultimately show ?case
    using sp a(3) by (subst encode_loop.simps) (simp add: simple_pair_def encode_cont_def)
qed

lemma decode_loop_simple:
  assumes "\<forall>vp \<in> set vps. simple_pair (de_dict env) vp"
    and "ds_ptr st = concat (map attr_octets (map pair_attr vps))" and "ds_vendorcode st = 0"
    and "0 < de_max env \<longrightarrow> int (num + length vps) \<le> de_max env"
  shows "\<exists>vps'. decode_loop env num st = Inr vps' \<and>
    list_all2 (\<lambda>vp vp'. vp_attribute vp' = vp_attribute vp \<and> same_value vp vp') vps vps'"
  using assms
proof (induction vps arbitrary: num st)
  case Nil
  then show ?case by (auto simp: decode_loop.simps)
next
  case (Cons vp vps)
  have sp: "simple_pair (de_dict env) vp" using Cons.prems by simp
  note a = simple_pair_attr [OF sp]
  let ?t = "ucast (vp_attribute vp) :: byte" and ?w = "wire_octets vp" and ?rest = "concat (map attr_octets (map pair_attr vps))"
  have pa: "pair_attr vp = (?t, ?w)" by (simp add: pair_attr_def)
  have p: "ds_ptr st = concat (map attr_octets ((?t, ?w) # map pair_attr vps))"
    using Cons.prems(2) by (simp add: pa)
  have valid: "attr_valid (?t, ?w)" using a(1) by (simp add: pair_attr_def)
  note at = attr_octets_at [of 0, unfolded drop_0, OF p valid, unfolded add_0]
  have n: "ucast ?t = vp_attribute vp" "?t \<noteq> 0"
    using simple_attr_number(5,6) [of "vp_attribute vp"] sp by (simp_all add: simple_pair_def)
  have data: "drop 2 (ds_ptr st) = ?w @ ?rest" by (simp add: p attr_octets_def)
  obtain vp' where vp': "rad_attr2vp (de_dict env) (de_packet env) (de_original env) (de_secret env) (vp_attribute vp)
      (length ?w) (?w @ ?rest) = Inr vp'" "same_value vp vp'" "vp_attribute vp' = vp_attribute vp"
    using sp attr2vp_same_value by (fastforce simp: simple_pair_def)
  define st' where "st' = st\<lparr>ds_ptr := ?rest\<rparr>"
  have "create_pair env (vp_attribute vp) (length ?w) (?w @ ?rest) = Inr [vp']"
    using vp'(1) sp by (simp add: create_pair_def simple_pair_def)
  moreover have "unat (ds_ptr st ! 1) - 2 = length ?w" using at(2) by simp
  moreover have "\<not> (length (ds_ptr st) < 2 \<or> ds_ptr st ! 0 = 0 \<or> ds_ptr st ! 1 < 2 \<or> length (ds_ptr st) < unat (ds_ptr st ! 1))"
    using at(1-3) n(2) by (auto simp: word_less_nat_alt)
  moreover have "vp_attribute vp \<noteq> PW_VENDOR_SPECIFIC" using sp by (simp add: simple_pair_def)
  ultimately have step: "decode_step env st = Inr (Some ([vp'], st'))"
    using Cons.prems(3) at(1) n(1) unfolding decode_step_def Let_def data by (simp add: st'_def)
  obtain vps' where "decode_loop env (num + 1) st' = Inr vps'"
      "list_all2 (\<lambda>vp vp'. vp_attribute vp' = vp_attribute vp \<and> same_value vp vp') vps vps'"
    using Cons.IH [of st' "num + 1"] Cons.prems by (auto simp: st'_def)
  moreover have "ds_ptr st \<noteq> []" by (simp add: p attr_octets_def)
  ultimately show ?case using step vp' Cons.prems(4) by (subst decode_loop.simps) auto
qed

lemma user_name_wire: "wire_octets user_name_pair = [98, 111, 98]"
  by (simp add: wire_octets_def user_name_pair_def pairalloc_def user_name_attr_def)

lemma sample_simple: "simple_pair (env_dict sample_env) user_name_pair"
  using user_name_value_ok user_name_lookup
  by (auto simp: simple_pair_def sample_env_def user_name_pair_def pairalloc_def user_name_attr_def flags0_def
      FLAG_ENCRYPT_NONE_def PW_VENDOR_SPECIFIC_def PW_MESSAGE_AUTHENTICATOR_def wire_octets_def)

text \<open>C2: Round trip of packets. A packet of ordinary attributes that fit into 4096 octets is encoded without loss, and
  decoding the encoded packet gives pairs with the same attribute numbers and values in the same order.\<close>

theorem packet_roundtrip:
  assumes "\<forall>vp \<in> set (pk_vps packet). simple_pair (env_dict env) vp" and "length (pk_vector packet) = 16"
    and "20 + length (concat (map attr_octets (map pair_attr (pk_vps packet)))) \<le> 4096"
    and "original = None \<longrightarrow> pk_code packet \<notin> {PW_AUTHENTICATION_ACK, PW_AUTHENTICATION_REJECT, PW_ACCESS_CHALLENGE}"
  shows "\<exists>pe vps'. rad_encode env packet original secret s = Inr (pe, s) \<and>
    rad_decode (env_dict env) 0 (pe\<lparr>pk_vps := []\<rparr>) original' secret' s' =
      Inr (pe\<lparr>pk_vps := vps'\<rparr>, fr_rand_seed (Some (take 20 (the (pk_data pe)))) s') \<and>
    list_all2 (\<lambda>vp vp'. vp_attribute vp' = vp_attribute vp \<and> same_value vp vp') (pk_vps packet) vps'"
proof -
  define p where "p = (if pk_code packet \<in> {PW_ACCOUNTING_REQUEST, PW_DISCONNECT_REQUEST, PW_COA_REQUEST}
      then packet\<lparr>pk_vector := zeros 16\<rparr> else packet)"
  have p: "pk_vps p = pk_vps packet" "length (pk_vector p) = 16" using assms(2) by (simp_all add: p_def)
  let ?body = "concat (map attr_octets (map pair_attr (pk_vps packet)))"
  define pe where "pe = p\<lparr>pk_vps := pk_vps packet, pk_offset := 0,
      pk_data := Some (header_octets (pk_code p) (pk_id p) (20 + length ?body) (pk_vector p) @ ?body)\<rparr>"
  have enc: "rad_encode env packet original secret s = Inr (pe, s)"
    using encode_loop_simple [OF assms(1), of 20 p original secret 0 s] assms(3,4)
    unfolding rad_encode_def p_def [symmetric] Let_def AUTH_HDR_LEN_def by (auto simp: p pe_def)
  have body: "drop 20 (the (pk_data pe)) = ?body" using p(2) by (simp add: pe_def header_octets_def)
  let ?env = "\<lparr>de_dict = env_dict env, de_max = 0, de_packet = pe\<lparr>pk_vps := []\<rparr>, de_original = original', de_secret = secret'\<rparr>"
  let ?st = "\<lparr>ds_ptr = ?body, ds_vendorcode = 0, ds_vendorlen = 0, ds_format = (1, 1, False)\<rparr>"
  obtain vps' where "decode_loop ?env 0 ?st = Inr vps'"
    "list_all2 (\<lambda>vp vp'. vp_attribute vp' = vp_attribute vp \<and> same_value vp vp') (pk_vps packet) vps'"
    using decode_loop_simple [of "pk_vps packet" ?env ?st 0] assms(1) by auto
  moreover obtain data where data: "pk_data pe = Some data" by (simp add: pe_def)
  moreover have "drop 20 data = ?body" using body data by simp
  ultimately show ?thesis using enc
    by (intro exI [of _ pe] exI [of _ vps']) (simp add: rad_decode_def AUTH_HDR_LEN_def Let_def)
qed

theorem packet_roundtrip_witness:
  "\<exists>pe vps'. rad_encode sample_env sample_packet None [115] (lib_start 0 0) = Inr (pe, lib_start 0 0) \<and>
    rad_decode (env_dict sample_env) 0 (pe\<lparr>pk_vps := []\<rparr>) None None (lib_start 0 0) =
      Inr (pe\<lparr>pk_vps := vps'\<rparr>, fr_rand_seed (Some (take 20 (the (pk_data pe)))) (lib_start 0 0)) \<and>
    list_all2 (\<lambda>vp vp'. vp_attribute vp' = vp_attribute vp \<and> same_value vp vp') [user_name_pair] vps'"
  using packet_roundtrip [of sample_packet sample_env None "[115]" "lib_start 0 0" None None "lib_start 0 0"] sample_simple
  by (simp add: sample_packet_def pair_attr_def attr_octets_def user_name_wire PW_AUTHENTICATION_ACK_def
      PW_AUTHENTICATION_REJECT_def PW_ACCESS_CHALLENGE_def)

end
