(* ===== verification/Md5_Rfc.thy ===== *)
theory Md5_Rfc
  imports Md5
begin

text \<open>
  RFC 1321 written the way the RFC states it: the four auxiliary functions, the table \<open>T\<close>, the
  64 operations by their schedule of words and shifts. The unrolled \<open>fr_MD5Transform\<close> of
  \<^verbatim>\<open>src/lib/md5.cpp\<close> computes it, so that the streaming digest and \<open>fr_hmac_md5\<close> are the
  digests of RFC 1321 and RFC 2104.
\<close>

unbundle bit_operations_syntax

section \<open>The compression function of the RFC\<close>

definition rfc_fun :: "nat \<Rightarrow> u32 \<Rightarrow> u32 \<Rightarrow> u32 \<Rightarrow> u32" where
  "rfc_fun r x y z =
     (if r = 0 then (x AND y) OR (NOT x AND z)
      else if r = 1 then (x AND z) OR (y AND NOT z)
      else if r = 2 then x XOR y XOR z
      else y XOR (x OR NOT z))"

definition rfc_word :: "nat \<Rightarrow> nat" where
  "rfc_word i =
     (let r = i div 16
      in if r = 0 then i else if r = 1 then (5 * i + 1) mod 16 else if r = 2 then (3 * i + 5) mod 16 else 7 * i mod 16)"

definition rfc_shift :: "nat \<Rightarrow> nat" where
  "rfc_shift i = [7, 12, 17, 22, 5, 9, 14, 20, 4, 11, 16, 23, 6, 10, 15, 21] ! (4 * (i div 16) + i mod 4)"

text \<open>\<open>T\<close>: the integer part of \<open>2\<^sup>3\<^sup>2\<close> times the absolute value of the sine of 1 to 64.\<close>

definition rfc_table :: "u32 list" where
  "rfc_table =
    [0xd76aa478, 0xe8c7b756, 0x242070db, 0xc1bdceee, 0xf57c0faf, 0x4787c62a, 0xa8304613, 0xfd469501,
     0x698098d8, 0x8b44f7af, 0xffff5bb1, 0x895cd7be, 0x6b901122, 0xfd987193, 0xa679438e, 0x49b40821,
     0xf61e2562, 0xc040b340, 0x265e5a51, 0xe9b6c7aa, 0xd62f105d, 0x02441453, 0xd8a1e681, 0xe7d3fbc8,
     0x21e1cde6, 0xc33707d6, 0xf4d50d87, 0x455a14ed, 0xa9e3e905, 0xfcefa3f8, 0x676f02d9, 0x8d2a4c8a,
     0xfffa3942, 0x8771f681, 0x6d9d6122, 0xfde5380c, 0xa4beea44, 0x4bdecfa9, 0xf6bb4b60, 0xbebfbc70,
     0x289b7ec6, 0xeaa127fa, 0xd4ef3085, 0x04881d05, 0xd9d4d039, 0xe6db99e5, 0x1fa27cf8, 0xc4ac5665,
     0xf4292244, 0x432aff97, 0xab9423a7, 0xfc93a039, 0x655b59c3, 0x8f0ccc92, 0xffeff47d, 0x85845dd1,
     0x6fa87e4f, 0xfe2ce6e0, 0xa3014314, 0x4e0811a1, 0xf7537e82, 0xbd3af235, 0x2ad7d2bb, 0xeb86d391]"

text \<open>Per operation: the round, the word of the block, the table entry and the shift.\<close>

definition rfc_schedule :: "(nat \<times> nat \<times> u32 \<times> nat) list" where
  "rfc_schedule = map (\<lambda>i. (i div 16, rfc_word i, rfc_table ! i, rfc_shift i)) [0..<64]"

definition rfc_rotate :: "nat \<Rightarrow> u32 \<Rightarrow> u32" where
  "rfc_rotate s w = push_bit s w OR drop_bit (32 - s) w"

definition rfc_operation :: "u32 list \<Rightarrow> nat \<times> nat \<times> u32 \<times> nat \<Rightarrow> u32 \<times> u32 \<times> u32 \<times> u32 \<Rightarrow> u32 \<times> u32 \<times> u32 \<times> u32" where
  "rfc_operation X = (\<lambda>(r, k, t, s) (a, b, c, d). (d, b + rfc_rotate s (a + rfc_fun r b c d + X ! k + t), b, c))"

definition rfc_compress :: "u32 list \<Rightarrow> u32 list \<Rightarrow> u32 list" where
  "rfc_compress st X =
     (case fold (rfc_operation X) rfc_schedule (st ! 0, st ! 1, st ! 2, st ! 3) of (a, b, c, d) \<Rightarrow>
        [st ! 0 + a, st ! 1 + b, st ! 2 + c, st ! 3 + d])"

fun rfc_blocks :: "u32 list \<Rightarrow> byte list list \<Rightarrow> u32 list" where
  "rfc_blocks st [] = st"
| "rfc_blocks st (b # bs) = rfc_blocks (rfc_compress st (md5_words b)) bs"

fun blocks64 :: "nat \<Rightarrow> byte list \<Rightarrow> byte list list" where
  "blocks64 0 xs = []"
| "blocks64 (Suc n) xs = take 64 xs # blocks64 n (drop 64 xs)"

definition rfc1321 :: "byte list \<Rightarrow> byte list" where
  "rfc1321 msg =
     (let m = msg @ md5_pad (length msg)
      in concat (map le32_bytes (rfc_blocks md5_state0 (blocks64 (length m div 64) m))))"

section \<open>The unrolled transform computes it\<close>

lemma F1_rfc: "F1 x y z = rfc_fun 0 x y z"
  by (rule bit_eqI) (auto simp: F1_def rfc_fun_def bit_simps)

lemma F2_rfc: "F2 x y z = rfc_fun 1 x y z"
  by (rule bit_eqI) (auto simp: F2_def F1_def rfc_fun_def bit_simps)

lemma F3_rfc: "F3 x y z = rfc_fun 2 x y z"
  by (simp add: F3_def rfc_fun_def)

lemma F4_rfc: "F4 x y z = rfc_fun 3 x y z"
  by (simp add: F4_def rfc_fun_def)

lemma md5step_rfc:
  "f = rfc_fun r \<Longrightarrow> md5step f a b c d (w + t) s = b + rfc_rotate s (a + rfc_fun r b c d + w + t)"
  by (simp add: md5step_def rfc_rotate_def Let_def ac_simps)

lemmas rfc_round = F1_rfc F2_rfc F3_rfc F4_rfc

lemma rfc_funs: "F1 = rfc_fun 0" "F2 = rfc_fun 1" "F3 = rfc_fun 2" "F4 = rfc_fun 3"
  by (intro ext, simp add: rfc_round)+

text \<open>One operation, its result named so that the unfolded fold keeps the shape of the code.\<close>

lemma fold_operation:
  "fold (rfc_operation X) ((r, k, t, s) # ops) (a, b, c, d) =
   (let a' = md5step (rfc_fun r) a b c d (X ! k + t) s in fold (rfc_operation X) ops (d, a', b, c))"
  by (simp add: rfc_operation_def md5step_rfc [OF refl])

lemma fold_operation_Nil: "fold (rfc_operation X) [] v = v"
  by simp

lemma rfc_schedule_unfold:
  "rfc_schedule = [(0, 0, 0xd76aa478, 7), (0, 1, 0xe8c7b756, 12), (0, 2, 0x242070db, 17), (0, 3, 0xc1bdceee, 22), (0, 4, 0xf57c0faf, 7),
     (0, 5, 0x4787c62a, 12), (0, 6, 0xa8304613, 17), (0, 7, 0xfd469501, 22), (0, 8, 0x698098d8, 7), (0, 9, 0x8b44f7af, 12),
     (0, 10, 0xffff5bb1, 17), (0, 11, 0x895cd7be, 22), (0, 12, 0x6b901122, 7), (0, 13, 0xfd987193, 12), (0, 14, 0xa679438e, 17),
     (0, 15, 0x49b40821, 22), (1, 1, 0xf61e2562, 5), (1, 6, 0xc040b340, 9), (1, 11, 0x265e5a51, 14), (1, 0, 0xe9b6c7aa, 20),
     (1, 5, 0xd62f105d, 5), (1, 10, 0x02441453, 9), (1, 15, 0xd8a1e681, 14), (1, 4, 0xe7d3fbc8, 20), (1, 9, 0x21e1cde6, 5),
     (1, 14, 0xc33707d6, 9), (1, 3, 0xf4d50d87, 14), (1, 8, 0x455a14ed, 20), (1, 13, 0xa9e3e905, 5), (1, 2, 0xfcefa3f8, 9),
     (1, 7, 0x676f02d9, 14), (1, 12, 0x8d2a4c8a, 20), (2, 5, 0xfffa3942, 4), (2, 8, 0x8771f681, 11), (2, 11, 0x6d9d6122, 16),
     (2, 14, 0xfde5380c, 23), (2, 1, 0xa4beea44, 4), (2, 4, 0x4bdecfa9, 11), (2, 7, 0xf6bb4b60, 16), (2, 10, 0xbebfbc70, 23),
     (2, 13, 0x289b7ec6, 4), (2, 0, 0xeaa127fa, 11), (2, 3, 0xd4ef3085, 16), (2, 6, 0x04881d05, 23), (2, 9, 0xd9d4d039, 4),
     (2, 12, 0xe6db99e5, 11), (2, 15, 0x1fa27cf8, 16), (2, 2, 0xc4ac5665, 23), (3, 0, 0xf4292244, 6), (3, 7, 0x432aff97, 10),
     (3, 14, 0xab9423a7, 15), (3, 5, 0xfc93a039, 21), (3, 12, 0x655b59c3, 6), (3, 3, 0x8f0ccc92, 10), (3, 10, 0xffeff47d, 15),
     (3, 1, 0x85845dd1, 21), (3, 8, 0x6fa87e4f, 6), (3, 15, 0xfe2ce6e0, 10), (3, 6, 0xa3014314, 15), (3, 13, 0x4e0811a1, 21),
     (3, 4, 0xf7537e82, 6), (3, 11, 0xbd3af235, 10), (3, 2, 0x2ad7d2bb, 15), (3, 9, 0xeb86d391, 21)]"
  by code_simp

lemma case_prod_Let: "case_prod f (Let e g) = Let e (\<lambda>x. case_prod f (g x))"
  by (simp add: Let_def)

lemma fr_MD5Transform_rfc: "fr_MD5Transform st block = rfc_compress st (md5_words block)"
  unfolding fr_MD5Transform_def rfc_compress_def rfc_schedule_unfold fold_operation fold_operation_Nil rfc_funs
    case_prod_Let prod.case Let_def [of "md5_words block"] Let_def [of "st ! _"]
  by (rule refl)

section \<open>The digests\<close>

lemma rfc_blocks_blocks64: "rfc_blocks st (blocks64 n xs) = fst (md5_blocks st xs)" if "n = length xs div 64"
  using that
proof (induction n arbitrary: st xs)
  case 0
  then show ?case by (simp add: md5_blocks_short div_eq_0_iff)
next
  case (Suc n)
  then have len: "64 \<le> length xs" and n: "n = length (drop 64 xs) div 64" by (auto simp: le_div_geq)
  have "md5_blocks st xs = md5_blocks (fr_MD5Transform st (take 64 xs)) (drop 64 xs)"
    using len by (subst md5_blocks.simps) simp
  with Suc.IH [OF n] show ?case by (simp add: fr_MD5Transform_rfc)
qed

lemma md5_ref_rfc1321: "md5_ref msg = rfc1321 msg"
  by (simp add: md5_ref_def rfc1321_def Let_def rfc_blocks_blocks64)

text \<open>C24: The incremental digest is RFC 1321. However the message is cut into pieces for \<open>fr_MD5Update\<close>, and whatever the
  block buffer held before \<open>fr_MD5Init\<close>, \<open>fr_MD5Final\<close> returns the RFC's digest of the whole message, for
  messages below 512 MB.\<close>

theorem md5_streaming:
  assumes "length (buffer ctx) = 64" and "length (concat pieces) < 2 ^ 29"
  shows "fst (fr_MD5Final (foldl fr_MD5Update (fr_MD5Init ctx) pieces)) = rfc1321 (concat pieces)"
  using fr_MD5_pieces [OF assms] by (simp add: md5_ref_rfc1321)

theorem md5_streaming_witness:
  "fst (fr_MD5Final (fr_MD5Update (fr_MD5Update (fr_MD5Init md5_stack) [97]) [98, 99])) = rfc1321 [97, 98, 99]"
  using md5_streaming [of md5_stack "[[97], [98, 99]]"] by simp

text \<open>C25: \<open>fr_hmac_md5\<close> is HMAC of RFC 2104 over the MD5 of RFC 1321, for short keys (padded) and for
  keys over 64 octets (hashed first).\<close>

theorem hmac_md5_rfc2104:
  assumes "length msg + 64 < 2 ^ 29" and "length key < 2 ^ 29"
  shows "fr_hmac_md5 msg key = hmac_ref rfc1321 key msg"
proof -
  have "md5_ref = rfc1321" by (rule ext) (rule md5_ref_rfc1321)
  with fr_hmac_md5_ref [OF assms] show ?thesis by simp
qed

theorem hmac_md5_rfc2104_witness: "fr_hmac_md5 [1, 2, 3] (zeros 70) = hmac_ref rfc1321 (zeros 70) [1, 2, 3]"
  using hmac_md5_rfc2104 [of "[1, 2, 3]" "zeros 70"] by simp

text \<open>The carry into the upper half of the bit count is lost when the lower half wraps to a value that is not below the
  length added: after \<open>2\<^sup>2\<^sup>9 - 1\<close> octets, 100 more octets wrap the lower word and leave the upper word 0, so the
  length appended by \<open>fr_MD5Final\<close> is not the message's.\<close>

theorem md5_count_carry_lost:
  assumes "count0 ctx = word_of_nat (8 * (2 ^ 29 - 1))" and "count1 ctx = 0"
  shows "count0 (md5_count ctx 100) = word_of_nat (8 * (2 ^ 29 - 1 + 100)) \<and> count1 (md5_count ctx 100) = 0 \<and>
    8 * (2 ^ 29 - 1 + 100) div 2 ^ 32 = (1 :: nat)"
  using assms by (simp add: md5_count_def Let_def)

theorem md5_count_carry_lost_witness:
  "count1 (md5_count (md5_stack\<lparr>count0 := word_of_nat (8 * (2 ^ 29 - 1))\<rparr>) 100) = 0"
  using md5_count_carry_lost [of "md5_stack\<lparr>count0 := word_of_nat (8 * (2 ^ 29 - 1))\<rparr>"]
  by (simp add: md5_stack_def)

end
