(* ===== verification/Binary_Heap.thy ===== *)
theory Binary_Heap
  imports Radius_Prelude "HOL-Library.Multiset"
begin

text \<open>
  The binary heap of \<^verbatim>\<open>src/lib/heap.cpp\<close>: an array of pointers with the comparison as a parameter, in which every
  element may hold its own position, so that it can be extracted from the middle. The array holds the
  initialised entries; what lies behind \<open>hp_num\<close> are left-over pointers. Shown, for every comparison that agrees with
  an order of keys: insertion and extraction keep the heap order and the positions, the top is a minimum, and exactly the element asked for is
  removed. The interface \<open>indexed_pqueue\<close> is what the event list relies on.
\<close>

section \<open>The code\<close>

record 'a fr_heap =
  hp_size :: nat
  hp_num :: nat
  hp_offset :: bool
  hp_p :: "'a list"
  hp_pos :: "'a \<Rightarrow> int"

definition HEAP_PARENT :: "nat \<Rightarrow> nat" where "HEAP_PARENT x = (x - 1) div 2"
definition HEAP_LEFT :: "nat \<Rightarrow> nat" where "HEAP_LEFT x = 2 * x + 1"

text \<open>Storing a pointer at an index: in place, or at the first index never used so far.\<close>

definition heap_store :: "'a list \<Rightarrow> nat \<Rightarrow> 'a \<Rightarrow> 'a list" where
  "heap_store p i x = (if i < length p then p[i := x] else p @ [x])"

definition SET_OFFSET :: "bool \<Rightarrow> 'a list \<Rightarrow> nat \<Rightarrow> ('a \<Rightarrow> int) \<Rightarrow> 'a \<Rightarrow> int" where
  "SET_OFFSET off p node pos = (if off then pos(p ! node := int node) else pos)"

definition RESET_OFFSET :: "bool \<Rightarrow> 'a list \<Rightarrow> nat \<Rightarrow> ('a \<Rightarrow> int) \<Rightarrow> 'a \<Rightarrow> int" where
  "RESET_OFFSET off p node pos = (if off then pos(p ! node := -1) else pos)"

definition fr_heap_create :: "bool \<Rightarrow> ('a \<Rightarrow> int) \<Rightarrow> 'a fr_heap" where
  "fr_heap_create offset pos = \<lparr>hp_size = 2048, hp_num = 0, hp_offset = offset, hp_p = [], hp_pos = pos\<rparr>"

function heap_bubble :: "('a \<Rightarrow> 'a \<Rightarrow> int) \<Rightarrow> bool \<Rightarrow> nat \<Rightarrow> 'a list \<Rightarrow> ('a \<Rightarrow> int) \<Rightarrow> 'a list \<times> ('a \<Rightarrow> int)" where
  "heap_bubble cmp off child p pos =
     (if 0 < child then
        let parent = HEAP_PARENT child
        in if cmp (p ! parent) (p ! child) < 0 then (p, SET_OFFSET off p child pos)
           else
             let p = p[child := p ! parent, parent := p ! child];
                 pos = SET_OFFSET off p child pos
             in heap_bubble cmp off parent p pos
      else (p, SET_OFFSET off p child pos))"
  by pat_completeness auto
termination
  by (relation "measure (\<lambda>(cmp, off, child, p, pos). child)") (auto simp: HEAP_PARENT_def div_less_dividend)

declare heap_bubble.simps [simp del]

definition fr_heap_bubble :: "('a \<Rightarrow> 'a \<Rightarrow> int) \<Rightarrow> 'a fr_heap \<Rightarrow> nat \<Rightarrow> 'a fr_heap" where
  "fr_heap_bubble cmp hp child =
     (let (p, pos) = heap_bubble cmp (hp_offset hp) child (hp_p hp) (hp_pos hp) in hp\<lparr>hp_p := p, hp_pos := pos\<rparr>)"

definition fr_heap_insert :: "('a \<Rightarrow> 'a \<Rightarrow> int) \<Rightarrow> 'a fr_heap \<Rightarrow> 'a \<Rightarrow> 'a fr_heap" where
  "fr_heap_insert cmp hp data =
     (let child = hp_num hp;
          hp = (if child = hp_size hp then hp\<lparr>hp_size := 2 * hp_size hp\<rparr> else hp);
          hp = hp\<lparr>hp_p := heap_store (hp_p hp) child data, hp_num := hp_num hp + 1\<rparr>
      in fr_heap_bubble cmp hp child)"

text \<open>The loop of \<open>fr_heap_extract\<close>: the hole at \<open>parent\<close> is filled with the smaller child until it has none.\<close>

function heap_sift :: "('a \<Rightarrow> 'a \<Rightarrow> int) \<Rightarrow> bool \<Rightarrow> nat \<Rightarrow> nat \<Rightarrow> 'a list \<Rightarrow> ('a \<Rightarrow> int) \<Rightarrow> nat \<times> 'a list \<times> ('a \<Rightarrow> int)" where
  "heap_sift cmp off last_ix parent p pos =
     (let child = HEAP_LEFT parent
      in if child \<le> last_ix then
           let child = (if child \<noteq> last_ix \<and> cmp (p ! (child + 1)) (p ! child) < 0 then child + 1 else child);
               p = p[parent := p ! child];
               pos = SET_OFFSET off p parent pos
           in heap_sift cmp off last_ix child p pos
         else (parent, p, pos))"
  by pat_completeness auto
termination
  by (relation "measure (\<lambda>(cmp, off, last_ix, parent, p, pos). last_ix + 1 - parent)") (auto simp: HEAP_LEFT_def)

declare heap_sift.simps [simp del]

text \<open>The position the extraction starts at; \<open>None\<close> where the code returns 0.\<close>

definition extract_start :: "'a fr_heap \<Rightarrow> 'a option \<Rightarrow> nat option" where
  "extract_start hp data =
     (case data of
        None \<Rightarrow> Some 0
      | Some d \<Rightarrow>
          if \<not> hp_offset hp then None
          else if hp_pos hp d < 0 \<or> int (hp_num hp) \<le> hp_pos hp d then None
          else Some (nat (hp_pos hp d)))"

definition fr_heap_extract :: "('a \<Rightarrow> 'a \<Rightarrow> int) \<Rightarrow> 'a fr_heap \<Rightarrow> 'a option \<Rightarrow> bool \<times> 'a fr_heap" where
  "fr_heap_extract cmp hp data =
     (if hp_num hp = 0 then (False, hp)
      else
        let last_ix = hp_num hp - 1
        in case extract_start hp data of
             None \<Rightarrow> (False, hp)
           | Some parent \<Rightarrow>
               let pos = RESET_OFFSET (hp_offset hp) (hp_p hp) parent (hp_pos hp);
                   (parent, p, pos) = heap_sift cmp (hp_offset hp) last_ix parent (hp_p hp) pos;
                   hp = hp\<lparr>hp_num := hp_num hp - 1, hp_p := p, hp_pos := pos\<rparr>
               in if parent \<noteq> last_ix then
                    (True, fr_heap_bubble cmp (hp\<lparr>hp_p := p[parent := p ! last_ix]\<rparr>) parent)
                  else (True, hp))"

definition fr_heap_peek :: "'a fr_heap \<Rightarrow> 'a option" where
  "fr_heap_peek hp = (if hp_num hp = 0 then None else Some (hp_p hp ! 0))"

definition fr_heap_num_elements :: "'a fr_heap \<Rightarrow> nat" where
  "fr_heap_num_elements hp = hp_num hp"

section \<open>Indices\<close>

lemma HEAP_PARENT_less [simp]: "0 < i \<Longrightarrow> HEAP_PARENT i < i"
  by (auto simp: HEAP_PARENT_def)

lemma HEAP_PARENT_bound [simp]: "i < n \<Longrightarrow> HEAP_PARENT i < n"
  by (auto simp: HEAP_PARENT_def)

lemma HEAP_PARENT_eq: "0 < i \<Longrightarrow> HEAP_PARENT i = c \<longleftrightarrow> i = HEAP_LEFT c \<or> i = Suc (HEAP_LEFT c)"
  by (auto simp: HEAP_PARENT_def HEAP_LEFT_def)

lemma HEAP_LEFT_greater [simp]: "i < HEAP_LEFT i"
  by (simp add: HEAP_LEFT_def)

lemma HEAP_LEFT_inj [simp]: "HEAP_LEFT i = HEAP_LEFT j \<longleftrightarrow> i = j" "HEAP_LEFT i \<noteq> Suc (HEAP_LEFT j)" "Suc (HEAP_LEFT j) \<noteq> HEAP_LEFT i"
  by (auto simp: HEAP_LEFT_def) presburger+

section \<open>Elements and positions\<close>

lemma mset_swap_take:
  assumes "i < n" and "j < n" and "n \<le> length p"
  shows "mset (take n (p[i := p ! j, j := p ! i])) = mset (take n p)"
proof -
  have "take n (p[i := p ! j, j := p ! i]) = (take n p)[i := take n p ! j, j := take n p ! i]"
    using assms by (simp add: take_update_swap)
  also have "mset \<dots> = mset (take n p)" using assms by (intro mset_swap) auto
  finally show ?thesis .
qed

definition positions_ok :: "bool \<Rightarrow> 'a list \<Rightarrow> nat \<Rightarrow> ('a \<Rightarrow> int) \<Rightarrow> bool" where
  "positions_ok off p n pos \<longleftrightarrow> (off \<longrightarrow> distinct (take n p) \<and> (\<forall>i < n. pos (p ! i) = int i))"

text \<open>All positions but one.\<close>

definition positions_but :: "bool \<Rightarrow> 'a list \<Rightarrow> nat \<Rightarrow> nat \<Rightarrow> ('a \<Rightarrow> int) \<Rightarrow> bool" where
  "positions_but off p n c pos \<longleftrightarrow> (off \<longrightarrow> distinct (take n p) \<and> (\<forall>i < n. i \<noteq> c \<longrightarrow> pos (p ! i) = int i))"

lemma distinct_take_eq: "distinct (take n p) \<Longrightarrow> n \<le> length p \<Longrightarrow> i < n \<Longrightarrow> j < n \<Longrightarrow> p ! i = p ! j \<longleftrightarrow> i = j"
  using nth_eq_iff_index_eq [of "take n p" i j] by simp

lemma positions_set: "positions_but off p n c pos \<Longrightarrow> c < n \<Longrightarrow> n \<le> length p \<Longrightarrow> positions_ok off p n (SET_OFFSET off p c pos)"
  by (auto simp: positions_ok_def positions_but_def SET_OFFSET_def distinct_take_eq)

lemma positions_swap:
  assumes "positions_but off p n c pos" and "c < n" and "q < n" and "q \<noteq> c" and "n \<le> length p"
  defines "p' \<equiv> p[c := p ! q, q := p ! c]"
  shows "positions_but off p' n q (SET_OFFSET off p' c pos)"
proof (cases off)
  case True
  have d: "distinct (take n p)" and pos: "\<And>i. i < n \<Longrightarrow> i \<noteq> c \<Longrightarrow> pos (p ! i) = int i"
    using assms(1) True by (auto simp: positions_but_def)
  have "mset (take n p') = mset (take n p)" unfolding p'_def by (intro mset_swap_take assms)
  then have d': "distinct (take n p')" using d by (metis mset_eq_imp_distinct_iff)
  have "p' ! c = p ! q" "\<And>i. i \<noteq> c \<Longrightarrow> i \<noteq> q \<Longrightarrow> p' ! i = p ! i" using assms by (simp_all add: p'_def)
  then have "(pos(p' ! c := int c)) (p' ! i) = int i" if "i < n" "i \<noteq> q" for i
    using that pos [of i] distinct_take_eq [OF d assms(5), of i q] assms(3) by (cases "i = c") auto
  then show ?thesis using d' by (simp add: positions_but_def SET_OFFSET_def True)
qed (simp add: positions_but_def)

section \<open>The heap order\<close>

definition heap_elems :: "'a fr_heap \<Rightarrow> 'a multiset" where
  "heap_elems hp = mset (take (hp_num hp) (hp_p hp))"

locale heap_order =
  fixes cmp :: "'a \<Rightarrow> 'a \<Rightarrow> int" and key :: "'a \<Rightarrow> 'k :: linorder"
  assumes cmp_less: "cmp a b < 0 \<longleftrightarrow> key a < key b"
begin

definition is_heap :: "'a list \<Rightarrow> nat \<Rightarrow> bool" where
  "is_heap p n \<longleftrightarrow> (\<forall>i. 0 < i \<and> i < n \<longrightarrow> key (p ! HEAP_PARENT i) \<le> key (p ! i))"

text \<open>In order except that the entry at \<open>c\<close> may be smaller than its parent.\<close>

definition heap_above :: "'a list \<Rightarrow> nat \<Rightarrow> nat \<Rightarrow> bool" where
  "heap_above p n c \<longleftrightarrow>
     (\<forall>i. 0 < i \<and> i < n \<and> i \<noteq> c \<longrightarrow> key (p ! HEAP_PARENT i) \<le> key (p ! i)) \<and>
     (\<forall>i. 0 < c \<and> 0 < i \<and> i < n \<and> HEAP_PARENT i = c \<longrightarrow> key (p ! HEAP_PARENT c) \<le> key (p ! i))"

lemma heap_above_swap:
  assumes "heap_above p n c" and "0 < c" and "c < n" and "n \<le> length p" and "key (p ! c) \<le> key (p ! HEAP_PARENT c)"
  defines "q \<equiv> HEAP_PARENT c"
  shows "heap_above (p[c := p ! q, q := p ! c]) n q"
proof -
  define p' where "p' = p[c := p ! q, q := p ! c]"
  have q: "q < c" "q < n" using assms by (simp_all add: q_def)
  have nth: "p' ! c = p ! q" "p' ! q = p ! c" "\<And>i. i \<noteq> c \<Longrightarrow> i \<noteq> q \<Longrightarrow> p' ! i = p ! i"
    using q assms(3,4) by (simp_all add: p'_def)
  have up: "key (p ! HEAP_PARENT i) \<le> key (p ! i)" if "0 < i" "i < n" "i \<noteq> c" for i
    using assms(1) that by (auto simp: heap_above_def)
  have down: "key (p ! q) \<le> key (p ! i)" if "0 < i" "i < n" "HEAP_PARENT i = c" for i
    using assms(1,2) that by (auto simp: heap_above_def q_def)
  have "key (p' ! HEAP_PARENT i) \<le> key (p' ! i)" if i: "0 < i" "i < n" "i \<noteq> q" for i
  proof -
    consider "i = c" | "i \<noteq> c" "HEAP_PARENT i = q" | "i \<noteq> c" "HEAP_PARENT i = c" | "i \<noteq> c" "HEAP_PARENT i \<noteq> q" "HEAP_PARENT i \<noteq> c" by blast
    then show ?thesis
    proof cases
      case 2
      then show ?thesis using up [of i] i assms(5) nth by (auto simp: q_def)
    qed (use i up down nth assms(5) in \<open>auto simp: q_def\<close>)
  qed
  moreover have "key (p' ! HEAP_PARENT q) \<le> key (p' ! i)" if i: "0 < q" "0 < i" "i < n" "HEAP_PARENT i = q" for i
  proof -
    have "HEAP_PARENT q < q" using i(1) by simp
    then have "p' ! HEAP_PARENT q = p ! HEAP_PARENT q" using q by (intro nth(3)) auto
    moreover have "key (p ! HEAP_PARENT q) \<le> key (p ! q)" using up [of q] i q by simp
    moreover have "i \<noteq> q" using i by (metis HEAP_PARENT_less less_irrefl)
    moreover have "i = c \<or> key (p ! q) \<le> key (p ! i)" using up [of i] i by auto
    ultimately show ?thesis using nth by (cases "i = c") auto
  qed
  ultimately show ?thesis unfolding heap_above_def p'_def [symmetric] by blast
qed

lemma heap_bubble_correct:
  assumes "heap_above p n c" and "c < n" and "n \<le> length p" and "positions_but off p n c pos"
    and "heap_bubble cmp off c p pos = (p', pos')"
  shows "is_heap p' n \<and> length p' = length p \<and> mset (take n p') = mset (take n p) \<and> positions_ok off p' n pos' \<and>
    (\<forall>x. x \<notin> set (take n p) \<longrightarrow> pos' x = pos x)"
  using assms
proof (induction c arbitrary: p pos rule: less_induct)
  case (less c)
  have mem: "p ! i \<in> set (take n p)" if "i < n" for i
    using nth_mem [of i "take n p"] that less.prems(3) by simp
  define q where "q = HEAP_PARENT c"
  show ?case
  proof (cases "0 < c \<and> \<not> key (p ! q) < key (p ! c)")
    case True
    define p1 where "p1 = p[c := p ! q, q := p ! c]"
    have q: "q < c" "q < n" using True less.prems(2) by (simp_all add: q_def)
    have run: "heap_bubble cmp off q p1 (SET_OFFSET off p1 c pos) = (p', pos')"
      using less.prems(5) True by (subst (asm) heap_bubble.simps) (simp add: q_def p1_def Let_def cmp_less)
    have above: "heap_above p1 n q"
      unfolding p1_def q_def by (rule heap_above_swap) (use less.prems True in \<open>auto simp: q_def\<close>)
    have pos: "positions_but off p1 n q (SET_OFFSET off p1 c pos)"
      unfolding p1_def by (rule positions_swap) (use less.prems q in auto)
    have ms: "mset (take n p1) = mset (take n p)"
      unfolding p1_def by (rule mset_swap_take) (use less.prems q in auto)
    then have st: "set (take n p1) = set (take n p)" by (metis set_mset_mset)
    have "p1 ! c = p ! q" using q less.prems by (simp add: p1_def)
    moreover have "length p1 = length p" by (simp add: p1_def)
    ultimately show ?thesis
      using less.IH [OF q(1) above q(2) _ pos run] less.prems(3) ms st mem [OF q(2)]
      by (auto simp: SET_OFFSET_def)
  next
    case False
    then have res: "p' = p" "pos' = SET_OFFSET off p c pos"
      using less.prems(5) by (subst (asm) heap_bubble.simps, auto simp: q_def Let_def cmp_less split: if_split_asm)+
    have "key (p ! HEAP_PARENT i) \<le> key (p ! i)" if "0 < i" "i < n" for i
      using less.prems(1) False that by (cases "i = c") (auto simp: heap_above_def q_def)
    then show ?thesis
      using positions_set [OF less.prems(4,2,3)] mem [OF less.prems(2)]
      by (auto simp: res is_heap_def SET_OFFSET_def)
  qed
qed

text \<open>In order around a hole at \<open>h\<close>.\<close>

definition heap_hole :: "'a list \<Rightarrow> nat \<Rightarrow> nat \<Rightarrow> bool" where
  "heap_hole p n h \<longleftrightarrow>
     (\<forall>i. 0 < i \<and> i < n \<and> i \<noteq> h \<and> HEAP_PARENT i \<noteq> h \<longrightarrow> key (p ! HEAP_PARENT i) \<le> key (p ! i)) \<and>
     (\<forall>i. 0 < h \<and> 0 < i \<and> i < n \<and> HEAP_PARENT i = h \<longrightarrow> key (p ! HEAP_PARENT h) \<le> key (p ! i))"

lemma heap_hole_start: "is_heap p n \<Longrightarrow> h < n \<Longrightarrow> heap_hole p n h"
  unfolding is_heap_def heap_hole_def by (metis order_trans)

text \<open>The child that fills the hole.\<close>

lemma heap_hole_fill:
  assumes "heap_hole p n h" and "h < n" and "n \<le> length p" and "0 < c" and "c < n" and "HEAP_PARENT c = h"
    and "\<And>i. 0 < i \<Longrightarrow> i < n \<Longrightarrow> HEAP_PARENT i = h \<Longrightarrow> key (p ! c) \<le> key (p ! i)"
  shows "heap_hole (p[h := p ! c]) n c"
proof -
  define q where "q = p[h := p ! c]"
  have nth: "q ! h = p ! c" "\<And>i. i \<noteq> h \<Longrightarrow> q ! i = p ! i" using assms(2,3) by (simp_all add: q_def)
  have hc: "h < c" using assms(4,6) by auto
  have "key (q ! HEAP_PARENT i) \<le> key (q ! i)" if i: "0 < i" "i < n" "i \<noteq> c" "HEAP_PARENT i \<noteq> c" for i
  proof -
    consider "i = h" | "i \<noteq> h" "HEAP_PARENT i = h" | "i \<noteq> h" "HEAP_PARENT i \<noteq> h" by blast
    then show ?thesis
    proof cases
      case 1
      have "HEAP_PARENT h \<noteq> h" using i 1 by (metis HEAP_PARENT_less less_irrefl)
      then show ?thesis using assms(1,4,5,6) i 1 nth by (auto simp: heap_hole_def)
    qed (use assms(1,7) i nth in \<open>auto simp: heap_hole_def\<close>)
  qed
  moreover have "key (q ! HEAP_PARENT c) \<le> key (q ! i)" if i: "0 < i" "i < n" "HEAP_PARENT i = c" for i
  proof -
    have "i \<noteq> h" using i hc by (metis HEAP_PARENT_less less_imp_not_less)
    then show ?thesis using assms(1,6) i nth hc by (auto simp: heap_hole_def)
  qed
  ultimately show ?thesis unfolding heap_hole_def q_def [symmetric] by blast
qed

text \<open>The extracted element, put into the hole, makes the array a permutation of the original.\<close>

definition hole_state :: "bool \<Rightarrow> 'a \<Rightarrow> 'a multiset \<Rightarrow> nat \<Rightarrow> nat \<Rightarrow> 'a list \<Rightarrow> ('a \<Rightarrow> int) \<Rightarrow> bool" where
  "hole_state off x M n h p pos \<longleftrightarrow> h < n \<and> n \<le> length p \<and> heap_hole p n h \<and> mset (take n (p[h := x])) = M \<and>
     positions_but off (p[h := x]) n h pos \<and> (off \<longrightarrow> pos x = -1)"

lemma hole_state_fill:
  assumes "hole_state off x M n h p pos" and "0 < c" and "c < n" and "HEAP_PARENT c = h"
    and "\<And>i. 0 < i \<Longrightarrow> i < n \<Longrightarrow> HEAP_PARENT i = h \<Longrightarrow> key (p ! c) \<le> key (p ! i)"
  shows "hole_state off x M n c (p[h := p ! c]) (SET_OFFSET off (p[h := p ! c]) h pos)"
proof -
  define g where "g = p[h := x]"
  have "h < c" using HEAP_PARENT_less [OF assms(2)] assms(4) by simp
  then have h: "h < n" "n \<le> length p" "h \<noteq> c" "n \<le> length g" using assms(1) by (auto simp: hole_state_def g_def)
  have g: "p[h := p ! c, c := x] = g[h := g ! c, c := g ! h]"
    using h assms(3) by (simp add: g_def)
  have gh: "g[h := g ! c, c := g ! h] ! h = p ! c" using h assms(3) by (simp add: g_def)
  have "p ! c \<noteq> x" if off
  proof
    assume "p ! c = x"
    then have "g ! c = g ! h" using h assms(3) by (simp add: g_def)
    moreover have "distinct (take n g)" using assms(1) that by (simp add: hole_state_def positions_but_def g_def)
    ultimately show False using distinct_take_eq [OF _ h(4), of c h] h assms(3) by auto
  qed
  then have "off \<longrightarrow> SET_OFFSET off (p[h := p ! c]) h pos x = -1"
    using assms(1) h by (auto simp: SET_OFFSET_def hole_state_def)
  moreover have "positions_but off (p[h := p ! c, c := x]) n c (SET_OFFSET off (p[h := p ! c]) h pos)"
  proof -
    have "SET_OFFSET off (p[h := p ! c]) h pos = SET_OFFSET off (g[h := g ! c, c := g ! h]) h pos"
      using gh h by (simp add: SET_OFFSET_def)
    moreover have "positions_but off g n h pos" using assms(1) by (simp add: hole_state_def g_def)
    ultimately show ?thesis using positions_swap [of off g n h pos c] assms(3) h unfolding g by simp
  qed
  moreover have "mset (take n (p[h := p ! c, c := x])) = M"
    unfolding g using mset_swap_take [of h n c g] assms(1,3) h by (simp add: hole_state_def g_def)
  moreover have "heap_hole (p[h := p ! c]) n c"
    using heap_hole_fill [of p n h c] assms h by (auto simp: hole_state_def)
  ultimately show ?thesis using h assms(3) by (simp add: hole_state_def)
qed

lemma heap_sift_correct:
  assumes "hole_state off x M n h p pos" and "heap_sift cmp off (n - 1) h p pos = (h', p', pos')"
  shows "hole_state off x M n h' p' pos' \<and> n \<le> HEAP_LEFT h' \<and> length p' = length p"
  using assms
proof (induction "n - h" arbitrary: h p pos rule: less_induct)
  case less
  show ?case
  proof (cases "HEAP_LEFT h \<le> n - 1")
    case True
    define c where "c = (if HEAP_LEFT h \<noteq> n - 1 \<and> key (p ! (HEAP_LEFT h + 1)) < key (p ! HEAP_LEFT h) then HEAP_LEFT h + 1 else HEAP_LEFT h)"
    have h: "h < n" using less.prems(1) by (simp add: hole_state_def)
    have c: "0 < c" "c < n" "HEAP_PARENT c = h" using True h by (auto simp: c_def HEAP_PARENT_def HEAP_LEFT_def)
    have least: "key (p ! c) \<le> key (p ! i)" if "0 < i" "i < n" "HEAP_PARENT i = h" for i
    proof -
      have "i = HEAP_LEFT h \<or> i = HEAP_LEFT h + 1" using that by (simp add: HEAP_PARENT_eq)
      then show ?thesis using that h by (auto simp: c_def)
    qed
    have "heap_sift cmp off (n - 1) h p pos = heap_sift cmp off (n - 1) c (p[h := p ! c]) (SET_OFFSET off (p[h := p ! c]) h pos)"
      using True by (subst heap_sift.simps) (simp only: Let_def cmp_less c_def if_True)
    then have run: "heap_sift cmp off (n - 1) c (p[h := p ! c]) (SET_OFFSET off (p[h := p ! c]) h pos) = (h', p', pos')"
      using less.prems(2) by simp
    have "h < c" using c by auto
    then have "n - c < n - h" using c(2) by simp
    note IH = less.hyps [OF this hole_state_fill [OF less.prems(1) c least] run]
    show ?thesis using IH by (simp only: length_list_update)
  next
    case False
    then have "heap_sift cmp off (n - 1) h p pos = (h, p, pos)" by (subst heap_sift.simps) simp
    then have "h' = h" "p' = p" "pos' = pos" using less.prems(2) by simp_all
    then show ?thesis using False less.prems(1) by simp
  qed
qed

text \<open>Removing the hole: the last entry is dropped or moved into it.\<close>

lemma hole_state_last:
  assumes "hole_state off x M n (n - 1) p pos"
  shows "is_heap p (n - 1)" "mset (take (n - 1) p) = M - {#x#}" "positions_ok off p (n - 1) pos"
proof -
  obtain m where n: "n = Suc m" using assms by (cases n) (auto simp: hole_state_def)
  have len: "m < length p" using assms n by (auto simp: hole_state_def)
  then have t: "take n (p[m := x]) = take m p @ [x]" by (simp add: n take_Suc_conv_app_nth)
  have "HEAP_PARENT i \<noteq> m" if "i < m" for i using that by (auto simp: HEAP_PARENT_def)
  then show "is_heap p (n - 1)" using assms by (auto simp: hole_state_def heap_hole_def is_heap_def n)
  show "mset (take (n - 1) p) = M - {#x#}" using assms t by (auto simp: hole_state_def n)
  show "positions_ok off p (n - 1) pos"
    using assms t len by (auto simp: hole_state_def positions_but_def positions_ok_def n)
qed

lemma hole_state_move:
  assumes "hole_state off x M n h p pos" and "n \<le> HEAP_LEFT h" and "h \<noteq> n - 1"
  defines "q \<equiv> p[h := p ! (n - 1)]"
  shows "heap_above q (n - 1) h" "mset (take (n - 1) q) = M - {#x#}" "positions_but off q (n - 1) h pos" "h < n - 1"
    "off \<longrightarrow> x \<notin> set (take (n - 1) q)"
proof -
  obtain m where n: "n = Suc m" using assms by (cases n) (auto simp: hole_state_def)
  have h: "h < m" "m < length p" using assms n by (auto simp: hole_state_def)
  show "h < n - 1" using h n by simp
  define g where "g = p[h := x]"
  have sw: "take n (g[h := g ! m, m := g ! h]) = take m q @ [x]"
    using h by (simp add: g_def q_def n take_Suc_conv_app_nth list_update_append)
  have M: "mset (take n (g[h := g ! m, m := g ! h])) = M"
    using mset_swap_take [of h n m g] assms(1) h by (simp add: hole_state_def g_def n)
  then show "mset (take (n - 1) q) = M - {#x#}" unfolding sw by (auto simp: n)
  have par: "HEAP_PARENT i \<noteq> h" if "0 < i" "i < n" for i
    using that assms(2) by (auto simp: HEAP_PARENT_eq)
  have "key (q ! HEAP_PARENT i) \<le> key (q ! i)" if "0 < i" "i < m" "i \<noteq> h" for i
    using assms(1) that par [of i] by (auto simp: q_def hole_state_def heap_hole_def n)
  moreover have "\<not> (0 < i \<and> i < m \<and> HEAP_PARENT i = h)" for i using par [of i] n by auto
  ultimately show "heap_above q (n - 1) h" unfolding heap_above_def n diff_Suc_1 by blast
  have d: "distinct (take m q @ [x])" if off
  proof -
    have "mset (take n g) = M" "distinct (take n g)" using assms(1) that by (auto simp: hole_state_def positions_but_def g_def)
    then show ?thesis using M unfolding sw by (metis mset_eq_imp_distinct_iff)
  qed
  then show "off \<longrightarrow> x \<notin> set (take (n - 1) q)" by (auto simp: n)
  show "positions_but off q (n - 1) h pos"
    using assms(1) d by (auto simp: positions_but_def hole_state_def n q_def)
qed

text \<open>The operations on the record.\<close>

definition heap_ok :: "'a fr_heap \<Rightarrow> bool" where
  "heap_ok hp \<longleftrightarrow> 0 < hp_size hp \<and> hp_num hp \<le> length (hp_p hp) \<and> length (hp_p hp) \<le> hp_size hp \<and>
     is_heap (hp_p hp) (hp_num hp) \<and> positions_ok (hp_offset hp) (hp_p hp) (hp_num hp) (hp_pos hp)"

lemma heap_ok_create: "heap_ok (fr_heap_create off pos)"
  by (simp add: heap_ok_def fr_heap_create_def is_heap_def positions_ok_def)

lemma fr_heap_bubble_ok:
  assumes "0 < hp_size hp" and "hp_num hp \<le> length (hp_p hp)" and "length (hp_p hp) \<le> hp_size hp" and "c < hp_num hp"
    and "heap_above (hp_p hp) (hp_num hp) c" and "positions_but (hp_offset hp) (hp_p hp) (hp_num hp) c (hp_pos hp)"
  shows "heap_ok (fr_heap_bubble cmp hp c) \<and> heap_elems (fr_heap_bubble cmp hp c) = heap_elems hp \<and>
    hp_num (fr_heap_bubble cmp hp c) = hp_num hp \<and> hp_offset (fr_heap_bubble cmp hp c) = hp_offset hp \<and>
    (\<forall>x. x \<notin># heap_elems hp \<longrightarrow> hp_pos (fr_heap_bubble cmp hp c) x = hp_pos hp x)"
proof -
  obtain p' pos' where run: "heap_bubble cmp (hp_offset hp) c (hp_p hp) (hp_pos hp) = (p', pos')" by force
  from heap_bubble_correct [OF assms(5,4,2,6) run] show ?thesis
    using assms(1,2,3) by (simp add: fr_heap_bubble_def run heap_ok_def heap_elems_def)
qed

lemma take_heap_store:
  "n \<le> length p \<Longrightarrow> take n (heap_store p n x) = take n p \<and> heap_store p n x ! n = x \<and> Suc n \<le> length (heap_store p n x) \<and>
    take (Suc n) (heap_store p n x) = take n p @ [x] \<and> (\<forall>i < n. heap_store p n x ! i = p ! i)"
  by (auto simp: heap_store_def take_Suc_conv_app_nth nth_append)

lemma fr_heap_insert_ok:
  assumes "heap_ok hp" and "hp_offset hp \<longrightarrow> x \<notin># heap_elems hp"
  shows "heap_ok (fr_heap_insert cmp hp x) \<and> heap_elems (fr_heap_insert cmp hp x) = add_mset x (heap_elems hp) \<and>
    hp_num (fr_heap_insert cmp hp x) = Suc (hp_num hp) \<and> hp_offset (fr_heap_insert cmp hp x) = hp_offset hp \<and>
    (\<forall>y. y \<noteq> x \<longrightarrow> y \<notin># heap_elems hp \<longrightarrow> hp_pos (fr_heap_insert cmp hp x) y = hp_pos hp y)"
proof -
  define n where "n = hp_num hp"
  define p where "p = heap_store (hp_p hp) n x"
  define hq where "hq = (if n = hp_size hp then hp\<lparr>hp_size := 2 * hp_size hp\<rparr> else hp)\<lparr>hp_p := p, hp_num := Suc n\<rparr>"
  have ok: "0 < hp_size hp" "n \<le> length (hp_p hp)" "length (hp_p hp) \<le> hp_size hp" "is_heap (hp_p hp) n"
      "positions_ok (hp_offset hp) (hp_p hp) n (hp_pos hp)"
    using assms(1) by (simp_all add: heap_ok_def n_def)
  note st = take_heap_store [OF ok(2), of x, folded p_def]
  have ins: "fr_heap_insert cmp hp x = fr_heap_bubble cmp hq n"
    by (simp add: fr_heap_insert_def hq_def p_def n_def Let_def)
  have hq: "hp_num hq = Suc n" "hp_p hq = p" "hp_offset hq = hp_offset hp" "hp_pos hq = hp_pos hp" "0 < hp_size hq"
      "length p \<le> hp_size hq"
    using ok by (auto simp: hq_def p_def heap_store_def)
  have elems: "heap_elems hq = add_mset x (heap_elems hp)"
    using st by (simp add: heap_elems_def hq n_def)
  have par: "HEAP_PARENT i < n" if "0 < i" "i < Suc n" for i using that by (auto simp: HEAP_PARENT_def)
  have "key (p ! HEAP_PARENT i) \<le> key (p ! i)" if "0 < i" "i < Suc n" "i \<noteq> n" for i
    using ok(4) st that par [of i] by (auto simp: is_heap_def)
  moreover have "\<not> (0 < i \<and> i < Suc n \<and> HEAP_PARENT i = n)" for i using par [of i] by auto
  ultimately have above: "heap_above (hp_p hq) (hp_num hq) n" unfolding heap_above_def hq by blast
  have "positions_but (hp_offset hq) (hp_p hq) (hp_num hq) n (hp_pos hq)"
    using ok(5) st assms(2) by (auto simp: positions_but_def positions_ok_def hq heap_elems_def n_def)
  from fr_heap_bubble_ok [OF hq(5) _ _ _ above this] show ?thesis
    using st hq elems by (auto simp: ins n_def)
qed

lemma heap_sift_frame:
  assumes "heap_sift cmp' off (n - 1) h p pos = (h', p', pos')" and "h < n" and "n \<le> length p" and "y \<notin> set (take n p)"
  shows "pos' y = pos y"
  using assms
proof (induction "n - h" arbitrary: h p pos rule: less_induct)
  case less
  show ?case
  proof (cases "HEAP_LEFT h \<le> n - 1")
    case True
    define c where "c = (if HEAP_LEFT h \<noteq> n - 1 \<and> cmp' (p ! (HEAP_LEFT h + 1)) (p ! HEAP_LEFT h) < 0 then HEAP_LEFT h + 1 else HEAP_LEFT h)"
    define q where "q = p[h := p ! c]"
    have "h < c" by (simp add: c_def HEAP_LEFT_def)
    moreover have c: "c < n" using True less.prems(2) by (auto simp: c_def)
    ultimately have dec: "n - c < n - h" by simp
    have "heap_sift cmp' off (n - 1) h p pos = heap_sift cmp' off (n - 1) c q (SET_OFFSET off q h pos)"
      using True by (subst heap_sift.simps) (simp only: Let_def c_def q_def if_True)
    then have run: "heap_sift cmp' off (n - 1) c q (SET_OFFSET off q h pos) = (h', p', pos')" using less.prems(1) by simp
    have mem: "p ! c \<in> set (take n p)" using nth_mem [of c "take n p"] c less.prems(3) by simp
    have "set (take n q) \<subseteq> insert (p ! c) (set (take n p))"
      using less.prems(2) by (simp add: q_def take_update_swap set_update_subset_insert)
    then have "y \<notin> set (take n q)" using mem less.prems(4) by auto
    then have "pos' y = SET_OFFSET off q h pos y" using less.hyps [OF dec run] c less.prems(3) by (simp add: q_def)
    moreover have "q ! h = p ! c" using less.prems(2,3) by (simp add: q_def)
    ultimately show ?thesis using mem less.prems(4) by (auto simp: SET_OFFSET_def)
  next
    case False
    then have "heap_sift cmp' off (n - 1) h p pos = (h, p, pos)" by (subst heap_sift.simps) simp
    then show ?thesis using less.prems(1) by simp
  qed
qed

lemma hole_state_start:
  assumes "heap_ok hp" and "h < hp_num hp"
  shows "hole_state (hp_offset hp) (hp_p hp ! h) (heap_elems hp) (hp_num hp) h (hp_p hp)
    (RESET_OFFSET (hp_offset hp) (hp_p hp) h (hp_pos hp))"
proof -
  have "positions_but (hp_offset hp) (hp_p hp) (hp_num hp) h (RESET_OFFSET (hp_offset hp) (hp_p hp) h (hp_pos hp))"
    using assms by (auto simp: heap_ok_def positions_ok_def positions_but_def RESET_OFFSET_def distinct_take_eq)
  then show ?thesis
    using assms heap_hole_start [of "hp_p hp" "hp_num hp" h] by (auto simp: hole_state_def heap_ok_def heap_elems_def RESET_OFFSET_def)
qed

lemma fr_heap_extract_ok:
  assumes "heap_ok hp" and "extract_start hp d = Some h" and "h < hp_num hp"
  shows "\<exists>hp'. fr_heap_extract cmp hp d = (True, hp') \<and> heap_ok hp' \<and> heap_elems hp' = heap_elems hp - {#hp_p hp ! h#} \<and>
    hp_num hp' = hp_num hp - 1 \<and> hp_offset hp' = hp_offset hp \<and> (hp_offset hp \<longrightarrow> hp_pos hp' (hp_p hp ! h) = -1) \<and>
    (\<forall>y. y \<notin># heap_elems hp \<longrightarrow> hp_pos hp' y = hp_pos hp y)"
proof -
  define n off x where "n = hp_num hp" and "off = hp_offset hp" and "x = hp_p hp ! h"
  define pos0 where "pos0 = RESET_OFFSET off (hp_p hp) h (hp_pos hp)"
  obtain h' p' pos' where run: "heap_sift cmp off (n - 1) h (hp_p hp) pos0 = (h', p', pos')" by (metis prod_cases3)
  have ok: "0 < hp_size hp" "n \<le> length (hp_p hp)" "length (hp_p hp) \<le> hp_size hp"
    using assms(1) by (simp_all add: heap_ok_def n_def)
  have "hole_state off x (heap_elems hp) n h (hp_p hp) pos0"
    unfolding off_def x_def n_def pos0_def by (rule hole_state_start [OF assms(1,3)])
  from heap_sift_correct [OF this run] have hs: "hole_state off x (heap_elems hp) n h' p' pos'" "n \<le> HEAP_LEFT h'" "length p' = length (hp_p hp)"
    by blast+
  have x: "x \<in># heap_elems hp"
    using nth_mem [of h "take n (hp_p hp)"] assms(3) ok(2) by (simp add: heap_elems_def x_def n_def)
  have frame: "pos' y = hp_pos hp y" if "y \<notin># heap_elems hp" for y
  proof -
    have "pos' y = pos0 y"
      using heap_sift_frame [OF run] that assms(3) ok(2) by (simp add: n_def heap_elems_def)
    moreover have "y \<noteq> x" using that x by auto
    ultimately show ?thesis by (simp add: pos0_def RESET_OFFSET_def x_def)
  qed
  define hq where "hq = hp\<lparr>hp_num := n - 1, hp_p := p', hp_pos := pos'\<rparr>"
  have n0: "hp_num hp \<noteq> 0" using assms(3) by simp
  have code: "fr_heap_extract cmp hp d =
      (True, if h' \<noteq> n - 1 then fr_heap_bubble cmp (hq\<lparr>hp_p := p'[h' := p' ! (n - 1)]\<rparr>) h' else hq)"
    using n0 assms(2) run by (simp add: fr_heap_extract_def Let_def hq_def n_def off_def pos0_def)
  show ?thesis
  proof (cases "h' = n - 1")
    case True
    note l = hole_state_last [OF hs(1) [unfolded True]]
    have "heap_ok hq" using ok hs(3) l by (simp add: heap_ok_def hq_def off_def [symmetric])
    moreover have "heap_elems hq = heap_elems hp - {#x#}" using l by (simp add: heap_elems_def hq_def n_def)
    ultimately show ?thesis
      using code True frame hs(1) by (auto simp: hq_def hole_state_def off_def x_def n_def)
  next
    case False
    note m = hole_state_move [OF hs(1,2) False]
    define hr where "hr = hq\<lparr>hp_p := p'[h' := p' ! (n - 1)]\<rparr>"
    have hr: "0 < hp_size hr" "hp_num hr \<le> length (hp_p hr)" "length (hp_p hr) \<le> hp_size hr" "h' < hp_num hr"
        "heap_above (hp_p hr) (hp_num hr) h'" "positions_but (hp_offset hr) (hp_p hr) (hp_num hr) h' (hp_pos hr)"
      using ok hs(3) m by (simp_all add: hr_def hq_def off_def [symmetric])
    have el: "heap_elems hr = heap_elems hp - {#x#}" using m(2) by (simp add: heap_elems_def hr_def hq_def)
    moreover have "off \<longrightarrow> x \<notin># heap_elems hr" using m(5) by (simp add: hr_def hq_def heap_elems_def)
    ultimately have el: "heap_elems hr = heap_elems hp - {#x#}" "off \<longrightarrow> x \<notin># heap_elems hr" by blast+
    have "pos' x = -1" if off using hs(1) that by (simp add: hole_state_def)
    then show ?thesis
      using code False fr_heap_bubble_ok [OF hr] el frame
      by (auto simp: hr_def [symmetric] off_def x_def n_def dest: in_diffD) (auto simp: hr_def hq_def n_def dest: in_diffD)
  qed
qed

text \<open>The top of a heap is a minimum.\<close>

lemma is_heap_top: "is_heap p n \<Longrightarrow> i < n \<Longrightarrow> key (p ! 0) \<le> key (p ! i)"
proof (induction i rule: less_induct)
  case (less i)
  show ?case
  proof (cases "i = 0")
    case False
    then have "key (p ! 0) \<le> key (p ! HEAP_PARENT i)" using less by simp
    also have "\<dots> \<le> key (p ! i)" using less.prems False by (simp add: is_heap_def)
    finally show ?thesis .
  qed simp
qed

lemma fr_heap_peek_min:
  assumes "heap_ok hp" and "fr_heap_peek hp = Some x"
  shows "x \<in># heap_elems hp \<and> (\<forall>y. y \<in># heap_elems hp \<longrightarrow> key x \<le> key y)"
proof -
  have x: "x = hp_p hp ! 0" "0 < hp_num hp" using assms(2) by (auto simp: fr_heap_peek_def split: if_split_asm)
  have len: "hp_num hp \<le> length (hp_p hp)" "is_heap (hp_p hp) (hp_num hp)" using assms(1) by (simp_all add: heap_ok_def)
  have "x \<in> set (take (hp_num hp) (hp_p hp))" using nth_mem [of 0 "take (hp_num hp) (hp_p hp)"] x len by simp
  moreover have "key x \<le> key y" if "y \<in> set (take (hp_num hp) (hp_p hp))" for y
    using that is_heap_top [OF len(2)] x len by (auto simp: in_set_conv_nth)
  ultimately show ?thesis by (simp add: heap_elems_def)
qed

lemma fr_heap_peek_None: "heap_ok hp \<Longrightarrow> fr_heap_peek hp = None \<longleftrightarrow> heap_elems hp = {#}"
  by (auto simp: fr_heap_peek_def heap_elems_def heap_ok_def)

lemma extract_start_elem:
  assumes "heap_ok hp" and "hp_offset hp" and "x \<in># heap_elems hp"
  shows "\<exists>h. extract_start hp (Some x) = Some h \<and> h < hp_num hp \<and> hp_p hp ! h = x"
proof -
  obtain h where h: "h < hp_num hp" "hp_p hp ! h = x"
    using assms(1,3) by (auto simp: heap_elems_def heap_ok_def in_set_conv_nth)
  then have "hp_pos hp x = int h" using assms(1,2) by (auto simp: heap_ok_def positions_ok_def)
  then show ?thesis using h assms(2) by (auto simp: extract_start_def)
qed

lemma fr_heap_extract_elem:
  assumes "heap_ok hp" and "hp_offset hp" and "x \<in># heap_elems hp"
  shows "\<exists>hp'. fr_heap_extract cmp hp (Some x) = (True, hp') \<and> heap_ok hp' \<and> heap_elems hp' = heap_elems hp - {#x#} \<and>
    hp_offset hp' \<and> hp_pos hp' x = -1 \<and> (\<forall>y. y \<notin># heap_elems hp \<longrightarrow> hp_pos hp' y = hp_pos hp y)"
  using extract_start_elem [OF assms] fr_heap_extract_ok [OF assms(1)] assms(2) by metis

lemma fr_heap_extract_top:
  assumes "heap_ok hp" and "fr_heap_peek hp = Some x"
  shows "\<exists>hp'. fr_heap_extract cmp hp None = (True, hp') \<and> heap_ok hp' \<and> heap_elems hp' = heap_elems hp - {#x#} \<and>
    hp_offset hp' = hp_offset hp"
proof -
  have x: "x = hp_p hp ! 0" "0 < hp_num hp" using assms(2) by (auto simp: fr_heap_peek_def split: if_split_asm)
  show ?thesis using fr_heap_extract_ok [OF assms(1) _ x(2), of None] x by (auto simp: extract_start_def)
qed

lemma fr_heap_extract_gone:
  "hp_pos hp x = -1 \<Longrightarrow> fr_heap_extract cmp hp (Some x) = (False, hp)"
  by (simp add: fr_heap_extract_def extract_start_def)

end

text \<open>The order depends on the keys of the elements only, and the positions of other elements do not matter.\<close>

lemma heap_ok_cong:
  assumes "heap_order cmp key" and "heap_order cmp' key'" and "\<And>x. x \<in># heap_elems hp \<Longrightarrow> key x = key' x"
  shows "heap_order.heap_ok key hp \<longleftrightarrow> heap_order.heap_ok key' hp"
proof -
  have mem: "hp_p hp ! i \<in># heap_elems hp" if "i < hp_num hp" "hp_num hp \<le> length (hp_p hp)" for i
    using nth_mem [of i "take (hp_num hp) (hp_p hp)"] that by (simp add: heap_elems_def)
  then have "heap_order.is_heap key (hp_p hp) (hp_num hp) \<longleftrightarrow> heap_order.is_heap key' (hp_p hp) (hp_num hp)"
    if "hp_num hp \<le> length (hp_p hp)"
    using that assms(3) by (simp add: heap_order.is_heap_def [OF assms(1)] heap_order.is_heap_def [OF assms(2)])
  then show ?thesis by (auto simp: heap_order.heap_ok_def [OF assms(1)] heap_order.heap_ok_def [OF assms(2)])
qed

lemma heap_ok_pos:
  assumes "heap_order cmp key" and "heap_order.heap_ok key hp" and "x \<notin># heap_elems hp"
  shows "heap_order.heap_ok key (hp\<lparr>hp_pos := (hp_pos hp)(x := k)\<rparr>)"
proof -
  have "hp_p hp ! i \<noteq> x" if "i < hp_num hp" for i
    using nth_mem [of i "take (hp_num hp) (hp_p hp)"] that assms(2,3)
    by (auto simp: heap_elems_def heap_order.heap_ok_def [OF assms(1)])
  then show ?thesis using assms(2) by (auto simp: heap_order.heap_ok_def [OF assms(1)] positions_ok_def)
qed

section \<open>Every heap the program can have\<close>

text \<open>Heaps with the elements put in and not yet taken out. An element that holds its position is in the heap at most
  once.\<close>

inductive heap_history :: "('a \<Rightarrow> 'a \<Rightarrow> int) \<Rightarrow> 'a fr_heap \<Rightarrow> 'a multiset \<Rightarrow> bool" for cmp where
  hist_create: "heap_history cmp (fr_heap_create off pos) {#}"
| hist_insert: "heap_history cmp hp M \<Longrightarrow> hp_offset hp \<longrightarrow> x \<notin># M \<Longrightarrow> heap_history cmp (fr_heap_insert cmp hp x) (add_mset x M)"
| hist_top: "heap_history cmp hp M \<Longrightarrow> fr_heap_peek hp = Some x \<Longrightarrow> fr_heap_extract cmp hp None = (b, hp') \<Longrightarrow>
    heap_history cmp hp' (M - {#x#})"
| hist_elem: "heap_history cmp hp M \<Longrightarrow> hp_offset hp \<Longrightarrow> x \<in># M \<Longrightarrow> fr_heap_extract cmp hp (Some x) = (b, hp') \<Longrightarrow>
    heap_history cmp hp' (M - {#x#})"

lemma heap_history_ok:
  assumes "heap_order cmp key" and "heap_history cmp hp M"
  shows "heap_order.heap_ok key hp \<and> heap_elems hp = M"
  using assms(2)
proof (induction rule: heap_history.induct)
  case (hist_create off pos)
  then show ?case using heap_order.heap_ok_create [OF assms(1)] by (simp add: heap_elems_def fr_heap_create_def)
next
  case (hist_insert hp M x)
  then show ?case using heap_order.fr_heap_insert_ok [OF assms(1), of hp x] by simp
next
  case (hist_top hp M x b hp')
  then show ?case using heap_order.fr_heap_extract_top [OF assms(1), of hp x] by auto
next
  case (hist_elem hp M x b hp')
  then show ?case using heap_order.fr_heap_extract_elem [OF assms(1), of hp x] by auto
qed

text \<open>C28: Whatever insertions and extractions a heap has seen, with a comparison that agrees with an order of keys: the array holds exactly
  the elements put in and not yet taken out, their number is right, the element \<open>fr_heap_peek\<close> shows has a minimal key and is the
  one \<open>fr_heap_extract\<close> removes, and an element that holds its position can be extracted from the middle: exactly it
  is removed.\<close>

theorem heap_history_correct:
  assumes "heap_order cmp key" and "heap_history cmp hp M"
  shows "mset (take (hp_num hp) (hp_p hp)) = M \<and> fr_heap_num_elements hp = size M \<and>
    (fr_heap_peek hp = None \<longleftrightarrow> M = {#}) \<and>
    (\<forall>x. fr_heap_peek hp = Some x \<longrightarrow> x \<in># M \<and> (\<forall>y. y \<in># M \<longrightarrow> key x \<le> key y) \<and>
       (\<exists>hp'. fr_heap_extract cmp hp None = (True, hp') \<and> mset (take (hp_num hp') (hp_p hp')) = M - {#x#})) \<and>
    (\<forall>x. hp_offset hp \<and> x \<in># M \<longrightarrow>
       (\<exists>hp'. fr_heap_extract cmp hp (Some x) = (True, hp') \<and> mset (take (hp_num hp') (hp_p hp')) = M - {#x#}))"
proof -
  note ok = heap_history_ok [OF assms]
  then have "size M = hp_num hp" by (auto simp: heap_elems_def heap_order.heap_ok_def [OF assms(1)])
  moreover have "\<exists>hp'. fr_heap_extract cmp hp None = (True, hp') \<and> mset (take (hp_num hp') (hp_p hp')) = M - {#x#}"
    if "fr_heap_peek hp = Some x" for x
    using heap_order.fr_heap_extract_top [OF assms(1) _ that] ok by (auto simp: heap_elems_def)
  moreover have "\<exists>hp'. fr_heap_extract cmp hp (Some x) = (True, hp') \<and> mset (take (hp_num hp') (hp_p hp')) = M - {#x#}"
    if "hp_offset hp" "x \<in># M" for x
    using heap_order.fr_heap_extract_elem [OF assms(1) _ that(1), of x] ok that(2) by (auto simp: heap_elems_def)
  ultimately show ?thesis
    using ok heap_order.fr_heap_peek_min [OF assms(1), of hp] heap_order.fr_heap_peek_None [OF assms(1), of hp]
    by (auto simp: fr_heap_num_elements_def heap_elems_def)
qed

text \<open>The comparison of the test program at the end of \<^verbatim>\<open>heap.cpp\<close>.\<close>

interpretation int_heap: heap_order "\<lambda>a b :: int. a - b" "\<lambda>a. a"
  by unfold_locales simp

theorem heap_history_correct_witness:
  "fr_heap_peek (fr_heap_insert (\<lambda>a b :: int. a - b) (fr_heap_insert (\<lambda>a b. a - b) (fr_heap_create True (\<lambda>_. 0)) 7) 3) = Some 3"
proof -
  let ?hp = "fr_heap_insert (\<lambda>a b :: int. a - b) (fr_heap_insert (\<lambda>a b. a - b) (fr_heap_create True (\<lambda>_. 0)) 7) 3"
  have "heap_history (\<lambda>a b. a - b) ?hp (add_mset 3 (add_mset 7 {#}))" by (intro hist_insert hist_create) auto
  from heap_history_correct [OF int_heap.heap_order_axioms this] show ?thesis
    by (cases "fr_heap_peek ?hp") (force, auto)
qed

end
