(* ===== verification/Event_List.thy ===== *)
theory Event_List
  imports Binary_Heap "HOL-Library.Product_Lexorder"
begin

text \<open>
  The event list of \<^verbatim>\<open>src/lib/event-lib.cpp\<close>: timed callbacks in the binary heap, and the sockets to watch. Events are
  addresses in a store, since the heap, the caller's pointer \<^verbatim>\<open>ev_p\<close> and the event itself refer to each
  other; \<^verbatim>\<open>malloc\<close> gives a fresh address. The field \<^verbatim>\<open>heap\<close> of an event is \<open>hp_pos\<close> of the heap. Shown: the heap, the store and the
  callers' pointers stay consistent, events run in the order of their times, the time to sleep is exact; and the check
  against watching a socket twice does not work.
\<close>

section \<open>Events\<close>

record timeval =
  tv_sec :: int
  tv_usec :: int

definition USEC :: int where "USEC = 1000000"
definition FR_EV_MAX_FDS :: nat where "FR_EV_MAX_FDS = 256"

type_synonym addr = nat

record ('c, 'x) fr_event =
  ev_callback :: 'c
  ev_ctx :: 'x
  ev_when :: timeval
  ev_p :: "addr option"

record ('h, 'x) fr_event_fd =
  ef_fd :: int
  ef_handler :: "'h option"
  ef_ctx :: "'x option"

text \<open>\<open>el_events\<close> are the allocated events, \<open>el_handles\<close> the callers' variables of type \<^verbatim>\<open>fr_event_t *\<close>.\<close>

record ('c, 'h, 'x) fr_event_list =
  el_times :: "addr fr_heap"
  el_changed :: bool
  el_exit :: int
  el_now :: timeval
  el_dispatch :: bool
  el_max_readers :: nat
  el_readers :: "('h, 'x) fr_event_fd list"
  el_events :: "addr \<rightharpoonup> ('c, 'x) fr_event"
  el_handles :: "addr \<rightharpoonup> addr"
  el_fresh :: addr

definition timeval_cmp :: "timeval \<Rightarrow> timeval \<Rightarrow> int" where
  "timeval_cmp a b =
     (if tv_sec a < tv_sec b then -1
      else if tv_sec a > tv_sec b then 1
      else if tv_usec a < tv_usec b then -1
      else if tv_usec a > tv_usec b then 1
      else 0)"

definition fr_event_list_time_cmp :: "(addr \<rightharpoonup> ('c, 'x) fr_event) \<Rightarrow> addr \<Rightarrow> addr \<Rightarrow> int" where
  "fr_event_list_time_cmp evs one two = timeval_cmp (ev_when (the (evs one))) (ev_when (the (evs two)))"

definition fr_event_list_create :: "(addr \<rightharpoonup> addr) \<Rightarrow> ('c, 'h, 'x) fr_event_list" where
  "fr_event_list_create handles =
     \<lparr>el_times = fr_heap_create True (\<lambda>_. 0), el_changed = True, el_exit = 0, el_now = \<lparr>tv_sec = 0, tv_usec = 0\<rparr>, el_dispatch = False,
      el_max_readers = 0, el_readers = replicate FR_EV_MAX_FDS \<lparr>ef_fd = -1, ef_handler = None, ef_ctx = None\<rparr>,
      el_events = Map.empty, el_handles = handles, el_fresh = 0\<rparr>"

definition fr_event_list_num_elements :: "('c, 'h, 'x) fr_event_list \<Rightarrow> nat" where
  "fr_event_list_num_elements el = fr_heap_num_elements (el_times el)"

text \<open>\<open>fr_event_delete\<close> after its checks, for the event at \<open>ev\<close>; the caller's own variable is set to null by the
  caller of this part.\<close>

definition event_remove :: "('c, 'h, 'x) fr_event_list \<Rightarrow> addr \<Rightarrow> ('c, 'h, 'x) fr_event_list" where
  "event_remove el ev =
     (let el = (case ev_p (the (el_events el ev)) of Some q \<Rightarrow> el\<lparr>el_handles := (el_handles el)(q := None)\<rparr> | None \<Rightarrow> el);
          el = el\<lparr>el_times := snd (fr_heap_extract (fr_event_list_time_cmp (el_events el)) (el_times el) (Some ev))\<rparr>
      in el\<lparr>el_events := (el_events el)(ev := None)\<rparr>)"

definition fr_event_delete :: "('c, 'h, 'x) fr_event_list \<Rightarrow> addr \<Rightarrow> bool \<times> ('c, 'h, 'x) fr_event_list" where
  "fr_event_delete el h =
     (case el_handles el h of
        None \<Rightarrow> (False, el)
      | Some ev \<Rightarrow> (True, event_remove (el\<lparr>el_handles := (el_handles el)(h := None)\<rparr>) ev))"

definition fr_event_insert ::
    "('c, 'h, 'x) fr_event_list \<Rightarrow> 'c \<Rightarrow> 'x \<Rightarrow> timeval \<Rightarrow> addr option \<Rightarrow> bool \<times> ('c, 'h, 'x) fr_event_list" where
  "fr_event_insert el callback ctx when h =
     (if USEC \<le> tv_usec when then (False, el)
      else
        let el = (case h of Some q \<Rightarrow> snd (fr_event_delete el q) | None \<Rightarrow> el);
            ev = el_fresh el;
            el = el\<lparr>el_fresh := ev + 1, el_events := (el_events el)
                      (ev \<mapsto> \<lparr>ev_callback = callback, ev_ctx = ctx, ev_when = when, ev_p = h\<rparr>),
                    el_times := (el_times el)\<lparr>hp_pos := (hp_pos (el_times el))(ev := 0)\<rparr>\<rparr>;
            el = el\<lparr>el_times := fr_heap_insert (fr_event_list_time_cmp (el_events el)) (el_times el) ev\<rparr>
        in (True, case h of Some q \<Rightarrow> el\<lparr>el_handles := (el_handles el)(q \<mapsto> ev)\<rparr> | None \<Rightarrow> el))"

text \<open>\<open>fr_event_run\<close> up to the call of the callback, which is part of the result: the time to wait for, or the
  callback to call.\<close>

datatype ('c, 'x) event_action = WaitUntil timeval | CallBack 'c 'x

definition fr_event_run ::
    "('c, 'h, 'x) fr_event_list \<Rightarrow> timeval \<Rightarrow> ('c, 'x) event_action \<times> ('c, 'h, 'x) fr_event_list" where
  "fr_event_run el when =
     (if fr_heap_num_elements (el_times el) = 0 then (WaitUntil \<lparr>tv_sec = 0, tv_usec = 0\<rparr>, el)
      else case fr_heap_peek (el_times el) of
        None \<Rightarrow> (WaitUntil \<lparr>tv_sec = 0, tv_usec = 0\<rparr>, el)
      | Some ev \<Rightarrow>
          let e = the (el_events el ev)
          in if tv_sec (ev_when e) > tv_sec when \<or> tv_sec (ev_when e) = tv_sec when \<and> tv_usec (ev_when e) > tv_usec when
             then (WaitUntil (ev_when e), el)
             else (CallBack (ev_callback e) (ev_ctx e), event_remove el ev))"

definition fr_event_now :: "('c, 'h, 'x) fr_event_list \<Rightarrow> timeval \<Rightarrow> timeval" where
  "fr_event_now el clock = (if el_dispatch el then el_now el else clock)"

section \<open>Sockets\<close>

text \<open>The loop of \<open>fr_event_fd_insert\<close> over the readers: already there, a conflict, a free slot, or none.\<close>

datatype fd_slot = Present | Conflict | Free nat | NoSlot

fun fd_search :: "int \<Rightarrow> 'h \<Rightarrow> 'x \<Rightarrow> nat \<Rightarrow> ('h, 'x) fr_event_fd list \<Rightarrow> fd_slot" where
  "fd_search fd handler ctx i [] = NoSlot"
| "fd_search fd handler ctx i (r # rs) =
     (if ef_fd r = fd then
        (if ef_handler r \<noteq> Some handler \<or> ef_ctx r \<noteq> Some ctx then Conflict else Present)
      else if ef_fd r < 0 then Free i
      else fd_search fd handler ctx (i + 1) rs)"

definition fr_event_fd_insert ::
    "('c, 'h, 'x) fr_event_list \<Rightarrow> int \<Rightarrow> int \<Rightarrow> 'h \<Rightarrow> 'x \<Rightarrow> bool \<times> ('c, 'h, 'x) fr_event_list" where
  "fr_event_fd_insert el ty fd handler ctx =
     (if fd < 0 then (False, el)
      else if ty \<noteq> 0 then (False, el)
      else if FR_EV_MAX_FDS \<le> el_max_readers el then (False, el)
      else case fd_search fd handler ctx 0 (take (el_max_readers el + 1) (el_readers el)) of
        Conflict \<Rightarrow> (False, el)
      | Present \<Rightarrow> (True, el)
      | NoSlot \<Rightarrow> (False, el)
      | Free i \<Rightarrow>
          (True, el\<lparr>el_max_readers := (if i = el_max_readers el then i + 1 else el_max_readers el),
                    el_readers := (el_readers el)[i := \<lparr>ef_fd = fd, ef_handler = Some handler, ef_ctx = Some ctx\<rparr>],
                    el_changed := True\<rparr>))"

fun fd_index :: "int \<Rightarrow> nat \<Rightarrow> ('h, 'x) fr_event_fd list \<Rightarrow> nat option" where
  "fd_index fd i [] = None"
| "fd_index fd i (r # rs) = (if ef_fd r = fd then Some i else fd_index fd (i + 1) rs)"

definition fr_event_fd_delete :: "('c, 'h, 'x) fr_event_list \<Rightarrow> int \<Rightarrow> int \<Rightarrow> bool \<times> ('c, 'h, 'x) fr_event_list" where
  "fr_event_fd_delete el ty fd =
     (if fd < 0 then (False, el)
      else if ty \<noteq> 0 then (False, el)
      else case fd_index fd 0 (take (el_max_readers el) (el_readers el)) of
        None \<Rightarrow> (False, el)
      | Some i \<Rightarrow>
          (True, el\<lparr>el_readers := (el_readers el)[i := (el_readers el ! i)\<lparr>ef_fd := -1\<rparr>],
                    el_max_readers := (if i + 1 = el_max_readers el then i else el_max_readers el),
                    el_changed := True\<rparr>))"

section \<open>The loop\<close>

text \<open>How long \<open>fr_event_loop\<close> sleeps at time \<open>now\<close> before an event at time \<open>when\<close>.\<close>

definition event_wake :: "timeval \<Rightarrow> timeval \<Rightarrow> timeval" where
  "event_wake now when =
     (if timeval_cmp now when < 0 then
        let sec = tv_sec when - tv_sec now; usec = tv_usec when;
            (sec, usec) = (if 0 < sec then (sec - 1, usec + USEC) else (0, usec));
            usec = usec - tv_usec now;
            (sec, usec) = (if USEC \<le> usec then (sec + 1, usec - USEC) else (sec, usec))
        in \<lparr>tv_sec = sec, tv_usec = usec\<rparr>
      else \<lparr>tv_sec = 0, tv_usec = 0\<rparr>)"

definition fr_event_loop_exit :: "('c, 'h, 'x) fr_event_list \<Rightarrow> int \<Rightarrow> ('c, 'h, 'x) fr_event_list" where
  "fr_event_loop_exit el code = el\<lparr>el_exit := code\<rparr>"

text \<open>The sockets \<open>fr_event_loop\<close> waits for.\<close>

definition event_fds :: "('c, 'h, 'x) fr_event_list \<Rightarrow> int list" where
  "event_fds el = filter (\<lambda>fd. 0 \<le> fd) (map ef_fd (take (el_max_readers el) (el_readers el)))"

text \<open>The inner loop that runs due events, reading the clock before each; the callbacks may change the list, so it is
  bounded by the readings given.\<close>

fun event_run_due ::
    "('c \<Rightarrow> 'x \<Rightarrow> ('c, 'h, 'x) fr_event_list \<Rightarrow> ('c, 'h, 'x) fr_event_list) \<Rightarrow> timeval list \<Rightarrow> ('c, 'h, 'x) fr_event_list \<Rightarrow>
     ('c, 'h, 'x) fr_event_list option" where
  "event_run_due call [] el = None"
| "event_run_due call (now # clock) el =
     (let el = el\<lparr>el_now := now\<rparr>
      in case fr_event_run el now of
           (WaitUntil _, el) \<Rightarrow> Some el
         | (CallBack c x, el) \<Rightarrow> event_run_due call clock (call c x el))"

text \<open>The loop over the sockets that are ready; it stops when a handler changed the set of sockets.\<close>

fun dispatch_readers ::
    "('h \<Rightarrow> int \<Rightarrow> 'x \<Rightarrow> ('c, 'h, 'x) fr_event_list \<Rightarrow> ('c, 'h, 'x) fr_event_list) \<Rightarrow> int list \<Rightarrow> nat list \<Rightarrow>
     ('c, 'h, 'x) fr_event_list \<Rightarrow> ('c, 'h, 'x) fr_event_list" where
  "dispatch_readers handle ready [] el = el"
| "dispatch_readers handle ready (i # is) el =
     (if el_max_readers el \<le> i then el
      else
        let ef = el_readers el ! i
        in if ef_fd ef < 0 \<or> ef_fd ef \<notin> set ready then dispatch_readers handle ready is el
           else
             let el = handle (the (ef_handler ef)) (ef_fd ef) (the (ef_ctx ef)) el
             in if el_changed el then el else dispatch_readers handle ready is el)"

text \<open>One round of \<open>fr_event_loop\<close>. What the system calls return is a record: \<open>in_now\<close> the first reading of the clock,
  \<open>in_rcode\<close>, \<open>in_eintr\<close> and \<open>in_ready\<close> the outcome of \<^verbatim>\<open>select\<close>, \<open>in_clock\<close> the later readings. The results are the
  time given to \<^verbatim>\<open>select\<close>, the sockets watched and the list; \<open>SelectFailed\<close> is the return of -1, \<open>NoInput\<close> says that
  the inputs given did not suffice.\<close>

record loop_input =
  in_now :: timeval
  in_rcode :: int
  in_eintr :: bool
  in_ready :: "int list"
  in_clock :: "timeval list"

datatype loop_stop = SelectFailed | NoInput

definition fr_event_loop_body ::
    "('c \<Rightarrow> 'x \<Rightarrow> ('c, 'h, 'x) fr_event_list \<Rightarrow> ('c, 'h, 'x) fr_event_list) \<Rightarrow>
     ('h \<Rightarrow> int \<Rightarrow> 'x \<Rightarrow> ('c, 'h, 'x) fr_event_list \<Rightarrow> ('c, 'h, 'x) fr_event_list) \<Rightarrow> loop_input \<Rightarrow> int list \<Rightarrow>
     ('c, 'h, 'x) fr_event_list \<Rightarrow> loop_stop + timeval option \<times> int list \<times> ('c, 'h, 'x) fr_event_list" where
  "fr_event_loop_body call handle i fds el =
     (let (fds, el) = (if el_changed el then (event_fds el, el\<lparr>el_changed := False\<rparr>) else (fds, el));
          (wake, el) = (if fr_heap_num_elements (el_times el) > 0 then
                          let ev = the (fr_heap_peek (el_times el))
                          in (Some (event_wake (in_now i) (ev_when (the (el_events el ev)))), el\<lparr>el_now := in_now i\<rparr>)
                        else (None, el))
      in if in_rcode i < 0 \<and> \<not> in_eintr i then Inl SelectFailed
         else case (if fr_heap_num_elements (el_times el) > 0 then event_run_due call (in_clock i) el else Some el) of
                None \<Rightarrow> Inl NoInput
              | Some el \<Rightarrow>
                  Inr (wake, fds, if in_rcode i \<le> 0 then el else dispatch_readers handle (in_ready i) [0..<FR_EV_MAX_FDS] el))"

text \<open>The whole of \<open>fr_event_loop\<close>, with one input for every round.\<close>

fun event_loop_rounds ::
    "('c \<Rightarrow> 'x \<Rightarrow> ('c, 'h, 'x) fr_event_list \<Rightarrow> ('c, 'h, 'x) fr_event_list) \<Rightarrow>
     ('h \<Rightarrow> int \<Rightarrow> 'x \<Rightarrow> ('c, 'h, 'x) fr_event_list \<Rightarrow> ('c, 'h, 'x) fr_event_list) \<Rightarrow> loop_input list \<Rightarrow> int list \<Rightarrow>
     ('c, 'h, 'x) fr_event_list \<Rightarrow> loop_stop + int \<times> ('c, 'h, 'x) fr_event_list" where
  "event_loop_rounds call handle inputs fds el =
     (if el_exit el \<noteq> 0 then Inr (el_exit el, el\<lparr>el_dispatch := False\<rparr>)
      else case inputs of
        [] \<Rightarrow> Inl NoInput
      | i # inputs \<Rightarrow>
          (case fr_event_loop_body call handle i fds el of
             Inl stop \<Rightarrow> Inl stop
           | Inr (wake, fds, el) \<Rightarrow> event_loop_rounds call handle inputs fds el))"

definition fr_event_loop ::
    "('c \<Rightarrow> 'x \<Rightarrow> ('c, 'h, 'x) fr_event_list \<Rightarrow> ('c, 'h, 'x) fr_event_list) \<Rightarrow>
     ('h \<Rightarrow> int \<Rightarrow> 'x \<Rightarrow> ('c, 'h, 'x) fr_event_list \<Rightarrow> ('c, 'h, 'x) fr_event_list) \<Rightarrow> loop_input list \<Rightarrow>
     ('c, 'h, 'x) fr_event_list \<Rightarrow> loop_stop + int \<times> ('c, 'h, 'x) fr_event_list" where
  "fr_event_loop call handle inputs el =
     event_loop_rounds call handle inputs [] (el\<lparr>el_exit := 0, el_dispatch := True, el_changed := True\<rparr>)"

text \<open>The loop of \<open>fr_event_list_free\<close>, with a bound on its rounds.\<close>

fun event_free_loop :: "nat \<Rightarrow> ('c, 'h, 'x) fr_event_list \<Rightarrow> ('c, 'h, 'x) fr_event_list option" where
  "event_free_loop n el =
     (case fr_heap_peek (el_times el) of
        None \<Rightarrow> Some el
      | Some ev \<Rightarrow> (case n of 0 \<Rightarrow> None | Suc m \<Rightarrow> event_free_loop m (event_remove el ev)))"

declare event_free_loop.simps [simp del]
declare event_loop_rounds.simps [simp del]

section \<open>Consistency\<close>

definition event_key :: "(addr \<rightharpoonup> ('c, 'x) fr_event) \<Rightarrow> addr \<Rightarrow> int \<times> int" where
  "event_key evs a = (tv_sec (ev_when (the (evs a))), tv_usec (ev_when (the (evs a))))"

lemma timeval_cmp_less: "timeval_cmp a b < 0 \<longleftrightarrow> (tv_sec a, tv_usec a) < (tv_sec b, tv_usec b)"
  by (auto simp: timeval_cmp_def less_prod_def)

interpretation ev: heap_order "fr_event_list_time_cmp evs" "event_key evs" for evs
  by unfold_locales (simp add: fr_event_list_time_cmp_def event_key_def timeval_cmp_less)

abbreviation event_heap_ok :: "(addr \<rightharpoonup> ('c, 'x) fr_event) \<Rightarrow> addr fr_heap \<Rightarrow> bool" where
  "event_heap_ok evs \<equiv> heap_order.heap_ok (event_key evs)"

definition el_ok :: "('c, 'h, 'x) fr_event_list \<Rightarrow> bool" where
  "el_ok el \<longleftrightarrow> event_heap_ok (el_events el) (el_times el) \<and> hp_offset (el_times el) \<and>
     set_mset (heap_elems (el_times el)) = dom (el_events el) \<and> (\<forall>a \<in> dom (el_events el). a < el_fresh el) \<and>
     (\<forall>h a. el_handles el h = Some a \<longrightarrow> (\<exists>e. el_events el a = Some e \<and> ev_p e = Some h)) \<and>
     (\<forall>a e h. el_events el a = Some e \<and> ev_p e = Some h \<longrightarrow> el_handles el h = Some a)"

lemma heap_elems_once:
  assumes "event_heap_ok evs hp" and "hp_offset hp"
  shows "set_mset (heap_elems hp - {#a#}) = set_mset (heap_elems hp) - {a}"
proof -
  have "distinct (take (hp_num hp) (hp_p hp))" using assms by (simp add: ev.heap_ok_def positions_ok_def)
  then have "count (heap_elems hp) a \<le> 1" by (simp add: heap_elems_def distinct_count_atmost_1)
  then show ?thesis by (auto simp: in_diff_count set_eq_iff not_in_iff)
qed

lemma el_ok_create: "el_ok (fr_event_list_create Map.empty)"
  by (simp add: el_ok_def fr_event_list_create_def ev.heap_ok_create) (simp add: fr_heap_create_def heap_elems_def)

lemma event_remove_ok:
  assumes "el_ok el" and "el_events el a = Some e"
  shows "el_ok (event_remove el a)" "el_events (event_remove el a) = (el_events el)(a := None)"
    "el_handles (event_remove el a) = (case ev_p e of Some q \<Rightarrow> (el_handles el)(q := None) | None \<Rightarrow> el_handles el)"
    "el_fresh (event_remove el a) = el_fresh el"
proof -
  let ?evs = "el_events el" and ?hp = "el_times el"
  have ok: "event_heap_ok ?evs ?hp" "hp_offset ?hp" "set_mset (heap_elems ?hp) = dom ?evs" using assms(1) by (simp_all add: el_ok_def)
  then obtain hp' where hp': "fr_heap_extract (fr_event_list_time_cmp ?evs) ?hp (Some a) = (True, hp')" "event_heap_ok ?evs hp'"
      "heap_elems hp' = heap_elems ?hp - {#a#}" "hp_offset hp'"
    using ev.fr_heap_extract_elem [OF ok(1,2), of a] assms(2) by (auto simp: domI)
  have rem: "event_remove el a = el\<lparr>el_handles := (case ev_p e of Some q \<Rightarrow> (el_handles el)(q := None) | None \<Rightarrow> el_handles el),
      el_times := hp', el_events := ?evs(a := None)\<rparr>"
    using hp'(1) assms(2) by (simp add: event_remove_def Let_def split: option.split)
  then show "el_events (event_remove el a) = ?evs(a := None)"
    "el_handles (event_remove el a) = (case ev_p e of Some q \<Rightarrow> (el_handles el)(q := None) | None \<Rightarrow> el_handles el)"
    "el_fresh (event_remove el a) = el_fresh el" by simp_all
  have els: "set_mset (heap_elems hp') = dom (?evs(a := None))"
    using heap_elems_once [OF ok(1,2), of a] ok(3) by (simp add: hp'(3))
  have "event_heap_ok (?evs(a := None)) hp'"
    using hp'(2) els by (subst heap_ok_cong [OF ev.heap_order_axioms ev.heap_order_axioms, of hp' _ ?evs])
      (auto simp: event_key_def)
  moreover have "\<exists>e. (?evs(a := None)) b = Some e \<and> ev_p e = Some h" if "el_handles (event_remove el a) h = Some b" for h b
  proof -
    have h: "el_handles el h = Some b" "ev_p e \<noteq> Some h" using that by (auto simp: rem split: option.split_asm if_split_asm)
    then obtain e' where "?evs b = Some e'" "ev_p e' = Some h" using assms(1) unfolding el_ok_def by blast
    with h assms(2) show ?thesis by (cases "b = a") auto
  qed
  moreover have "el_handles (event_remove el a) h = Some b" if "(?evs(a := None)) b = Some e'" "ev_p e' = Some h" for b e' h
  proof -
    have b: "b \<noteq> a" "?evs b = Some e'" using that by (auto split: if_split_asm)
    then have "el_handles el h = Some b" using assms(1) that unfolding el_ok_def by blast
    moreover have "el_handles el q = Some a" if "ev_p e = Some q" for q using assms that unfolding el_ok_def by blast
    ultimately show ?thesis using b(1) by (auto simp: rem split: option.split)
  qed
  ultimately show "el_ok (event_remove el a)"
    using els assms(1) hp'(4) unfolding el_ok_def by (simp add: rem)
qed

lemma fr_event_delete_ok:
  assumes "el_ok el"
  shows "el_ok (snd (fr_event_delete el h))" "el_handles (snd (fr_event_delete el h)) h = None"
    "el_fresh (snd (fr_event_delete el h)) = el_fresh el"
    "el_events (snd (fr_event_delete el h)) =
       (case el_handles el h of Some a \<Rightarrow> (el_events el)(a := None) | None \<Rightarrow> el_events el)"
proof -
  have "el_ok (snd (fr_event_delete el h)) \<and> el_handles (snd (fr_event_delete el h)) h = None \<and>
    el_fresh (snd (fr_event_delete el h)) = el_fresh el \<and> el_events (snd (fr_event_delete el h)) =
       (case el_handles el h of Some a \<Rightarrow> (el_events el)(a := None) | None \<Rightarrow> el_events el)"
  proof (cases "el_handles el h")
    case None
    then show ?thesis using assms by (simp add: fr_event_delete_def)
  next
    case (Some a)
    then obtain e where e: "el_events el a = Some e" "ev_p e = Some h" using assms unfolding el_ok_def by blast
    then have "event_remove (el\<lparr>el_handles := (el_handles el)(h := None)\<rparr>) a = event_remove el a"
      by (simp add: event_remove_def Let_def)
    then show ?thesis using event_remove_ok [OF assms e(1)] Some e(2) by (simp add: fr_event_delete_def)
  qed
  then show "el_ok (snd (fr_event_delete el h))" "el_handles (snd (fr_event_delete el h)) h = None"
    "el_fresh (snd (fr_event_delete el h)) = el_fresh el"
    "el_events (snd (fr_event_delete el h)) =
       (case el_handles el h of Some a \<Rightarrow> (el_events el)(a := None) | None \<Rightarrow> el_events el)" by blast+
qed

text \<open>The part of \<open>fr_event_insert\<close> after the handle is free.\<close>

lemma event_add_ok:
  fixes callback :: 'c and ctx :: 'x and tm :: timeval and el :: "('c, 'h, 'x) fr_event_list"
  assumes "el_ok el" and "\<And>q. h = Some q \<Longrightarrow> el_handles el q = None"
  defines "a \<equiv> el_fresh el"
  defines "evs \<equiv> (el_events el)(a \<mapsto> \<lparr>ev_callback = callback, ev_ctx = ctx, ev_when = tm, ev_p = h\<rparr>)"
  defines "hp \<equiv> fr_heap_insert (fr_event_list_time_cmp evs) ((el_times el)\<lparr>hp_pos := (hp_pos (el_times el))(a := 0)\<rparr>) a"
  shows "el_ok (el\<lparr>el_fresh := a + 1, el_events := evs, el_times := hp,
    el_handles := (case h of Some q \<Rightarrow> (el_handles el)(q \<mapsto> a) | None \<Rightarrow> el_handles el)\<rparr>)"
proof -
  let ?hp0 = "el_times el"
  have ok: "event_heap_ok (el_events el) ?hp0" "hp_offset ?hp0" "set_mset (heap_elems ?hp0) = dom (el_events el)"
      "a \<notin> dom (el_events el)"
    using assms(1) by (auto simp: el_ok_def a_def)
  have "event_heap_ok evs ?hp0"
    using ok by (subst heap_ok_cong [OF ev.heap_order_axioms ev.heap_order_axioms, of ?hp0 _ "el_events el"])
      (auto simp: event_key_def evs_def)
  then have "event_heap_ok evs (?hp0\<lparr>hp_pos := (hp_pos ?hp0)(a := 0)\<rparr>)"
    by (rule heap_ok_pos [OF ev.heap_order_axioms]) (use ok in auto)
  moreover have "heap_elems (?hp0\<lparr>hp_pos := (hp_pos ?hp0)(a := 0)\<rparr>) = heap_elems ?hp0" by (simp add: heap_elems_def)
  ultimately have "event_heap_ok evs hp \<and> heap_elems hp = add_mset a (heap_elems ?hp0) \<and> hp_offset hp"
    using ev.fr_heap_insert_ok [of evs "?hp0\<lparr>hp_pos := (hp_pos ?hp0)(a := 0)\<rparr>" a] ok by (auto simp: hp_def)
  moreover have "dom evs = insert a (dom (el_events el))" by (auto simp: evs_def)
  moreover have "\<exists>e. evs b = Some e \<and> ev_p e = Some q"
    if "(case h of Some q \<Rightarrow> (el_handles el)(q \<mapsto> a) | None \<Rightarrow> el_handles el) q = Some b" for q b
  proof (cases "h = Some q")
    case True
    with that show ?thesis by (auto simp: evs_def)
  next
    case False
    then have "el_handles el q = Some b" using that by (auto split: option.split_asm if_split_asm)
    then obtain e where "el_events el b = Some e" "ev_p e = Some q" using assms(1) unfolding el_ok_def by blast
    then show ?thesis using ok(4) by (auto simp: evs_def)
  qed
  moreover have "(case h of Some q \<Rightarrow> (el_handles el)(q \<mapsto> a) | None \<Rightarrow> el_handles el) q = Some b"
    if "evs b = Some e" "ev_p e = Some q" for b e q
  proof (cases "b = a")
    case True
    with that show ?thesis by (auto simp: evs_def)
  next
    case False
    then have "el_handles el q = Some b" using that assms(1) unfolding el_ok_def evs_def by (metis fun_upd_other)
    then show ?thesis using assms(2) by (auto split: option.split)
  qed
  moreover have "\<forall>b \<in> insert a (dom (el_events el)). b < a + 1"
  proof -
    have "\<forall>b \<in> dom (el_events el). b < a" using assms(1) by (simp add: el_ok_def a_def)
    then show ?thesis by (auto simp: less_Suc_eq)
  qed
  ultimately show ?thesis using ok(3) unfolding el_ok_def by simp
qed

lemma el_handles_same:
  "el\<lparr>el_fresh := f, el_events := g, el_times := t, el_handles := el_handles el\<rparr> = el\<lparr>el_fresh := f, el_events := g, el_times := t\<rparr>"
  by (cases el) simp

lemma fr_event_insert_ok:
  assumes "el_ok el"
  shows "el_ok (snd (fr_event_insert el callback ctx tm h))"
proof (cases "USEC \<le> tv_usec tm")
  case False
  show ?thesis
  proof (cases h)
    case None
    from event_add_ok [where callback = callback and ctx = ctx and tm = tm and h = None, OF assms] show ?thesis
      using False by (simp add: fr_event_insert_def Let_def None el_handles_same)
  next
    case (Some q)
    note del = fr_event_delete_ok [OF assms, of q]
    from event_add_ok [where callback = callback and ctx = ctx and tm = tm and h = "Some q", OF del(1)] show ?thesis
      using False del(2) by (simp add: fr_event_insert_def Let_def Some)
  qed
qed (use assms in \<open>simp add: fr_event_insert_def\<close>)

text \<open>What \<open>fr_event_run\<close> does.\<close>

lemma fr_event_run_cases:
  assumes "el_ok el"
  obtains (idle) "el_events el = Map.empty" "fr_event_run el now = (WaitUntil \<lparr>tv_sec = 0, tv_usec = 0\<rparr>, el)"
  | (later) a e where "el_events el a = Some e" "fr_event_run el now = (WaitUntil (ev_when e), el)" "timeval_cmp now (ev_when e) < 0"
      "\<And>b. b \<in> dom (el_events el) \<Longrightarrow> event_key (el_events el) a \<le> event_key (el_events el) b"
  | (due) a e where "el_events el a = Some e" "fr_event_run el now = (CallBack (ev_callback e) (ev_ctx e), event_remove el a)"
      "\<not> timeval_cmp now (ev_when e) < 0"
      "\<And>b. b \<in> dom (el_events el) \<Longrightarrow> event_key (el_events el) a \<le> event_key (el_events el) b"
proof -
  have ok: "event_heap_ok (el_events el) (el_times el)" "set_mset (heap_elems (el_times el)) = dom (el_events el)"
    using assms by (simp_all add: el_ok_def)
  show ?thesis
  proof (cases "fr_heap_peek (el_times el)")
    case None
    then have "el_events el = Map.empty" using ev.fr_heap_peek_None [OF ok(1)] ok(2) by auto
    moreover have "fr_event_run el now = (WaitUntil \<lparr>tv_sec = 0, tv_usec = 0\<rparr>, el)" using None by (simp add: fr_event_run_def)
    ultimately show ?thesis by (rule idle)
  next
    case (Some a)
    then have top: "a \<in> dom (el_events el)" "\<And>b. b \<in> dom (el_events el) \<Longrightarrow> event_key (el_events el) a \<le> event_key (el_events el) b"
      using ev.fr_heap_peek_min [OF ok(1) Some] ok(2) by auto
    then obtain e where e: "el_events el a = Some e" by auto
    have n: "fr_heap_num_elements (el_times el) \<noteq> 0" using Some by (auto simp: fr_heap_peek_def fr_heap_num_elements_def split: if_split_asm)
    have late: "(tv_sec (ev_when e) > tv_sec now \<or> tv_sec (ev_when e) = tv_sec now \<and> tv_usec (ev_when e) > tv_usec now)
        \<longleftrightarrow> timeval_cmp now (ev_when e) < 0" by (auto simp: timeval_cmp_def)
    have run: "fr_event_run el now = (if timeval_cmp now (ev_when e) < 0 then (WaitUntil (ev_when e), el)
        else (CallBack (ev_callback e) (ev_ctx e), event_remove el a))"
      unfolding fr_event_run_def using n by (simp add: Some e Let_def late)
    show ?thesis
    proof (cases "timeval_cmp now (ev_when e) < 0")
      case True
      then show ?thesis using later [OF e _ _ top(2)] run by simp
    next
      case False
      then show ?thesis using due [OF e _ _ top(2)] run by simp
    qed
  qed
qed

lemma fr_event_run_ok:
  assumes "el_ok el"
  shows "el_ok (snd (fr_event_run el now))"
  using assms by (cases rule: fr_event_run_cases [where now = now]) (auto simp: assms event_remove_ok)

section \<open>Every event list the program can have\<close>

text \<open>The last step is what the loop and the operations on sockets change.\<close>

inductive event_history :: "('c, 'h, 'x) fr_event_list \<Rightarrow> bool" where
  eh_create: "event_history (fr_event_list_create Map.empty)"
| eh_insert: "event_history el \<Longrightarrow> fr_event_insert el callback ctx tm h = (b, el') \<Longrightarrow> event_history el'"
| eh_delete: "event_history el \<Longrightarrow> fr_event_delete el h = (b, el') \<Longrightarrow> event_history el'"
| eh_run: "event_history el \<Longrightarrow> fr_event_run el now = (act, el') \<Longrightarrow> event_history el'"
| eh_loop: "event_history el \<Longrightarrow>
    event_history (el\<lparr>el_changed := changed, el_exit := code, el_now := now, el_dispatch := dispatch, el_max_readers := n, el_readers := readers\<rparr>)"

lemma event_history_ok: "event_history el \<Longrightarrow> el_ok el"
proof (induction rule: event_history.induct)
  case (eh_insert el callback ctx tm h b el')
  then show ?case using fr_event_insert_ok [of el callback ctx tm h] by simp
next
  case (eh_delete el h b el')
  then show ?case using fr_event_delete_ok(1) [of el h] by simp
next
  case (eh_run el now act el')
  then show ?case using fr_event_run_ok [of el now] by simp
next
  case (eh_loop el changed code now dispatch n readers)
  then show ?case by (simp add: el_ok_def)
qed (rule el_ok_create)

text \<open>C29: No dangling events. In every event list built by inserting, deleting and running events, a caller's variable that is not null points to
  a live event that points back to it, the heap holds exactly the live events, and inserting with a variable that is in use
  replaces its event, so that the variable never leaks one.\<close>

theorem event_list_consistent:
  assumes "event_history el"
  shows "(el_handles el h = Some a \<longrightarrow> (\<exists>e. el_events el a = Some e \<and> ev_p e = Some h)) \<and>
    (\<forall>e. el_events el a = Some e \<and> ev_p e = Some h \<longrightarrow> el_handles el h = Some a) \<and>
    set (take (hp_num (el_times el)) (hp_p (el_times el))) = dom (el_events el) \<and>
    fr_event_list_num_elements el = card (dom (el_events el))"
proof -
  note ok = event_history_ok [OF assms, unfolded el_ok_def]
  have st: "set (take (hp_num (el_times el)) (hp_p (el_times el))) = dom (el_events el)" using ok by (simp add: heap_elems_def)
  have "distinct (take (hp_num (el_times el)) (hp_p (el_times el)))" "hp_num (el_times el) \<le> length (hp_p (el_times el))"
    using ok by (simp_all add: ev.heap_ok_def positions_ok_def)
  from distinct_card [OF this(1)] this(2) have "card (dom (el_events el)) = hp_num (el_times el)" by (simp add: st)
  with st ok show ?thesis by (simp add: fr_event_list_num_elements_def fr_heap_num_elements_def)
qed

theorem event_list_consistent_witness:
  "\<exists>e. el_events (snd (fr_event_insert (fr_event_list_create Map.empty :: (bool, bool, bool) fr_event_list) True True
     \<lparr>tv_sec = 5, tv_usec = 0\<rparr> (Some 3))) 0 = Some e \<and> ev_p e = Some 3"
proof -
  let ?el = "snd (fr_event_insert (fr_event_list_create Map.empty :: (bool, bool, bool) fr_event_list) True True
     \<lparr>tv_sec = 5, tv_usec = 0\<rparr> (Some 3))"
  have "event_history ?el" by (rule eh_insert [OF eh_create prod.collapse [symmetric]])
  moreover have "el_handles ?el 3 = Some 0"
    by (simp add: fr_event_insert_def fr_event_delete_def fr_event_list_create_def USEC_def Let_def)
  ultimately show ?thesis using event_list_consistent by blast
qed

text \<open>C30: Events run in time. \<open>fr_event_run\<close> calls an event exactly when one is due, and then the earliest of all
  pending ones, which it removes from the list first together with its owner's pointer; otherwise every pending event is
  in the future and it returns the time of the earliest.\<close>

theorem event_run_earliest:
  assumes "event_history el" and "fr_event_run el now = (act, el')"
  shows "case act of
      CallBack c x \<Rightarrow> \<exists>a e. el_events el a = Some e \<and> ev_callback e = c \<and> ev_ctx e = x \<and> \<not> timeval_cmp now (ev_when e) < 0 \<and>
        (\<forall>b e'. el_events el b = Some e' \<longrightarrow> \<not> timeval_cmp (ev_when e') (ev_when e) < 0) \<and>
        el_events el' = (el_events el)(a := None) \<and> (\<forall>h. el_handles el' h \<noteq> Some a)
    | WaitUntil t \<Rightarrow> el' = el \<and> (el_events el = Map.empty \<or>
        (\<exists>a e. el_events el a = Some e \<and> ev_when e = t)) \<and>
        (\<forall>b e'. el_events el b = Some e' \<longrightarrow> timeval_cmp now (ev_when e') < 0 \<and> \<not> timeval_cmp (ev_when e') t < 0)"
proof -
  note ok = event_history_ok [OF assms(1)]
  have min: "\<not> timeval_cmp (ev_when e') (ev_when e) < 0"
    if "el_events el a = Some e" "event_key (el_events el) a \<le> event_key (el_events el) b" "el_events el b = Some e'" for a b e e'
    using that by (auto simp: timeval_cmp_less event_key_def not_less)
  from ok show ?thesis
  proof (cases rule: fr_event_run_cases [where now = now])
    case idle
    then show ?thesis using assms(2) by simp
  next
    case (later a e)
    have "timeval_cmp now (ev_when e') < 0" if "el_events el b = Some e'" for b e'
    proof -
      have "(tv_sec now, tv_usec now) < event_key (el_events el) a" using later(1,3) by (simp add: timeval_cmp_less event_key_def)
      also have "\<dots> \<le> event_key (el_events el) b" using later(4) that by auto
      finally show ?thesis using that by (simp add: timeval_cmp_less event_key_def)
    qed
    moreover have "\<not> timeval_cmp (ev_when e') (ev_when e) < 0" if "el_events el b = Some e'" for b e'
      by (rule min [OF later(1) later(4) that]) (use that in auto)
    moreover have "\<exists>a e'. el_events el a = Some e' \<and> ev_when e' = ev_when e" using later(1) by blast
    ultimately show ?thesis using assms(2) later(2) by auto
  next
    case (due a e)
    have first: "\<not> timeval_cmp (ev_when e') (ev_when e) < 0" if "el_events el b = Some e'" for b e'
      by (rule min [OF due(1) due(4) that]) (use that in auto)
    have el': "el' = event_remove el a" "act = CallBack (ev_callback e) (ev_ctx e)" using assms(2) due(2) by auto
    note rem = event_remove_ok [OF ok due(1)]
    have gone: "el_handles el' h \<noteq> Some a" for h
      using rem(1,2) unfolding el'(1) [symmetric] el_ok_def by fastforce
    show ?thesis unfolding el'(2) event_action.case
      by (intro exI [of _ a] exI [of _ e] conjI allI impI first) (use due gone rem el' in simp_all)
  qed
qed

theorem event_run_earliest_witness:
  "case fr_event_run (snd (fr_event_insert (fr_event_list_create Map.empty :: (bool, bool, bool) fr_event_list) True True
     \<lparr>tv_sec = 5, tv_usec = 0\<rparr> (Some 3))) \<lparr>tv_sec = 2, tv_usec = 0\<rparr> of
      (WaitUntil t, el') \<Rightarrow> \<not> timeval_cmp \<lparr>tv_sec = 5, tv_usec = 0\<rparr> t < 0
    | (CallBack c x, el') \<Rightarrow> False"
proof -
  let ?el = "snd (fr_event_insert (fr_event_list_create Map.empty :: (bool, bool, bool) fr_event_list) True True
     \<lparr>tv_sec = 5, tv_usec = 0\<rparr> (Some 3))"
  have "event_history ?el" by (rule eh_insert [OF eh_create prod.collapse [symmetric]])
  note run = event_run_earliest [OF this prod.collapse [symmetric], of "\<lparr>tv_sec = 2, tv_usec = 0\<rparr>"]
  have "el_events ?el = [0 \<mapsto> \<lparr>ev_callback = True, ev_ctx = True, ev_when = \<lparr>tv_sec = 5, tv_usec = 0\<rparr>, ev_p = Some 3\<rparr>]"
    by (simp add: fr_event_insert_def fr_event_delete_def fr_event_list_create_def USEC_def Let_def)
  with run show ?thesis
    by (auto simp: timeval_cmp_def split: prod.splits event_action.splits if_split_asm)
qed

text \<open>The events that are due at a time, and callbacks that schedule nothing that is due by then: they may delete and reschedule events.\<close>

definition due_by :: "timeval \<Rightarrow> ('c, 'h, 'x) fr_event_list \<Rightarrow> addr set" where
  "due_by t el = {a. \<exists>e. el_events el a = Some e \<and> \<not> timeval_cmp t (ev_when e) < 0}"

definition schedules_later :: "timeval \<Rightarrow> ('c \<Rightarrow> 'x \<Rightarrow> ('c, 'h, 'x) fr_event_list \<Rightarrow> ('c, 'h, 'x) fr_event_list) \<Rightarrow> bool" where
  "schedules_later t call \<longleftrightarrow>
     (\<forall>c x el. event_history el \<longrightarrow> event_history (call c x el) \<and> due_by t (call c x el) \<subseteq> due_by t el)"

lemma el_ok_finite:
  assumes "el_ok el"
  shows "finite (dom (el_events el))"
proof -
  have "dom (el_events el) = set (take (hp_num (el_times el)) (hp_p (el_times el)))"
    using assms by (auto simp: el_ok_def heap_elems_def)
  then show ?thesis by simp
qed

lemma due_by_finite: "event_history el \<Longrightarrow> finite (due_by t el)"
  using el_ok_finite [OF event_history_ok] by (rule finite_subset [rotated]) (auto simp: due_by_def)

lemma timeval_due_trans: "\<not> timeval_cmp now t < 0 \<Longrightarrow> \<not> timeval_cmp later now < 0 \<Longrightarrow> \<not> timeval_cmp later t < 0"
  unfolding timeval_cmp_less not_less by (rule order_trans)

lemma history_now:
  assumes "event_history el"
  shows "event_history (el\<lparr>el_now := now\<rparr>)"
proof -
  have "el\<lparr>el_changed := el_changed el, el_exit := el_exit el, el_now := now, el_dispatch := el_dispatch el, el_max_readers := el_max_readers el,
      el_readers := el_readers el\<rparr> = el\<lparr>el_now := now\<rparr>" by simp
  with eh_loop [OF assms] show ?thesis by metis
qed

lemma insert_later:
  assumes "event_history el" and "timeval_cmp t tm < 0"
  shows "event_history (snd (fr_event_insert el c x tm h)) \<and> due_by t (snd (fr_event_insert el c x tm h)) \<subseteq> due_by t el"
proof
  show "event_history (snd (fr_event_insert el c x tm h))" by (rule eh_insert [OF assms(1) prod.collapse [symmetric]])
  show "due_by t (snd (fr_event_insert el c x tm h)) \<subseteq> due_by t el"
    using assms(2) fr_event_delete_ok(4) [OF event_history_ok [OF assms(1)]]
    by (auto simp: due_by_def fr_event_insert_def Let_def split: option.split_asm if_split_asm)
qed

text \<open>One round of the loop over due events.\<close>

lemma event_run_round:
  assumes "event_history el" and "\<not> timeval_cmp t now < 0"
  obtains (drained) "event_run_due call (now # clock) el = Some (el\<lparr>el_now := now\<rparr>)" "due_by now el = {}"
  | (called) c x el' where "event_run_due call (now # clock) el = event_run_due call clock (call c x el')" "event_history el'"
      "due_by t el' \<subset> due_by t el"
proof -
  let ?el = "el\<lparr>el_now := now\<rparr>"
  have "event_history ?el" by (rule history_now [OF assms(1)])
  note ok = event_history_ok [OF this]
  from ok show thesis
  proof (cases rule: fr_event_run_cases [where now = now])
    case idle
    then show ?thesis by (intro drained) (simp_all add: due_by_def)
  next
    case (later a e)
    have "timeval_cmp now (ev_when e') < 0" if "el_events el b = Some e'" for b e'
    proof -
      have "(tv_sec now, tv_usec now) < event_key (el_events el) a" using later(1,3) by (simp add: timeval_cmp_less event_key_def)
      also have "\<dots> \<le> event_key (el_events el) b" using later(4) [of b] that by (auto simp: domIff)
      finally show ?thesis using that by (simp add: timeval_cmp_less event_key_def)
    qed
    then show ?thesis using later(2) by (intro drained) (auto simp: due_by_def)
  next
    case (due a e)
    note rem = event_remove_ok [OF ok due(1)]
    have "event_history (event_remove ?el a)" using eh_run [OF \<open>event_history ?el\<close> due(2)] .
    moreover have "a \<in> due_by t el" using due(1) timeval_due_trans [OF due(3) assms(2)] by (auto simp: due_by_def)
    then have "due_by t (event_remove ?el a) \<subset> due_by t el" using rem(2) by (auto simp: due_by_def split: if_split_asm)
    ultimately show ?thesis using due(2) by (intro called) simp_all
  qed
qed

lemma event_run_due_drains:
  assumes "event_history el" and "schedules_later t call" and "card (due_by t el) < length clock" and "\<forall>now\<in>set clock. \<not> timeval_cmp t now < 0"
  shows "\<exists>el'. event_run_due call clock el = Some el' \<and> event_history el' \<and> el_now el' \<in> set clock \<and> due_by (el_now el') el' = {} \<and>
    due_by t el' \<subseteq> due_by t el"
  using assms
proof (induction clock arbitrary: el)
  case (Cons now clock)
  have "\<not> timeval_cmp t now < 0" using Cons.prems(4) by simp
  with Cons.prems(1) show ?case
  proof (cases rule: event_run_round [where call = call and clock = clock])
    case drained
    moreover have "event_history (el\<lparr>el_now := now\<rparr>)" by (rule history_now [OF Cons.prems(1)])
    ultimately show ?thesis by (simp add: due_by_def)
  next
    case (called c x el')
    have hist: "event_history (call c x el')" and sub: "due_by t (call c x el') \<subset> due_by t el"
      using called(2,3) assms(2) unfolding schedules_later_def by (blast, blast)
    have "card (due_by t (call c x el')) < length clock"
      using psubset_card_mono [OF due_by_finite [OF Cons.prems(1)] sub] Cons.prems(3) by simp
    from Cons.IH [OF hist assms(2) this] Cons.prems(4) sub called(1) show ?thesis by fastforce
  qed
qed simp

lemma event_free_loop_empties:
  assumes "el_ok el" and "card (dom (el_events el)) \<le> n"
  shows "\<exists>el'. event_free_loop n el = Some el' \<and> el_events el' = Map.empty \<and> el_handles el' = Map.empty"
  using assms
proof (induction n arbitrary: el)
  have empty: "el_handles el = Map.empty" if "el_ok el" "el_events el = Map.empty" for el :: "('a, 'b, 'd) fr_event_list"
  proof
    show "el_handles el h = None" for h using that unfolding el_ok_def by (cases "el_handles el h") auto
  qed
  have peek: "fr_heap_peek (el_times el) = None \<longleftrightarrow> el_events el = Map.empty" if "el_ok el" for el :: "('a, 'b, 'd) fr_event_list"
  proof -
    have "event_heap_ok (el_events el) (el_times el)" "set_mset (heap_elems (el_times el)) = dom (el_events el)"
      using that by (simp_all add: el_ok_def)
    then show ?thesis using ev.fr_heap_peek_None [of "el_events el" "el_times el"] by (metis dom_eq_empty_conv set_mset_eq_empty_iff)
  qed
  {
    case 0
    then have "el_events el = Map.empty" using el_ok_finite by fastforce
    then show ?case using 0 empty [of el] peek [of el] by (subst event_free_loop.simps) simp
  next
    case (Suc n)
    show ?case
    proof (cases "fr_heap_peek (el_times el)")
      case None
      then show ?thesis using Suc.prems(1) empty [of el] peek [of el] by (subst event_free_loop.simps) simp
    next
      case (Some a)
      have "event_heap_ok (el_events el) (el_times el)" "set_mset (heap_elems (el_times el)) = dom (el_events el)"
        using Suc.prems(1) by (simp_all add: el_ok_def)
      then obtain e where e: "el_events el a = Some e" using ev.fr_heap_peek_min [OF _ Some] by blast
      note rem = event_remove_ok [OF Suc.prems(1) e]
      have "card (dom (el_events (event_remove el a))) \<le> n"
        using Suc.prems el_ok_finite [OF Suc.prems(1)] e rem(2) by (simp add: card_Diff_singleton domI)
      from Suc.IH [OF rem(1) this] show ?thesis using Some by (subst event_free_loop.simps) simp
    qed
  }
qed

text \<open>C31: The loops over events end. Let the callbacks schedule nothing that falls due before a time \<open>t\<close>, up to which the clock is read: they may delete
  events and schedule later ones, their own included. Then the inner loop of \<open>fr_event_loop\<close> ends after at most one round more than there are
  events due by \<open>t\<close>, and no event is left that is due at the time it read last. The loop of \<open>fr_event_list_free\<close> ends after as many rounds as there
  are events, frees every event and clears every caller's pointer.\<close>

theorem event_loops_end:
  assumes "event_history el" and "schedules_later t call" and "card (due_by t el) < length clock" and "\<forall>now\<in>set clock. \<not> timeval_cmp t now < 0"
  shows "(\<exists>el'. event_run_due call clock el = Some el' \<and> event_history el' \<and> el_now el' \<in> set clock \<and> due_by (el_now el') el' = {} \<and>
      due_by t el' \<subseteq> due_by t el) \<and>
    (\<exists>el'. event_free_loop (card (dom (el_events el))) el = Some el' \<and> el_events el' = Map.empty \<and> el_handles el' = Map.empty)"
  using event_run_due_drains [OF assms] event_free_loop_empties [OF event_history_ok [OF assms(1)] order_refl] by blast

text \<open>Two events, of which one is due; its callback schedules it again a minute later.\<close>

definition sample_events :: "(bool, bool, bool) fr_event_list" where
  "sample_events = snd (fr_event_insert (snd (fr_event_insert (fr_event_list_create Map.empty) True True \<lparr>tv_sec = 5, tv_usec = 0\<rparr> (Some 3)))
     False False \<lparr>tv_sec = 50, tv_usec = 0\<rparr> (Some 4))"

definition sample_call :: "bool \<Rightarrow> bool \<Rightarrow> (bool, bool, bool) fr_event_list \<Rightarrow> (bool, bool, bool) fr_event_list" where
  "sample_call c x el = snd (fr_event_insert el c x \<lparr>tv_sec = 65, tv_usec = 0\<rparr> (Some 3))"

theorem event_loops_end_witness:
  "\<exists>el'. event_run_due sample_call [\<lparr>tv_sec = 6, tv_usec = 0\<rparr>, \<lparr>tv_sec = 7, tv_usec = 0\<rparr>] sample_events = Some el' \<and>
     due_by (el_now el') el' = {} \<and> el_now el' \<in> {\<lparr>tv_sec = 6, tv_usec = 0\<rparr>, \<lparr>tv_sec = 7, tv_usec = 0\<rparr>} \<and>
     due_by \<lparr>tv_sec = 10, tv_usec = 0\<rparr> sample_events = {0}"
proof -
  let ?t = "\<lparr>tv_sec = 10, tv_usec = 0\<rparr>"
  have "event_history sample_events" unfolding sample_events_def
    by (rule eh_insert [OF eh_insert [OF eh_create prod.collapse [symmetric]] prod.collapse [symmetric]])
  moreover have "schedules_later ?t sample_call"
    unfolding schedules_later_def sample_call_def by (intro allI impI insert_later) (simp_all add: timeval_cmp_def)
  moreover have due: "due_by ?t sample_events = {0}"
    by (auto simp: due_by_def sample_events_def fr_event_insert_def fr_event_delete_def fr_event_list_create_def USEC_def Let_def timeval_cmp_def
        split: if_split_asm)
  ultimately show ?thesis
    using event_loops_end [of sample_events ?t sample_call "[\<lparr>tv_sec = 6, tv_usec = 0\<rparr>, \<lparr>tv_sec = 7, tv_usec = 0\<rparr>]"]
    by (simp add: timeval_cmp_def) blast
qed

text \<open>The time \<open>fr_event_loop\<close> sleeps is exact: for normal times, now plus the sleep is the time of the event, the microseconds
  are below a second, and it does not sleep when the event is due.\<close>

theorem event_wake_exact:
  assumes "0 \<le> tv_usec now" and "tv_usec now < USEC" and "0 \<le> tv_usec tm" and "tv_usec tm < USEC"
  defines "w \<equiv> event_wake now tm"
  shows "0 \<le> tv_sec w \<and> 0 \<le> tv_usec w \<and> tv_usec w < USEC \<and>
    (if timeval_cmp now tm < 0 then (tv_sec now + tv_sec w) * USEC + tv_usec now + tv_usec w = tv_sec tm * USEC + tv_usec tm
     else tv_sec w = 0 \<and> tv_usec w = 0)"
  using assms(1-4) by (auto simp: w_def event_wake_def timeval_cmp_def Let_def USEC_def split: if_split_asm)

theorem event_wake_exact_witness:
  "event_wake \<lparr>tv_sec = 3, tv_usec = 900000\<rparr> \<lparr>tv_sec = 5, tv_usec = 100000\<rparr> = \<lparr>tv_sec = 1, tv_usec = 200000\<rparr> \<and>
   (3 + 1) * USEC + 900000 + 200000 = 5 * USEC + 100000"
  using event_wake_exact [of "\<lparr>tv_sec = 3, tv_usec = 900000\<rparr>" "\<lparr>tv_sec = 5, tv_usec = 100000\<rparr>"]
  by (simp add: event_wake_def timeval_cmp_def USEC_def Let_def)

text \<open>The check against watching a socket twice stops at the first free slot: after another socket was removed, inserting a
  socket that is watched already succeeds and adds it a second time.\<close>

theorem fd_insert_twice:
  "let el = fr_event_list_create Map.empty :: (bool, bool, bool) fr_event_list;
       el = snd (fr_event_fd_insert el 0 5 True True);
       el = snd (fr_event_fd_insert el 0 7 True True);
       el = snd (fr_event_fd_delete el 0 5)
   in fst (fr_event_fd_insert el 0 7 True True) \<and> event_fds (snd (fr_event_fd_insert el 0 7 True True)) = [7, 7]"
  by code_simp

end
