(* ===== verification/Fifo_Queue.thy ===== *)
theory Fifo_Queue
  imports Radius_Prelude
begin

text \<open>
  The bounded queue of \<^verbatim>\<open>src/lib/fifo.cpp\<close>: a linked list with a pointer to its last link, and a list of free
  entries that are used again. Entries are addresses in a store, because the tail pointer aliases the last entry; the
  pointer \<^verbatim>\<open>fi->tail\<close> to a field \<^verbatim>\<open>next\<close> is the address of the entry that has the field. Shown: the code behaves like a list
  bounded by \<^verbatim>\<open>max_entries\<close> under every sequence of operations, leaks no entry, and freeing it hands
  exactly the queued data to the callback.
\<close>

section \<open>The code\<close>

type_synonym fifo_addr = nat

record 'a fr_fifo_entry =
  fe_next :: "fifo_addr option"
  fe_data :: "'a option"

record 'a fr_fifo =
  fi_head :: "fifo_addr option"
  fi_tail :: "fifo_addr option"
  fi_freelist :: "fifo_addr option"
  fi_num_elements :: int
  fi_max_entries :: int
  fi_store :: "fifo_addr \<rightharpoonup> 'a fr_fifo_entry"
  fi_fresh :: fifo_addr

definition fr_fifo_create :: "int \<Rightarrow> 'a fr_fifo option" where
  "fr_fifo_create max_entries =
     (if max_entries < 2 \<or> 1024 * 1024 < max_entries then None
      else Some \<lparr>fi_head = None, fi_tail = None, fi_freelist = None, fi_num_elements = 0, fi_max_entries = max_entries,
                 fi_store = Map.empty, fi_fresh = 0\<rparr>)"

definition fr_fifo_alloc_entry :: "'a fr_fifo \<Rightarrow> fifo_addr \<times> 'a fr_fifo" where
  "fr_fifo_alloc_entry fi =
     (let (a, fi) = (case fi_freelist fi of
                       Some a \<Rightarrow> (a, fi\<lparr>fi_freelist := fe_next (the (fi_store fi a))\<rparr>)
                     | None \<Rightarrow> (fi_fresh fi, fi\<lparr>fi_fresh := fi_fresh fi + 1\<rparr>))
      in (a, fi\<lparr>fi_store := (fi_store fi)(a \<mapsto> \<lparr>fe_next = None, fe_data = None\<rparr>)\<rparr>))"

definition fr_fifo_push :: "'a fr_fifo \<Rightarrow> 'a option \<Rightarrow> bool \<times> 'a fr_fifo" where
  "fr_fifo_push fi data =
     (if data = None then (False, fi)
      else if fi_max_entries fi \<le> fi_num_elements fi then (False, fi)
      else
        let (a, fi) = fr_fifo_alloc_entry fi;
            fi = fi\<lparr>fi_store := (fi_store fi)(a \<mapsto> (the (fi_store fi a))\<lparr>fe_data := data\<rparr>)\<rparr>;
            fi = (case fi_head fi of
                    None \<Rightarrow> fi\<lparr>fi_head := Some a\<rparr>
                  | Some _ \<Rightarrow>
                      let t = the (fi_tail fi)
                      in fi\<lparr>fi_store := (fi_store fi)(t \<mapsto> (the (fi_store fi t))\<lparr>fe_next := Some a\<rparr>)\<rparr>)
        in (True, fi\<lparr>fi_tail := Some a, fi_num_elements := fi_num_elements fi + 1\<rparr>))"

definition fr_fifo_free_entry :: "'a fr_fifo \<Rightarrow> fifo_addr \<Rightarrow> 'a fr_fifo" where
  "fr_fifo_free_entry fi a =
     fi\<lparr>fi_store := (fi_store fi)(a \<mapsto> \<lparr>fe_next = fi_freelist fi, fe_data = None\<rparr>), fi_freelist := Some a\<rparr>"

definition fr_fifo_pop :: "'a fr_fifo \<Rightarrow> 'a option \<times> 'a fr_fifo" where
  "fr_fifo_pop fi =
     (case fi_head fi of
        None \<Rightarrow> (None, fi)
      | Some a \<Rightarrow>
          let entry = the (fi_store fi a);
              fi = fi\<lparr>fi_head := fe_next entry\<rparr>;
              fi = fr_fifo_free_entry fi a;
              fi = fi\<lparr>fi_num_elements := fi_num_elements fi - 1\<rparr>;
              fi = (if fi_head fi = None then fi\<lparr>fi_tail := None, fi_num_elements := 0\<rparr> else fi)
          in (fe_data entry, fi))"

definition fr_fifo_peek :: "'a fr_fifo \<Rightarrow> 'a option" where
  "fr_fifo_peek fi = (case fi_head fi of None \<Rightarrow> None | Some a \<Rightarrow> fe_data (the (fi_store fi a)))"

definition fr_fifo_num_elements :: "'a fr_fifo \<Rightarrow> int" where
  "fr_fifo_num_elements fi = fi_num_elements fi"

text \<open>\<open>fr_fifo_free_entries\<close>: the data handed to the callback and the store without the entries; \<open>None\<close> when an entry
  that is not allocated would be read or the walk does not end.\<close>

partial_function (option) fr_fifo_free_entries ::
    "(fifo_addr \<rightharpoonup> 'a fr_fifo_entry) \<Rightarrow> fifo_addr option \<Rightarrow> ('a list \<times> (fifo_addr \<rightharpoonup> 'a fr_fifo_entry)) option" where
  "fr_fifo_free_entries st head =
     (case head of
        None \<Rightarrow> Some ([], st)
      | Some a \<Rightarrow>
          (case st a of
             None \<Rightarrow> None
           | Some e \<Rightarrow>
               Option.bind (fr_fifo_free_entries (st(a := None)) (fe_next e))
                 (\<lambda>(ds, st'). Some (case fe_data e of Some d \<Rightarrow> d # ds | None \<Rightarrow> ds, st'))))"

definition fr_fifo_free :: "'a fr_fifo \<Rightarrow> ('a list \<times> (fifo_addr \<rightharpoonup> 'a fr_fifo_entry)) option" where
  "fr_fifo_free fi =
     (case fr_fifo_free_entries (fi_store fi) (fi_head fi) of
        None \<Rightarrow> None
      | Some (ds, st) \<Rightarrow>
          (case fr_fifo_free_entries st (fi_freelist fi) of
             None \<Rightarrow> None
           | Some (ds', st) \<Rightarrow> Some (ds @ ds', st)))"

section \<open>Chains of entries\<close>

fun fchain :: "(fifo_addr \<rightharpoonup> 'a fr_fifo_entry) \<Rightarrow> fifo_addr option \<Rightarrow> fifo_addr list \<Rightarrow> bool" where
  "fchain st p [] \<longleftrightarrow> p = None"
| "fchain st p (a # as) \<longleftrightarrow> p = Some a \<and> (\<exists>e. st a = Some e \<and> fchain st (fe_next e) as)"

lemma fchain_frame: "a \<notin> set as \<Longrightarrow> fchain (st(a := v)) p as \<longleftrightarrow> fchain st p as"
  by (induction as arbitrary: p) auto

lemma fchain_extend:
  assumes "fchain st p as" and "as \<noteq> []" and "distinct as" and "b \<notin> set as" and "st (last as) = Some e" and "st b = Some f"
    and "fe_next f = None"
  shows "fchain (st(last as \<mapsto> e\<lparr>fe_next := Some b\<rparr>)) p (as @ [b])"
  using assms
proof (induction as arbitrary: p)
  case (Cons a as)
  show ?case
  proof (cases "as = []")
    case True
    with Cons.prems show ?thesis by auto
  next
    case False
    with Cons show ?thesis by auto
  qed
qed simp

lemma fchain_free:
  assumes "fchain st p as" and "distinct as"
  shows "fr_fifo_free_entries st p = Some (concat (map (\<lambda>a. case fe_data (the (st a)) of Some d \<Rightarrow> [d] | None \<Rightarrow> []) as), st |` (- set as))"
  using assms
proof (induction as arbitrary: st p)
  case Nil
  then show ?case by (subst fr_fifo_free_entries.simps) (simp add: restrict_map_def)
next
  case (Cons a as)
  then obtain e where e: "p = Some a" "st a = Some e" "fchain (st(a := None)) (fe_next e) as"
    by (auto simp: fchain_frame)
  have eqs: "(st(a := None)) |` (- set as) = st |` (- set (a # as))" by (auto simp: restrict_map_def fun_eq_iff)
  have eqd: "map (\<lambda>b. case fe_data (the ((st(a := None)) b)) of Some d \<Rightarrow> [d] | None \<Rightarrow> []) as =
      map (\<lambda>b. case fe_data (the (st b)) of Some d \<Rightarrow> [d] | None \<Rightarrow> []) as"
    using Cons.prems(2) by (intro map_cong) auto
  have "distinct as" using Cons.prems(2) by simp
  note Cons.IH [OF e(3) this, unfolded eqs eqd]
  then show ?case using e(1,2) by (subst fr_fifo_free_entries.simps) (simp del: fun_upd_apply split: option.split)
qed

section \<open>The invariant\<close>

definition fifo_inv :: "'a fr_fifo \<Rightarrow> fifo_addr list \<Rightarrow> fifo_addr list \<Rightarrow> bool" where
  "fifo_inv fi as fs \<longleftrightarrow> fchain (fi_store fi) (fi_head fi) as \<and> fchain (fi_store fi) (fi_freelist fi) fs \<and> distinct (as @ fs) \<and>
     dom (fi_store fi) = set (as @ fs) \<and> (\<forall>a \<in> set (as @ fs). a < fi_fresh fi) \<and>
     (\<forall>a \<in> set as. fe_data (the (fi_store fi a)) \<noteq> None) \<and> (\<forall>a \<in> set fs. fe_data (the (fi_store fi a)) = None) \<and>
     (as \<noteq> [] \<longrightarrow> fi_tail fi = Some (last as)) \<and> fi_num_elements fi = int (length as) \<and>
     int (length as) \<le> fi_max_entries fi"

text \<open>The abstraction: the queue holds these data.\<close>

definition fifo_rep :: "'a fr_fifo \<Rightarrow> 'a list \<Rightarrow> bool" where
  "fifo_rep fi xs \<longleftrightarrow> (\<exists>as fs. fifo_inv fi as fs \<and> xs = map (\<lambda>a. the (fe_data (the (fi_store fi a)))) as)"

lemma fifo_repI: "fifo_inv fi as fs \<Longrightarrow> xs = map (\<lambda>a. the (fe_data (the (fi_store fi a)))) as \<Longrightarrow> fifo_rep fi xs"
  unfolding fifo_rep_def by blast

lemma fifo_rep_create: "fr_fifo_create n = Some fi \<Longrightarrow> fifo_rep fi [] \<and> fi_max_entries fi = n"
  by (auto simp: fr_fifo_create_def fifo_rep_def fifo_inv_def split: if_split_asm intro!: exI [of _ "[]"])

lemma fr_fifo_alloc_ok:
  assumes "fifo_inv fi as fs" and "fr_fifo_alloc_entry fi = (b, fi')"
  shows "\<exists>fs'. b \<notin> set (as @ fs') \<and> distinct (as @ fs') \<and> fchain (fi_store fi') (fi_head fi') as \<and> fchain (fi_store fi') (fi_freelist fi') fs' \<and>
    dom (fi_store fi') = insert b (set (as @ fs')) \<and> (\<forall>a \<in> insert b (set (as @ fs')). a < fi_fresh fi') \<and>
    fi_store fi' b = Some \<lparr>fe_next = None, fe_data = None\<rparr> \<and> (\<forall>a. a \<noteq> b \<longrightarrow> fi_store fi' a = fi_store fi a) \<and> set fs' \<subseteq> set fs \<and>
    fi_head fi' = fi_head fi \<and> fi_tail fi' = fi_tail fi \<and> fi_num_elements fi' = fi_num_elements fi \<and> fi_max_entries fi' = fi_max_entries fi"
proof (cases fs)
  case Nil
  then have "fi_freelist fi = None" "fi_fresh fi \<notin> set as" using assms(1) by (auto simp: fifo_inv_def)
  then show ?thesis using assms Nil
    by (intro exI [of _ "[]"], auto simp: fr_fifo_alloc_entry_def fifo_inv_def fchain_frame, metis domD)
next
  case (Cons f fs')
  then obtain e where e: "fi_freelist fi = Some f" "fi_store fi f = Some e" "fchain (fi_store fi) (fe_next e) fs'"
    using assms(1) by (auto simp: fifo_inv_def)
  show ?thesis using assms e Cons
    by (intro exI [of _ fs']) (auto simp: fr_fifo_alloc_entry_def fifo_inv_def fchain_frame)
qed

lemma fr_fifo_push_ok:
  assumes "fifo_rep fi xs"
  shows "int (length xs) < fi_max_entries fi \<Longrightarrow>
      \<exists>fi'. fr_fifo_push fi (Some d) = (True, fi') \<and> fifo_rep fi' (xs @ [d]) \<and> fi_max_entries fi' = fi_max_entries fi"
    and "\<not> int (length xs) < fi_max_entries fi \<Longrightarrow> fr_fifo_push fi (Some d) = (False, fi)"
proof -
  obtain as fs where inv: "fifo_inv fi as fs" and xs: "xs = map (\<lambda>a. the (fe_data (the (fi_store fi a)))) as"
    using assms by (auto simp: fifo_rep_def)
  have num: "fi_num_elements fi = int (length xs)" using inv xs by (simp add: fifo_inv_def)
  show "fr_fifo_push fi (Some d) = (False, fi)" if "\<not> int (length xs) < fi_max_entries fi"
    using that num by (simp add: fr_fifo_push_def)
  assume room: "int (length xs) < fi_max_entries fi"
  obtain b fi1 where al: "fr_fifo_alloc_entry fi = (b, fi1)" by force
  from fr_fifo_alloc_ok [OF inv al] obtain fs' where
    b: "b \<notin> set (as @ fs')" "distinct (as @ fs')" "fchain (fi_store fi1) (fi_head fi1) as" "fchain (fi_store fi1) (fi_freelist fi1) fs'"
      "dom (fi_store fi1) = insert b (set (as @ fs'))" "\<forall>a \<in> insert b (set (as @ fs')). a < fi_fresh fi1"
      "fi_store fi1 b = Some \<lparr>fe_next = None, fe_data = None\<rparr>" "\<forall>a. a \<noteq> b \<longrightarrow> fi_store fi1 a = fi_store fi a" "set fs' \<subseteq> set fs"
      "fi_head fi1 = fi_head fi" "fi_tail fi1 = fi_tail fi" "fi_num_elements fi1 = fi_num_elements fi" "fi_max_entries fi1 = fi_max_entries fi"
    by blast
  define st where "st = (fi_store fi1)(b \<mapsto> \<lparr>fe_next = None, fe_data = Some d\<rparr>)"
  have st: "fchain st (fi_head fi) as" "fchain st (fi_freelist fi1) fs'" "st b = Some \<lparr>fe_next = None, fe_data = Some d\<rparr>"
      "\<forall>a \<in> set (as @ fs'). st a = fi_store fi a"
    using b by (auto simp: st_def fchain_frame)
  have rest: "\<forall>a \<in> set as. fe_data (the (fi_store fi a)) \<noteq> None" "\<forall>a \<in> set fs'. fe_data (the (fi_store fi a)) = None"
    using inv b(9) by (auto simp: fifo_inv_def)
  show "\<exists>fi'. fr_fifo_push fi (Some d) = (True, fi') \<and> fifo_rep fi' (xs @ [d]) \<and> fi_max_entries fi' = fi_max_entries fi"
  proof (cases "as = []")
    case True
    define fi' where "fi' = fi1\<lparr>fi_store := st, fi_head := Some b, fi_tail := Some b, fi_num_elements := fi_num_elements fi + 1\<rparr>"
    have "fi_head fi1 = None" using b(3) True by simp
    then have "fr_fifo_push fi (Some d) = (True, fi')"
      using room num al b(7,12) by (simp add: fr_fifo_push_def Let_def fi'_def st_def)
    moreover have "fifo_inv fi' [b] fs'"
      using st b rest room num xs True unfolding fifo_inv_def fi'_def by (auto simp: st_def fchain_frame)
    moreover have "xs @ [d] = map (\<lambda>a. the (fe_data (the (fi_store fi' a)))) [b]" using st(3) xs True by (simp add: fi'_def)
    ultimately have "fr_fifo_push fi (Some d) = (True, fi')" "fifo_rep fi' (xs @ [d])" using fifo_repI by blast+
    then show ?thesis using b(13) by (simp add: fi'_def)
  next
    case False
    define t where "t = last as"
    have t: "t \<in> set as" "fi_tail fi = Some t" "b \<noteq> t" using False inv b(1) by (auto simp: fifo_inv_def t_def)
    have "t \<in> dom (fi_store fi1)" using t(1) b(5) by auto
    then obtain e where e: "st t = Some e" using t(3) by (auto simp: st_def)
    define st' where "st' = st(t \<mapsto> e\<lparr>fe_next := Some b\<rparr>)"
    define fi' where "fi' = fi1\<lparr>fi_store := st', fi_tail := Some b, fi_num_elements := fi_num_elements fi + 1\<rparr>"
    have "fi_head fi1 \<noteq> None" using b(3) False by (cases as) auto
    then have push: "fr_fifo_push fi (Some d) = (True, fi')"
      using room num al b(7,11,12) t(2) e by (auto simp: fr_fifo_push_def Let_def fi'_def st'_def st_def)
    have ch: "fchain st' (fi_head fi) (as @ [b])"
      unfolding st'_def t_def by (rule fchain_extend) (use st b False e t_def in auto)
    have "t \<notin> set fs'" using t(1) b(2) by auto
    then have ch': "fchain st' (fi_freelist fi1) fs'" using st(2) by (simp add: st'_def fchain_frame)
    have same: "fe_data (the (st' a)) = fe_data (the (fi_store fi a))" if "a \<in> set (as @ fs')" for a
      using that st(4) e t by (auto simp: st'_def)
    have sb: "st' b = Some \<lparr>fe_next = None, fe_data = Some d\<rparr>" using st(3) t(3) by (simp add: st'_def)
    have "dom st' = insert b (set (as @ fs'))" using b(5) e by (auto simp: st'_def st_def)
    then have "fifo_inv fi' (as @ [b]) fs'"
      using ch ch' same sb b(1,2,6,10,13) rest room num xs unfolding fifo_inv_def fi'_def by auto
    moreover have "map (\<lambda>a. the (fe_data (the (st' a)))) as = xs" unfolding xs using same by (intro map_cong) auto
    then have "xs @ [d] = map (\<lambda>a. the (fe_data (the (fi_store fi' a)))) (as @ [b])" using sb by (simp add: fi'_def)
    ultimately have "fifo_rep fi' (xs @ [d])" by (rule fifo_repI)
    then show ?thesis using push b(13) by (simp add: fi'_def)
  qed
qed

lemma fr_fifo_pop_ok:
  assumes "fifo_rep fi xs"
  shows "case xs of
      [] \<Rightarrow> fr_fifo_pop fi = (None, fi)
    | x # ys \<Rightarrow> \<exists>fi'. fr_fifo_pop fi = (Some x, fi') \<and> fifo_rep fi' ys \<and> fi_max_entries fi' = fi_max_entries fi"
proof -
  obtain as fs where inv: "fifo_inv fi as fs" and xs: "xs = map (\<lambda>a. the (fe_data (the (fi_store fi a)))) as"
    using assms by (auto simp: fifo_rep_def)
  show ?thesis
  proof (cases as)
    case Nil
    then show ?thesis using inv xs by (simp add: fr_fifo_pop_def fifo_inv_def)
  next
    case (Cons a bs)
    obtain e where e: "fi_head fi = Some a" "fi_store fi a = Some e" "fchain (fi_store fi) (fe_next e) bs"
      using inv Cons by (auto simp: fifo_inv_def)
    define st where "st = (fi_store fi)(a \<mapsto> \<lparr>fe_next = fi_freelist fi, fe_data = None\<rparr>)"
    have d: "a \<notin> set bs" "a \<notin> set fs" using inv Cons by (auto simp: fifo_inv_def)
    have empty: "fe_next e = None \<longleftrightarrow> bs = []" using e(3) by (cases bs) auto
    define fi' where "fi' = snd (fr_fifo_pop fi)"
    have fi': "fi_store fi' = st" "fi_head fi' = fe_next e" "fi_freelist fi' = Some a" "fi_fresh fi' = fi_fresh fi"
        "fi_max_entries fi' = fi_max_entries fi" "fi_num_elements fi' = int (length bs)" "bs \<noteq> [] \<longrightarrow> fi_tail fi' = Some (last bs)"
      using inv Cons e empty by (auto simp: fi'_def fr_fifo_pop_def fr_fifo_free_entry_def Let_def st_def fifo_inv_def)
    have ch: "fchain st (fe_next e) bs" "fchain st (Some a) (a # fs)"
      using e(3) d inv by (auto simp: st_def fchain_frame fifo_inv_def)
    have "dom st = set (bs @ a # fs)" using inv Cons by (auto simp: st_def fifo_inv_def)
    then have "fifo_inv fi' bs (a # fs)"
      using ch fi' inv Cons d unfolding fifo_inv_def by (auto simp: st_def)
    moreover have "map (\<lambda>a. the (fe_data (the (st a)))) bs = tl xs"
      using d(1) xs Cons by (auto simp: st_def)
    moreover have "fe_data e = Some (hd xs)" using inv Cons e xs by (auto simp: fifo_inv_def)
    then have "fr_fifo_pop fi = (Some (hd xs), fi')" by (simp add: fi'_def fr_fifo_pop_def Let_def e)
    ultimately have "fr_fifo_pop fi = (Some (hd xs), fi')" "fifo_rep fi' (tl xs)"
      using fifo_repI [of fi' bs "a # fs" "tl xs"] by (simp_all add: fi'(1))
    then show ?thesis using xs Cons fi'(5) by auto
  qed
qed

lemma fr_fifo_peek_ok: "fifo_rep fi xs \<Longrightarrow> fr_fifo_peek fi = (case xs of [] \<Rightarrow> None | x # _ \<Rightarrow> Some x)"
  by (auto simp: fifo_rep_def fifo_inv_def fr_fifo_peek_def split: list.split option.split)

lemma fr_fifo_num_ok: "fifo_rep fi xs \<Longrightarrow> fr_fifo_num_elements fi = int (length xs)"
  by (auto simp: fifo_rep_def fifo_inv_def fr_fifo_num_elements_def)

lemma fr_fifo_free_ok:
  assumes "fifo_rep fi xs"
  shows "fr_fifo_free fi = Some (xs, Map.empty)"
proof -
  obtain as fs where inv: "fifo_inv fi as fs" and xs: "xs = map (\<lambda>a. the (fe_data (the (fi_store fi a)))) as"
    using assms by (auto simp: fifo_rep_def)
  let ?st = "fi_store fi" and ?g = "\<lambda>st a. case fe_data (the (st a)) of Some d \<Rightarrow> [d] | None \<Rightarrow> []"
  have ch: "fchain ?st (fi_head fi) as" "fchain ?st (fi_freelist fi) fs" "distinct as" "distinct fs" "set as \<inter> set fs = {}"
      "dom ?st = set as \<union> set fs" using inv by (simp_all add: fifo_inv_def)
  have "map (?g ?st) as = map (\<lambda>x. [x]) xs" using inv unfolding xs by (auto simp: fifo_inv_def)
  then have "concat (map (?g ?st) as) = xs" by simp
  moreover have ch2: "fchain (?st |` (- set as)) (fi_freelist fi) fs"
  proof -
    have frame: "fchain st' p fs" if "fchain st p fs" "\<And>a. a \<in> set fs \<Longrightarrow> st' a = st a" for st st' p
      using that by (induction fs arbitrary: p) auto
    show ?thesis by (rule frame [OF ch(2)]) (use ch(5) in \<open>auto simp: restrict_map_def\<close>)
  qed
  moreover have "concat (map (?g (?st |` (- set as))) fs) = []"
    using inv ch(5) by (auto simp: fifo_inv_def restrict_map_def)
  moreover have "(?st |` (- set as)) |` (- set fs) = Map.empty"
  proof
    show "((?st |` (- set as)) |` (- set fs)) a = Map.empty a" for a
      using ch(6) by (cases "?st a") (auto simp: restrict_map_def)
  qed
  ultimately show ?thesis
    unfolding fr_fifo_free_def fchain_free [OF ch(1,3)] by (simp add: fchain_free [OF ch2 ch(4)])
qed

section \<open>The interface\<close>

text \<open>What a client of a bounded queue relies on.\<close>

locale bounded_queue =
  fixes push :: "'q \<Rightarrow> 'a \<Rightarrow> bool \<times> 'q" and pop :: "'q \<Rightarrow> 'a option \<times> 'q" and capacity :: "'q \<Rightarrow> int"
    and holds :: "'q \<Rightarrow> 'a list \<Rightarrow> bool"
  assumes push_room: "holds q xs \<Longrightarrow> int (length xs) < capacity q \<Longrightarrow>
      \<exists>q'. push q x = (True, q') \<and> holds q' (xs @ [x]) \<and> capacity q' = capacity q"
    and push_full: "holds q xs \<Longrightarrow> \<not> int (length xs) < capacity q \<Longrightarrow> push q x = (False, q)"
    and pop_empty: "holds q [] \<Longrightarrow> pop q = (None, q)"
    and pop_first: "holds q (x # xs) \<Longrightarrow> \<exists>q'. pop q = (Some x, q') \<and> holds q' xs \<and> capacity q' = capacity q"
begin

fun push_all :: "'q \<Rightarrow> 'a list \<Rightarrow> bool \<times> 'q" where
  "push_all q [] = (True, q)"
| "push_all q (x # xs) = (let (b, q) = push q x; (c, q) = push_all q xs in (b \<and> c, q))"

fun pop_all :: "nat \<Rightarrow> 'q \<Rightarrow> 'a option list" where
  "pop_all 0 q = []"
| "pop_all (Suc n) q = (let (x, q) = pop q in x # pop_all n q)"

lemma pop_all_holds: "holds q xs \<Longrightarrow> pop_all (length xs) q = map Some xs"
proof (induction xs arbitrary: q)
  case (Cons x xs)
  from pop_first [OF Cons.prems] Cons.IH show ?case by auto
qed simp

lemma push_all_holds:
  "holds q xs \<Longrightarrow> int (length xs + length ys) \<le> capacity q \<Longrightarrow> \<exists>q'. push_all q ys = (True, q') \<and> holds q' (xs @ ys)"
proof (induction ys arbitrary: q xs)
  case (Cons y ys)
  have "int (length xs) < capacity q" using Cons.prems(2) by simp
  from push_room [OF Cons.prems(1) this, of y] obtain q1 where
    q1: "push q y = (True, q1)" "holds q1 (xs @ [y])" "capacity q1 = capacity q" by blast
  have "int (length (xs @ [y]) + length ys) \<le> capacity q1" using Cons.prems(2) q1(3) by simp
  from Cons.IH [OF q1(2) this] show ?case using q1(1) by auto
qed simp

text \<open>First in, first out: what was pushed comes out again in the order it went in.\<close>

lemma first_in_first_out:
  assumes "holds q []" and "int (length xs) \<le> capacity q"
  shows "\<exists>q'. push_all q xs = (True, q') \<and> pop_all (length xs) q' = map Some xs"
  using push_all_holds [OF assms(1), of xs] assms(2) pop_all_holds by auto

end

interpretation fifo: bounded_queue "\<lambda>fi d. fr_fifo_push fi (Some d)" fr_fifo_pop fi_max_entries fifo_rep
proof unfold_locales
  show "\<exists>q'. fr_fifo_push q (Some x) = (True, q') \<and> fifo_rep q' (xs @ [x]) \<and> fi_max_entries q' = fi_max_entries q"
    if "fifo_rep q xs" "int (length xs) < fi_max_entries q" for q :: "'a fr_fifo" and xs x
    using fr_fifo_push_ok(1) [OF that] .
  show "fr_fifo_push q (Some x) = (False, q)" if "fifo_rep q xs" "\<not> int (length xs) < fi_max_entries q" for q :: "'a fr_fifo" and xs x
    using fr_fifo_push_ok(2) [OF that] .
  show "fr_fifo_pop q = (None, q)" if "fifo_rep q []" for q :: "'a fr_fifo"
    using fr_fifo_pop_ok [OF that] by simp
  show "\<exists>q'. fr_fifo_pop q = (Some x, q') \<and> fifo_rep q' xs \<and> fi_max_entries q' = fi_max_entries q"
    if "fifo_rep q (x # xs)" for q :: "'a fr_fifo" and x xs
    using fr_fifo_pop_ok [OF that] by simp
qed

section \<open>Refinement of a bounded list\<close>

datatype 'a fifo_call = Push 'a | Pop | Peek | Count

datatype 'a fifo_answer = Pushed bool | Item "'a option" | Number int

fun fifo_run :: "'a fr_fifo \<Rightarrow> 'a fifo_call list \<Rightarrow> 'a fifo_answer list \<times> 'a fr_fifo" where
  "fifo_run fi [] = ([], fi)"
| "fifo_run fi (c # cs) =
     (let (r, fi) = (case c of
                       Push d \<Rightarrow> (let (b, fi) = fr_fifo_push fi (Some d) in (Pushed b, fi))
                     | Pop \<Rightarrow> (let (d, fi) = fr_fifo_pop fi in (Item d, fi))
                     | Peek \<Rightarrow> (Item (fr_fifo_peek fi), fi)
                     | Count \<Rightarrow> (Number (fr_fifo_num_elements fi), fi));
          (rs, fi) = fifo_run fi cs
      in (r # rs, fi))"

fun list_run :: "int \<Rightarrow> 'a list \<Rightarrow> 'a fifo_call list \<Rightarrow> 'a fifo_answer list \<times> 'a list" where
  "list_run n xs [] = ([], xs)"
| "list_run n xs (c # cs) =
     (let (r, xs) = (case c of
                       Push d \<Rightarrow> if int (length xs) < n then (Pushed True, xs @ [d]) else (Pushed False, xs)
                     | Pop \<Rightarrow> (case xs of [] \<Rightarrow> (Item None, []) | x # ys \<Rightarrow> (Item (Some x), ys))
                     | Peek \<Rightarrow> (case xs of [] \<Rightarrow> (Item None, []) | x # ys \<Rightarrow> (Item (Some x), xs))
                     | Count \<Rightarrow> (Number (int (length xs)), xs));
          (rs, xs) = list_run n xs cs
      in (r # rs, xs))"

lemma fifo_run_refines:
  assumes "fifo_rep fi xs"
  shows "fst (fifo_run fi cs) = fst (list_run (fi_max_entries fi) xs cs) \<and>
    fifo_rep (snd (fifo_run fi cs)) (snd (list_run (fi_max_entries fi) xs cs))"
  using assms
proof (induction cs arbitrary: fi xs)
  case (Cons c cs)
  have step: ?case if "fifo_rep fi' ys" "fi_max_entries fi' = fi_max_entries fi"
      "fst (fifo_run fi (c # cs)) = r # fst (fifo_run fi' cs)" "snd (fifo_run fi (c # cs)) = snd (fifo_run fi' cs)"
      "list_run (fi_max_entries fi) xs (c # cs) = (r # fst (list_run (fi_max_entries fi) ys cs), snd (list_run (fi_max_entries fi) ys cs))"
    for fi' ys r
    using Cons.IH [OF that(1)] that by simp
  show ?case
  proof (cases c)
    case (Push d)
    show ?thesis
    proof (cases "int (length xs) < fi_max_entries fi")
      case True
      from fr_fifo_push_ok(1) [OF Cons.prems True, of d] obtain fi' where
        p: "fr_fifo_push fi (Some d) = (True, fi')" "fifo_rep fi' (xs @ [d])" "fi_max_entries fi' = fi_max_entries fi" by blast
      show ?thesis by (rule step [OF p(2,3), of "Pushed True"]) (simp_all add: Push p(1) True case_prod_unfold Let_def)
    next
      case False
      show ?thesis
        by (rule step [OF Cons.prems, of "Pushed False"]) (simp_all add: Push fr_fifo_push_ok(2) [OF Cons.prems False] False case_prod_unfold Let_def)
    qed
  next
    case Pop
    show ?thesis
    proof (cases xs)
      case Nil
      then show ?thesis using fr_fifo_pop_ok [OF Cons.prems]
        by (intro step [OF Cons.prems, of "Item None"]) (simp_all add: Pop case_prod_unfold Let_def)
    next
      case (Cons x ys)
      with fr_fifo_pop_ok [OF Cons.prems] obtain fi' where
        p: "fr_fifo_pop fi = (Some x, fi')" "fifo_rep fi' ys" "fi_max_entries fi' = fi_max_entries fi" by auto
      show ?thesis by (rule step [OF p(2,3), of "Item (Some x)"]) (simp_all add: Pop p(1) Cons case_prod_unfold Let_def)
    qed
  next
    case Peek
    show ?thesis
      by (rule step [OF Cons.prems, of "Item (case xs of [] \<Rightarrow> None | x # _ \<Rightarrow> Some x)"])
        (auto simp: Peek fr_fifo_peek_ok [OF Cons.prems] case_prod_unfold Let_def split: list.split)
  next
    case Count
    show ?thesis
      by (rule step [OF Cons.prems, of "Number (int (length xs))"])
        (simp_all add: Count fr_fifo_num_ok [OF Cons.prems] case_prod_unfold Let_def)
  qed
qed simp

text \<open>C32: The linked queue with its tail pointer and free list refines a list bounded by \<^verbatim>\<open>max_entries\<close>: from its creation on, every
  sequence of pushes, pops, peeks and counts gets the answers of the list, and freeing the queue afterwards hands exactly the
  data still queued, in order, to the callback and leaves no entry allocated.\<close>

theorem fifo_refines_list:
  assumes "fr_fifo_create n = Some fi"
  shows "fst (fifo_run fi cs) = fst (list_run n [] cs) \<and>
    fr_fifo_free (snd (fifo_run fi cs)) = Some (snd (list_run n [] cs), Map.empty)"
  using fifo_rep_create [OF assms] fifo_run_refines [of fi "[]" cs] fr_fifo_free_ok by auto

theorem fifo_refines_list_witness:
  "fst (fifo_run (the (fr_fifo_create 2)) [Push 1, Push 2, Push 3, Pop, Push 4, Pop, Pop, Pop]) =
   [Pushed True, Pushed True, Pushed False, Item (Some (1 :: int)), Pushed True, Item (Some 2), Item (Some 4), Item None]"
proof -
  obtain fi where fi: "fr_fifo_create 2 = Some (fi :: int fr_fifo)" by (simp add: fr_fifo_create_def)
  from fifo_refines_list [OF this, of "[Push 1, Push 2, Push 3, Pop, Push 4, Pop, Pop, Pop]"] show ?thesis by (simp add: fi)
qed

end
