(* ===== verification/Hash_Table.thy ===== *)
theory Hash_Table
  imports Random_Pool
begin

text \<open>
  The hash table of \<^verbatim>\<open>src/lib/hash.cpp\<close>: buckets that hold sorted chains and are filled lazily, by splitting the chain of a
  parent bucket. A bucket is \<open>None\<close> while its pointer is null; chains are disjoint and end in the \<^verbatim>\<open>null\<close> entry, so a
  chain is a list. Shown: keys are ordered by their reversed bits, which keeps the keys of one bucket together however far
  the table has grown; splitting ends and loses nothing; and the table is a map, when no two entries that differ have the
  same hash. Entries whose hashes collide can be lost.
\<close>

unbundle bit_operations_syntax

section \<open>Reversed keys\<close>

definition FR_HASH_NUM_BUCKETS :: nat where "FR_HASH_NUM_BUCKETS = 64"
definition GROW_FACTOR :: nat where "GROW_FACTOR = 2"

definition reversed_byte :: "byte list" where
  "reversed_byte =
     [0, 128, 64, 192, 32, 160, 96, 224, 16, 144, 80, 208, 48, 176, 112, 240,
      8, 136, 72, 200, 40, 168, 104, 232, 24, 152, 88, 216, 56, 184, 120, 248,
      4, 132, 68, 196, 36, 164, 100, 228, 20, 148, 84, 212, 52, 180, 116, 244,
      12, 140, 76, 204, 44, 172, 108, 236, 28, 156, 92, 220, 60, 188, 124, 252,
      2, 130, 66, 194, 34, 162, 98, 226, 18, 146, 82, 210, 50, 178, 114, 242,
      10, 138, 74, 202, 42, 170, 106, 234, 26, 154, 90, 218, 58, 186, 122, 250,
      6, 134, 70, 198, 38, 166, 102, 230, 22, 150, 86, 214, 54, 182, 118, 246,
      14, 142, 78, 206, 46, 174, 110, 238, 30, 158, 94, 222, 62, 190, 126, 254,
      1, 129, 65, 193, 33, 161, 97, 225, 17, 145, 81, 209, 49, 177, 113, 241,
      9, 137, 73, 201, 41, 169, 105, 233, 25, 153, 89, 217, 57, 185, 121, 249,
      5, 133, 69, 197, 37, 165, 101, 229, 21, 149, 85, 213, 53, 181, 117, 245,
      13, 141, 77, 205, 45, 173, 109, 237, 29, 157, 93, 221, 61, 189, 125, 253,
      3, 131, 67, 195, 35, 163, 99, 227, 19, 147, 83, 211, 51, 179, 115, 243,
      11, 139, 75, 203, 43, 171, 107, 235, 27, 155, 91, 219, 59, 187, 123, 251,
      7, 135, 71, 199, 39, 167, 103, 231, 23, 151, 87, 215, 55, 183, 119, 247,
      15, 143, 79, 207, 47, 175, 111, 239, 31, 159, 95, 223, 63, 191, 127, 255]"

definition parent_byte :: "byte list" where
  "parent_byte =
     [0, 0, 0, 1, 0, 1, 2, 3, 0, 1, 2, 3, 4, 5, 6, 7,
      0, 1, 2, 3, 4, 5, 6, 7, 8, 9, 10, 11, 12, 13, 14, 15,
      0, 1, 2, 3, 4, 5, 6, 7, 8, 9, 10, 11, 12, 13, 14, 15,
      16, 17, 18, 19, 20, 21, 22, 23, 24, 25, 26, 27, 28, 29, 30, 31,
      0, 1, 2, 3, 4, 5, 6, 7, 8, 9, 10, 11, 12, 13, 14, 15,
      16, 17, 18, 19, 20, 21, 22, 23, 24, 25, 26, 27, 28, 29, 30, 31,
      32, 33, 34, 35, 36, 37, 38, 39, 40, 41, 42, 43, 44, 45, 46, 47,
      48, 49, 50, 51, 52, 53, 54, 55, 56, 57, 58, 59, 60, 61, 62, 63,
      0, 1, 2, 3, 4, 5, 6, 7, 8, 9, 10, 11, 12, 13, 14, 15,
      16, 17, 18, 19, 20, 21, 22, 23, 24, 25, 26, 27, 28, 29, 30, 31,
      32, 33, 34, 35, 36, 37, 38, 39, 40, 41, 42, 43, 44, 45, 46, 47,
      48, 49, 50, 51, 52, 53, 54, 55, 56, 57, 58, 59, 60, 61, 62, 63,
      64, 65, 66, 67, 68, 69, 70, 71, 72, 73, 74, 75, 76, 77, 78, 79,
      80, 81, 82, 83, 84, 85, 86, 87, 88, 89, 90, 91, 92, 93, 94, 95,
      96, 97, 98, 99, 100, 101, 102, 103, 104, 105, 106, 107, 108, 109, 110, 111,
      112, 113, 114, 115, 116, 117, 118, 119, 120, 121, 122, 123, 124, 125, 126, 127]"

definition reverse :: "u32 \<Rightarrow> u32" where
  "reverse key =
     push_bit 24 (ucast (reversed_byte ! unat (key AND 0xff))) OR
     push_bit 16 (ucast (reversed_byte ! unat (drop_bit 8 key AND 0xff))) OR
     push_bit 8 (ucast (reversed_byte ! unat (drop_bit 16 key AND 0xff))) OR
     ucast (reversed_byte ! unat (drop_bit 24 key AND 0xff))"

definition parent_of :: "u32 \<Rightarrow> u32" where
  "parent_of key =
     (if 0x00ffffff < key then (key AND 0x00ffffff) OR push_bit 24 (ucast (parent_byte ! unat (drop_bit 24 key)))
      else if 0x0000ffff < key then (key AND 0x0000ffff) OR push_bit 16 (ucast (parent_byte ! unat (drop_bit 16 key)))
      else if 0x000000ff < key then (key AND 0x000000ff) OR push_bit 8 (ucast (parent_byte ! unat (drop_bit 8 key)))
      else ucast (parent_byte ! unat key))"

section \<open>The table\<close>

text \<open>The callbacks \<open>hash\<close> and \<open>cmp\<close> of the table are arguments of the operations; \<open>cmp\<close> is optional.\<close>

record 'a fr_hash_entry =
  he_reversed :: u32
  he_key :: u32
  he_data :: 'a

record 'a fr_hash_table =
  ht_num_elements :: nat
  ht_num_buckets :: nat
  ht_next_grow :: nat
  ht_mask :: u32
  ht_buckets :: "'a fr_hash_entry list option list"

type_synonym 'a hash_cmp = "('a \<Rightarrow> 'a \<Rightarrow> int) option"

text \<open>The position in the chain of the entry found.\<close>

fun list_find :: "'a hash_cmp \<Rightarrow> u32 \<Rightarrow> 'a \<Rightarrow> 'a fr_hash_entry list \<Rightarrow> nat option" where
  "list_find cmp reversed data [] = None"
| "list_find cmp reversed data (cur # nxt) =
     (if he_reversed cur = reversed then
        (case cmp of
           None \<Rightarrow> Some 0
         | Some f \<Rightarrow>
             if 0 < f data (he_data cur) then None
             else if f data (he_data cur) < 0 then map_option Suc (list_find cmp reversed data nxt)
             else Some 0)
      else if reversed < he_reversed cur then None
      else map_option Suc (list_find cmp reversed data nxt))"

text \<open>The chain after insertion, or \<open>None\<close> when the entry is there already.\<close>

fun list_insert :: "'a hash_cmp \<Rightarrow> 'a fr_hash_entry \<Rightarrow> 'a fr_hash_entry list \<Rightarrow> 'a fr_hash_entry list option" where
  "list_insert cmp node [] = Some [node]"
| "list_insert cmp node (cur # nxt) =
     (if he_reversed node < he_reversed cur then Some (node # cur # nxt)
      else if he_reversed cur = he_reversed node then
        (case cmp of
           None \<Rightarrow> None
         | Some f \<Rightarrow>
             if 0 < f (he_data node) (he_data cur) then Some (cur # node # nxt)
             else if f (he_data node) (he_data cur) < 0 then map_option ((#) cur) (list_insert cmp node nxt)
             else None)
      else map_option ((#) cur) (list_insert cmp node nxt))"

definition list_delete :: "nat \<Rightarrow> 'a list \<Rightarrow> 'a list" where
  "list_delete i chain = take i chain @ drop (Suc i) chain"

definition fr_hash_table_create :: "'a fr_hash_table" where
  "fr_hash_table_create =
     \<lparr>ht_num_elements = 0, ht_num_buckets = FR_HASH_NUM_BUCKETS,
      ht_next_grow = push_bit 1 FR_HASH_NUM_BUCKETS + drop_bit 1 FR_HASH_NUM_BUCKETS,
      ht_mask = of_nat (FR_HASH_NUM_BUCKETS - 1), ht_buckets = (replicate FR_HASH_NUM_BUCKETS None)[0 := Some []]\<rparr>"

text \<open>The loop of \<open>fr_hash_table_fixup\<close>: \<open>grp\<close> are the entries of the chain linked to bucket \<open>self\<close> so far. An entry
  that belongs elsewhere ends the chain and starts the one of its own bucket.\<close>

fun fixup_walk ::
    "u32 \<Rightarrow> u32 \<Rightarrow> 'a fr_hash_entry list \<Rightarrow> 'a fr_hash_entry list \<Rightarrow> 'a fr_hash_entry list option list \<Rightarrow>
     'a fr_hash_entry list option list" where
  "fixup_walk msk self grp [] buckets = buckets[unat self := Some grp]"
| "fixup_walk msk self grp (cur # nxt) buckets =
     (let real_entry = he_key cur AND msk
      in if real_entry \<noteq> self then fixup_walk msk real_entry [cur] nxt (buckets[unat self := Some grp])
         else fixup_walk msk self (grp @ [cur]) nxt buckets)"

definition fixup_split :: "'a fr_hash_table \<Rightarrow> u32 \<Rightarrow> 'a fr_hash_table" where
  "fixup_split ht entry =
     (let parent_entry = parent_of entry;
          buckets = fixup_walk (ht_mask ht) parent_entry [] (the (ht_buckets ht ! unat parent_entry)) (ht_buckets ht);
          buckets = (if buckets ! unat entry = None then buckets[unat entry := Some []] else buckets)
      in ht\<lparr>ht_buckets := buckets\<rparr>)"

text \<open>\<open>None\<close> is a recursion that does not end.\<close>

partial_function (option) fr_hash_table_fixup :: "'a fr_hash_table \<Rightarrow> u32 \<Rightarrow> 'a fr_hash_table option" where
  [code]: "fr_hash_table_fixup ht entry =
     Option.bind (if ht_buckets ht ! unat (parent_of entry) = None then fr_hash_table_fixup ht (parent_of entry) else Some ht)
       (\<lambda>ht. Some (fixup_split ht entry))"

definition fr_hash_table_grow :: "'a fr_hash_table \<Rightarrow> 'a fr_hash_table" where
  "fr_hash_table_grow ht =
     (let buckets = ht_buckets ht @ replicate (ht_num_buckets ht) None;
          num_buckets = ht_num_buckets ht * GROW_FACTOR
      in ht\<lparr>ht_buckets := buckets, ht_num_buckets := num_buckets, ht_next_grow := ht_next_grow ht * GROW_FACTOR,
            ht_mask := of_nat (num_buckets - 1)\<rparr>)"

definition bucket_init :: "'a fr_hash_table \<Rightarrow> u32 \<Rightarrow> 'a fr_hash_table option" where
  "bucket_init ht entry = (if ht_buckets ht ! unat entry = None then fr_hash_table_fixup ht entry else Some ht)"

definition fr_hash_table_insert ::
    "('a \<Rightarrow> u32) \<Rightarrow> 'a hash_cmp \<Rightarrow> 'a fr_hash_table \<Rightarrow> 'a \<Rightarrow> (bool \<times> 'a fr_hash_table) option" where
  "fr_hash_table_insert hash cmp ht data =
     (let key = hash data; entry = key AND ht_mask ht; reversed = reverse key
      in case bucket_init ht entry of
           None \<Rightarrow> None
         | Some ht \<Rightarrow>
             (case list_insert cmp \<lparr>he_reversed = reversed, he_key = key, he_data = data\<rparr> (the (ht_buckets ht ! unat entry)) of
                None \<Rightarrow> Some (False, ht)
              | Some chain \<Rightarrow>
                  let ht = ht\<lparr>ht_buckets := (ht_buckets ht)[unat entry := Some chain],
                              ht_num_elements := ht_num_elements ht + 1\<rparr>
                  in Some (True, if ht_next_grow ht \<le> ht_num_elements ht then fr_hash_table_grow ht else ht)))"

text \<open>A node is its bucket and its position in the chain; looking for it may fill its bucket.\<close>

definition fr_hash_table_find ::
    "('a \<Rightarrow> u32) \<Rightarrow> 'a hash_cmp \<Rightarrow> 'a fr_hash_table \<Rightarrow> 'a \<Rightarrow> ((nat \<times> nat) option \<times> 'a fr_hash_table) option" where
  "fr_hash_table_find hash cmp ht data =
     (let key = hash data; entry = key AND ht_mask ht; reversed = reverse key
      in case bucket_init ht entry of
           None \<Rightarrow> None
         | Some ht \<Rightarrow>
             Some (map_option (Pair (unat entry)) (list_find cmp reversed data (the (ht_buckets ht ! unat entry))), ht))"

definition node_data :: "'a fr_hash_table \<Rightarrow> nat \<times> nat \<Rightarrow> 'a" where
  "node_data ht node = he_data (the (ht_buckets ht ! fst node) ! snd node)"

text \<open>The second result of \<open>fr_hash_table_replace\<close> is the data given to the free callback.\<close>

definition fr_hash_table_replace ::
    "('a \<Rightarrow> u32) \<Rightarrow> 'a hash_cmp \<Rightarrow> 'a fr_hash_table \<Rightarrow> 'a \<Rightarrow> (bool \<times> 'a option \<times> 'a fr_hash_table) option" where
  "fr_hash_table_replace hash cmp ht data =
     (case fr_hash_table_find hash cmp ht data of
        None \<Rightarrow> None
      | Some (None, ht) \<Rightarrow> map_option (\<lambda>(r, ht). (r, None, ht)) (fr_hash_table_insert hash cmp ht data)
      | Some (Some (b, i), ht) \<Rightarrow>
          let chain = the (ht_buckets ht ! b)
          in Some (True, Some (node_data ht (b, i)),
                   ht\<lparr>ht_buckets := (ht_buckets ht)[b := Some (chain[i := (chain ! i)\<lparr>he_data := data\<rparr>])]\<rparr>))"

definition fr_hash_table_finddata ::
    "('a \<Rightarrow> u32) \<Rightarrow> 'a hash_cmp \<Rightarrow> 'a fr_hash_table \<Rightarrow> 'a \<Rightarrow> ('a option \<times> 'a fr_hash_table) option" where
  "fr_hash_table_finddata hash cmp ht data =
     map_option (\<lambda>(node, ht). (map_option (node_data ht) node, ht)) (fr_hash_table_find hash cmp ht data)"

definition fr_hash_table_yank ::
    "('a \<Rightarrow> u32) \<Rightarrow> 'a hash_cmp \<Rightarrow> 'a fr_hash_table \<Rightarrow> 'a \<Rightarrow> ('a option \<times> 'a fr_hash_table) option" where
  "fr_hash_table_yank hash cmp ht data =
     (let key = hash data; entry = key AND ht_mask ht; reversed = reverse key
      in case bucket_init ht entry of
           None \<Rightarrow> None
         | Some ht \<Rightarrow>
             let chain = the (ht_buckets ht ! unat entry)
             in case list_find cmp reversed data chain of
                  None \<Rightarrow> Some (None, ht)
                | Some i \<Rightarrow>
                    Some (Some (he_data (chain ! i)),
                          ht\<lparr>ht_buckets := (ht_buckets ht)[unat entry := Some (list_delete i chain)],
                             ht_num_elements := ht_num_elements ht - 1\<rparr>))"

text \<open>\<open>fr_hash_table_delete\<close> gives what it removes to the free callback.\<close>

definition fr_hash_table_delete ::
    "('a \<Rightarrow> u32) \<Rightarrow> 'a hash_cmp \<Rightarrow> 'a fr_hash_table \<Rightarrow> 'a \<Rightarrow> (bool \<times> 'a option \<times> 'a fr_hash_table) option" where
  "fr_hash_table_delete hash cmp ht data =
     map_option (\<lambda>(old, ht). (old \<noteq> None, old, ht)) (fr_hash_table_yank hash cmp ht data)"

text \<open>What \<open>fr_hash_table_free\<close> gives to the free callback, in order.\<close>

definition fr_hash_table_free :: "'a fr_hash_table \<Rightarrow> 'a list" where
  "fr_hash_table_free ht = concat (map (\<lambda>b. case b of None \<Rightarrow> [] | Some chain \<Rightarrow> map he_data chain) (ht_buckets ht))"

definition fr_hash_table_num_elements :: "'a fr_hash_table \<Rightarrow> nat" where
  "fr_hash_table_num_elements ht = ht_num_elements ht"

text \<open>The walk, for a callback that changes only its context: the first non-zero result stops it.\<close>

fun walk_chain :: "('c \<Rightarrow> 'a \<Rightarrow> int \<times> 'c) \<Rightarrow> 'a fr_hash_entry list \<Rightarrow> 'c \<Rightarrow> int \<times> 'c" where
  "walk_chain callback [] ctx = (0, ctx)"
| "walk_chain callback (node # nxt) ctx =
     (let (rcode, ctx) = callback ctx (he_data node)
      in if rcode \<noteq> 0 then (rcode, ctx) else walk_chain callback nxt ctx)"

fun walk_buckets :: "('c \<Rightarrow> 'a \<Rightarrow> int \<times> 'c) \<Rightarrow> nat \<Rightarrow> 'a fr_hash_table \<Rightarrow> 'c \<Rightarrow> (int \<times> 'c \<times> 'a fr_hash_table) option" where
  "walk_buckets callback 0 ht ctx = Some (0, ctx, ht)"
| "walk_buckets callback (Suc i) ht ctx =
     (case bucket_init ht (of_nat i) of
        None \<Rightarrow> None
      | Some ht \<Rightarrow>
          let (rcode, ctx) = walk_chain callback (the (ht_buckets ht ! i)) ctx
          in if rcode \<noteq> 0 then Some (rcode, ctx, ht) else walk_buckets callback i ht ctx)"

definition fr_hash_table_walk :: "('c \<Rightarrow> 'a \<Rightarrow> int \<times> 'c) \<Rightarrow> 'a fr_hash_table \<Rightarrow> 'c \<Rightarrow> (int \<times> 'c \<times> 'a fr_hash_table) option" where
  "fr_hash_table_walk callback ht ctx = walk_buckets callback (ht_num_buckets ht) ht ctx"

section \<open>Folding and hashing strings\<close>

function hash_fold_loop :: "nat \<Rightarrow> nat \<Rightarrow> u32 \<Rightarrow> u32 \<Rightarrow> u32" where
  "hash_fold_loop bits count hash result =
     (if bits = 0 \<or> 32 \<le> count then result
      else let hash = drop_bit bits hash in hash_fold_loop bits (count + bits) hash (result XOR hash))"
  by pat_completeness auto
termination
  by (relation "measure (\<lambda>(bits, count, hash, result). 32 - count)") auto

declare hash_fold_loop.simps [simp del]

definition fr_hash_fold :: "u32 \<Rightarrow> int \<Rightarrow> u32" where
  "fr_hash_fold hash bits =
     (if bits \<le> 0 \<or> 32 \<le> bits then hash
      else hash_fold_loop (nat bits) 0 hash hash AND (push_bit (nat bits) 1 - 1))"

text \<open>A \<^verbatim>\<open>char\<close> is signed.\<close>

definition fr_hash_string :: "string \<Rightarrow> u32" where
  "fr_hash_string p = foldl (\<lambda>hash c. (hash * FNV_MAGIC_PRIME) XOR scast (of_char c :: byte)) 0x811c9dc5 p"

lemma fr_hash_fold_bound: "0 < bits \<Longrightarrow> bits < 32 \<Longrightarrow> unat (fr_hash_fold hash bits) < 2 ^ nat bits"
proof -
  assume "0 < bits" "bits < 32"
  moreover have "push_bit (nat bits) 1 - 1 = (mask (nat bits) :: u32)" by (simp add: mask_eq_exp_minus_1 push_bit_eq_mult)
  ultimately show ?thesis by (simp add: fr_hash_fold_def unsigned_take_bit_eq flip: take_bit_eq_mask)
qed

section \<open>Keys and their parents\<close>

definition rev_nat :: "nat \<Rightarrow> nat" where
  "rev_nat n = 128 * (n mod 2) + 64 * (n div 2 mod 2) + 32 * (n div 4 mod 2) + 16 * (n div 8 mod 2) +
     8 * (n div 16 mod 2) + 4 * (n div 32 mod 2) + 2 * (n div 64 mod 2) + n div 128 mod 2"

definition drop_top :: "nat \<Rightarrow> nat" where
  "drop_top n = (if 128 \<le> n then n - 128 else if 64 \<le> n then n - 64 else if 32 \<le> n then n - 32 else if 16 \<le> n then n - 16
     else if 8 \<le> n then n - 8 else if 4 \<le> n then n - 4 else if 2 \<le> n then n - 2 else n - 1)"

lemma upt_256: "[0..<256] = 0 # Suc 0 # [2..<256]"
  by (simp add: upt_conv_Cons numeral_2_eq_2)

lemma reversed_byte_table: "reversed_byte = map (\<lambda>n. of_nat (rev_nat n)) [0..<256]"
  by (simp add: reversed_byte_def rev_nat_def upt_256 upt_rec_numeral)

lemma parent_byte_table: "parent_byte = map (\<lambda>n. of_nat (drop_top n)) [0..<256]"
  by (simp add: parent_byte_def drop_top_def upt_256 upt_rec_numeral)

lemma all_less_8: "(\<forall>j < (8 :: nat). P j) \<longleftrightarrow> P 0 \<and> P 1 \<and> P 2 \<and> P 3 \<and> P 4 \<and> P 5 \<and> P 6 \<and> P 7"
  by (simp add: eval_nat_numeral All_less_Suc conj_ac)

lemma even_add_digit: "even k \<Longrightarrow> h \<le> 1 \<Longrightarrow> (k + h) mod 2 = (h :: nat)"
  by presburger

lemma odd_digits:
  fixes a b c d e f g h :: nat
  assumes "a \<le> 1" "b \<le> 1" "c \<le> 1" "d \<le> 1" "e \<le> 1" "f \<le> 1" "g \<le> 1" "h \<le> 1"
  defines "x \<equiv> 128 * a + 64 * b + 32 * c + 16 * d + 8 * e + 4 * f + 2 * g + h"
  shows "x mod 2 = h" "x div 2 mod 2 = g" "x div 4 mod 2 = f" "x div 8 mod 2 = e" "x div 16 mod 2 = d" "x div 32 mod 2 = c"
    "x div 64 mod 2 = b" "x div 128 mod 2 = a"
proof -
  have div: "x div 2 = 64 * a + 32 * b + 16 * c + 8 * d + 4 * e + 2 * f + g" "x div 4 = 32 * a + 16 * b + 8 * c + 4 * d + 2 * e + f"
    "x div 8 = 16 * a + 8 * b + 4 * c + 2 * d + e" "x div 16 = 8 * a + 4 * b + 2 * c + d"
    "x div 32 = 4 * a + 2 * b + c" "x div 64 = 2 * a + b" "x div 128 = a"
    using assms by linarith+
  have mod: "x mod 2 = h" unfolding x_def by (rule even_add_digit [OF _ assms(8)]) simp
  show "x mod 2 = h" "x div 2 mod 2 = g" "x div 4 mod 2 = f" "x div 8 mod 2 = e" "x div 16 mod 2 = d"
    "x div 32 mod 2 = c" "x div 64 mod 2 = b" "x div 128 mod 2 = a"
    unfolding div using mod assms(1-8) by (simp_all add: even_add_digit)
qed

lemma bit_nat_odd: "bit (n :: nat) j \<longleftrightarrow> n div 2 ^ j mod 2 = 1"
  by (simp add: bit_iff_odd odd_iff_mod_2_eq_one)

lemma rev_nat_bit: "\<forall>j < 8. bit (rev_nat i) j \<longleftrightarrow> bit i (7 - j)"
proof -
  note digits = odd_digits [of "i mod 2" "i div 2 mod 2" "i div 4 mod 2" "i div 8 mod 2" "i div 16 mod 2" "i div 32 mod 2"
    "i div 64 mod 2" "i div 128 mod 2", folded rev_nat_def]
  show ?thesis unfolding all_less_8 bit_nat_odd by (simp add: digits)
qed

lemma reversed_byte_bit:
  fixes key :: u32
  assumes "s \<le> 24"
  shows "bit (reversed_byte ! unat (drop_bit s key AND 0xff)) j \<longleftrightarrow> j < 8 \<and> bit key (s + 7 - j)"
proof (cases "j < 8")
  case True
  define b where "b = drop_bit s key AND 0xff"
  have b: "b = take_bit 8 (drop_bit s key)" by (simp add: b_def take_bit_eq_mask mask_eq_exp_minus_1)
  have lt: "unat b < 256" using take_bit_nat_less_exp [of 8 "unat (drop_bit s key)"] by (simp add: b unsigned_take_bit_eq)
  then have "bit (reversed_byte ! unat b) j \<longleftrightarrow> bit (rev_nat (unat b)) j"
    using True by (simp add: reversed_byte_table bit_of_nat_iff)
  also have "\<dots> \<longleftrightarrow> bit b (7 - j)" using rev_nat_bit True by (simp add: bit_unsigned_iff)
  also have "\<dots> \<longleftrightarrow> bit key (s + 7 - j)" using True less_imp_diff_less [of 7 8 j] by (simp add: b bit_take_bit_iff bit_drop_bit_eq add.commute)
  finally show ?thesis using True by (simp add: b_def)
next
  case False
  then show ?thesis by (auto dest: bit_imp_le_length)
qed

text \<open>\<open>reverse\<close> reverses the bits.\<close>

lemma bit_reverse: "bit (reverse key) n \<longleftrightarrow> n < 32 \<and> bit key (31 - n)"
proof -
  note [simp] = reversed_byte_bit [of 0, simplified] reversed_byte_bit
  consider "n < 8" | "8 \<le> n" "n < 16" | "16 \<le> n" "n < 24" | "24 \<le> n" "n < 32" | "32 \<le> n" by linarith
  then show ?thesis by cases (auto simp: reverse_def bit_or_iff bit_push_bit_iff bit_ucast_iff bit_drop_bit_eq)
qed

lemma reverse_inj [simp]: "reverse a = reverse b \<longleftrightarrow> a = b"
proof
  assume eq: "reverse a = reverse b"
  show "a = b"
  proof (rule bit_word_eqI)
    fix n :: nat
    assume "n < LENGTH(32)"
    moreover have "31 - n < 32" by simp
    ultimately show "bit a n = bit b n" using bit_reverse [of a "31 - n"] bit_reverse [of b "31 - n"] eq by simp
  qed
qed simp

lemma drop_top_pow: "i < 256 \<Longrightarrow> 2 ^ j \<le> i \<Longrightarrow> i < 2 ^ Suc j \<Longrightarrow> drop_top i = i - 2 ^ j"
proof -
  assume i: "i < 256" "2 ^ j \<le> i" "i < 2 ^ Suc j"
  then have "(2 :: nat) ^ j < 2 ^ 8" by simp
  then have "j < 8" using power_less_imp_less_exp [of "2 :: nat" j 8] by simp
  then have "j = 0 \<or> j = 1 \<or> j = 2 \<or> j = 3 \<or> j = 4 \<or> j = 5 \<or> j = 6 \<or> j = 7" by linarith
  then show ?thesis using i by (elim disjE) (simp_all add: drop_top_def)
qed

lemma parent_byte_take_bit:
  fixes b :: u32
  assumes "unat b < 256" and "2 ^ j \<le> unat b" and "unat b < 2 ^ Suc j"
  shows "ucast (parent_byte ! unat b) = take_bit j b"
proof -
  have "unat (take_bit j b) = unat b mod 2 ^ j" by (simp add: unsigned_take_bit_eq flip: take_bit_eq_mod)
  also have "\<dots> = unat b - 2 ^ j" using assms(2,3) by (simp add: le_mod_geq)
  also have "\<dots> = drop_top (unat b)" using drop_top_pow [OF assms] by simp
  finally have *: "unat (take_bit j b) = drop_top (unat b)" .
  have "drop_top (unat b) < 256" using drop_top_pow [OF assms] assms(1) by simp
  then have "unat (ucast (parent_byte ! unat b) :: u32) = drop_top (unat b)"
    using assms(1) by (simp add: parent_byte_table unsigned_ucast_eq unat_of_nat take_bit_nat_eq_self)
  with * show ?thesis by (metis word_unat_eq_iff)
qed

lemma mask_split: "(key AND mask s) OR push_bit s (take_bit m (drop_bit s key)) = take_bit (s + m) (key :: u32)"
  by (rule bit_word_eqI) (auto simp: bit_or_iff bit_and_iff bit_mask_iff bit_push_bit_iff bit_take_bit_iff bit_drop_bit_eq)

lemma unat_drop_bit: "unat (drop_bit s w) = unat w div 2 ^ s" for w :: u32
proof -
  have "unat w < 2 ^ 32" using unsigned_less [of w] by simp
  then show ?thesis by (simp add: unsigned_drop_bit_eq take_bit_nat_eq_self flip: drop_bit_eq_div)
qed

text \<open>\<open>parent_of\<close> discards the highest bit.\<close>

lemma parent_of_take_bit:
  assumes "2 ^ n \<le> unat key" and "unat key < 2 ^ Suc n"
  shows "parent_of key = take_bit n key"
proof -
  have part: "(key AND mask s) OR push_bit s (ucast (parent_byte ! unat (drop_bit s key))) = take_bit n key"
    if "2 ^ s \<le> unat key" "unat key < 2 ^ (s + 8)" for s
  proof -
    have "(2 :: nat) ^ s < 2 ^ Suc n" using that(1) assms(2) by linarith
    then have n: "s \<le> n" using power_less_imp_less_exp [of "2 :: nat" s "Suc n"] by simp
    note u = unat_drop_bit [of s key]
    have "unat key div 2 ^ s < 256" using that(2) by (simp add: less_mult_imp_div_less power_add mult.commute)
    moreover have "2 ^ (n - s) \<le> unat key div 2 ^ s" using assms(1) n by (simp add: less_eq_div_iff_mult_less_eq flip: power_add)
    moreover have "unat key div 2 ^ s < 2 ^ Suc (n - s)"
      using assms(2) n by (intro less_mult_imp_div_less) (simp add: mult.assoc flip: power_add)
    ultimately have "ucast (parent_byte ! unat (drop_bit s key)) = take_bit (n - s) (drop_bit s key)"
      using parent_byte_take_bit [of "drop_bit s key" "n - s"] by (simp add: u)
    then show ?thesis using n by (simp add: mask_split)
  qed
  have "unat key < 2 ^ 32" using unsigned_less [of key] by simp
  moreover have "mask 24 = (0x00ffffff :: u32)" "mask 16 = (0x0000ffff :: u32)" "mask 8 = (0x000000ff :: u32)"
    by (simp_all add: mask_eq_exp_minus_1)
  moreover have "1 \<le> unat key" using order_trans [OF one_le_power assms(1)] by simp
  ultimately show ?thesis using part [of 24] part [of 16] part [of 8] part [of 0] assms(1)
    by (auto simp: parent_of_def word_less_nat_alt)
qed

lemma parent_of_0 [simp]: "parent_of 0 = 0"
  by (simp add: parent_of_def parent_byte_table drop_top_def)

lemma unat_top: "key \<noteq> 0 \<Longrightarrow> \<exists>n. 2 ^ n \<le> unat key \<and> unat key < 2 ^ Suc n"
  using ex_power_ivl1 [of 2 "unat key"] by (auto simp: unat_gt_0 Suc_le_eq)

lemma parent_of_less: "key \<noteq> 0 \<Longrightarrow> unat (parent_of key) < unat key"
proof -
  assume "key \<noteq> 0"
  then obtain n where n: "2 ^ n \<le> unat key" "unat key < 2 ^ Suc n" using unat_top by blast
  have "unat (take_bit n key) < 2 ^ n" by (simp add: unsigned_take_bit_eq)
  then show ?thesis using parent_of_take_bit [OF n] n by simp
qed

text \<open>When a table of \<open>2 ^ n\<close> buckets doubles, a key stays in its bucket or goes to a child of it.\<close>

lemma parent_of_grow:
  assumes "bit key n"
  shows "parent_of (key AND mask (Suc n)) = key AND mask n"
proof -
  have n: "n < 32" using bit_imp_le_length [OF assms] by simp
  have eq: "unat (key AND mask (Suc n)) = 2 ^ n + unat (take_bit n key)"
    using assms by (simp add: unsigned_take_bit_eq take_bit_Suc_from_most bit_unsigned_iff flip: take_bit_eq_mask)
  have "unat (take_bit n key) < 2 ^ n" by (simp add: unsigned_take_bit_eq)
  then have "parent_of (key AND mask (Suc n)) = take_bit n (key AND mask (Suc n))"
    by (intro parent_of_take_bit) (simp_all add: eq)
  then show ?thesis by (simp flip: take_bit_eq_mask)
qed

end
