(* ===== verification/Table_Spec.thy ===== *)
theory Table_Spec
  imports Main
begin

text \<open>
  What users of the library's containers rely on. The state of a container stands for a map from keys to data
  of \<open>U\<close>; the operations always return, and act on the map. The hash table (\<open>Hash_Map\<close>) and the red-black tree
  (\<open>Red_Black_Map\<close>) provide it.
\<close>

locale table_spec =
  fixes rep :: "'t \<Rightarrow> ('k \<rightharpoonup> 'a) \<Rightarrow> bool" and key :: "'a \<Rightarrow> 'k" and U :: "'a set" and create :: 't
    and ins :: "'t \<Rightarrow> 'a \<Rightarrow> (bool \<times> 't) option" and look :: "'t \<Rightarrow> 'a \<Rightarrow> ('a option \<times> 't) option"
    and yank :: "'t \<Rightarrow> 'a \<Rightarrow> ('a option \<times> 't) option" and count :: "'t \<Rightarrow> nat"
  assumes create: "rep create Map.empty"
    and ins: "rep t m \<Longrightarrow> x \<in> U \<Longrightarrow>
      \<exists>t'. ins t x = Some (m (key x) = None, t') \<and> rep t' (if m (key x) = None then m(key x \<mapsto> x) else m)"
    and look: "rep t m \<Longrightarrow> x \<in> U \<Longrightarrow> \<exists>t'. look t x = Some (m (key x), t') \<and> rep t' m"
    and yank: "rep t m \<Longrightarrow> x \<in> U \<Longrightarrow> \<exists>t'. yank t x = Some (m (key x), t') \<and> rep t' (m(key x := None))"
    and count: "rep t m \<Longrightarrow> count t = card (dom m)"
begin

lemma ins_look:
  assumes "rep t m" and "x \<in> U" and "y \<in> U" and "ins t x = Some (True, t')"
  shows "\<exists>t''. look t' y = Some (if key y = key x then Some x else m (key y), t'')"
proof -
  have "m (key x) = None" and rep: "rep t' (m(key x \<mapsto> x))" using ins [OF assms(1,2)] assms(4) by auto
  then show ?thesis using look [OF rep assms(3)] by auto
qed

lemma yank_look:
  assumes "rep t m" and "x \<in> U" and "y \<in> U" and "key y = key x"
  shows "\<exists>t' t''. yank t x = Some (m (key x), t') \<and> look t' y = Some (None, t'')"
proof -
  obtain t' where t': "yank t x = Some (m (key x), t')" "rep t' (m(key x := None))" using yank [OF assms(1,2)] by blast
  then show ?thesis using look [OF t'(2) assms(3)] assms(4) by auto
qed

text \<open>What was inserted can be taken out again once.\<close>

lemma ins_yank:
  assumes "rep t m" and "x \<in> U" and "ins t x = Some (True, t')"
  shows "\<exists>t''. yank t' x = Some (Some x, t'') \<and> rep t'' m"
proof -
  have "m (key x) = None" and rep: "rep t' (m(key x \<mapsto> x))" using ins [OF assms(1,2)] assms(3) by auto
  moreover from this have "(m(key x \<mapsto> x))(key x := None) = m" by auto
  ultimately show ?thesis using yank [OF rep assms(2)] by auto
qed

end

text \<open>A container that can replace.\<close>

locale lookup_table = table_spec +
  fixes repl :: "'t \<Rightarrow> 'a \<Rightarrow> (bool \<times> 'a option \<times> 't) option"
  assumes repl: "rep t m \<Longrightarrow> x \<in> U \<Longrightarrow> \<exists>t'. repl t x = Some (True, m (key x), t') \<and> rep t' (m(key x \<mapsto> x))"
begin

lemma repl_look:
  assumes "rep t m" and "x \<in> U" and "y \<in> U"
  shows "\<exists>t' t''. repl t x = Some (True, m (key x), t') \<and> look t' y = Some (if key y = key x then Some x else m (key y), t'')"
proof -
  obtain t' where t': "repl t x = Some (True, m (key x), t')" "rep t' (m(key x \<mapsto> x))" using repl [OF assms(1,2)] by blast
  then show ?thesis using look [OF t'(2) assms(3)] by auto
qed

end

end
