(* ===== verification/Hash_Map.thy ===== *)
theory Hash_Map
  imports Hash_Table Table_Spec
begin

text \<open>
  The hash table is a map. A bucket is filled from the nearest filled ancestor, which owns its keys until then; the invariant
  says that each chain is in strict order and holds keys its bucket owns. Splitting a chain, growing the table and
  the operations keep it. The locale \<open>lookup_table\<close> (\<open>Table_Spec\<close>) states what users of a table rely on; data
  without collisions (\<open>hash_domain\<close>) give one.
\<close>

section \<open>Buckets and their keys\<close>

text \<open>The bucket that holds the keys of bucket \<open>e\<close>: the nearest one of \<open>e\<close>, its parent, the parent of that and so on
  that is filled.\<close>

function owner :: "'b option list \<Rightarrow> u32 \<Rightarrow> u32" where
  "owner bs e = (if e = 0 \<or> bs ! unat e \<noteq> None then e else owner bs (parent_of e))"
  by pat_completeness auto
termination
  by (relation "measure (\<lambda>(bs, e). unat e)") (auto simp: parent_of_less)

declare owner.simps [simp del]

lemma owner_filled: "bs ! unat e \<noteq> None \<Longrightarrow> owner bs e = e"
  by (subst owner.simps) simp

lemma owner_parent: "e \<noteq> 0 \<Longrightarrow> bs ! unat e = None \<Longrightarrow> owner bs e = owner bs (parent_of e)"
  by (subst owner.simps) simp

lemma owner_is_filled: "bs ! 0 \<noteq> None \<Longrightarrow> bs ! unat (owner bs e) \<noteq> None"
  by (induction bs e rule: owner.induct) (subst owner.simps, auto)

lemma owner_le: "unat (owner bs e) \<le> unat e"
proof (induction bs e rule: owner.induct)
  case (1 bs e)
  then show ?case using parent_of_less [of e] by (subst owner.simps) (auto intro: order_trans less_imp_le)
qed

text \<open>Filling buckets that belonged to \<open>p\<close> moves no keys of other buckets.\<close>

lemma owner_fill:
  assumes "\<And>b. bs ! b \<noteq> None \<Longrightarrow> bs' ! b \<noteq> None"
    and "\<And>b. b \<noteq> 0 \<Longrightarrow> bs ! unat b = None \<Longrightarrow> bs' ! unat b \<noteq> None \<Longrightarrow> owner bs b = p"
  shows "owner bs e \<noteq> p \<Longrightarrow> owner bs' e = owner bs e"
  using assms
proof (induction bs e rule: owner.induct)
  case (1 bs e)
  show ?case
  proof (cases "e = 0 \<or> bs ! unat e \<noteq> None")
    case True
    then show ?thesis using 1(3) by (metis owner.simps)
  next
    case False
    then have "bs' ! unat e = None" using 1(2,4) by blast
    then show ?thesis using 1 False owner_parent [of e bs] owner_parent [of e bs'] by metis
  qed
qed

lemma owner_append: "unat e < length bs \<Longrightarrow> owner (bs @ bs') e = owner bs e"
proof (induction bs e rule: owner.induct)
  case (1 bs e)
  show ?case
  proof (cases "e = 0 \<or> bs ! unat e \<noteq> None")
    case True
    then show ?thesis using 1(2) by (subst (1 2) owner.simps) (simp add: nth_append)
  next
    case False
    then have "unat (parent_of e) < length bs" using parent_of_less [of e] 1(2) by simp
    then show ?thesis using 1 False by (subst (1 2) owner.simps) (simp add: nth_append)
  qed
qed

text \<open>Doubling the table changes no owner.\<close>

lemma owner_grow:
  assumes "length bs = 2 ^ n"
  shows "owner (bs @ replicate (2 ^ n) None) (key AND mask (Suc n)) = owner bs (key AND mask n)"
proof -
  have lt: "unat (key AND mask n) < length bs" using assms by (simp add: unsigned_take_bit_eq flip: take_bit_eq_mask)
  show ?thesis
  proof (cases "bit key n")
    case False
    then have "key AND mask (Suc n) = key AND mask n"
      by (intro bit_word_eqI) (auto simp: bit_and_iff bit_mask_iff less_Suc_eq)
    then show ?thesis using owner_append [OF lt] by simp
  next
    case True
    let ?e = "key AND mask (Suc n)"
    have b: "bit ?e n" using True by (simp add: bit_and_iff bit_mask_iff bit_imp_le_length [of key n, simplified])
    then have "bit (unat ?e) n" by (simp add: bit_unsigned_iff)
    then have "2 ^ n \<le> unat ?e" by (metis bit_take_bit_iff less_irrefl not_le take_bit_nat_eq_self)
    moreover have "unat ?e < 2 ^ Suc n" using take_bit_nat_less_exp [of "Suc n" "unat key"] by (simp del: power_Suc add: unsigned_take_bit_eq flip: take_bit_eq_mask)
    ultimately have "(bs @ replicate (2 ^ n) None) ! unat ?e = None" using assms by (simp add: nth_append)
    moreover have "?e \<noteq> 0" using b by auto
    ultimately show ?thesis using owner_append [OF lt] parent_of_grow [OF True] by (simp add: owner_parent)
  qed
qed

section \<open>Splitting a chain\<close>

text \<open>In the order of reversed keys the keys of one bucket stand together.\<close>

lemma same_bucket_iff:
  "a AND mask n = b AND mask n \<longleftrightarrow> drop_bit (32 - n) (reverse a) = drop_bit (32 - n) (reverse b)"
proof
  assume eq: "a AND mask n = b AND mask n"
  show "drop_bit (32 - n) (reverse a) = drop_bit (32 - n) (reverse b)"
  proof (rule bit_word_eqI)
    fix i
    have "bit (a AND mask n) (31 - (32 - n + i)) = bit (b AND mask n) (31 - (32 - n + i))" using eq by simp
    then show "bit (drop_bit (32 - n) (reverse a)) i = bit (drop_bit (32 - n) (reverse b)) i"
      by (auto simp: bit_drop_bit_eq bit_reverse bit_and_iff bit_mask_iff)
  qed
next
  assume eq: "drop_bit (32 - n) (reverse a) = drop_bit (32 - n) (reverse b)"
  show "a AND mask n = b AND mask n"
  proof (rule bit_word_eqI)
    fix i :: nat
    assume i: "i < LENGTH(32)"
    show "bit (a AND mask n) i = bit (b AND mask n) i"
    proof (cases "i < n")
      case True
      have "bit (drop_bit (32 - n) (reverse a)) (31 - i - (32 - n)) = bit (drop_bit (32 - n) (reverse b)) (31 - i - (32 - n))"
        using eq by simp
      moreover have "32 - n + (31 - i - (32 - n)) = 31 - i" "31 - i < 32" using True i by simp_all
      ultimately show ?thesis using i by (simp add: bit_drop_bit_eq bit_reverse bit_and_iff bit_mask_iff)
    next
      case False
      then show ?thesis by (simp add: bit_and_iff bit_mask_iff)
    qed
  qed
qed

lemma drop_bit_mono: "a \<le> b \<Longrightarrow> drop_bit s a \<le> drop_bit s (b :: u32)"
  by (simp add: word_le_nat_alt unat_drop_bit div_le_mono)

lemma length_fixup_walk [simp]: "length (fixup_walk msk self grp cs bs) = length bs"
  by (induction msk self grp cs bs rule: fixup_walk.induct) (simp_all add: Let_def)

text \<open>When the chain is grouped by buckets, every bucket of the chain gets all its entries.\<close>

lemma fixup_walk_nth:
  fixes h :: "'a fr_hash_entry \<Rightarrow> u32"
  defines "f \<equiv> \<lambda>msk c. he_key c AND msk"
  assumes "sorted (map h (grp @ cs))"
    and "\<And>c d. c \<in> set (grp @ cs) \<Longrightarrow> d \<in> set (grp @ cs) \<Longrightarrow> h c = h d \<longleftrightarrow> f msk c = f msk d"
    and "\<And>c. c \<in> set grp \<Longrightarrow> f msk c = self"
    and "unat self < length bs" and "\<And>c. c \<in> set cs \<Longrightarrow> unat (f msk c) < length bs"
  shows "fixup_walk msk self grp cs bs ! b =
    (if b = unat self then Some (grp @ filter (\<lambda>c. f msk c = self) cs)
     else if \<exists>c \<in> set cs. unat (f msk c) = b then Some (filter (\<lambda>c. unat (f msk c) = b) cs)
     else bs ! b)"
  using assms(2-)
proof (induction cs arbitrary: self grp bs)
  case Nil
  then show ?case by simp
next
  case (Cons c cs)
  show ?case
  proof (cases "f msk c = self")
    case True
    have "fixup_walk msk self (grp @ [c]) cs bs ! b =
      (if b = unat self then Some ((grp @ [c]) @ filter (\<lambda>c. f msk c = self) cs)
       else if \<exists>c \<in> set cs. unat (f msk c) = b then Some (filter (\<lambda>c. unat (f msk c) = b) cs) else bs ! b)"
      by (rule Cons.IH) (use Cons.prems True in auto)
    then show ?thesis using True by (auto simp: f_def)
  next
    case False
    have IH: "fixup_walk msk (f msk c) [c] cs (bs[unat self := Some grp]) ! b =
      (if b = unat (f msk c) then Some ([c] @ filter (\<lambda>d. f msk d = f msk c) cs)
       else if \<exists>c \<in> set cs. unat (f msk c) = b then Some (filter (\<lambda>c. unat (f msk c) = b) cs)
       else bs[unat self := Some grp] ! b)"
      by (rule Cons.IH) (use Cons.prems in \<open>auto simp: sorted_append\<close>)
    have gone: "f msk d \<noteq> self" if "d \<in> set cs" "grp \<noteq> []" for d
    proof
      assume d: "f msk d = self"
      from that(2) obtain g where g: "g \<in> set grp" by (cases grp) auto
      then have "h g = h d" using Cons.prems(2) [of g d] Cons.prems(3) [of g] d that(1) by simp
      moreover have "h g \<le> h c" "h c \<le> h d" using Cons.prems(1) g that(1) by (auto simp: sorted_append)
      ultimately have "h c = h g" by simp
      then show False using Cons.prems(2) [of c g] Cons.prems(3) [OF g] g False by simp
    qed
    have "grp @ filter (\<lambda>d. f msk d = self) cs = (if \<exists>d \<in> set cs. f msk d = self then filter (\<lambda>d. f msk d = self) cs else grp)"
      using gone by (cases "grp = []") (auto simp: filter_empty_conv)
    then show ?thesis using IH False Cons.prems(4) unfolding f_def by (auto simp: Let_def word_unat_eq_iff [symmetric])
  qed
qed

section \<open>The invariant\<close>

text \<open>An entry holds the hash of its data and its reversal; the data are in \<open>U\<close>. A filled bucket holds, in strict order,
  entries whose keys it owns.\<close>

definition entry_ok :: "('a \<Rightarrow> u32) \<Rightarrow> 'a set \<Rightarrow> 'a fr_hash_entry \<Rightarrow> bool" where
  "entry_ok hash U c \<longleftrightarrow> he_reversed c = reverse (he_key c) \<and> he_key c = hash (he_data c) \<and> he_data c \<in> U"

definition chain_ok :: "('a \<Rightarrow> u32) \<Rightarrow> 'a set \<Rightarrow> 'a fr_hash_entry list \<Rightarrow> bool" where
  "chain_ok hash U chain \<longleftrightarrow> sorted_wrt (<) (map he_reversed chain) \<and> (\<forall>c \<in> set chain. entry_ok hash U c)"

definition buckets_ok :: "('a \<Rightarrow> u32) \<Rightarrow> 'a set \<Rightarrow> nat \<Rightarrow> 'a fr_hash_entry list option list \<Rightarrow> bool" where
  "buckets_ok hash U n bs \<longleftrightarrow> length bs = 2 ^ n \<and> bs ! 0 \<noteq> None \<and>
     (\<forall>b < 2 ^ n. \<forall>chain. bs ! b = Some chain \<longrightarrow> chain_ok hash U chain \<and>
        (\<forall>c \<in> set chain. unat (owner bs (he_key c AND mask n)) = b))"

definition entries :: "'a fr_hash_entry list option list \<Rightarrow> 'a fr_hash_entry set" where
  "entries bs = {c. \<exists>b < length bs. \<exists>chain. bs ! b = Some chain \<and> c \<in> set chain}"

lemma bucket_index [simp]: "unat ((key :: u32) AND mask n) < 2 ^ n"
  by (simp add: unsigned_take_bit_eq flip: take_bit_eq_mask)

lemma chain_ok_filter: "chain_ok hash U chain \<Longrightarrow> chain_ok hash U (filter P chain)"
  by (auto simp: chain_ok_def sorted_wrt_filter sorted_wrt_map)

definition split_buckets :: "nat \<Rightarrow> u32 \<Rightarrow> 'a fr_hash_entry list option list \<Rightarrow> 'a fr_hash_entry list option list" where
  "split_buckets n e bs = ht_buckets (fixup_split \<lparr>ht_num_elements = 0, ht_num_buckets = 0, ht_next_grow = 0, ht_mask = mask n, ht_buckets = bs\<rparr> e)"

lemma split_buckets_nth:
  assumes "buckets_ok hash U n bs" and "unat e < 2 ^ n" and "e \<noteq> 0"
    and "bs ! unat (parent_of e) = Some chain"
  shows "split_buckets n e bs ! b =
    (if b = unat (parent_of e) \<or> b = unat e \<and> bs ! b = None \<or> (\<exists>c \<in> set chain. unat (he_key c AND mask n) = b)
     then Some (filter (\<lambda>c. unat (he_key c AND mask n) = b) chain) else bs ! b)" (is "_ = ?rhs b")
proof -
  let ?p = "parent_of e"
  have p: "unat ?p < unat e" using parent_of_less [OF assms(3)] .
  then have lt: "unat ?p < 2 ^ n" using assms(2) by simp
  have chain: "chain_ok hash U chain" and len: "length bs = 2 ^ n" using assms(1,4) lt by (auto simp: buckets_ok_def)
  define w where "w = fixup_walk (mask n) ?p [] chain bs"
  have "sorted (map (\<lambda>c. drop_bit (32 - n) (he_reversed c)) ([] @ chain))"
    using chain by (auto simp: chain_ok_def sorted_wrt_map intro: sorted_wrt_mono_rel drop_bit_mono less_imp_le
      elim!: sorted_wrt_mono_rel [rotated])
  from fixup_walk_nth [OF this, where msk = "mask n" and self = ?p and bs = bs] chain lt len
  have w: "w ! b = (if b = unat ?p then Some (filter (\<lambda>c. he_key c AND mask n = ?p) chain)
     else if \<exists>c \<in> set chain. unat (he_key c AND mask n) = b then Some (filter (\<lambda>c. unat (he_key c AND mask n) = b) chain)
     else bs ! b)" for b
    by (simp add: w_def chain_ok_def entry_ok_def same_bucket_iff)
  have "split_buckets n e bs = (if w ! unat e = None then w[unat e := Some []] else w)"
    by (simp add: split_buckets_def fixup_split_def w_def assms(4) Let_def)
  moreover have "length w = 2 ^ n" by (simp add: w_def len)
  ultimately show ?thesis using w [of b] w [of "unat e"] p assms(2)
    by (auto simp: nth_list_update filter_empty_conv word_unat_eq_iff)
qed

lemma split_buckets_ok:
  assumes "buckets_ok hash U n bs" and "unat e < 2 ^ n" and "e \<noteq> 0"
    and "bs ! unat (parent_of e) \<noteq> None"
  defines "bs' \<equiv> split_buckets n e bs"
  shows "buckets_ok hash U n bs'" and "entries bs' = entries bs" and "bs' ! unat e \<noteq> None"
    and "\<And>b. bs ! b \<noteq> None \<Longrightarrow> bs' ! b \<noteq> None" and "\<And>b. b \<noteq> unat (parent_of e) \<Longrightarrow> bs ! b \<noteq> None \<Longrightarrow> bs' ! b = bs ! b"
proof -
  let ?p = "parent_of e"
  obtain chain where p: "bs ! unat ?p = Some chain" using assms(4) by blast
  have lt: "unat ?p < 2 ^ n" using parent_of_less [OF assms(3)] assms(2) by simp
  let ?real = "\<lambda>c. he_key c AND mask n"
  define G where "G b \<longleftrightarrow> b = unat ?p \<or> b = unat e \<and> bs ! b = None \<or> (\<exists>c \<in> set chain. unat (?real c) = b)" for b
  note bs' = split_buckets_nth [OF assms(1-3) p, folded bs'_def G_def]
  have chain: "chain_ok hash U chain" and own: "\<And>c. c \<in> set chain \<Longrightarrow> owner bs (?real c) = ?p" and len: "length bs = 2 ^ n"
    using assms(1) p lt by (auto simp: buckets_ok_def word_unat_eq_iff)
  have len': "length bs' = 2 ^ n" by (simp add: bs'_def split_buckets_def fixup_split_def Let_def len)
  have old: "b = unat ?p" if "G b" "bs ! b \<noteq> None" for b
    using that own owner_filled [of bs] unfolding G_def by metis
  show keep: "bs' ! b \<noteq> None" if "bs ! b \<noteq> None" for b using that by (simp add: bs')
  show same: "bs' ! b = bs ! b" if "b \<noteq> unat ?p" "bs ! b \<noteq> None" for b using that old [of b] by (auto simp: bs')
  show "bs' ! unat e \<noteq> None" by (cases "bs ! unat e") (simp_all add: bs' G_def)
  have new: "owner bs b = ?p" if "b \<noteq> 0" "bs ! unat b = None" "bs' ! unat b \<noteq> None" for b
  proof -
    have "G (unat b)" using that by (auto simp: bs' split: if_split_asm)
    then have "b = ?p \<or> b = e \<or> (\<exists>c \<in> set chain. b = ?real c)" unfolding G_def by (metis word_unat_eq_iff)
    moreover have "owner bs e = ?p" if "b = e" using owner_parent [of e bs] owner_filled [of bs ?p] p assms(3) \<open>bs ! unat b = None\<close> that by simp
    ultimately show ?thesis using that(2) own p by auto
  qed
  have split: "chain_ok hash U ch \<and> (\<forall>c \<in> set ch. unat (owner bs' (?real c)) = b)" if b: "b < 2 ^ n" "bs' ! b = Some ch" for b ch
  proof (cases "G b")
    case True
    then have ch: "ch = filter (\<lambda>c. unat (?real c) = b) chain" using b by (simp add: bs')
    moreover have "owner bs' (?real c) = ?real c" if "c \<in> set ch" for c
      using that b(2) ch by (intro owner_filled) auto
    ultimately show ?thesis using chain by (auto simp: chain_ok_filter)
  next
    case False
    then have ch: "bs ! b = Some ch" "b \<noteq> unat ?p" using b unfolding bs' by (simp, auto simp: G_def)
    then have "chain_ok hash U ch" "\<forall>c \<in> set ch. unat (owner bs (?real c)) = b" using assms(1) b(1) by (auto simp: buckets_ok_def)
    moreover have "owner bs' (?real c) = owner bs (?real c)" if "c \<in> set ch" for c
      by (rule owner_fill [of bs bs' ?p, OF keep new]) (use that calculation(2) ch(2) in auto)
    ultimately show ?thesis by simp
  qed
  have "bs ! 0 \<noteq> None" using assms(1) by (simp add: buckets_ok_def)
  then show "buckets_ok hash U n bs'" using split len' keep [of 0] by (simp add: buckets_ok_def)
  show "entries bs' = entries bs"
  proof (rule set_eqI)
    fix c
    show "c \<in> entries bs' \<longleftrightarrow> c \<in> entries bs"
    proof
      assume "c \<in> entries bs'"
      then obtain b ch where "b < 2 ^ n" "bs' ! b = Some ch" "c \<in> set ch" using len' by (auto simp: entries_def)
      then show "c \<in> entries bs" using p lt len by (auto simp: entries_def bs' split: if_split_asm)
    next
      assume "c \<in> entries bs"
      then obtain b ch where b: "b < 2 ^ n" "bs ! b = Some ch" "c \<in> set ch" using len by (auto simp: entries_def)
      show "c \<in> entries bs'"
      proof (cases "b = unat ?p")
        case True
        then have "bs' ! unat (?real c) = Some (filter (\<lambda>d. unat (?real d) = unat (?real c)) chain)" using b p by (auto simp: bs' G_def)
        moreover have "c \<in> set chain" using b p True by simp
        ultimately show ?thesis unfolding entries_def mem_Collect_eq
          by (intro exI [of _ "unat (?real c)"] exI [of _ "filter (\<lambda>d. unat (?real d) = unat (?real c)) chain"] conjI) (use len' in auto)
      next
        case False
        then show ?thesis using same [of b] b len' by (auto simp: entries_def)
      qed
    qed
  qed
qed

lemma fixup_ok:
  assumes "buckets_ok hash U n (ht_buckets ht)" and "ht_mask ht = mask n" and "unat e < 2 ^ n" and "ht_buckets ht ! unat e = None"
  shows "\<exists>bs. fr_hash_table_fixup ht e = Some (ht\<lparr>ht_buckets := bs\<rparr>) \<and> buckets_ok hash U n bs \<and>
    entries bs = entries (ht_buckets ht) \<and> bs ! unat e \<noteq> None \<and>
    (\<forall>b. unat e < b \<and> ht_buckets ht ! b \<noteq> None \<longrightarrow> bs ! b = ht_buckets ht ! b)"
  using assms
proof (induction "unat e" arbitrary: ht e rule: less_induct)
  case less
  let ?bs = "ht_buckets ht" and ?p = "parent_of e"
  have e: "e \<noteq> 0" using less.prems(1,4) by (auto simp: buckets_ok_def)
  have p: "unat ?p < unat e" by (rule parent_of_less [OF e])
  have split: "fixup_split (ht\<lparr>ht_buckets := bs\<rparr>) e = ht\<lparr>ht_buckets := split_buckets n e bs\<rparr>" for bs
    using less.prems(2) by (simp add: fixup_split_def split_buckets_def Let_def)
  show ?case
  proof (cases "?bs ! unat ?p = None")
    case False
    have "fr_hash_table_fixup ht e = Some (ht\<lparr>ht_buckets := split_buckets n e ?bs\<rparr>)"
      using False split [of ?bs] by (subst fr_hash_table_fixup.simps) (simp only: if_False, simp)
    then show ?thesis using split_buckets_ok [OF less.prems(1,3) e False] p by auto
  next
    case True
    have "unat ?p < 2 ^ n" using p less.prems(3) by simp
    from less.hyps [OF p less.prems(1,2) this True] obtain bs where
      bs: "fr_hash_table_fixup ht ?p = Some (ht\<lparr>ht_buckets := bs\<rparr>)" "buckets_ok hash U n bs" "entries bs = entries ?bs"
        "bs ! unat ?p \<noteq> None" "\<And>b. unat ?p < b \<Longrightarrow> ?bs ! b \<noteq> None \<Longrightarrow> bs ! b = ?bs ! b" by blast
    have "fr_hash_table_fixup ht e = Some (ht\<lparr>ht_buckets := split_buckets n e bs\<rparr>)"
      using True bs(1) split [of bs] by (subst fr_hash_table_fixup.simps) simp
    moreover have "split_buckets n e bs ! b = ?bs ! b" if "unat e < b" "?bs ! b \<noteq> None" for b
      using that split_buckets_ok(5) [OF bs(2) less.prems(3) e bs(4), of b] bs(5) [of b] p by auto
    ultimately show ?thesis using split_buckets_ok [OF bs(2) less.prems(3) e bs(4)] bs(3) by auto
  qed
qed

lemma bucket_init_ok:
  assumes "buckets_ok hash U n (ht_buckets ht)" and "ht_mask ht = mask n" and "unat e < 2 ^ n"
  obtains bs where "bucket_init ht e = Some (ht\<lparr>ht_buckets := bs\<rparr>)" and "buckets_ok hash U n bs"
    and "entries bs = entries (ht_buckets ht)" and "bs ! unat e \<noteq> None"
    and "\<And>b. unat e < b \<Longrightarrow> ht_buckets ht ! b \<noteq> None \<Longrightarrow> bs ! b = ht_buckets ht ! b"
proof (cases "ht_buckets ht ! unat e = None")
  case True
  with fixup_ok [OF assms True] that show thesis by (auto simp: bucket_init_def)
next
  case False
  then show thesis using that [of "ht_buckets ht"] assms(1) by (auto simp: bucket_init_def)
qed

text \<open>Changing the chain of a filled bucket.\<close>

lemma owner_cong:
  assumes "\<And>b. bs' ! b = None \<longleftrightarrow> bs ! b = None"
  shows "owner bs' e = owner bs e"
  using assms
proof (induction bs e rule: owner.induct)
  case (1 bs e)
  then show ?case by (subst (1 2) owner.simps) simp
qed

lemma in_entries_iff:
  assumes "buckets_ok hash U n bs" and "b < 2 ^ n" and "bs ! b = Some chain"
  shows "c \<in> set chain \<longleftrightarrow> c \<in> entries bs \<and> unat (owner bs (he_key c AND mask n)) = b"
  using assms by (auto simp: buckets_ok_def entries_def)

lemma update_buckets:
  assumes "buckets_ok hash U n bs" and "b < 2 ^ n" and "bs ! b \<noteq> None" and "chain_ok hash U chain"
    and "\<forall>c \<in> set chain. unat (owner bs (he_key c AND mask n)) = b"
  shows "buckets_ok hash U n (bs[b := Some chain])"
    and "entries (bs[b := Some chain]) = set chain \<union> {c \<in> entries bs. unat (owner bs (he_key c AND mask n)) \<noteq> b}"
proof -
  let ?bs = "bs[b := Some chain]"
  have len: "length bs = 2 ^ n" using assms(1) by (simp add: buckets_ok_def)
  have own: "owner ?bs e = owner bs e" for e
    by (rule owner_cong) (use assms(2,3) len in \<open>auto simp: nth_list_update\<close>)
  show "buckets_ok hash U n ?bs" using assms len by (auto simp: buckets_ok_def own nth_list_update)
  show "entries ?bs = set chain \<union> {c \<in> entries bs. unat (owner bs (he_key c AND mask n)) \<noteq> b}" (is "_ = ?new")
  proof (rule set_eqI)
    fix c
    show "c \<in> entries ?bs \<longleftrightarrow> c \<in> ?new"
    proof
      assume "c \<in> entries ?bs"
      then obtain i ch where i: "i < 2 ^ n" "?bs ! i = Some ch" "c \<in> set ch" using len by (auto simp: entries_def)
      show "c \<in> ?new"
        using i in_entries_iff [OF assms(1) i(1), of ch c] len assms(2) by (cases "i = b") auto
    next
      assume "c \<in> ?new"
      then consider "c \<in> set chain" | i ch where "i < 2 ^ n" "bs ! i = Some ch" "c \<in> set ch" "i \<noteq> b"
        using in_entries_iff [OF assms(1)] len by (auto simp: entries_def)
      then show "c \<in> entries ?bs"
      proof cases
        case 1
        then show ?thesis using len assms(2) by (auto simp: entries_def intro!: exI [of _ b])
      next
        case 2
        then show ?thesis using len by (auto simp: entries_def intro!: exI [of _ i])
      qed
    qed
  qed
qed

lemma grow_buckets:
  assumes "buckets_ok hash U n bs"
  defines "bs' \<equiv> bs @ replicate (2 ^ n) None"
  shows "buckets_ok hash U (Suc n) bs'" and "entries bs' = entries bs"
proof -
  have len: "length bs = 2 ^ n" using assms(1) by (simp add: buckets_ok_def)
  have nth: "bs' ! b = (if b < 2 ^ n then bs ! b else None)" if "b < 2 ^ Suc n" for b
    using that len by (simp add: bs'_def nth_append)
  have lt: "b < 2 ^ Suc n" if "b < 2 ^ n" for b :: nat using that by simp
  have own: "owner bs' (key AND mask (Suc n)) = owner bs (key AND mask n)" for key
    unfolding bs'_def by (rule owner_grow [OF len])
  show "buckets_ok hash U (Suc n) bs'" unfolding buckets_ok_def own
  proof (intro conjI allI impI)
    show "length bs' = 2 ^ Suc n" by (simp add: bs'_def len)
    show "bs' ! 0 \<noteq> None" using assms(1) nth [of 0] by (simp add: buckets_ok_def)
    fix b chain
    assume "b < 2 ^ Suc n" "bs' ! b = Some chain"
    then have "b < 2 ^ n" "bs ! b = Some chain" using nth [of b] by (auto split: if_split_asm)
    then show "chain_ok hash U chain" "\<forall>c \<in> set chain. unat (owner bs (he_key c AND mask n)) = b"
      using assms(1) by (auto simp: buckets_ok_def)
  qed
  have "length bs' = 2 ^ Suc n" by (simp add: bs'_def len)
  then have "c \<in> entries bs' \<longleftrightarrow> c \<in> entries bs" for c
    unfolding entries_def mem_Collect_eq len using lt nth by (metis option.distinct(1))
  then show "entries bs' = entries bs" by blast
qed

section \<open>Chains\<close>

text \<open>Data of \<open>U\<close> with the same hash compare as equal.\<close>

definition no_collision :: "('a \<Rightarrow> u32) \<Rightarrow> 'a hash_cmp \<Rightarrow> 'a set \<Rightarrow> bool" where
  "no_collision hash cmp U \<longleftrightarrow> (\<forall>x \<in> U. \<forall>y \<in> U. hash x = hash y \<longrightarrow> (case cmp of None \<Rightarrow> True | Some f \<Rightarrow> f x y = 0))"

definition hash_node :: "('a \<Rightarrow> u32) \<Rightarrow> 'a \<Rightarrow> 'a fr_hash_entry" where
  "hash_node hash data = \<lparr>he_reversed = reverse (hash data), he_key = hash data, he_data = data\<rparr>"

lemma hash_node_simps [simp]:
  "he_reversed (hash_node hash data) = reverse (hash data)" "he_key (hash_node hash data) = hash data"
  "he_data (hash_node hash data) = data"
  by (simp_all add: hash_node_def)

lemma chain_ok_Cons:
  "chain_ok hash U (c # cs) \<longleftrightarrow> entry_ok hash U c \<and> chain_ok hash U cs \<and> (\<forall>d \<in> set cs. he_reversed c < he_reversed d)"
  by (auto simp: chain_ok_def)

lemma list_find_None:
  assumes "no_collision hash cmp U" and "chain_ok hash U chain" and "data \<in> U"
    and "list_find cmp (reverse (hash data)) data chain = None" and "c \<in> set chain"
  shows "he_key c \<noteq> hash data"
  using assms(2,4,5)
proof (induction chain)
  case (Cons d ds)
  show ?case
  proof (cases "he_key d = hash data")
    case True
    then have "hash data = hash (he_data d)" "he_data d \<in> U" "he_reversed d = reverse (hash data)"
      using Cons.prems(1) by (auto simp: chain_ok_Cons entry_ok_def)
    then show ?thesis using Cons.prems(2) assms(1,3) by (auto simp: no_collision_def split: option.splits)
  next
    case False
    then have d: "he_reversed d \<noteq> reverse (hash data)" using Cons.prems(1) by (simp add: chain_ok_Cons entry_ok_def)
    show ?thesis
    proof (cases "reverse (hash data) < he_reversed d")
      case True
      then have "he_reversed c \<noteq> reverse (hash data)" using Cons.prems(1,3) by (auto simp: chain_ok_Cons)
      moreover have "entry_ok hash U c" using Cons.prems(1,3) by (auto simp: chain_ok_def)
      ultimately show ?thesis by (auto simp: entry_ok_def)
    next
      case nl: False
      then show ?thesis using Cons False d by (auto simp: chain_ok_Cons split: if_split_asm)
    qed
  qed
qed simp

lemma list_find_Some:
  assumes "chain_ok hash U chain" and "list_find cmp (reverse (hash data)) data chain = Some i"
  shows "i < length chain \<and> he_key (chain ! i) = hash data"
  using assms
proof (induction chain arbitrary: i)
  case (Cons d ds)
  show ?case
  proof (cases i)
    case 0
    then show ?thesis using Cons.prems by (auto simp: chain_ok_Cons entry_ok_def split: if_split_asm option.splits)
  next
    case (Suc j)
    then have "list_find cmp (reverse (hash data)) data ds = Some j" using Cons.prems(2) by (auto split: if_split_asm option.splits)
    then show ?thesis using Cons Suc by (simp add: chain_ok_Cons)
  qed
qed simp

lemma list_insert_None:
  assumes "chain_ok hash U chain" and "list_insert cmp (hash_node hash data) chain = None"
  shows "\<exists>c \<in> set chain. he_key c = hash data"
  using assms by (induction chain) (auto simp: chain_ok_Cons entry_ok_def split: if_split_asm option.splits)

lemma list_insert_Some:
  assumes "no_collision hash cmp U" and "data \<in> U" and "chain_ok hash U chain"
    and "list_insert cmp (hash_node hash data) chain = Some chain'"
  shows "chain_ok hash U chain' \<and> set chain' = insert (hash_node hash data) (set chain) \<and> (\<forall>c \<in> set chain. he_key c \<noteq> hash data)"
  using assms(3,4)
proof (induction chain arbitrary: chain')
  case Nil
  then show ?case using assms(2) by (auto simp: chain_ok_def entry_ok_def)
next
  case (Cons d ds)
  have d: "he_reversed d = reverse (he_key d)" "he_key d = hash (he_data d)" "he_data d \<in> U"
    using Cons.prems(1) by (simp_all add: chain_ok_Cons entry_ok_def)
  have ne: "he_key d \<noteq> hash data"
  proof
    assume "he_key d = hash data"
    then show False using d assms(1,2) Cons.prems(2) by (auto simp: no_collision_def split: option.splits)
  qed
  have node: "entry_ok hash U (hash_node hash data)" using assms(2) by (simp add: entry_ok_def)
  show ?case
  proof (cases "reverse (hash data) < he_reversed d")
    case True
    have "reverse (hash data) < he_reversed c" if "c \<in> set ds" for c using that Cons.prems(1) True by (auto simp: chain_ok_Cons)
    moreover have "he_key c \<noteq> hash data" if "c \<in> set ds" for c
      using calculation [OF that] Cons.prems(1) that by (auto simp: chain_ok_def entry_ok_def)
    ultimately show ?thesis using Cons.prems True node ne by (auto simp: chain_ok_Cons)
  next
    case False
    with ne d obtain tl where tl: "list_insert cmp (hash_node hash data) ds = Some tl" "chain' = d # tl"
      using Cons.prems(2) by auto
    have "he_reversed d < reverse (hash data)" using False ne d by (simp add: not_less order_less_le)
    then show ?thesis using Cons.IH [OF _ tl(1)] Cons.prems(1) tl(2) ne by (auto simp: chain_ok_Cons)
  qed
qed

lemma list_delete_ok:
  assumes "chain_ok hash U chain" and "i < length chain" and "he_key (chain ! i) = k"
  shows "chain_ok hash U (list_delete i chain) \<and> set (list_delete i chain) = {c \<in> set chain. he_key c \<noteq> k}"
  using assms
proof (induction chain arbitrary: i)
  case (Cons d ds)
  have ne: "he_key d \<notin> he_key ` set ds" using Cons.prems(1) by (auto simp: chain_ok_def entry_ok_def)
  show ?case
  proof (cases i)
    case 0
    then show ?thesis using Cons.prems ne by (auto simp: list_delete_def chain_ok_Cons image_iff)
  next
    case (Suc j)
    then have "k \<in> he_key ` set ds" using Cons.prems(2,3) by auto
    then show ?thesis using Suc Cons.IH [of j] Cons.prems ne by (auto simp: list_delete_def chain_ok_Cons)
  qed
qed simp

section \<open>The table is a map\<close>

definition hash_rep :: "('a \<Rightarrow> u32) \<Rightarrow> 'a set \<Rightarrow> 'a fr_hash_table \<Rightarrow> (u32 \<rightharpoonup> 'a) \<Rightarrow> bool" where
  "hash_rep hash U ht m \<longleftrightarrow> (\<exists>n. ht_num_buckets ht = 2 ^ n \<and> ht_mask ht = mask n \<and> buckets_ok hash U n (ht_buckets ht)) \<and>
     (\<forall>k d. m k = Some d \<longleftrightarrow> (\<exists>c \<in> entries (ht_buckets ht). he_key c = k \<and> he_data c = d)) \<and>
     finite (dom m) \<and> ht_num_elements ht = card (dom m)"

lemma hash_rep_entry:
  assumes "hash_rep hash U ht m" and "m h = Some d"
  shows "d \<in> U \<and> hash d = h"
  using assms by (fastforce simp: hash_rep_def buckets_ok_def entries_def chain_ok_def entry_ok_def)

lemma of_nat_mask: "(of_nat (2 ^ n - 1) :: u32) = mask n"
  by (simp add: of_nat_diff mask_eq_exp_minus_1)

lemma fr_hash_table_create_rep: "hash_rep hash U fr_hash_table_create Map.empty"
proof -
  define bs :: "'a fr_hash_entry list option list" where "bs = (replicate 64 None)[0 := Some []]"
  have nil: "chain = []" if "b < 64" "bs ! b = Some chain" for b chain
    using that by (cases "b = 0") (simp_all add: bs_def nth_list_update)
  have "length bs = 64" "bs ! 0 \<noteq> None" by (simp_all add: bs_def)
  then have "buckets_ok hash U 6 bs" "entries bs = {}"
    unfolding buckets_ok_def entries_def using nil by (fastforce simp: chain_ok_def)+
  then show ?thesis using of_nat_mask [of 6] unfolding bs_def
    by (auto simp: hash_rep_def fr_hash_table_create_def FR_HASH_NUM_BUCKETS_def intro!: exI [of _ "6 :: nat"])
qed

text \<open>What all operations do first: fill the bucket of the key, giving the buckets \<open>bs\<close>, and take its chain.\<close>

definition located ::
    "('a \<Rightarrow> u32) \<Rightarrow> 'a set \<Rightarrow> 'a fr_hash_table \<Rightarrow> (u32 \<rightharpoonup> 'a) \<Rightarrow> u32 \<Rightarrow> nat \<Rightarrow> 'a fr_hash_entry list option list \<Rightarrow>
     'a fr_hash_entry list \<Rightarrow> bool" where
  "located hash U ht m key n bs chain \<longleftrightarrow> bucket_init ht (key AND ht_mask ht) = Some (ht\<lparr>ht_buckets := bs\<rparr>) \<and>
     hash_rep hash U (ht\<lparr>ht_buckets := bs\<rparr>) m \<and> ht_num_buckets ht = 2 ^ n \<and> ht_mask ht = mask n \<and> buckets_ok hash U n bs \<and>
     bs ! unat (key AND ht_mask ht) = Some chain"

lemma locate:
  assumes "hash_rep hash U ht m"
  obtains n bs chain where "located hash U ht m key n bs chain"
proof -
  obtain n where n: "ht_num_buckets ht = 2 ^ n" "ht_mask ht = mask n" "buckets_ok hash U n (ht_buckets ht)"
    using assms by (auto simp: hash_rep_def)
  have lt: "unat (key AND ht_mask ht) < 2 ^ n" by (simp add: n(2))
  from bucket_init_ok [OF n(3,2) lt] obtain bs where bs: "bucket_init ht (key AND ht_mask ht) = Some (ht\<lparr>ht_buckets := bs\<rparr>)"
      "buckets_ok hash U n bs" "entries bs = entries (ht_buckets ht)" "bs ! unat (key AND ht_mask ht) \<noteq> None" by metis
  have "hash_rep hash U (ht\<lparr>ht_buckets := bs\<rparr>) m" using assms n bs(2,3) by (auto simp: hash_rep_def)
  then show thesis using that n bs by (auto simp: located_def)
qed

lemma locatedD:
  assumes "located hash U ht m key n bs chain"
  shows "bucket_init ht (key AND ht_mask ht) = Some (ht\<lparr>ht_buckets := bs\<rparr>)" and "hash_rep hash U (ht\<lparr>ht_buckets := bs\<rparr>) m"
    and "ht_num_buckets ht = 2 ^ n" and "ht_mask ht = mask n" and "buckets_ok hash U n bs"
    and "unat (key AND ht_mask ht) < 2 ^ n" and "bs ! unat (key AND ht_mask ht) = Some chain" and "chain_ok hash U chain"
    and "owner bs (key AND ht_mask ht) = key AND ht_mask ht"
    and "c \<in> set chain \<longleftrightarrow> c \<in> entries bs \<and> unat (owner bs (he_key c AND mask n)) = unat (key AND ht_mask ht)"
    and "m k = Some d \<longleftrightarrow> (\<exists>c \<in> entries bs. he_key c = k \<and> he_data c = d)"
    and "finite (dom m)" and "ht_num_elements ht = card (dom m)"
proof -
  note l = assms [unfolded located_def]
  show b: "buckets_ok hash U n bs" and n: "ht_mask ht = mask n" and c: "bs ! unat (key AND ht_mask ht) = Some chain" using l by blast+
  show lt: "unat (key AND ht_mask ht) < 2 ^ n" by (simp add: n)
  show "c \<in> set chain \<longleftrightarrow> c \<in> entries bs \<and> unat (owner bs (he_key c AND mask n)) = unat (key AND ht_mask ht)"
    by (rule in_entries_iff [OF b lt c])
  show "chain_ok hash U chain" using b lt c by (simp add: buckets_ok_def)
  show "owner bs (key AND ht_mask ht) = key AND ht_mask ht" using c by (simp add: owner_filled)
  show "m k = Some d \<longleftrightarrow> (\<exists>c \<in> entries bs. he_key c = k \<and> he_data c = d)" "finite (dom m)" "ht_num_elements ht = card (dom m)"
    using l by (simp_all add: hash_rep_def)
qed (use assms [unfolded located_def] in blast)+

lemma located_lookup:
  assumes "located hash U ht m key n bs chain"
  shows "m key = None \<longleftrightarrow> (\<forall>c \<in> set chain. he_key c \<noteq> key)"
    and "c \<in> set chain \<Longrightarrow> he_key c = key \<Longrightarrow> m key = Some (he_data c)"
proof -
  note loc = locatedD [OF assms]
  have here: "c \<in> set chain" if "c \<in> entries bs" "he_key c = key" for c
    using that loc(4,9) by (simp add: loc(10))
  show "m key = None \<longleftrightarrow> (\<forall>c \<in> set chain. he_key c \<noteq> key)"
  proof (cases "m key")
    case None
    then have "he_key c \<noteq> key" if "c \<in> entries bs" for c using loc(11) [of key "he_data c"] that by auto
    then show ?thesis using None loc(10) by simp
  next
    case (Some d)
    then obtain c where "c \<in> entries bs" "he_key c = key" using loc(11) by blast
    then show ?thesis using here [of c] Some by auto
  qed
  show "c \<in> set chain \<Longrightarrow> he_key c = key \<Longrightarrow> m key = Some (he_data c)" using loc(10,11) by blast
qed

text \<open>The table after its chain was replaced.\<close>

lemma located_update:
  assumes "located hash U ht m key n bs chain" and "chain_ok hash U chain'"
    and "\<And>c. he_key c \<noteq> key \<Longrightarrow> c \<in> set chain' \<longleftrightarrow> c \<in> set chain"
    and "\<And>d. v = Some d \<longleftrightarrow> (\<exists>c \<in> set chain'. he_key c = key \<and> he_data c = d)"
    and "num = card (dom (m(key := v)))"
  shows "hash_rep hash U (ht\<lparr>ht_buckets := bs[unat (key AND ht_mask ht) := Some chain'], ht_num_elements := num\<rparr>) (m(key := v))"
proof -
  note loc = locatedD [OF assms(1)]
  let ?e = "key AND ht_mask ht"
  have own: "\<forall>c \<in> set chain'. unat (owner bs (he_key c AND mask n)) = unat ?e"
  proof
    fix c
    assume "c \<in> set chain'"
    then show "unat (owner bs (he_key c AND mask n)) = unat ?e"
      using loc(4,9) loc(10) [of c] assms(3) [of c] by (cases "he_key c = key") auto
  qed
  have "bs ! unat ?e \<noteq> None" using loc(7) by simp
  note upd = update_buckets [OF loc(5,6) this assms(2) own]
  have in_new: "c \<in> entries (bs[unat ?e := Some chain']) \<longleftrightarrow> (if he_key c = key then c \<in> set chain' else c \<in> entries bs)" for c
    unfolding upd(2) using loc(4,9) loc(10) [of c] assms(3) [of c] own by auto
  have "(m(key := v)) k = Some d \<longleftrightarrow> (\<exists>c \<in> entries (bs[unat ?e := Some chain']). he_key c = k \<and> he_data c = d)" for k d
    using in_new assms(4) loc(11) by auto
  moreover have "finite (dom (m(key := v)))" using loc(12) by (cases v) auto
  ultimately show ?thesis using loc(3,4) upd(1) assms(5) by (auto simp: hash_rep_def)
qed

lemma fr_hash_table_grow_rep: "hash_rep hash U ht m \<Longrightarrow> hash_rep hash U (fr_hash_table_grow ht) m"
proof -
  assume rep: "hash_rep hash U ht m"
  then obtain n where n: "ht_num_buckets ht = 2 ^ n" "ht_mask ht = mask n" "buckets_ok hash U n (ht_buckets ht)"
    by (auto simp: hash_rep_def)
  have "of_nat (2 ^ n * 2 - 1) = (mask (Suc n) :: u32)" using of_nat_mask [of "Suc n"] by (simp add: mult.commute)
  then show ?thesis using rep n(1) grow_buckets [OF n(3)]
    by (auto simp: hash_rep_def fr_hash_table_grow_def GROW_FACTOR_def Let_def intro!: exI [of _ "Suc n"])
qed

lemma fr_hash_table_insert_rep:
  assumes "no_collision hash cmp U" and "hash_rep hash U ht m" and "data \<in> U"
  shows "\<exists>ht'. fr_hash_table_insert hash cmp ht data = Some (m (hash data) = None, ht') \<and>
    hash_rep hash U ht' (if m (hash data) = None then m(hash data \<mapsto> data) else m)"
proof -
  obtain n bs chain where l: "located hash U ht m (hash data) n bs chain" using locate [OF assms(2)] .
  note loc = locatedD [OF l]
  define r where "r = list_insert cmp (hash_node hash data) chain"
  let ?e = "unat (hash data AND ht_mask ht)"
  have step: "fr_hash_table_insert hash cmp ht data = (case r of None \<Rightarrow> Some (False, ht\<lparr>ht_buckets := bs\<rparr>)
      | Some chain \<Rightarrow> let ht = ht\<lparr>ht_buckets := bs[?e := Some chain], ht_num_elements := ht_num_elements ht + 1\<rparr>
          in Some (True, if ht_next_grow ht \<le> ht_num_elements ht then fr_hash_table_grow ht else ht))"
    by (simp add: fr_hash_table_insert_def Let_def loc(1) loc(7) r_def hash_node_def split: option.split)
  show ?thesis
  proof (cases r)
    case None
    then have "m (hash data) \<noteq> None" using located_lookup(1) [OF l] list_insert_None [OF loc(8)] by (auto simp: r_def)
    then obtain d where "m (hash data) = Some d" by blast
    then show ?thesis using None step loc(2) by simp
  next
    case (Some ch)
    note ins = list_insert_Some [OF assms(1,3) loc(8) Some [unfolded r_def]]
    then have new: "m (hash data) = None" using located_lookup(1) [OF l] by simp
    have rep: "hash_rep hash U (ht\<lparr>ht_buckets := bs[?e := Some ch], ht_num_elements := ht_num_elements ht + 1\<rparr>)
        (m(hash data \<mapsto> data))"
      by (rule located_update [OF l]) (use ins new loc(12,13) in \<open>auto simp: domIff\<close>)
    then show ?thesis using Some step new fr_hash_table_grow_rep [OF rep] by (simp add: Let_def)
  qed
qed

lemma fr_hash_table_find_rep:
  assumes "no_collision hash cmp U" and "hash_rep hash U ht m" and "data \<in> U"
  obtains n bs chain where "located hash U ht m (hash data) n bs chain"
    and "fr_hash_table_find hash cmp ht data = Some (None, ht\<lparr>ht_buckets := bs\<rparr>)"
    and "list_find cmp (reverse (hash data)) data chain = None" and "m (hash data) = None"
  | n bs chain i where "located hash U ht m (hash data) n bs chain"
    and "fr_hash_table_find hash cmp ht data = Some (Some (unat (hash data AND ht_mask ht), i), ht\<lparr>ht_buckets := bs\<rparr>)"
    and "list_find cmp (reverse (hash data)) data chain = Some i" and "i < length chain" and "he_key (chain ! i) = hash data"
    and "m (hash data) = Some (he_data (chain ! i))"
proof -
  obtain n bs chain where l: "located hash U ht m (hash data) n bs chain" using locate [OF assms(2)] .
  note loc = locatedD [OF l]
  have step: "fr_hash_table_find hash cmp ht data =
      Some (map_option (Pair (unat (hash data AND ht_mask ht))) (list_find cmp (reverse (hash data)) data chain), ht\<lparr>ht_buckets := bs\<rparr>)"
    by (simp add: fr_hash_table_find_def Let_def loc(1) loc(7))
  show thesis
  proof (cases "list_find cmp (reverse (hash data)) data chain")
    case None
    then have "m (hash data) = None" using located_lookup(1) [OF l] list_find_None [OF assms(1) loc(8) assms(3)] by blast
    then show thesis using that(1) [OF l] None step by simp
  next
    case (Some i)
    note found = list_find_Some [OF loc(8) Some]
    then have "m (hash data) = Some (he_data (chain ! i))" using located_lookup(2) [OF l] by simp
    then show thesis using that(2) [OF l] Some step found by simp
  qed
qed

lemma fr_hash_table_finddata_rep:
  assumes "no_collision hash cmp U" and "hash_rep hash U ht m" and "data \<in> U"
  shows "\<exists>ht'. fr_hash_table_finddata hash cmp ht data = Some (m (hash data), ht') \<and> hash_rep hash U ht' m"
  using assms
proof (cases rule: fr_hash_table_find_rep)
  case 1
  then show ?thesis using locatedD(2) by (fastforce simp: fr_hash_table_finddata_def)
next
  case 2
  then show ?thesis using locatedD(2,7) by (fastforce simp: fr_hash_table_finddata_def node_data_def)
qed

lemma chain_ok_replace:
  assumes "chain_ok hash U chain" and "i < length chain" and "he_key (chain ! i) = hash data" and "data \<in> U"
  defines "chain' \<equiv> chain[i := (chain ! i)\<lparr>he_data := data\<rparr>]"
  shows "chain_ok hash U chain'" and "\<And>c. he_key c \<noteq> hash data \<Longrightarrow> c \<in> set chain' \<longleftrightarrow> c \<in> set chain"
    and "\<And>d. (\<exists>c \<in> set chain'. he_key c = hash data \<and> he_data c = d) \<longleftrightarrow> d = data"
proof -
  have rev: "map he_reversed chain' = map he_reversed chain"
    by (simp add: chain'_def map_update) (simp add: list_update_id flip: nth_map [OF assms(2)])
  have nth: "chain' ! j = (if j = i then (chain ! i)\<lparr>he_data := data\<rparr> else chain ! j)" if "j < length chain" for j
    using that by (simp add: chain'_def)
  have len: "length chain' = length chain" by (simp add: chain'_def)
  have uniq: "j = i" if "j < length chain" "he_key (chain ! j) = hash data" for j
  proof -
    have "distinct (map he_reversed chain)" using assms(1) by (simp add: chain_ok_def strict_sorted_iff)
    moreover have "he_reversed (chain ! j) = he_reversed (chain ! i)" using assms that by (simp add: chain_ok_def entry_ok_def)
    ultimately show ?thesis using that(1) assms(2) nth_eq_iff_index_eq [of "map he_reversed chain" j i] by simp
  qed
  have "entry_ok hash U c" if "c \<in> set chain" for c using that assms(1) by (simp add: chain_ok_def)
  then have "entry_ok hash U (chain' ! j)" if "j < length chain" for j
    using that nth [OF that] assms(2-4) nth_mem [of i chain] by (simp add: entry_ok_def)
  then show "chain_ok hash U chain'" using assms(1) unfolding chain_ok_def rev by (metis in_set_conv_nth len)
  show "c \<in> set chain' \<longleftrightarrow> c \<in> set chain" if "he_key c \<noteq> hash data" for c
  proof -
    have "set chain = set (take i chain) \<union> {chain ! i} \<union> set (drop (Suc i) chain)"
      by (subst id_take_nth_drop [OF assms(2)]) auto
    moreover have "set chain' = set (take i chain) \<union> {(chain ! i)\<lparr>he_data := data\<rparr>} \<union> set (drop (Suc i) chain)"
      unfolding chain'_def upd_conv_take_nth_drop [OF assms(2)] by auto
    ultimately show ?thesis using that assms(3) by auto
  qed
  show "(\<exists>c \<in> set chain'. he_key c = hash data \<and> he_data c = d) \<longleftrightarrow> d = data" for d
  proof
    assume "\<exists>c \<in> set chain'. he_key c = hash data \<and> he_data c = d"
    then obtain j where j: "j < length chain" "he_key (chain' ! j) = hash data" "he_data (chain' ! j) = d"
      using len by (auto simp: in_set_conv_nth)
    have "he_key (chain ! j) = hash data" using j(2) nth [OF j(1)] by (cases "j = i") simp_all
    then have "j = i" by (rule uniq [OF j(1)])
    then show "d = data" using j(3) nth [OF j(1)] by simp
  next
    assume "d = data"
    then show "\<exists>c \<in> set chain'. he_key c = hash data \<and> he_data c = d"
      using nth [OF assms(2)] assms(2,3) len nth_mem [of i chain'] by (intro bexI [of _ "chain' ! i"]) simp_all
  qed
qed

lemma fr_hash_table_replace_rep:
  assumes "no_collision hash cmp U" and "hash_rep hash U ht m" and "data \<in> U"
  shows "\<exists>ht'. fr_hash_table_replace hash cmp ht data = Some (True, m (hash data), ht') \<and>
    hash_rep hash U ht' (m(hash data \<mapsto> data))"
  using assms
proof (cases rule: fr_hash_table_find_rep)
  case (1 n bs chain)
  from fr_hash_table_insert_rep [OF assms(1) locatedD(2) [OF 1(1)] assms(3)] 1 show ?thesis
    by (auto simp: fr_hash_table_replace_def)
next
  case (2 n bs chain i)
  note loc = locatedD [OF 2(1)]
  note ch = chain_ok_replace [OF loc(8) 2(4,5) assms(3)]
  have "hash_rep hash U (ht\<lparr>ht_buckets := bs[unat (hash data AND ht_mask ht) := Some (chain[i := (chain ! i)\<lparr>he_data := data\<rparr>])],
      ht_num_elements := ht_num_elements ht\<rparr>) (m(hash data := Some data))"
    by (rule located_update [OF 2(1)]) (use ch 2(6) loc(13) in \<open>auto simp: insert_absorb domI\<close>)
  then show ?thesis using 2(2,6) loc(7) by (simp add: fr_hash_table_replace_def node_data_def)
qed

lemma fr_hash_table_yank_rep:
  assumes "no_collision hash cmp U" and "hash_rep hash U ht m" and "data \<in> U"
  shows "\<exists>ht'. fr_hash_table_yank hash cmp ht data = Some (m (hash data), ht') \<and> hash_rep hash U ht' (m(hash data := None))"
  using assms
proof (cases rule: fr_hash_table_find_rep)
  case (1 n bs chain)
  note loc = locatedD [OF 1(1)]
  have "m(hash data := None) = m" using 1(4) by auto
  then show ?thesis using 1(3,4) loc(1,2,7) by (simp add: fr_hash_table_yank_def Let_def)
next
  case (2 n bs chain i)
  note loc = locatedD [OF 2(1)]
  note del = list_delete_ok [OF loc(8) 2(4,5)]
  have "hash_rep hash U (ht\<lparr>ht_buckets := bs[unat (hash data AND ht_mask ht) := Some (list_delete i chain)],
      ht_num_elements := ht_num_elements ht - 1\<rparr>) (m(hash data := None))"
    by (rule located_update [OF 2(1)]) (use del 2(6) loc(12,13) in \<open>auto simp: card_Diff_singleton domI\<close>)
  then show ?thesis using 2(3,6) loc(1,7) by (simp add: fr_hash_table_yank_def Let_def)
qed

text \<open>The walk fills every bucket and visits the chains from the last bucket to the first.\<close>

definition collect :: "'a list \<Rightarrow> 'a \<Rightarrow> int \<times> 'a list" where
  "collect seen d = (0, seen @ [d])"

lemma walk_chain_collect: "walk_chain collect chain seen = (0, seen @ map he_data chain)"
  by (induction chain arbitrary: seen) (simp_all add: collect_def)

lemma chain_keys_distinct: "chain_ok hash U chain \<Longrightarrow> distinct (map he_key chain)"
proof -
  assume ok: "chain_ok hash U chain"
  then have "map he_reversed chain = map reverse (map he_key chain)" by (simp add: chain_ok_def entry_ok_def)
  moreover have "distinct (map he_reversed chain)" using ok by (simp add: chain_ok_def strict_sorted_iff)
  ultimately show ?thesis by (metis distinct_map)
qed

lemma walk_buckets_collect:
  assumes "buckets_ok hash U n (ht_buckets ht)" and "ht_mask ht = mask n" and "i \<le> 2 ^ n" and "i \<le> 2 ^ 32"
  shows "\<exists>bs cs. walk_buckets collect i ht seen = Some (0, seen @ map he_data cs, ht\<lparr>ht_buckets := bs\<rparr>) \<and> buckets_ok hash U n bs \<and>
    entries bs = entries (ht_buckets ht) \<and> distinct (map he_key cs) \<and>
    (\<forall>b. i \<le> b \<and> ht_buckets ht ! b \<noteq> None \<longrightarrow> bs ! b = ht_buckets ht ! b) \<and>
    set cs = {c. \<exists>b < i. \<exists>chain. bs ! b = Some chain \<and> c \<in> set chain}"
  using assms
proof (induction i arbitrary: ht seen)
  case 0
  then show ?case by (intro exI [of _ "ht_buckets ht"] exI [of _ "[]"]) simp
next
  case (Suc i)
  have i: "unat (of_nat i :: u32) = i" using Suc.prems(4) by (simp add: unat_of_nat take_bit_nat_eq_self)
  have "unat (of_nat i :: u32) < 2 ^ n" using Suc.prems(3) i by simp
  from bucket_init_ok [OF Suc.prems(1,2) this, unfolded i] obtain bs where
    bs: "bucket_init ht (of_nat i) = Some (ht\<lparr>ht_buckets := bs\<rparr>)" "buckets_ok hash U n bs" "entries bs = entries (ht_buckets ht)"
      "bs ! i \<noteq> None" "\<And>b. i < b \<Longrightarrow> ht_buckets ht ! b \<noteq> None \<Longrightarrow> bs ! b = ht_buckets ht ! b" by metis
  obtain chain where chain: "bs ! i = Some chain" using bs(4) by blast
  have "\<exists>bs' cs. walk_buckets collect i (ht\<lparr>ht_buckets := bs\<rparr>) (seen @ map he_data chain) =
        Some (0, (seen @ map he_data chain) @ map he_data cs, ht\<lparr>ht_buckets := bs'\<rparr>) \<and> buckets_ok hash U n bs' \<and>
      entries bs' = entries bs \<and> distinct (map he_key cs) \<and> (\<forall>b. i \<le> b \<and> bs ! b \<noteq> None \<longrightarrow> bs' ! b = bs ! b) \<and>
      set cs = {c. \<exists>b < i. \<exists>chain. bs' ! b = Some chain \<and> c \<in> set chain}"
    using Suc.IH [of "ht\<lparr>ht_buckets := bs\<rparr>" "seen @ map he_data chain"] bs(2) Suc.prems by simp
  then obtain bs' cs where w: "walk_buckets collect i (ht\<lparr>ht_buckets := bs\<rparr>) (seen @ map he_data chain) =
        Some (0, (seen @ map he_data chain) @ map he_data cs, ht\<lparr>ht_buckets := bs'\<rparr>)" "buckets_ok hash U n bs'"
      "entries bs' = entries bs" "distinct (map he_key cs)" "\<forall>b. i \<le> b \<and> bs ! b \<noteq> None \<longrightarrow> bs' ! b = bs ! b"
      "set cs = {c. \<exists>b < i. \<exists>chain. bs' ! b = Some chain \<and> c \<in> set chain}" by blast
  have c': "bs' ! i = Some chain" using w(5) chain by simp
  have lt: "b < 2 ^ n" if "b \<le> i" for b using that Suc.prems(3) by simp
  have own: "unat (owner bs' (he_key c AND mask n)) = b" if "b \<le> i" "bs' ! b = Some ch" "c \<in> set ch" for b ch c
    using w(2) lt [OF that(1)] that(2,3) by (auto simp: buckets_ok_def)
  have "he_key c \<noteq> he_key d" if cd: "c \<in> set chain" "d \<in> set cs" for c d
  proof -
    obtain b ch where "b < i" "bs' ! b = Some ch" "d \<in> set ch" using cd(2) w(6) by auto
    then show ?thesis using own [of b ch d] own [OF order_refl c' cd(1)] by auto
  qed
  moreover have "chain_ok hash U chain" using bs(2) chain lt [of i] by (auto simp: buckets_ok_def)
  ultimately have "distinct (map he_key (chain @ cs))" using w(4) chain_keys_distinct by (auto simp: image_iff)
  moreover have "set (chain @ cs) = {c. \<exists>b < Suc i. \<exists>chain. bs' ! b = Some chain \<and> c \<in> set chain}"
    using w(6) c' by (auto simp: less_Suc_eq)
  moreover have "walk_buckets collect (Suc i) ht seen = Some (0, seen @ map he_data (chain @ cs), ht\<lparr>ht_buckets := bs'\<rparr>)"
    using w(1) by (simp add: bs(1) chain walk_chain_collect Let_def)
  moreover have "\<forall>b. Suc i \<le> b \<and> ht_buckets ht ! b \<noteq> None \<longrightarrow> bs' ! b = ht_buckets ht ! b" using bs(5) w(5) by auto
  ultimately show ?case using w(2,3) bs(3) by blast
qed

lemma fr_hash_table_walk_rep:
  assumes "hash_rep hash U ht m" and "ht_num_buckets ht \<le> 2 ^ 32"
  shows "\<exists>ds ht'. fr_hash_table_walk collect ht [] = Some (0, ds, ht') \<and> hash_rep hash U ht' m \<and> distinct (map hash ds) \<and> set ds = ran m"
proof -
  obtain n where n: "ht_num_buckets ht = 2 ^ n" "ht_mask ht = mask n" "buckets_ok hash U n (ht_buckets ht)"
    using assms(1) by (auto simp: hash_rep_def)
  from walk_buckets_collect [OF n(3,2) order_refl, of "[]"] assms(2) n(1) obtain bs cs where
    w: "fr_hash_table_walk collect ht [] = Some (0, map he_data cs, ht\<lparr>ht_buckets := bs\<rparr>)" "buckets_ok hash U n bs"
      "entries bs = entries (ht_buckets ht)" "distinct (map he_key cs)"
      "set cs = {c. \<exists>b < 2 ^ n. \<exists>chain. bs ! b = Some chain \<and> c \<in> set chain}"
    by (auto simp: fr_hash_table_walk_def)
  have cs: "set cs = entries bs" using w(2,5) by (simp add: entries_def buckets_ok_def)
  have rep: "hash_rep hash U (ht\<lparr>ht_buckets := bs\<rparr>) m" using assms(1) n w(2,3) by (auto simp: hash_rep_def)
  have "map hash (map he_data cs) = map he_key cs" using w(2) cs by (auto simp: entries_def buckets_ok_def chain_ok_def entry_ok_def)
  moreover have "set (map he_data cs) = ran m" using rep cs by (auto simp: hash_rep_def ran_def)
  ultimately show ?thesis using w(1,4) rep by metis
qed

section \<open>Tables as lookup tables\<close>

text \<open>What users of a table rely on: its state stands for a map from keys to data of \<open>U\<close>; the operations always return
  and act on the map.\<close>

text \<open>A hash table is one when the data have no collisions.\<close>

locale hash_domain =
  fixes hash :: "'a \<Rightarrow> u32" and cmp :: "'a hash_cmp" and U :: "'a set"
  assumes no_collision: "no_collision hash cmp U"

sublocale hash_domain \<subseteq> tbl: lookup_table "hash_rep hash U" hash U fr_hash_table_create "fr_hash_table_insert hash cmp"
  "fr_hash_table_finddata hash cmp" "fr_hash_table_yank hash cmp" fr_hash_table_num_elements "fr_hash_table_replace hash cmp"
proof
  show "hash_rep hash U fr_hash_table_create Map.empty" by (rule fr_hash_table_create_rep)
  show "fr_hash_table_num_elements t = card (dom m)" if "hash_rep hash U t m" for t :: "'a fr_hash_table" and m
    using that by (simp add: fr_hash_table_num_elements_def hash_rep_def)
qed (rule fr_hash_table_insert_rep [OF no_collision] fr_hash_table_finddata_rep [OF no_collision]
    fr_hash_table_replace_rep [OF no_collision] fr_hash_table_yank_rep [OF no_collision]; assumption)+

section \<open>Sequences of calls\<close>

datatype 'a table_call = Insert 'a | Find 'a | Replace 'a | Yank 'a | Count

datatype 'a table_answer = Inserted bool | Data "'a option" | Replaced bool "'a option" | Total nat

fun call_data :: "'a table_call \<Rightarrow> 'a set" where
  "call_data (Insert x) = {x}"
| "call_data (Find x) = {x}"
| "call_data (Replace x) = {x}"
| "call_data (Yank x) = {x}"
| "call_data Count = {}"

fun table_step ::
    "('a \<Rightarrow> u32) \<Rightarrow> 'a hash_cmp \<Rightarrow> 'a table_call \<Rightarrow> 'a fr_hash_table \<Rightarrow> ('a table_answer \<times> 'a fr_hash_table) option" where
  "table_step hash cmp (Insert x) ht = map_option (\<lambda>(b, ht). (Inserted b, ht)) (fr_hash_table_insert hash cmp ht x)"
| "table_step hash cmp (Find x) ht = map_option (\<lambda>(d, ht). (Data d, ht)) (fr_hash_table_finddata hash cmp ht x)"
| "table_step hash cmp (Replace x) ht = map_option (\<lambda>(b, d, ht). (Replaced b d, ht)) (fr_hash_table_replace hash cmp ht x)"
| "table_step hash cmp (Yank x) ht = map_option (\<lambda>(d, ht). (Data d, ht)) (fr_hash_table_yank hash cmp ht x)"
| "table_step hash cmp Count ht = Some (Total (fr_hash_table_num_elements ht), ht)"

fun table_run ::
    "('a \<Rightarrow> u32) \<Rightarrow> 'a hash_cmp \<Rightarrow> 'a table_call list \<Rightarrow> 'a fr_hash_table \<Rightarrow> ('a table_answer list \<times> 'a fr_hash_table) option" where
  "table_run hash cmp [] ht = Some ([], ht)"
| "table_run hash cmp (c # cs) ht =
     (case table_step hash cmp c ht of
        None \<Rightarrow> None
      | Some (a, ht) \<Rightarrow> map_option (\<lambda>(as, ht). (a # as, ht)) (table_run hash cmp cs ht))"

text \<open>The same calls on a map.\<close>

fun map_step :: "('a \<Rightarrow> 'k) \<Rightarrow> 'a table_call \<Rightarrow> ('k \<rightharpoonup> 'a) \<Rightarrow> 'a table_answer \<times> ('k \<rightharpoonup> 'a)" where
  "map_step hash (Insert x) m = (if m (hash x) = None then (Inserted True, m(hash x \<mapsto> x)) else (Inserted False, m))"
| "map_step hash (Find x) m = (Data (m (hash x)), m)"
| "map_step hash (Replace x) m = (Replaced True (m (hash x)), m(hash x \<mapsto> x))"
| "map_step hash (Yank x) m = (Data (m (hash x)), m(hash x := None))"
| "map_step hash Count m = (Total (card (dom m)), m)"

fun map_run :: "('a \<Rightarrow> 'k) \<Rightarrow> 'a table_call list \<Rightarrow> ('k \<rightharpoonup> 'a) \<Rightarrow> 'a table_answer list \<times> ('k \<rightharpoonup> 'a)" where
  "map_run hash [] m = ([], m)"
| "map_run hash (c # cs) m =
     (let (a, m) = map_step hash c m; (as, m) = map_run hash cs m in (a # as, m))"

lemma table_step_rep:
  assumes "no_collision hash cmp U" and "call_data c \<subseteq> U" and "hash_rep hash U ht m"
  shows "\<exists>ht'. table_step hash cmp c ht = Some (fst (map_step hash c m), ht') \<and> hash_rep hash U ht' (snd (map_step hash c m))"
proof (cases c)
  case (Insert x)
  then show ?thesis using fr_hash_table_insert_rep [OF assms(1,3), of x] assms(2) by (cases "m (hash x)") auto
next
  case (Find x)
  then show ?thesis using fr_hash_table_finddata_rep [OF assms(1,3), of x] assms(2) by auto
next
  case (Replace x)
  then show ?thesis using fr_hash_table_replace_rep [OF assms(1,3), of x] assms(2) by auto
next
  case (Yank x)
  then show ?thesis using fr_hash_table_yank_rep [OF assms(1,3), of x] assms(2) by auto
next
  case Count
  then show ?thesis using assms(3) by (simp add: fr_hash_table_num_elements_def hash_rep_def)
qed

lemma table_run_rep:
  assumes "no_collision hash cmp U" and "\<Union> (call_data ` set cs) \<subseteq> U" and "hash_rep hash U ht m"
  shows "\<exists>ht'. table_run hash cmp cs ht = Some (fst (map_run hash cs m), ht') \<and> hash_rep hash U ht' (snd (map_run hash cs m))"
  using assms(2,3)
proof (induction cs arbitrary: ht m)
  case (Cons c cs)
  from table_step_rep [OF assms(1) _ Cons.prems(2), of c] Cons.prems(1) obtain ht' where
    "table_step hash cmp c ht = Some (fst (map_step hash c m), ht')" "hash_rep hash U ht' (snd (map_step hash c m))" by auto
  then show ?case using Cons.IH [of ht' "snd (map_step hash c m)"] Cons.prems(1) by (auto simp: split_beta Let_def)
qed simp

lemma fr_hash_table_free_rep:
  assumes "hash_rep hash U ht m"
  shows "distinct (map hash (fr_hash_table_free ht)) \<and> set (fr_hash_table_free ht) = ran m"
proof -
  obtain n where b: "buckets_ok hash U n (ht_buckets ht)" using assms by (auto simp: hash_rep_def)
  let ?bs = "ht_buckets ht"
  define chain where "chain i = (case ?bs ! i of None \<Rightarrow> [] | Some ch \<Rightarrow> ch)" for i
  have free: "fr_hash_table_free ht = map he_data (concat (map chain [0..<2 ^ n]))"
  proof -
    have "map (\<lambda>b. case b of None \<Rightarrow> [] | Some chain \<Rightarrow> map he_data chain) ?bs = map (map he_data \<circ> chain) [0..<2 ^ n]"
      using b by (intro nth_equalityI) (auto simp: chain_def buckets_ok_def split: option.split)
    then show ?thesis by (simp add: fr_hash_table_free_def map_concat)
  qed
  have ok: "chain_ok hash U (chain i) \<and> (\<forall>c \<in> set (chain i). unat (owner ?bs (he_key c AND mask n)) = i)" if "i < 2 ^ n" for i
    using b that by (auto simp: buckets_ok_def chain_def chain_ok_def split: option.split)
  have cs: "set (concat (map chain [0..<2 ^ n])) = entries ?bs"
  proof -
    have "c \<in> set (chain i) \<longleftrightarrow> (\<exists>ch. ?bs ! i = Some ch \<and> c \<in> set ch)" for c i
      by (cases "?bs ! i") (simp_all add: chain_def)
    then show ?thesis using b by (auto simp: entries_def buckets_ok_def)
  qed
  have "distinct (map he_key (concat (map chain [0..<k])))" if "k \<le> 2 ^ n" for k using that
  proof (induction k)
    case (Suc k)
    have "he_key c \<noteq> he_key d" if "i < k" "c \<in> set (chain i)" "d \<in> set (chain k)" for i c d
      using that ok [of i] ok [of k] Suc.prems by auto
    then show ?case using Suc chain_keys_distinct [of hash U "chain k"] ok [of k] by (auto simp: image_iff)
  qed simp
  moreover have "map hash (fr_hash_table_free ht) = map he_key (concat (map chain [0..<2 ^ n]))"
    unfolding free using ok by (auto simp: chain_ok_def entry_ok_def)
  ultimately have "distinct (map hash (fr_hash_table_free ht))" by simp
  moreover have "set (fr_hash_table_free ht) = ran m" using assms unfolding free set_map cs by (auto simp: hash_rep_def ran_def)
  ultimately show ?thesis by simp
qed

text \<open>C33: The hash table is a map. When no two different data of \<open>U\<close> have the same hash, every sequence of insertions, lookups,
  replacements, removals and counts returns on every call, and answers as the same calls on a map from hashes
  to data do, however often the table has grown and its chains were split.\<close>

theorem hash_table_refines_map:
  assumes "no_collision hash cmp U" and "\<Union> (call_data ` set calls) \<subseteq> U"
  shows "map_option fst (table_run hash cmp calls fr_hash_table_create) = Some (fst (map_run hash calls Map.empty))"
  using table_run_rep [OF assms fr_hash_table_create_rep] by auto

theorem hash_table_refines_map_witness:
  "map_option fst (table_run (\<lambda>x. x) None [Insert 7, Insert 7, Find 7, Yank 7, Find 7, Count] fr_hash_table_create) =
   Some [Inserted True, Inserted False, Data (Some 7), Data (Some 7), Data None, Total 0]"
  using hash_table_refines_map [of "\<lambda>x. x" None UNIV "[Insert 7, Insert 7, Find 7, Yank 7, Find 7, Count]"]
  by (simp add: no_collision_def)

text \<open>The walk and the release of a table see everything once. After such calls a walk whose callback never stops it returns,
  visits each entry exactly once and leaves the table as a map unchanged; freeing the table releases each entry exactly once.
  The bound is that of the type of the number of buckets.\<close>

theorem hash_table_walk_once:
  assumes "no_collision hash cmp U" and "\<Union> (call_data ` set calls) \<subseteq> U"
    and "table_run hash cmp calls fr_hash_table_create = Some (answers, ht)" and "ht_num_buckets ht < 2 ^ 31"
  defines "m \<equiv> snd (map_run hash calls Map.empty)"
  shows "(\<exists>ds ht'. fr_hash_table_walk collect ht [] = Some (0, ds, ht') \<and> distinct (map hash ds) \<and> set ds = ran m \<and>
      hash_rep hash U ht' m) \<and>
    distinct (map hash (fr_hash_table_free ht)) \<and> set (fr_hash_table_free ht) = ran m"
proof -
  have "hash_rep hash U ht m" using table_run_rep [OF assms(1,2) fr_hash_table_create_rep] assms(3) by (auto simp: m_def)
  then show ?thesis using fr_hash_table_walk_rep [of hash U ht m] fr_hash_table_free_rep [of hash U ht m] assms(4) by force
qed

theorem hash_table_walk_once_witness:
  "\<exists>ds ht'. fr_hash_table_walk collect (fr_hash_table_create :: u32 fr_hash_table) [] = Some (0, ds, ht') \<and> set ds = {}"
  using hash_table_walk_once [of "\<lambda>x. x" None UNIV "[]" "[]" fr_hash_table_create]
  by (auto simp: no_collision_def fr_hash_table_create_def FR_HASH_NUM_BUCKETS_def)

end
