(* ===== verification/Dict_Hash.thy ===== *)
theory Dict_Hash
  imports Hash_Map Dictionary
begin

text \<open>
  The hash and comparison callbacks of the dictionary's six tables (\<^verbatim>\<open>src/lib/dict.cpp\<close>) with the string comparison of
  \<^verbatim>\<open>src/lib/missing.cpp\<close>. Shown: entries that compare as equal have equal hashes; vendor numbers never
  collide, so that the vendor table is the map \<open>vendors_byvalue\<close>; attribute numbers do collide, and then an
  attribute can be lost.
\<close>

section \<open>Callbacks\<close>

definition islower :: "nat \<Rightarrow> bool" where "islower c \<longleftrightarrow> 97 \<le> c \<and> c \<le> 122"
definition toupper :: "nat \<Rightarrow> nat" where "toupper c = (if islower c then c - 32 else c)"

text \<open>The octet at the front of a C string, 0 at its end.\<close>

definition first_octet :: "string \<Rightarrow> nat" where
  "first_octet s = (case s of [] \<Rightarrow> 0 | c # _ \<Rightarrow> of_char c)"

fun strncasecmp :: "string \<Rightarrow> string \<Rightarrow> nat \<Rightarrow> int" where
  "strncasecmp s1 s2 0 = 0"
| "strncasecmp s1 s2 (Suc n) =
     (if first_octet s1 = 0 \<and> first_octet s2 = 0 then 0
      else
        let c1 = first_octet s1; c2 = first_octet s2;
            c1 = (if islower c1 then toupper c1 else c1); c2 = (if islower c2 then toupper c2 else c2);
            dif = int c1 - int c2
        in if dif \<noteq> 0 then dif else strncasecmp (tl s1) (tl s2) n)"

definition strcasecmp :: "string \<Rightarrow> string \<Rightarrow> int" where
  "strcasecmp s1 s2 =
     (let l1 = length s1; l2 = length s2; l1 = (if l1 < l2 then l2 else l1) in strncasecmp s1 s2 l1)"

definition dict_hashname :: "string \<Rightarrow> u32" where
  "dict_hashname nm = foldl (\<lambda>hash p. (hash * FNV_MAGIC_PRIME) XOR (of_char (tolower p) AND 0xff)) 0x811c9dc5 nm"

definition dict_attr_name_hash :: "dict_attr \<Rightarrow> u32" where
  "dict_attr_name_hash attr = dict_hashname (da_name attr)"

definition dict_attr_name_cmp :: "dict_attr \<Rightarrow> dict_attr \<Rightarrow> int" where
  "dict_attr_name_cmp a b = strcasecmp (da_name a) (da_name b)"

definition dict_attr_value_hash :: "dict_attr \<Rightarrow> u32" where
  "dict_attr_value_hash attr = fr_hash_update (le32_bytes (da_attr attr)) (fr_hash (le32_bytes (da_vendor attr)))"

text \<open>\<^verbatim>\<open>vendor\<close> is a signed integer, \<^verbatim>\<open>attr\<close> an unsigned one; the difference is returned as a signed one.\<close>

definition dict_attr_value_cmp :: "dict_attr \<Rightarrow> dict_attr \<Rightarrow> int" where
  "dict_attr_value_cmp a b =
     (if sint (da_vendor a) < sint (da_vendor b) then -1
      else if sint (da_vendor a) > sint (da_vendor b) then 1
      else sint (da_attr a - da_attr b))"

definition dict_vendor_name_hash :: "dict_vendor \<Rightarrow> u32" where
  "dict_vendor_name_hash dv = dict_hashname (dv_name dv)"

definition dict_vendor_name_cmp :: "dict_vendor \<Rightarrow> dict_vendor \<Rightarrow> int" where
  "dict_vendor_name_cmp a b = strcasecmp (dv_name a) (dv_name b)"

definition dict_vendor_value_hash :: "dict_vendor \<Rightarrow> u32" where
  "dict_vendor_value_hash dv = fr_hash (le32_bytes (dv_vendorpec dv))"

definition dict_vendor_value_cmp :: "dict_vendor \<Rightarrow> dict_vendor \<Rightarrow> int" where
  "dict_vendor_value_cmp a b = sint (dv_vendorpec a - dv_vendorpec b)"

definition dict_value_name_hash :: "dict_value \<Rightarrow> u32" where
  "dict_value_name_hash dval = fr_hash_update (le32_bytes (dval_attr dval)) (dict_hashname (dval_name dval))"

definition dict_value_name_cmp :: "dict_value \<Rightarrow> dict_value \<Rightarrow> int" where
  "dict_value_name_cmp a b =
     (let rcode = sint (dval_attr a - dval_attr b)
      in if rcode \<noteq> 0 then rcode else strcasecmp (dval_name a) (dval_name b))"

definition dict_value_value_hash :: "dict_value \<Rightarrow> u32" where
  "dict_value_value_hash dval = fr_hash_update (le32_bytes (dval_value dval)) (fr_hash (le32_bytes (dval_attr dval)))"

definition dict_value_value_cmp :: "dict_value \<Rightarrow> dict_value \<Rightarrow> int" where
  "dict_value_value_cmp a b =
     (let rcode = sint (dval_attr a - dval_attr b)
      in if rcode \<noteq> 0 then rcode else sint (dval_value a - dval_value b))"

section \<open>Equal entries have equal hashes\<close>

definition c_string :: "string \<Rightarrow> bool" where
  "c_string s \<longleftrightarrow> char_of (0 :: nat) \<notin> set s"

lemma of_char_0_iff: "(of_char c :: nat) = 0 \<longleftrightarrow> c = char_of (0 :: nat)"
  by (metis char_of_char mod_0 of_char_of)

lemma tolower_toupper_iff:
  "tolower c = tolower d \<longleftrightarrow> toupper (of_char c) = toupper (of_char d)"
proof -
  define m n :: nat where "m = of_char c" and "n = of_char d"
  have cd: "c = char_of m" "d = char_of n" "m < 256" "n < 256" by (simp_all add: m_def n_def)
  have "tolower c = char_of (if 65 \<le> m \<and> m \<le> 90 then m + 32 else m)" "tolower d = char_of (if 65 \<le> n \<and> n \<le> 90 then n + 32 else n)"
    by (simp_all add: tolower_def Let_def flip: m_def n_def) (simp_all add: cd(1,2))
  moreover have "(char_of i = (char_of j :: char)) \<longleftrightarrow> i = j" if "i < 256" "j < 256" for i j :: nat
    using that by (metis char_of_mod_256 mod_less of_char_of)
  ultimately have "tolower c = tolower d \<longleftrightarrow>
      (if 65 \<le> m \<and> m \<le> 90 then m + 32 else m) = (if 65 \<le> n \<and> n \<le> 90 then n + 32 else n)"
    using cd(3,4) by simp
  also have "\<dots> \<longleftrightarrow> toupper m = toupper n" by (auto simp: toupper_def islower_def)
  finally show ?thesis by (simp add: m_def n_def)
qed

lemma strncasecmp_eq_0:
  "c_string s \<Longrightarrow> c_string t \<Longrightarrow> length s \<le> n \<Longrightarrow> length t \<le> n \<Longrightarrow> strncasecmp s t n = 0 \<longleftrightarrow> dict_key s = dict_key t"
proof (induction n arbitrary: s t)
  case (Suc n)
  have nz: "first_octet (c # u) \<noteq> 0" "(if islower (of_char c) then toupper (of_char c) else of_char c) \<noteq> (0 :: nat)"
    if "c_string (c # u)" for c u
  proof -
    have "(of_char c :: nat) \<noteq> 0" using that by (auto simp: c_string_def of_char_0_iff)
    then show "first_octet (c # u) \<noteq> 0" "(if islower (of_char c) then toupper (of_char c) else of_char c) \<noteq> (0 :: nat)"
      by (auto simp: first_octet_def toupper_def islower_def)
  qed
  have up: "(if islower x then toupper x else x) = toupper x" for x by (simp add: toupper_def)
  show ?case
  proof (cases s)
    case Nil
    then show ?thesis using nz Suc.prems(2) by (cases t) (auto simp: dict_key_def first_octet_def islower_def Let_def)
  next
    case (Cons c u)
    show ?thesis
    proof (cases t)
      case Nil
      then show ?thesis using nz Suc.prems(1) Cons by (auto simp: dict_key_def first_octet_def islower_def Let_def)
    next
      case t: (Cons d v)
      have "c_string u" "c_string v" using Suc.prems Cons t by (simp_all add: c_string_def)
      then show ?thesis using Suc.IH [of u v] Suc.prems Cons t nz [of c u] tolower_toupper_iff [of c d]
        by (simp add: first_octet_def up dict_key_def Let_def)
    qed
  qed
qed (simp add: dict_key_def)

lemma strcasecmp_eq_0: "c_string s \<Longrightarrow> c_string t \<Longrightarrow> strcasecmp s t = 0 \<longleftrightarrow> dict_key s = dict_key t"
  by (simp add: strcasecmp_def strncasecmp_eq_0 Let_def)

lemma dict_hashname_key: "dict_key s = dict_key t \<Longrightarrow> dict_hashname s = dict_hashname t"
proof -
  have "dict_hashname s = foldl (\<lambda>hash p. (hash * FNV_MAGIC_PRIME) XOR (of_char p AND 0xff)) 0x811c9dc5 (dict_key s)" for s
    by (simp add: dict_hashname_def dict_key_def foldl_map)
  then show "dict_key s = dict_key t \<Longrightarrow> ?thesis" by simp
qed

lemma name_hash: "c_string s \<Longrightarrow> c_string t \<Longrightarrow> strcasecmp s t = 0 \<Longrightarrow> dict_hashname s = dict_hashname t"
  by (rule dict_hashname_key) (simp add: strcasecmp_eq_0)

lemma sint_eq_iff: "sint (v :: u32) = sint w \<longleftrightarrow> v = w"
  by (simp add: word_eq_iff_signed [where ?'a = int])

lemma sint_0_iff [simp]: "sint (w :: u32) = 0 \<longleftrightarrow> w = 0"
  using sint_eq_iff [of w 0] by simp

text \<open>The hash and the comparison callback of each of the six dictionary tables agree: entries that compare as equal, names
  in any case, have the same hash, so that looking for one finds the bucket of the other.\<close>

theorem dict_hash_consistent:
  assumes "c_string (da_name a)" "c_string (da_name b)" "c_string (dv_name v)" "c_string (dv_name w)"
    "c_string (dval_name x)" "c_string (dval_name y)"
  shows "(dict_attr_name_cmp a b = 0 \<longrightarrow> dict_attr_name_hash a = dict_attr_name_hash b) \<and>
    (dict_attr_value_cmp a b = 0 \<longrightarrow> dict_attr_value_hash a = dict_attr_value_hash b) \<and>
    (dict_vendor_name_cmp v w = 0 \<longrightarrow> dict_vendor_name_hash v = dict_vendor_name_hash w) \<and>
    (dict_vendor_value_cmp v w = 0 \<longrightarrow> dict_vendor_value_hash v = dict_vendor_value_hash w) \<and>
    (dict_value_name_cmp x y = 0 \<longrightarrow> dict_value_name_hash x = dict_value_name_hash y) \<and>
    (dict_value_value_cmp x y = 0 \<longrightarrow> dict_value_value_hash x = dict_value_value_hash y)"
proof (intro conjI impI)
  assume "dict_attr_name_cmp a b = 0"
  then show "dict_attr_name_hash a = dict_attr_name_hash b"
    using name_hash [OF assms(1,2)] by (simp add: dict_attr_name_cmp_def dict_attr_name_hash_def)
next
  assume "dict_attr_value_cmp a b = 0"
  then show "dict_attr_value_hash a = dict_attr_value_hash b"
    by (auto simp: dict_attr_value_cmp_def dict_attr_value_hash_def sint_eq_iff not_less order.antisym split: if_split_asm)
next
  assume "dict_vendor_name_cmp v w = 0"
  then show "dict_vendor_name_hash v = dict_vendor_name_hash w"
    using name_hash [OF assms(3,4)] by (simp add: dict_vendor_name_cmp_def dict_vendor_name_hash_def)
next
  assume "dict_vendor_value_cmp v w = 0"
  then show "dict_vendor_value_hash v = dict_vendor_value_hash w" by (simp add: dict_vendor_value_cmp_def dict_vendor_value_hash_def)
next
  assume "dict_value_name_cmp x y = 0"
  then show "dict_value_name_hash x = dict_value_name_hash y"
    using name_hash [OF assms(5,6)] by (simp add: dict_value_name_cmp_def dict_value_name_hash_def Let_def split: if_split_asm)
next
  assume "dict_value_value_cmp x y = 0"
  then show "dict_value_value_hash x = dict_value_value_hash y"
    by (simp add: dict_value_value_cmp_def dict_value_value_hash_def Let_def split: if_split_asm)
qed

theorem dict_hash_consistent_witness:
  "dict_attr_name_hash \<lparr>da_name = ''User'', da_attr = 1, da_type = PW_TYPE_STRING, da_vendor = 0, da_flags = flags0\<rparr> =
   dict_attr_name_hash \<lparr>da_name = ''uSER'', da_attr = 1, da_type = PW_TYPE_STRING, da_vendor = 0, da_flags = flags0\<rparr>"
proof -
  let ?a = "\<lparr>da_name = ''User'', da_attr = 1, da_type = PW_TYPE_STRING, da_vendor = 0, da_flags = flags0\<rparr>"
  let ?b = "\<lparr>da_name = ''uSER'', da_attr = 1, da_type = PW_TYPE_STRING, da_vendor = 0, da_flags = flags0\<rparr>"
  let ?v = "\<lparr>dv_name = [], dv_vendorpec = 0, dv_type = 1, dv_length = 1, dv_flags = False\<rparr>"
  let ?x = "\<lparr>dval_name = [], dval_attr = 0, dval_value = 0\<rparr>"
  have "dict_attr_name_cmp ?a ?b = 0"
    by (simp add: dict_attr_name_cmp_def strcasecmp_def first_octet_def islower_def toupper_def eval_nat_numeral Let_def)
  moreover have "c_string ''User''" "c_string ''uSER''" "c_string []" by (simp_all add: c_string_def char_of_def)
  ultimately show ?thesis using dict_hash_consistent [of ?a ?b ?v ?v ?x ?x] by simp
qed

section \<open>Vendor numbers do not collide\<close>

lemma high_differs:
  fixes z :: u32 and c d :: nat
  assumes "d < c" and "c < 256"
  shows "drop_bit 8 ((z + of_nat c) * FNV_MAGIC_PRIME) \<noteq> drop_bit 8 ((z + of_nat d) * FNV_MAGIC_PRIME)"
proof
  let ?x = "(z + of_nat c) * FNV_MAGIC_PRIME" and ?y = "(z + of_nat d) * FNV_MAGIC_PRIME"
  define D where "D = (c - d) * 16777619"
  have "1 \<le> c - d" "c - d \<le> 255" using assms by simp_all
  then have D: "16777619 \<le> D" "D \<le> 255 * 16777619" unfolding D_def by simp_all
  have "?x = ?y + of_nat (c - d) * FNV_MAGIC_PRIME" using assms(1) by (simp add: of_nat_diff algebra_simps)
  then have x: "?x = ?y + of_nat D" by (simp add: D_def FNV_MAGIC_PRIME_def)
  have "unat (of_nat D :: u32) = D" using D(2) by (simp add: unat_of_nat take_bit_nat_eq_self)
  then have ux: "unat ?x = (unat ?y + D) mod 2 ^ 32" unfolding x by (simp add: unat_word_ariths(1))
  assume "drop_bit 8 ?x = drop_bit 8 ?y"
  then have "unat (drop_bit 8 ?x) = unat (drop_bit 8 ?y)" by simp
  then have high: "unat ?x div 256 = unat ?y div 256"
    unfolding unat_drop_bit by simp
  have y: "unat ?y < 2 ^ 32" using unsigned_less [of ?y] by simp
  show False
  proof (cases "unat ?y + D < 2 ^ 32")
    case True
    then have "unat ?x = unat ?y + D" using ux by simp
    then show False using high D(1) by linarith
  next
    case False
    then have "unat ?x = (unat ?y + D - 2 ^ 32) mod 2 ^ 32" using ux by (simp add: le_mod_geq)
    moreover have "D < 2 ^ 32" using D(2) by simp
    from add_strict_mono [OF y this] have "unat ?y + D - 2 ^ 32 < 2 ^ 32" by linarith
    ultimately have "unat ?x + 4294967296 = unat ?y + D" using False by simp
    then show False using high D(2) by linarith
  qed
qed

lemma xor_low_byte: "w XOR ucast (b :: byte) = (w AND NOT (mask 8)) + of_nat (unat (ucast w XOR b))" for w :: u32
proof -
  have "of_nat (unat (ucast w XOR b :: byte)) = (ucast (ucast w XOR b :: byte) :: u32)" by simp
  moreover have "(w AND NOT (mask 8)) + (ucast (ucast w XOR b :: byte) :: u32) = (w AND NOT (mask 8)) OR ucast (ucast w XOR b :: byte)"
    by (rule disjunctive_add_eq_or) (auto simp: bit_eq_iff bit_simps dest: bit_imp_le_length)
  moreover have "\<dots> = w XOR ucast b" by (rule bit_word_eqI) (auto simp: bit_simps dest: bit_imp_le_length)
  ultimately show ?thesis by simp
qed

lemma xor_cancel: "a XOR b = a XOR c \<longleftrightarrow> b = c" for a :: "'a :: len word"
proof
  assume "a XOR b = a XOR c"
  from arg_cong [OF this, of "\<lambda>x. a XOR x"] show "b = c" by (simp add: xor.assoc [symmetric])
qed simp

lemma two_bytes_inj:
  assumes "fr_hash_update [b, c] h = fr_hash_update [b', c'] h"
  shows "b = b' \<and> c = c'"
proof -
  let ?w = "h * FNV_MAGIC_PRIME"
  define z where "z = ?w AND NOT (mask 8)"
  define g :: "byte \<Rightarrow> nat" where "g b = unat (ucast ?w XOR b)" for b
  let ?f = "\<lambda>b :: byte. (?w XOR ucast b) * FNV_MAGIC_PRIME"
  have eq: "?f b XOR ucast c = ?f b' XOR ucast c'" using assms by simp
  have "drop_bit 8 (x XOR ucast (c :: byte)) = drop_bit 8 x" for x :: u32 and c
    by (rule bit_word_eqI) (auto simp: bit_simps dest: bit_imp_le_length)
  with eq have "drop_bit 8 (?f b) = drop_bit 8 (?f b')" by metis
  then have same: "drop_bit 8 ((z + of_nat (g b)) * FNV_MAGIC_PRIME) = drop_bit 8 ((z + of_nat (g b')) * FNV_MAGIC_PRIME)"
    by (simp only: xor_low_byte [of ?w] z_def g_def)
  have lt: "g b < 256" for b using unsigned_less [of "ucast ?w XOR b", where ?'a = nat] by (simp add: g_def)
  have "g b = g b'"
  proof (rule linorder_cases [of "g b" "g b'"])
    assume "g b < g b'"
    from high_differs [OF this lt, of z] same show ?thesis by simp
  next
    assume "g b' < g b"
    from high_differs [OF this lt, of z] same show ?thesis by simp
  qed
  then have "unat (ucast ?w XOR b) = unat (ucast ?w XOR b')" by (simp only: g_def)
  then have "ucast ?w XOR b = ucast ?w XOR b'" by (simp only: word_unat_eq_iff)
  then have b: "b = b'" by (simp add: xor_cancel)
  with eq have "(ucast c :: u32) = ucast c'" by (simp add: xor_cancel)
  then have "(ucast (ucast c :: u32) :: byte) = ucast (ucast c' :: u32)" by simp
  then show ?thesis using b by simp
qed

lemma fr_hash_vendor_inj:
  fixes v w :: u32
  assumes "v < 65536" and "w < 65536" and "fr_hash (le32_bytes v) = fr_hash (le32_bytes w)"
  shows "v = w"
proof -
  have high: "(ucast (drop_bit 16 x) :: byte) = 0 \<and> (ucast (drop_bit 24 x) :: byte) = 0" if "x < 65536" for x :: u32
  proof -
    have "drop_bit s x = 0" if "s = 16 \<or> s = 24" for s
      using that \<open>x < 65536\<close> by (auto simp: word_unat_eq_iff unat_drop_bit word_less_nat_alt)
    then show ?thesis by simp
  qed
  have split: "fr_hash (le32_bytes x) = fr_hash_update [0, 0] (fr_hash_update [ucast x, ucast (drop_bit 8 x)] 0x811c9dc5)"
    if "x < 65536" for x :: u32
    using high [OF that] by (simp add: fr_hash_def le32_bytes_def)
  have "fr_hash_update [ucast v, ucast (drop_bit 8 v)] 0x811c9dc5 = fr_hash_update [ucast w, ucast (drop_bit 8 w)] 0x811c9dc5"
    using assms(3) unfolding split [OF assms(1)] split [OF assms(2)] by (simp only: fr_hash_update_eq_iff)
  from two_bytes_inj [OF this] have "(ucast v :: byte) = ucast w" "(ucast (drop_bit 8 v) :: byte) = ucast (drop_bit 8 w)" by auto
  moreover have "x = ucast (ucast x :: byte) OR push_bit 8 (ucast (ucast (drop_bit 8 x) :: byte))" if "x < 65536" for x :: u32
  proof (rule bit_word_eqI)
    fix n :: nat
    assume "n < LENGTH(32)"
    have "\<not> bit x n" if "16 \<le> n" for n
    proof -
      have "drop_bit 16 x = 0" using \<open>x < 65536\<close> by (simp add: word_unat_eq_iff unat_drop_bit word_less_nat_alt)
      then have "\<not> bit (drop_bit 16 x) (n - 16)" by simp
      then show ?thesis using that by (simp add: bit_drop_bit_eq)
    qed
    then show "bit x n = bit ((ucast (ucast x :: byte) :: u32) OR push_bit 8 (ucast (ucast (drop_bit 8 x) :: byte))) n"
      by (cases "n < 8"; cases "n < 16") (auto simp: bit_simps)
  qed
  ultimately show ?thesis using assms(1,2) by metis
qed

text \<open>Every vendor number \<open>dict_addvendor\<close> accepts.\<close>

definition vendors :: "dict_vendor set" where
  "vendors = {dv. dv_vendorpec dv < 65536}"

lemma vendor_hash_iff:
  "v \<in> vendors \<Longrightarrow> w \<in> vendors \<Longrightarrow> dict_vendor_value_hash v = dict_vendor_value_hash w \<longleftrightarrow> dv_vendorpec v = dv_vendorpec w"
  using fr_hash_vendor_inj by (auto simp: vendors_def dict_vendor_value_hash_def)

interpretation vendor_table: hash_domain dict_vendor_value_hash "Some dict_vendor_value_cmp" vendors
  by unfold_locales (auto simp: no_collision_def vendor_hash_iff dict_vendor_value_cmp_def)

section \<open>The vendor table\<close>

text \<open>Two maps that hold the same data, under keys that tell the data of \<open>U\<close> apart in the same way.\<close>

definition same_data :: "('a \<Rightarrow> 'k) \<Rightarrow> ('a \<Rightarrow> 'l) \<Rightarrow> ('k \<rightharpoonup> 'a) \<Rightarrow> ('l \<rightharpoonup> 'a) \<Rightarrow> 'a set \<Rightarrow> bool" where
  "same_data f g m m' D \<longleftrightarrow> inj_on f D \<and> inj_on g D \<and> (\<forall>k d. m k = Some d \<longleftrightarrow> d \<in> D \<and> f d = k) \<and>
     (\<forall>k d. m' k = Some d \<longleftrightarrow> d \<in> D \<and> g d = k)"

lemma same_data_lookup:
  assumes "same_data f g m m' D" and "D \<subseteq> U" and "x \<in> U" and "\<And>x y. x \<in> U \<Longrightarrow> y \<in> U \<Longrightarrow> f x = f y \<longleftrightarrow> g x = g y"
  shows "m' (g x) = m (f x)"
proof (cases "m (f x)")
  case None
  then have "m' (g x) \<noteq> Some d" for d using assms unfolding same_data_def by (metis option.distinct(1) subsetD)
  then show ?thesis using None by (cases "m' (g x)") auto
next
  case (Some d)
  then show ?thesis using assms unfolding same_data_def by (metis subsetD)
qed

lemma same_data_card: "same_data f g m m' D \<Longrightarrow> card (dom m') = card (dom m)"
proof -
  assume s: "same_data f g m m' D"
  have "dom m = f ` D" "dom m' = g ` D" using s by (auto simp: same_data_def dom_def)
  then show ?thesis using s by (simp add: same_data_def card_image)
qed

lemma same_data_put:
  assumes "same_data f g m m' D" and "D \<subseteq> U" and "x \<in> U" and "\<And>x y. x \<in> U \<Longrightarrow> y \<in> U \<Longrightarrow> f x = f y \<longleftrightarrow> g x = g y"
  shows "same_data f g (m(f x \<mapsto> x)) (m'(g x \<mapsto> x)) (insert x {d \<in> D. f d \<noteq> f x})"
    and "same_data f g (m(f x := None)) (m'(g x := None)) {d \<in> D. f d \<noteq> f x}"
proof -
  have "g d = g x \<longleftrightarrow> f d = f x" "g x = g d \<longleftrightarrow> f x = f d" if "d \<in> D" for d
    using assms(2,3) assms(4) [of d x] assms(4) [of x d] that by auto
  then show "same_data f g (m(f x \<mapsto> x)) (m'(g x \<mapsto> x)) (insert x {d \<in> D. f d \<noteq> f x})"
    and "same_data f g (m(f x := None)) (m'(g x := None)) {d \<in> D. f d \<noteq> f x}"
    using assms(1) by (auto simp: same_data_def inj_on_def)
qed

lemma map_run_key:
  assumes "\<And>x y. x \<in> U \<Longrightarrow> y \<in> U \<Longrightarrow> f x = f y \<longleftrightarrow> g x = g y" and "\<Union> (call_data ` set cs) \<subseteq> U"
    and "same_data f g m m' D" and "D \<subseteq> U"
  shows "fst (map_run g cs m') = fst (map_run f cs m)"
  using assms(2-)
proof (induction cs arbitrary: m m' D)
  case (Cons c cs)
  have "fst (map_step g c m') = fst (map_step f c m) \<and>
    (\<exists>D. same_data f g (snd (map_step f c m)) (snd (map_step g c m')) D \<and> D \<subseteq> U)"
  proof (cases "\<exists>x. call_data c = {x}")
    case True
    then obtain x where x: "call_data c = {x}" "x \<in> U" using Cons.prems(1) by auto
    note look = same_data_lookup [OF Cons.prems(2,3) x(2) assms(1)]
    note put = same_data_put [OF Cons.prems(2,3) x(2) assms(1)]
    have "insert x {d \<in> D. f d \<noteq> f x} \<subseteq> U" "{d \<in> D. f d \<noteq> f x} \<subseteq> U" using x(2) Cons.prems(3) by auto
    then show ?thesis using x(1) look put Cons.prems(2,3) by (cases c) (auto simp del: fun_upd_apply)
  next
    case False
    then have "c = Count" by (cases c) auto
    then show ?thesis using same_data_card [OF Cons.prems(2)] Cons.prems(2,3) by auto
  qed
  then show ?case using Cons.IH Cons.prems(1) by (auto simp: split_beta Let_def)
qed simp

text \<open>C34: The vendor table is the map from vendor numbers to vendors that the dictionary relies on: for all vendors \<open>dict_addvendor\<close> can
  make, whatever the calls, the hash table answers as that map. No two of the 65536 numbers have the same hash.\<close>

theorem vendor_table_exact:
  assumes "\<Union> (call_data ` set calls) \<subseteq> vendors"
  shows "map_option fst (table_run dict_vendor_value_hash (Some dict_vendor_value_cmp) calls fr_hash_table_create) =
    Some (fst (map_run dv_vendorpec calls Map.empty))"
proof -
  have "\<exists>ht. table_run dict_vendor_value_hash (Some dict_vendor_value_cmp) calls fr_hash_table_create =
      Some (fst (map_run dict_vendor_value_hash calls Map.empty), ht)"
    using table_run_rep [OF vendor_table.no_collision assms vendor_table.tbl.create] by blast
  moreover have "fst (map_run dv_vendorpec calls Map.empty) = fst (map_run dict_vendor_value_hash calls Map.empty)"
    by (rule map_run_key [OF vendor_hash_iff assms, where D = "{}"]) (simp_all add: same_data_def)
  ultimately show ?thesis by auto
qed

theorem vendor_table_exact_witness:
  "let v = \<lparr>dv_name = ''USR'', dv_vendorpec = 429, dv_type = 4, dv_length = 0, dv_flags = False\<rparr>;
       w = \<lparr>dv_name = ''Cisco'', dv_vendorpec = 9, dv_type = 1, dv_length = 1, dv_flags = False\<rparr>
   in map_option fst (table_run dict_vendor_value_hash (Some dict_vendor_value_cmp) [Replace v, Replace w, Find v] fr_hash_table_create) =
      Some [Replaced True None, Replaced True None, Data (Some v)]"
proof -
  let ?v = "\<lparr>dv_name = ''USR'', dv_vendorpec = 429, dv_type = 4, dv_length = 0, dv_flags = False\<rparr>"
  let ?w = "\<lparr>dv_name = ''Cisco'', dv_vendorpec = 9, dv_type = 1, dv_length = 1, dv_flags = False\<rparr>"
  show ?thesis using vendor_table_exact [of "[Replace ?v, Replace ?w, Find ?v]"] by (simp add: vendors_def Let_def del: table_run.simps)
qed

section \<open>Attribute numbers collide\<close>

definition vendor_attr :: "string \<Rightarrow> u32 \<Rightarrow> u32 \<Rightarrow> dict_attr" where
  "vendor_attr nm vnd val = \<lparr>da_name = nm, da_attr = val OR push_bit 16 vnd, da_type = PW_TYPE_STRING, da_vendor = vnd, da_flags = flags0\<rparr>"

lemma collision_hash:
  "dict_attr_value_hash (vendor_attr nm 1335 199) = 0xec474378" "dict_attr_value_hash (vendor_attr nm 2698 91) = 0xec474378"
  by (simp_all add: dict_attr_value_hash_def vendor_attr_def le32_bytes_def fr_hash_def FNV_MAGIC_PRIME_def)

lemma collision_cmp:
  "dict_attr_value_cmp (vendor_attr nm 1335 199) (vendor_attr nm' 1335 199) = 0"
  "dict_attr_value_cmp (vendor_attr nm 2698 91) (vendor_attr nm' 1335 199) = 1"
  by (simp_all add: dict_attr_value_cmp_def vendor_attr_def)

text \<open>C35: Attributes whose numbers collide are lost. Attribute 199 of vendor 1335 and attribute 91 of vendor 2698 have the same hash.
  Stored in this order, the way \<open>dict_addattr\<close> stores them, both are reported as stored, but the second is never found again, and
  storing it once more makes a second copy.\<close>

theorem attr_collision_lost:
  "let a = vendor_attr ''A'' 1335 199; b = vendor_attr ''B'' 2698 91
   in map_option fst (table_run dict_attr_value_hash (Some dict_attr_value_cmp) [Replace a, Replace b, Find a, Find b, Replace b, Count]
        fr_hash_table_create) =
      Some [Replaced True None, Replaced True None, Data (Some a), Data None, Replaced True None, Total 3]"
proof -
  define a b where "a = vendor_attr ''A'' 1335 199" and "b = vendor_attr ''B'' 2698 91"
  have facts: "dict_attr_value_hash a = 0xec474378" "dict_attr_value_hash b = 0xec474378"
    "dict_attr_value_cmp a a = 0" "dict_attr_value_cmp b a = 1"
    by (simp_all add: a_def b_def collision_hash collision_cmp)
  define t :: "dict_attr fr_hash_table" where "t = fr_hash_table_create"
  have t: "ht_mask t = mask 6" "ht_mask t = 63" "ht_num_elements t = 0" "ht_next_grow t = 160"
    by (simp_all add: t_def fr_hash_table_create_def FR_HASH_NUM_BUCKETS_def mask_eq_exp_minus_1 push_bit_eq_mult drop_bit_eq_div)
  have rep: "hash_rep dict_attr_value_hash UNIV t Map.empty" by (simp add: t_def fr_hash_table_create_rep)
  then obtain n where n: "buckets_ok dict_attr_value_hash UNIV n (ht_buckets t)" "ht_num_buckets t = 2 ^ n" by (auto simp: hash_rep_def)
  from n(2) have "(2 :: nat) ^ n = 2 ^ 6" by (simp add: t_def fr_hash_table_create_def FR_HASH_NUM_BUCKETS_def)
  then have "n = 6" using power_inject_exp [of "2 :: nat" n 6] by simp
  with n(1) have ok: "buckets_ok dict_attr_value_hash UNIV 6 (ht_buckets t)" by simp
  have "entries (ht_buckets t) = {}" using rep by (auto simp: hash_rep_def)
  moreover obtain bs where bs: "bucket_init t 56 = Some (t\<lparr>ht_buckets := bs\<rparr>)" "buckets_ok dict_attr_value_hash UNIV 6 bs"
      "entries bs = entries (ht_buckets t)" "bs ! 56 \<noteq> None"
  proof (rule bucket_init_ok [OF ok t(1), of 56])
    show "unat (56 :: u32) < 2 ^ 6" by simp
  qed (use that in simp)
  ultimately have "entries bs = {}" by simp
  have len: "length bs = 64" using bs(2) by (simp add: buckets_ok_def)
  obtain ch where ch: "bs ! 56 = Some ch" using bs(4) by blast
  have "c \<in> entries bs" if "c \<in> set ch" for c using ch that len unfolding entries_def by (auto intro!: exI [of _ 56])
  with \<open>entries bs = {}\<close> ch len have chain: "bs ! 56 = Some []" "length bs = 64" by (cases ch; auto)+
  have filled: "bucket_init ht 56 = Some ht" if "ht_buckets ht ! 56 \<noteq> None" for ht :: "dict_attr fr_hash_table"
    using that by (auto simp: bucket_init_def)
  show ?thesis unfolding a_def [symmetric] b_def [symmetric] t_def [symmetric] Let_def
    by (simp add: facts t(2-4) bs(1) chain filled Let_def fr_hash_table_replace_def fr_hash_table_find_def fr_hash_table_insert_def
        fr_hash_table_finddata_def fr_hash_table_num_elements_def node_data_def)
qed

end
