(* ===== verification/Ip_Address.thy ===== *)
theory Ip_Address
  imports Packet_Exchange "HOL-Library.Product_Lexorder" "HOL-Library.List_Lexorder"
begin

text \<open>
  Addresses: comparison and conversion of \<^verbatim>\<open>src/lib/misc.cpp\<close>, the comparison and the hashes of packets of
  \<^verbatim>\<open>src/lib/packet.cpp\<close>. Shown: on addresses of the two families the comparisons are the lexicographic orders of
  keys; an address survives the conversion to a socket address and back.
\<close>

section \<open>Comparison\<close>

text \<open>\<^verbatim>\<open>memcmp\<close> of two areas of the same size: the difference of the first octets that differ.\<close>

fun memcmp :: "byte list \<Rightarrow> byte list \<Rightarrow> int" where
  "memcmp (x # xs) (y # ys) = (if x = y then memcmp xs ys else uint x - uint y)"
| "memcmp _ _ = 0"

definition AF_UNSPEC :: int where "AF_UNSPEC = 0"

definition fr_ipaddr_cmp :: "fr_ipaddr \<Rightarrow> fr_ipaddr \<Rightarrow> int" where
  "fr_ipaddr_cmp a b =
     (if ip_af a < ip_af b then - 1
      else if ip_af a > ip_af b then 1
      else if ip_af a = AF_INET then memcmp (take 4 (ip_addr a)) (take 4 (ip_addr b))
      else if ip_af a = AF_INET6 then
        if ip_scope a < ip_scope b then - 1
        else if ip_scope a > ip_scope b then 1
        else memcmp (take 16 (ip_addr a)) (take 16 (ip_addr b))
      else - 1)"

definition fr_inaddr_any :: "fr_ipaddr \<Rightarrow> int" where
  "fr_inaddr_any ipaddr =
     (if ip_af ipaddr = AF_INET then if take 4 (ip_addr ipaddr) = zeros 4 then 1 else 0
      else if ip_af ipaddr = AF_INET6 then if take 16 (ip_addr ipaddr) = zeros 16 then 1 else 0
      else - 1)"

section \<open>Socket addresses\<close>

text \<open>The fields of \<^verbatim>\<open>sockaddr_in\<close> and \<^verbatim>\<open>sockaddr_in6\<close>; the port is in network order.\<close>

record sockaddr_storage =
  ss_family :: int
  ss_port :: u16
  ss_addr :: "byte list"
  ss_scope :: u32

definition htons :: "u16 \<Rightarrow> u16" where
  "htons w = push_bit 8 w OR drop_bit 8 w"

definition fr_ipaddr2sockaddr :: "fr_ipaddr \<Rightarrow> nat \<Rightarrow> (sockaddr_storage \<times> nat) option" where
  "fr_ipaddr2sockaddr ipaddr port =
     (if ip_af ipaddr = AF_INET then
        Some (\<lparr>ss_family = AF_INET, ss_port = htons (of_nat port), ss_addr = take 4 (ip_addr ipaddr), ss_scope = 0\<rparr>, 16)
      else if ip_af ipaddr = AF_INET6 then
        Some (\<lparr>ss_family = AF_INET6, ss_port = htons (of_nat port), ss_addr = take 16 (ip_addr ipaddr), ss_scope = ip_scope ipaddr\<rparr>, 28)
      else None)"

text \<open>The second argument of the result is what \<^verbatim>\<open>*ipaddr\<close> was before: only the fields of the family are written.\<close>

definition fr_sockaddr2ipaddr :: "sockaddr_storage \<Rightarrow> nat \<Rightarrow> fr_ipaddr \<Rightarrow> (fr_ipaddr \<times> nat) option" where
  "fr_sockaddr2ipaddr sa salen ipaddr =
     (if ss_family sa = AF_INET then
        if salen < 16 then None
        else Some (ipaddr\<lparr>ip_af := AF_INET, ip_addr := ss_addr sa\<rparr>, unat (htons (ss_port sa)))
      else if ss_family sa = AF_INET6 then
        if salen < 28 then None
        else Some (ipaddr\<lparr>ip_af := AF_INET6, ip_addr := ss_addr sa, ip_scope := ss_scope sa\<rparr>, unat (htons (ss_port sa)))
      else None)"

lemma htons_htons [simp]: "htons (htons w) = w"
  unfolding htons_def by (rule bit_word_eqI) (auto simp: bit_simps)

text \<open>An address of one of the two families, in full.\<close>

definition ip_valid :: "fr_ipaddr \<Rightarrow> bool" where
  "ip_valid ip \<longleftrightarrow> ip_af ip = AF_INET \<and> length (ip_addr ip) = 4 \<or> ip_af ip = AF_INET6 \<and> length (ip_addr ip) = 16"

lemma AF_distinct [simp]: "AF_INET \<noteq> AF_INET6" "AF_INET6 \<noteq> AF_INET" "AF_INET \<noteq> AF_UNSPEC" "AF_INET6 \<noteq> AF_UNSPEC"
  by (simp_all add: AF_INET_def AF_INET6_def AF_UNSPEC_def)

lemma sockaddr_roundtrip:
  assumes "ip_valid ip" and "ip_af ip = AF_INET \<longrightarrow> ip_scope ip = ip_scope ip0" and "port < 65536"
  shows "\<exists>sa salen. fr_ipaddr2sockaddr ip port = Some (sa, salen) \<and> fr_sockaddr2ipaddr sa salen ip0 = Some (ip, port)"
  using assms by (auto simp: ip_valid_def fr_ipaddr2sockaddr_def fr_sockaddr2ipaddr_def unat_of_nat)

section \<open>Addresses and packets in order\<close>

type_synonym ip_key = "int \<times> u32 \<times> byte list"

definition ip_key :: "fr_ipaddr \<Rightarrow> ip_key" where
  "ip_key ip = (ip_af ip, if ip_af ip = AF_INET6 then ip_scope ip else 0, ip_addr ip)"

lemma memcmp_eq: "length xs = length ys \<Longrightarrow> memcmp xs ys = 0 \<longleftrightarrow> xs = ys"
  by (induction xs ys rule: memcmp.induct) (auto simp flip: word_uint_eq_iff)

lemma memcmp_less: "length xs = length ys \<Longrightarrow> memcmp xs ys < 0 \<longleftrightarrow> xs < ys"
  by (induction xs ys rule: memcmp.induct) (auto simp: word_less_def)

lemma fr_ipaddr_cmp_key:
  assumes "ip_valid a" and "ip_valid b"
  shows "fr_ipaddr_cmp a b < 0 \<longleftrightarrow> ip_key a < ip_key b" and "fr_ipaddr_cmp a b = 0 \<longleftrightarrow> ip_key a = ip_key b"
  using assms by (auto simp: fr_ipaddr_cmp_def ip_valid_def ip_key_def memcmp_eq memcmp_less less_prod_def)

text \<open>One step of a lexicographic comparison.\<close>

lemma lex_step:
  fixes a b :: "'a :: linorder" and k k' :: "'b :: linorder" and r :: int
  assumes "r < 0 \<longleftrightarrow> k < k'" and "r = 0 \<longleftrightarrow> k = k'"
  shows "(if a < b then - 1 else if a > b then 1 else r) < 0 \<longleftrightarrow> (a, k) < (b, k')"
    and "(if a < b then - 1 else if a > b then 1 else r) = 0 \<longleftrightarrow> (a, k) = (b, k')"
  using assms by (auto simp: less_prod_def)

lemma lex_then:
  fixes k k' :: "'a :: linorder" and l l' :: "'b :: linorder" and r q :: int
  assumes "r < 0 \<longleftrightarrow> k < k'" and "r = 0 \<longleftrightarrow> k = k'" and "q < 0 \<longleftrightarrow> l < l'" and "q = 0 \<longleftrightarrow> l = l'"
  shows "(if r \<noteq> 0 then r else q) < 0 \<longleftrightarrow> (k, l) < (k', l')" and "(if r \<noteq> 0 then r else q) = 0 \<longleftrightarrow> (k, l) = (k', l')"
  using assms by (auto simp: less_prod_def)

definition fr_packet_cmp :: "radius_packet \<Rightarrow> radius_packet \<Rightarrow> int" where
  "fr_packet_cmp a b =
     (if pk_sockfd a < pk_sockfd b then - 1 else if pk_sockfd a > pk_sockfd b then 1
      else if pk_id a < pk_id b then - 1 else if pk_id a > pk_id b then 1
      else if pk_src_port a < pk_src_port b then - 1 else if pk_src_port a > pk_src_port b then 1
      else if pk_dst_port a < pk_dst_port b then - 1 else if pk_dst_port a > pk_dst_port b then 1
      else let rcode = fr_ipaddr_cmp (pk_dst_ipaddr a) (pk_dst_ipaddr b)
           in if rcode \<noteq> 0 then rcode else fr_ipaddr_cmp (pk_src_ipaddr a) (pk_src_ipaddr b))"

type_synonym packet_key = "int \<times> int \<times> nat \<times> nat \<times> ip_key \<times> ip_key"

definition packet_key :: "radius_packet \<Rightarrow> packet_key" where
  "packet_key p = (pk_sockfd p, pk_id p, pk_src_port p, pk_dst_port p, ip_key (pk_dst_ipaddr p), ip_key (pk_src_ipaddr p))"

definition addressed :: "radius_packet set" where
  "addressed = {p. ip_valid (pk_src_ipaddr p) \<and> ip_valid (pk_dst_ipaddr p)}"

lemma fr_packet_cmp_key:
  assumes "a \<in> addressed" and "b \<in> addressed"
  shows "fr_packet_cmp a b < 0 \<longleftrightarrow> packet_key a < packet_key b" and "fr_packet_cmp a b = 0 \<longleftrightarrow> packet_key a = packet_key b"
proof -
  have valid: "ip_valid (pk_dst_ipaddr a)" "ip_valid (pk_dst_ipaddr b)" "ip_valid (pk_src_ipaddr a)" "ip_valid (pk_src_ipaddr b)"
    using assms by (auto simp: addressed_def)
  note lex_then [OF fr_ipaddr_cmp_key [OF valid(1,2)] fr_ipaddr_cmp_key [OF valid(3,4)]]
  note lex_step [OF lex_step [OF lex_step [OF lex_step [OF this]]]]
  then show "fr_packet_cmp a b < 0 \<longleftrightarrow> packet_key a < packet_key b" "fr_packet_cmp a b = 0 \<longleftrightarrow> packet_key a = packet_key b"
    by (simp_all only: fr_packet_cmp_def packet_key_def Let_def)
qed

section \<open>Hashes of packets\<close>

text \<open>The octets of an address in a union are hashed in memory order; \<open>cached\<close> is the field \<^verbatim>\<open>hash\<close> of the packet.\<close>

definition hash_addr :: "int \<Rightarrow> fr_ipaddr \<Rightarrow> u32 \<Rightarrow> u32" where
  "hash_addr af ip hash =
     (if af = AF_INET then fr_hash_update (take 4 (ip_addr ip)) hash
      else if af = AF_INET6 then fr_hash_update (take 16 (ip_addr ip)) hash else hash)"

definition int_bytes :: "int \<Rightarrow> byte list" where
  "int_bytes i = le32_bytes (word_of_int i)"

definition port_bytes :: "nat \<Rightarrow> byte list" where
  "port_bytes p = [word_of_nat p, word_of_nat (p div 256)]"

definition fr_request_packet_hash :: "u32 \<Rightarrow> radius_packet \<Rightarrow> u32" where
  "fr_request_packet_hash cached packet =
     (if cached \<noteq> 0 then cached
      else
        let hash = fr_hash (int_bytes (pk_sockfd packet));
            hash = fr_hash_update (port_bytes (pk_src_port packet)) hash;
            hash = fr_hash_update (port_bytes (pk_dst_port packet)) hash;
            af = ip_af (pk_src_ipaddr packet);
            hash = fr_hash_update (int_bytes af) hash;
            hash = hash_addr af (pk_src_ipaddr packet) hash;
            hash = hash_addr af (pk_dst_ipaddr packet) hash
        in fr_hash_update (int_bytes (pk_id packet)) hash)"

definition fr_reply_packet_hash :: "radius_packet \<Rightarrow> u32" where
  "fr_reply_packet_hash packet =
     (let hash = fr_hash (int_bytes (pk_sockfd packet));
          hash = fr_hash_update (int_bytes (pk_id packet)) hash;
          hash = fr_hash_update (port_bytes (pk_src_port packet)) hash;
          hash = fr_hash_update (port_bytes (pk_dst_port packet)) hash;
          af = ip_af (pk_src_ipaddr packet);
          hash = fr_hash_update (int_bytes af) hash;
          hash = hash_addr af (pk_dst_ipaddr packet) hash;
          hash = hash_addr af (pk_src_ipaddr packet) hash
      in fr_hash_update (int_bytes (pk_id packet)) hash)"

definition fr_request_from_reply :: "radius_packet \<Rightarrow> radius_packet \<Rightarrow> radius_packet" where
  "fr_request_from_reply request reply =
     request\<lparr>pk_sockfd := pk_sockfd reply, pk_id := pk_id reply, pk_src_port := pk_dst_port reply, pk_dst_port := pk_src_port reply,
       pk_src_ipaddr := pk_dst_ipaddr reply, pk_dst_ipaddr := pk_src_ipaddr reply\<rparr>"

text \<open>The reply hash is meant to be the request hash of the request it answers; it is another one, since the ports are
  not exchanged and the identifier is hashed twice.\<close>

lemma reply_hash_differs:
  "let ip = ipaddr0\<lparr>ip_af := AF_INET\<rparr>;
       reply = packet0\<lparr>pk_src_ipaddr := ip, pk_dst_ipaddr := ip, pk_src_port := 1812, pk_dst_port := 1812, pk_id := 1\<rparr>
   in fr_reply_packet_hash reply \<noteq> fr_request_packet_hash 0 (fr_request_from_reply packet0 reply)"
proof -
  have octets: "int_bytes 0 = [0, 0, 0, 0]" "int_bytes 1 = [1, 0, 0, 0]" "int_bytes AF_INET = [2, 0, 0, 0]" "port_bytes 1812 = [20, 7]"
    by (simp_all add: int_bytes_def AF_INET_def le32_bytes_def port_bytes_def)
  have addr: "take 4 (ip_addr ipaddr0) = [0, 0, 0, 0]" by (simp add: ipaddr0_def zeros_def numeral_eq_Suc)
  show ?thesis
    by (simp add: fr_reply_packet_hash_def fr_request_packet_hash_def fr_request_from_reply_def hash_addr_def octets addr Let_def
      fr_hash_def FNV_MAGIC_PRIME_def)
qed

end
