(* ===== verification/Home_Servers.thy ===== *)
theory Home_Servers
  imports Packet_Exchange Ip_Address Event_List Dict_Hash
begin

text \<open>
  The servers requests are proxied to: the choice of one from a pool (\<open>home_server_ldb\<close> of \<^verbatim>\<open>winradiusd/realms.cpp\<close>), and the states a home server
  goes through (\<^verbatim>\<open>winradiusd/event.cpp\<close>): alive, zombie when it stops answering, dead, and alive again by status checks or after a time. Pools and
  requests point to home servers, which are therefore kept in a store. Of the event queue a home server has one event, its callback and time;
  \<open>Event_List\<close> has the queue. Log messages and statistics are left out.
\<close>

section \<open>Data\<close>

datatype home_state = HOME_STATE_ALIVE | HOME_STATE_ZOMBIE | HOME_STATE_IS_DEAD

datatype ping_check = HOME_PING_CHECK_NONE | HOME_PING_CHECK_STATUS_SERVER | HOME_PING_CHECK_REQUEST

datatype home_type = HOME_TYPE_AUTH | HOME_TYPE_ACCT | HOME_TYPE_COA

datatype home_callback = ping_home_server_cb | revive_home_server_cb

record home_server =
  hs_ipaddr :: fr_ipaddr
  hs_port :: nat
  hs_src_ipaddr :: fr_ipaddr
  hs_server :: "string option"
  hs_secret :: "byte list"
  hs_type :: home_type
  hs_ev :: "(home_callback \<times> timeval) option"
  hs_when :: timeval
  hs_response_window :: int
  hs_max_outstanding :: int
  hs_currently_outstanding :: int
  hs_message_authenticator :: bool
  hs_last_packet :: int
  hs_revive_time :: timeval
  hs_zombie_period_start :: timeval
  hs_zombie_period :: int
  hs_state :: home_state
  hs_ping_check :: ping_check
  hs_ping_user_name :: string
  hs_ping_user_password :: string
  hs_ping_interval :: int
  hs_num_pings_to_alive :: int
  hs_num_received_pings :: int
  hs_ping_timeout :: int
  hs_revive_interval :: int
  hs_coa_mrd :: int

datatype home_pool_type =
    HOME_POOL_LOAD_BALANCE | HOME_POOL_FAIL_OVER | HOME_POOL_CLIENT_BALANCE | HOME_POOL_CLIENT_PORT_BALANCE | HOME_POOL_KEYED_BALANCE

record home_pool =
  hp_type :: home_pool_type
  hp_fallback :: "nat option"
  hp_servers :: "nat option list"

record realm =
  realm_name :: string
  realm_auth_pool :: "home_pool option"
  realm_acct_pool :: "home_pool option"

record realm_config =
  rc_fallback :: bool
  rc_wake_all_if_all_dead :: bool
  rc_realms :: "realm list"

text \<open>The fields of a request the choice uses; \<open>px_detail\<close>: the request was read from a detail file.\<close>

record proxy_request =
  px_packet :: radius_packet
  px_proxy :: "radius_packet option"
  px_config_items :: "value_pair list"
  px_home_server :: "nat option"
  px_detail :: bool

type_synonym homes = "nat \<Rightarrow> home_server"

section \<open>Choosing a server\<close>

definition PW_LOAD_BALANCE_KEY :: u32 where "PW_LOAD_BALANCE_KEY = 1025"

text \<open>The tree of realms finds a realm by its name in any case; the build has no regular expressions.\<close>

definition realm_find :: "realm_config \<Rightarrow> string option \<Rightarrow> realm option" where
  "realm_find rc nm =
     (let nm = (case nm of None \<Rightarrow> ''NULL'' | Some n \<Rightarrow> n)
      in case List.find (\<lambda>r. strcasecmp nm (realm_name r) = 0) (rc_realms rc) of
           Some r \<Rightarrow> Some r
         | None \<Rightarrow> List.find (\<lambda>r. strcasecmp ''DEFAULT'' (realm_name r) = 0) (rc_realms rc))"

definition client_hash :: "proxy_request \<Rightarrow> u32" where
  "client_hash request =
     (let ip = pk_src_ipaddr (px_packet request)
      in if ip_af ip = AF_INET then fr_hash (take 4 (ip_addr ip))
         else if ip_af ip = AF_INET6 then fr_hash (take 16 (ip_addr ip))
         else 0)"

text \<open>
  The server to start with. By client and port, the hash is updated with the two octets of the port and the result thrown away. A pool has at least one
  server.
\<close>

definition ldb_start :: "home_pool \<Rightarrow> proxy_request \<Rightarrow> nat" where
  "ldb_start pool request =
     (let n = length (hp_servers pool)
      in case hp_type pool of
           HOME_POOL_CLIENT_BALANCE \<Rightarrow> unat (client_hash request) mod n
         | HOME_POOL_CLIENT_PORT_BALANCE \<Rightarrow>
             let hash = client_hash request;
                 updated = fr_hash_update (take 2 (le32_bytes (of_nat (pk_src_port (px_packet request))))) hash
             in unat hash mod n
         | HOME_POOL_KEYED_BALANCE \<Rightarrow>
             (case pairfind (px_config_items request) PW_LOAD_BALANCE_KEY of
                Some vp \<Rightarrow> unat (fr_hash (take (vp_length vp) (vp_octets vp))) mod n
              | None \<Rightarrow> 0)
         | HOME_POOL_LOAD_BALANCE \<Rightarrow> 0
         | HOME_POOL_FAIL_OVER \<Rightarrow> 0)"

definition ldb_usable :: "proxy_request \<Rightarrow> home_server \<Rightarrow> bool" where
  "ldb_usable request home \<longleftrightarrow>
     hs_state home \<noteq> HOME_STATE_IS_DEAD \<and>
     \<not> hs_max_outstanding home \<le> hs_currently_outstanding home \<and>
     \<not> (px_detail request \<and> pk_code (px_packet request) = PW_ACCOUNTING_REQUEST \<and>
        fr_ipaddr_cmp (hs_ipaddr home) (pk_src_ipaddr (px_packet request)) = 0)"

text \<open>The loop over the servers from the one at the start; \<open>seen\<close> is \<^verbatim>\<open>count\<close>.\<close>

fun ldb_loop ::
    "homes \<Rightarrow> proxy_request \<Rightarrow> home_pool_type \<Rightarrow> nat option list \<Rightarrow> nat \<Rightarrow> nat option \<Rightarrow> nat option \<Rightarrow> lib_state \<Rightarrow>
     nat option \<times> nat option \<times> lib_state" where
  "ldb_loop homes request ty [] seen found zombie s = (found, zombie, s)"
| "ldb_loop homes request ty (None # rest) seen found zombie s = ldb_loop homes request ty rest (seen + 1) found zombie s"
| "ldb_loop homes request ty (Some h # rest) seen found zombie s =
     (let home = homes h
      in if \<not> ldb_usable request home then ldb_loop homes request ty rest (seen + 1) found zombie s
         else if hs_state home = HOME_STATE_ZOMBIE then
           ldb_loop homes request ty rest (seen + 1) found (if zombie = None then Some h else zombie) s
         else if ty \<noteq> HOME_POOL_LOAD_BALANCE then (Some h, zombie, s)
         else
           case found of
             None \<Rightarrow> ldb_loop homes request ty rest (seen + 1) (Some h) zombie s
           | Some f \<Rightarrow>
               if hs_currently_outstanding home < hs_currently_outstanding (homes f) then
                 ldb_loop homes request ty rest (seen + 1) (Some h) zombie s
               else if hs_currently_outstanding (homes f) < hs_currently_outstanding home then
                 ldb_loop homes request ty rest (seen + 1) (Some f) zombie s
               else
                 let (r, s) = fr_rand s
                 in ldb_loop homes request ty rest (seen + 1)
                      (if (of_nat (seen + 1) * (r AND 0xffff) :: u32) < 0x10000 then Some h else Some f) zombie s)"

text \<open>The label \<^verbatim>\<open>update_and_return\<close>; \<open>mac\<close> is the new \<^verbatim>\<open>Message-Authenticator\<close> pair.\<close>

definition update_and_return :: "value_pair \<Rightarrow> homes \<Rightarrow> nat \<Rightarrow> proxy_request \<Rightarrow> lib_state \<Rightarrow> proxy_request \<times> lib_state" where
  "update_and_return mac homes h request s =
     (let home = homes h;
          (proxy, s) =
            (case px_proxy request of
               Some proxy \<Rightarrow> (proxy, s)
             | None \<Rightarrow>
                 let (proxy, s) = rad_alloc True s in (proxy\<lparr>pk_vps := paircopy (pk_vps (px_packet request))\<rparr>, s));
          proxy = proxy\<lparr>pk_src_ipaddr := hs_src_ipaddr home, pk_dst_ipaddr := hs_ipaddr home, pk_dst_port := hs_port home\<rparr>;
          proxy =
            (if hs_message_authenticator home \<and> pk_code (px_packet request) = PW_AUTHENTICATION_REQUEST \<and>
                pairfind (pk_vps proxy) PW_MESSAGE_AUTHENTICATOR = None
             then proxy\<lparr>pk_vps := pairadd (pk_vps proxy) [mac]\<rparr> else proxy)
      in (request\<lparr>px_proxy := Some proxy, px_home_server := Some h\<rparr>, s))"

text \<open>Dead servers that are not checked are woken.\<close>

definition can_wake :: "home_server \<Rightarrow> bool" where
  "can_wake home \<longleftrightarrow> hs_state home = HOME_STATE_IS_DEAD \<and> hs_ping_check home = HOME_PING_CHECK_NONE"

fun wake_all :: "nat option list \<Rightarrow> nat option \<Rightarrow> homes \<Rightarrow> nat option \<times> homes" where
  "wake_all [] found homes = (found, homes)"
| "wake_all (None # rest) found homes = wake_all rest found homes"
| "wake_all (Some h # rest) found homes =
     (if can_wake (homes h)
      then wake_all rest (if found = None then Some h else found) (homes(h := (homes h)\<lparr>hs_state := HOME_STATE_ALIVE\<rparr>))
      else wake_all rest found homes)"

text \<open>The server a pool gives, with its zombies, its fallback and the servers that can be woken.\<close>

definition pool_choice :: "realm_config \<Rightarrow> home_pool \<Rightarrow> proxy_request \<Rightarrow> homes \<Rightarrow> lib_state \<Rightarrow> nat option \<times> homes \<times> lib_state" where
  "pool_choice rc pool request homes s =
     (case ldb_loop homes request (hp_type pool) (rotate (ldb_start pool request) (hp_servers pool)) 0 None None s of
        (found, zombie, s) \<Rightarrow>
          let found = (if found = None then zombie else found);
              found = (if found = None then hp_fallback pool else found)
          in if found = None \<and> \<not> rc_fallback rc \<and> rc_wake_all_if_all_dead rc then
               (case wake_all (hp_servers pool) None homes of (found, homes) \<Rightarrow> (found, homes, s))
             else (found, homes, s))"

text \<open>The pool of the realm \<^verbatim>\<open>DEFAULT\<close>, when it is to be asked.\<close>

definition default_pool :: "realm_config \<Rightarrow> string option \<Rightarrow> proxy_request \<Rightarrow> (string \<times> home_pool) option" where
  "default_pool rc realmname request =
     (if rc_fallback rc \<and> realmname \<noteq> None \<and> realmname \<noteq> Some ''NULL'' \<and> realmname \<noteq> Some ''DEFAULT'' then
        (case realm_find rc (Some ''DEFAULT'') of
           None \<Rightarrow> None
         | Some rd \<Rightarrow>
             map_option (Pair (realm_name rd))
               (if pk_code (px_packet request) = PW_AUTHENTICATION_REQUEST then realm_auth_pool rd
                else if pk_code (px_packet request) = PW_ACCOUNTING_REQUEST then realm_acct_pool rd else None))
      else None)"

text \<open>
  \<open>home_server_ldb\<close> calls itself for the realm \<^verbatim>\<open>DEFAULT\<close> with the name this realm has, for which it does not call itself again unless it is spelled
  in another case: the first argument is the number of calls that are followed.
\<close>

primrec home_server_ldb ::
    "nat \<Rightarrow> realm_config \<Rightarrow> value_pair \<Rightarrow> string option \<Rightarrow> home_pool \<Rightarrow> proxy_request \<Rightarrow> homes \<Rightarrow> lib_state \<Rightarrow>
     (nat option \<times> proxy_request \<times> homes \<times> lib_state) option" where
  "home_server_ldb 0 rc mac realmname pool request homes s = None"
| "home_server_ldb (Suc n) rc mac realmname pool request homes s =
     (case pool_choice rc pool request homes s of
        (Some h, homes, s) \<Rightarrow> (case update_and_return mac homes h request s of (request, s) \<Rightarrow> Some (Some h, request, homes, s))
      | (None, homes, s) \<Rightarrow>
          (case default_pool rc realmname request of
             None \<Rightarrow> Some (None, request, homes, s)
           | Some (nm, pool) \<Rightarrow> home_server_ldb n rc mac (Some nm) pool request homes s))"

section \<open>States\<close>

text \<open>\<open>now\<close> is the global time variable.\<close>

definition tv_add :: "timeval \<Rightarrow> int \<Rightarrow> timeval" where
  "tv_add tv usec_delay =
     (let (tv, usec_delay) =
            (if USEC \<le> usec_delay then (tv\<lparr>tv_sec := tv_sec tv + usec_delay div USEC\<rparr>, usec_delay mod USEC) else (tv, usec_delay));
          tv = tv\<lparr>tv_usec := tv_usec tv + usec_delay\<rparr>
      in if USEC \<le> tv_usec tv then tv\<lparr>tv_sec := tv_sec tv + tv_usec tv div USEC, tv_usec := tv_usec tv mod USEC\<rparr> else tv)"

definition revive_home_server :: "timeval \<Rightarrow> home_server \<Rightarrow> home_server" where
  "revive_home_server now home =
     home\<lparr>hs_state := HOME_STATE_ALIVE, hs_currently_outstanding := 0, hs_revive_time := now, hs_ev := None\<rparr>"

text \<open>A status check: its code, and the names and values of its attributes as they are made, the time stamp being set afterwards.\<close>

datatype check_value = check_text string | check_date int

definition status_check :: "timeval \<Rightarrow> home_server \<Rightarrow> u32 \<times> (string \<times> check_value) list" where
  "status_check now home =
     (let (code, pairs) =
            (if hs_ping_check home = HOME_PING_CHECK_STATUS_SERVER then (PW_STATUS_SERVER, [(''Message-Authenticator'', check_text ''0x00'')])
             else if hs_type home = HOME_TYPE_AUTH then
               (PW_AUTHENTICATION_REQUEST,
                [(''User-Name'', check_text (hs_ping_user_name home)), (''User-Password'', check_text (hs_ping_user_password home)),
                 (''Service-Type'', check_text ''Authenticate-Only''), (''Message-Authenticator'', check_text ''0x00'')])
             else
               (PW_ACCOUNTING_REQUEST,
                [(''User-Name'', check_text (hs_ping_user_name home)), (''Acct-Status-Type'', check_text ''Stop''),
                 (''Acct-Session-Id'', check_text ''00000000''), (''Event-Timestamp'', check_date (tv_sec now))]))
      in (code, pairs @ [(''NAS-Identifier'', check_text ''Status Check. Are you alive?'')]))"

definition ping_jitter :: "u32 \<Rightarrow> u32" where
  "ping_jitter r = (let jitter = r XOR drop_bit 10 r in jitter AND (push_bit 23 1 - 1))"

text \<open>
  What \<open>ping_home_server\<close> runs with besides the server: the global \<^verbatim>\<open>now\<close>, the time of the event queue and the time the clock gives later, and whether
  the check is inserted into the list of proxied requests. Inserting it counts it as outstanding, whether that succeeds or not. The result
  has the check that was sent and the time by which a response is awaited.
\<close>

record ping_input =
  pi_now :: timeval
  pi_start :: timeval
  pi_inserted :: bool
  pi_sent :: timeval

definition ping_home_server ::
    "ping_input \<Rightarrow> home_server \<Rightarrow> lib_state \<Rightarrow> home_server \<times> ((u32 \<times> (string \<times> check_value) list) \<times> timeval) option \<times> lib_state" where
  "ping_home_server p home s =
     (if hs_state home = HOME_STATE_ALIVE \<or> hs_ping_check home = HOME_PING_CHECK_NONE \<or> hs_ev home \<noteq> None then (home, None, s)
      else
        let home = home\<lparr>hs_when := pi_start p, hs_currently_outstanding := hs_currently_outstanding home + 1\<rparr>
        in if \<not> pi_inserted p then (home, None, s)
           else
             let (jitter, s) = fr_rand s;
                 t = pi_sent p;
                 when' = tv_add (t\<lparr>tv_sec := tv_sec t + (hs_ping_interval home - 2)\<rparr>) (uint (ping_jitter jitter))
             in (home\<lparr>hs_when := when', hs_ev := Some (ping_home_server_cb, when')\<rparr>,
                 Some (status_check (pi_now p) home, t\<lparr>tv_sec := tv_sec t + hs_ping_timeout home\<rparr>), s))"

definition ping :: "ping_input \<Rightarrow> home_server \<Rightarrow> lib_state \<Rightarrow> home_server \<times> lib_state" where
  "ping p home s = (case ping_home_server p home s of (home, _, s) \<Rightarrow> (home, s))"

definition mark_home_server_dead :: "ping_input \<Rightarrow> timeval \<Rightarrow> home_server \<Rightarrow> lib_state \<Rightarrow> home_server \<times> lib_state" where
  "mark_home_server_dead p when' home s =
     (let previous_state = hs_state home;
          home = home\<lparr>hs_state := HOME_STATE_IS_DEAD, hs_num_received_pings := 0\<rparr>
      in if hs_ping_check home \<noteq> HOME_PING_CHECK_NONE then
           if previous_state = HOME_STATE_ALIVE then ping p home s else (home, s)
         else
           let when' = when'\<lparr>tv_sec := tv_sec when' + hs_revive_interval home\<rparr>
           in (home\<lparr>hs_when := when', hs_ev := Some (revive_home_server_cb, when')\<rparr>, s))"

definition check_for_zombie_home_server :: "ping_input \<Rightarrow> timeval \<Rightarrow> timeval \<Rightarrow> home_server \<Rightarrow> lib_state \<Rightarrow> home_server \<times> lib_state" where
  "check_for_zombie_home_server p now request_when home s =
     (if hs_state home \<noteq> HOME_STATE_ZOMBIE then (home, s)
      else
        let when' = (hs_zombie_period_start home)\<lparr>tv_sec := tv_sec (hs_zombie_period_start home) + hs_zombie_period home\<rparr>
        in if timeval_cmp now when' < 0 then (home, s) else mark_home_server_dead p request_when home s)"

definition no_response_to_ping :: "ping_input \<Rightarrow> timeval \<Rightarrow> timeval \<Rightarrow> home_server \<Rightarrow> lib_state \<Rightarrow> home_server \<times> lib_state" where
  "no_response_to_ping p now request_when home s = check_for_zombie_home_server p now request_when (home\<lparr>hs_num_received_pings := 0\<rparr>) s"

definition received_response_to_ping :: "timeval \<Rightarrow> home_server \<Rightarrow> home_server" where
  "received_response_to_ping now home =
     (let home = home\<lparr>hs_num_received_pings := hs_num_received_pings home + 1\<rparr>
      in if hs_state home = HOME_STATE_ALIVE then home
         else if hs_num_received_pings home < hs_num_pings_to_alive home then home
         else home\<lparr>hs_state := HOME_STATE_ALIVE, hs_currently_outstanding := 0, hs_revive_time := now, hs_ev := None\<rparr>)"

text \<open>
  What \<open>no_response_to_proxied_request\<close> does to the home server, before and after it deals with the request. Dealing with the request may read the
  clock again (\<open>post_proxy_fail_handler\<close>): \<open>now'\<close> is the global time afterwards.
\<close>

definition no_response_to_proxied_request ::
    "ping_input \<Rightarrow> timeval \<Rightarrow> timeval \<Rightarrow> timeval \<Rightarrow> home_server \<Rightarrow> lib_state \<Rightarrow> home_server \<times> lib_state" where
  "no_response_to_proxied_request p now now' request_when home s =
     (if hs_server home \<noteq> None then (home, s)
      else
        let (home, s) = check_for_zombie_home_server p now request_when home s
        in if hs_state home \<noteq> HOME_STATE_ALIVE then (home, s)
           else if tv_sec now' \<le> hs_last_packet home + (hs_zombie_period home + 3) div 4 then (home, s)
           else
             ping p (home\<lparr>hs_state := HOME_STATE_ZOMBIE, hs_zombie_period_start := \<lparr>tv_sec = hs_last_packet home, tv_usec = USEC div 2\<rparr>,
               hs_ev := None, hs_currently_outstanding := 0, hs_num_received_pings := 0\<rparr>) s)"

text \<open>A reply to a proxied request in \<open>received_proxy_response\<close>.\<close>

definition received_reply :: "timeval \<Rightarrow> home_server \<Rightarrow> home_server" where
  "received_reply now home = home\<lparr>hs_state := HOME_STATE_ALIVE, hs_last_packet := tv_sec now\<rparr>"

text \<open>The counter of \<open>insert_into_proxy_hash\<close>, and of \<open>lookup_in_proxy_hash\<close> and \<open>remove_from_proxy_hash\<close>.\<close>

definition outstanding_inc :: "home_server \<Rightarrow> home_server" where
  "outstanding_inc home = home\<lparr>hs_currently_outstanding := hs_currently_outstanding home + 1\<rparr>"

definition outstanding_dec :: "home_server \<Rightarrow> home_server" where
  "outstanding_dec home =
     (if hs_currently_outstanding home \<noteq> 0 then home\<lparr>hs_currently_outstanding := hs_currently_outstanding home - 1\<rparr> else home)"

text \<open>The pending event runs: it is taken off the queue before its callback is called.\<close>

definition run_home_event :: "ping_input \<Rightarrow> timeval \<Rightarrow> home_server \<Rightarrow> lib_state \<Rightarrow> home_server \<times> lib_state" where
  "run_home_event p now home s =
     (case hs_ev home of
        None \<Rightarrow> (home, s)
      | Some (ping_home_server_cb, _) \<Rightarrow> ping p (home\<lparr>hs_ev := None\<rparr>) s
      | Some (revive_home_server_cb, _) \<Rightarrow> (revive_home_server now (home\<lparr>hs_ev := None\<rparr>), s))"

end
