(* ===== verification/Red_Black_Props.thy ===== *)
theory Red_Black_Props
  imports Red_Black_Tree
begin

text \<open>
  What the operations of \<^verbatim>\<open>src/lib/rbtree.cpp\<close> keep: the sequence of the data in order, that no red node has a red child
  (\<open>red_ok\<close>, with \<open>path_ok\<close> for the frames above a position), and for insertion the number of black nodes on
  every way down (\<open>balanced\<close>).
\<close>

section \<open>The order of the data\<close>

fun inorder :: "'a rbnode \<Rightarrow> 'a list" where
  "inorder NIL = []"
| "inorder (RBNode c l d r) = inorder l @ d # inorder r"

text \<open>What stands before and after a position.\<close>

fun before :: "'a frame list \<Rightarrow> 'a list" where
  "before [] = []"
| "before (f # fs) = before fs @ (case fr_side f of OnLeft \<Rightarrow> [] | OnRight \<Rightarrow> inorder (fr_other f) @ [fr_data f])"

fun after :: "'a frame list \<Rightarrow> 'a list" where
  "after [] = []"
| "after (f # fs) = (case fr_side f of OnLeft \<Rightarrow> fr_data f # inorder (fr_other f) | OnRight \<Rightarrow> []) @ after fs"

lemma inorder_plug: "inorder (plug path t) = before path @ inorder t @ after path"
  by (induction path arbitrary: t) (auto simp: up_def split: side.split)

lemma inorder_paint [simp]: "inorder (paint c t) = inorder t"
  by (cases t) auto

lemma inorder_RotateLeft: "RotateLeft t = Some t' \<Longrightarrow> inorder t' = inorder t"
  by (cases t rule: RotateLeft.cases) auto

lemma inorder_RotateRight: "RotateRight t = Some t' \<Longrightarrow> inorder t' = inorder t"
  by (cases t rule: RotateRight.cases) auto

lemma inorder_rotate_to: "rotate_to s t = Some t' \<Longrightarrow> inorder t' = inorder t"
  by (auto simp: rotate_to_def inorder_RotateLeft inorder_RotateRight split: side.splits)

lemma inorder_up_cong: "fr_side f = fr_side g \<Longrightarrow> fr_data f = fr_data g \<Longrightarrow> inorder (fr_other f) = inorder (fr_other g) \<Longrightarrow>
    inorder t = inorder u \<Longrightarrow> inorder (up f t) = inorder (up g u)"
  by (auto simp: up_def split: side.split)

lemma inorder_set_child: "inorder u = inorder (child s t) \<Longrightarrow> inorder (set_child s u t) = inorder t"
  by (cases t; cases s) (auto simp: child_def)

lemma plug_cong: "inorder t = inorder u \<Longrightarrow> inorder (plug path t) = inorder (plug path u)"
  by (simp add: inorder_plug)

lemma inorder_InsertFixup: "InsertFixup X path = Some t \<Longrightarrow> inorder t = inorder (plug path X)"
proof (induction X path rule: InsertFixup.induct)
  case (3 X p g rest)
  show ?case
  proof (cases "fr_color p \<noteq> Red \<or> node_color (fr_other g) = Red")
    case True
    then show ?thesis using 3 by (auto split: if_split_asm intro!: plug_cong inorder_up_cong)
  next
    case False
    then obtain parent r where "(if fr_side p \<noteq> fr_side g then rotate_to (fr_side g) (up p X) else Some (up p X)) = Some parent"
      "rotate_to (opposite (fr_side g)) (up (g\<lparr>fr_color := Red\<rparr>) (paint Black parent)) = Some r" "t = paint Black (plug rest r)"
      using 3(2) by (auto simp: bind_eq_Some_conv)
    moreover from this have "inorder parent = inorder (up p X)" by (auto split: if_split_asm dest: inorder_rotate_to)
    ultimately show ?thesis by (auto dest!: inorder_rotate_to intro!: plug_cong inorder_up_cong)
  qed
qed (auto split: if_split_asm)

lemma inorder_red_sibling: "red_sibling p rest = (p', rest') \<Longrightarrow> inorder (plug rest' (up p' X)) = inorder (plug rest (up p X))"
  by (auto simp: inorder_plug up_def split: rbnode.split_asm NodeColor.split_asm side.splits)

lemma inorder_final_rotation: "final_rotation p X = Some t \<Longrightarrow> inorder t = inorder (up p X)"
  unfolding final_rotation_def Let_def bind_eq_Some_conv
  by (auto dest!: inorder_rotate_to simp: inorder_set_child intro!: inorder_up_cong split: if_split_asm)

lemma inorder_DeleteFixup: "DeleteFixup X path = Some t \<Longrightarrow> inorder t = inorder (plug path X)"
proof (induction X path rule: DeleteFixup.induct)
  case (2 X p rest)
  show ?case
  proof (cases "node_color X = Red")
    case True
    then show ?thesis using 2 by (auto intro!: plug_cong inorder_up_cong)
  next
    case False
    obtain p' rest' where q: "red_sibling p rest = (p', rest')" by fastforce
    show ?thesis
    proof (cases "node_color (left_child (fr_other p')) = Black \<and> node_color (right_child (fr_other p')) = Black")
      case True
      then have "inorder t = inorder (plug rest' (up (p'\<lparr>fr_other := paint Red (fr_other p')\<rparr>) X))"
        using 2 False q by simp
      also have "\<dots> = inorder (plug rest' (up p' X))" by (intro plug_cong inorder_up_cong) simp_all
      finally show ?thesis using inorder_red_sibling [OF q] by simp
    next
      case nb: False
      then obtain r where "final_rotation p' X = Some r" "t = paint Black (plug rest' r)" using 2(2) False q by auto
      then have "inorder t = inorder (plug rest' (up p' X))" by (auto dest!: inorder_final_rotation intro!: plug_cong)
      then show ?thesis using inorder_red_sibling [OF q] by simp
    qed
  qed
qed auto

section \<open>Colours\<close>

fun red_ok :: "'a rbnode \<Rightarrow> bool" where
  "red_ok NIL \<longleftrightarrow> True"
| "red_ok (RBNode c l d r) \<longleftrightarrow> red_ok l \<and> red_ok r \<and> (c = Red \<longrightarrow> node_color l = Black \<and> node_color r = Black)"

text \<open>The frames of a tree without two red nodes in a row and with a black root.\<close>

fun path_ok :: "'a frame list \<Rightarrow> bool" where
  "path_ok [] \<longleftrightarrow> True"
| "path_ok (f # fs) \<longleftrightarrow> red_ok (fr_other f) \<and>
     (fr_color f = Red \<longrightarrow> node_color (fr_other f) = Black \<and> fs \<noteq> [] \<and> fr_color (hd fs) = Black) \<and> path_ok fs"

text \<open>A node of colour \<open>c\<close> may stand below the frames.\<close>

definition fits :: "'a frame list \<Rightarrow> NodeColor \<Rightarrow> bool" where
  "fits path c \<longleftrightarrow> (if path = [] then c = Black else fr_color (hd path) = Red \<longrightarrow> c = Black)"

lemma color_paint: "node_color (paint c t) = (if t = NIL then Black else c)"
  by (cases t) auto

lemma color_up [simp]: "node_color (up f t) = fr_color f"
  by (simp add: up_def split: side.split)

lemma paint_up [simp]: "paint c (up f t) = up (f\<lparr>fr_color := c\<rparr>) t"
  by (simp add: up_def split: side.split)

lemma red_ok_up: "red_ok (up f t) \<longleftrightarrow> red_ok (fr_other f) \<and> red_ok t \<and> (fr_color f = Red \<longrightarrow> node_color (fr_other f) = Black \<and> node_color t = Black)"
  by (auto simp: up_def split: side.split)

lemma red_ok_paint_Black [simp]: "red_ok t \<Longrightarrow> red_ok (paint Black t)"
  by (cases t) auto

lemma paint_Black_id [simp]: "node_color t = Black \<Longrightarrow> paint Black t = t"
  by (cases t) auto

lemma red_ok_paint_Red: "red_ok t \<Longrightarrow> node_color (left_child t) = Black \<Longrightarrow> node_color (right_child t) = Black \<Longrightarrow> red_ok (paint Red t)"
  by (cases t) auto

lemma not_Red [simp]: "c \<noteq> Red \<longleftrightarrow> c = Black" "c \<noteq> Black \<longleftrightarrow> c = Red"
  by (cases c; simp)+

lemma red_ok_plug:
  "path_ok path \<Longrightarrow> red_ok t \<Longrightarrow> fits path (node_color t) \<Longrightarrow> red_ok (plug path t) \<and> node_color (plug path t) = Black"
proof (induction path arbitrary: t)
  case (Cons f fs)
  have "fits fs (fr_color f)" using Cons.prems(1) by (cases "fr_color f") (auto simp: fits_def)
  moreover have "red_ok (up f t)" using Cons.prems by (auto simp: red_ok_up fits_def)
  ultimately show ?case using Cons.IH [of "up f t"] Cons.prems(1) by simp
qed (simp add: fits_def)

lemma InsertFixup_ok:
  assumes "red_ok X" and "node_color X = Red" and "path_ok path"
  shows "\<exists>t. InsertFixup X path = Some t \<and> red_ok t \<and> node_color t = Black"
  using assms
proof (induction X path rule: InsertFixup.induct)
  case (1 X)
  then show ?case by (auto simp: color_paint)
next
  case (2 X p)
  then show ?case by (cases "fr_color p") (auto simp: red_ok_up)
next
  case (3 X p g rest)
  show ?case
  proof (cases "fr_color p")
    case Black
    then show ?thesis using 3(2-4) red_ok_plug [of "p # g # rest" X] by (auto simp: fits_def)
  next
    case red: Red
    then have g: "fr_color g = Black" "node_color (fr_other p) = Black" using 3(4) by auto
    show ?thesis
    proof (cases "node_color (fr_other g) = Red")
      case True
      then show ?thesis using 3 red g by (auto simp: red_ok_up color_paint)
    next
      case False
      obtain xl xd xr where X: "X = RBNode Red xl xd xr" using 3(3) by (cases X) auto
      have rest: "path_ok rest" "fits rest Black" using 3(4) by (auto simp: fits_def)
      define r where "r = the (Option.bind (if fr_side p \<noteq> fr_side g then rotate_to (fr_side g) (up p X) else Some (up p X))
          (\<lambda>parent. rotate_to (opposite (fr_side g)) (up (g\<lparr>fr_color := Red\<rparr>) (paint Black parent))))"
      have "InsertFixup X (p # g # rest) = Some (paint Black (plug rest r)) \<and> red_ok r \<and> node_color r = Black"
        using False red g X 3(2-4) by (cases "fr_side p"; cases "fr_side g") (auto simp: r_def up_def rotate_to_def)
      then show ?thesis using red_ok_plug [of rest r] rest by simp
    qed
  qed
qed

lemma red_sibling_ok:
  assumes "red_sibling p rest = (p', rest')" and "path_ok (p # rest)"
  shows "path_ok (p' # rest')" and "node_color (fr_other p') = Black"
  using assms by (cases "fr_side p"; auto split: rbnode.split_asm NodeColor.split_asm)+

lemma final_rotation_ok:
  assumes "red_ok (fr_other p)" and "node_color (fr_other p) = Black" and "red_ok X" and "node_color X = Black"
    and "\<not> (node_color (left_child (fr_other p)) = Black \<and> node_color (right_child (fr_other p)) = Black)"
  shows "\<exists>t. final_rotation p X = Some t \<and> red_ok t \<and> node_color t = fr_color p"
proof -
  obtain wl wd wr where w: "fr_other p = RBNode Black wl wd wr" using assms(2,5) by (cases "fr_other p") auto
  show ?thesis
  proof (cases "node_color (child (opposite (fr_side p)) (fr_other p)) = Black")
    case True
    then have "node_color (child (fr_side p) (fr_other p)) = Red" using assms(5) w by (cases "fr_side p") (auto simp: child_def)
    then show ?thesis using True assms w
      by (cases "fr_side p"; cases "child (fr_side p) (fr_other p)")
        (auto simp: final_rotation_def child_def rotate_to_def up_def Let_def)
  next
    case False
    then show ?thesis using assms w
      by (cases "fr_side p"; cases "child (opposite (fr_side p)) (fr_other p)")
        (auto simp: final_rotation_def child_def rotate_to_def up_def Let_def)
  qed
qed

lemma DeleteFixup_ok:
  assumes "red_ok (paint Black X)" and "path_ok path"
  shows "\<exists>t. DeleteFixup X path = Some t \<and> red_ok t \<and> node_color t = Black"
  using assms
proof (induction X path rule: DeleteFixup.induct)
  case (1 X)
  then show ?case by (simp add: color_paint)
next
  case (2 X p rest)
  show ?case
  proof (cases "node_color X")
    case Red
    have "fits (p # rest) (node_color (paint Black X))" by (simp add: fits_def color_paint)
    then show ?thesis using Red red_ok_plug [of "p # rest" "paint Black X"] 2(2,3) by simp
  next
    case black: Black
    obtain p' rest' where q: "red_sibling p rest = (p', rest')" by fastforce
    note ok = red_sibling_ok [OF q 2(3)]
    show ?thesis
    proof (cases "node_color (left_child (fr_other p')) = Black \<and> node_color (right_child (fr_other p')) = Black")
      case True
      then have "red_ok (paint Black (up (p'\<lparr>fr_other := paint Red (fr_other p')\<rparr>) X))"
        using ok(1) 2(2) black by (simp add: red_ok_up red_ok_paint_Red)
      then show ?thesis using 2(1) [of "(p', rest')" p' rest' "fr_other p'"] True black q ok(1)
        by (simp add: Let_def del: red_sibling.simps)
    next
      case False
      from final_rotation_ok [OF _ ok(2) _ black False] ok(1) 2(2) black obtain t where
        t: "final_rotation p' X = Some t" "red_ok t" "node_color t = fr_color p'" by auto
      have "fits rest' (fr_color p')" using ok(1) by (cases "fr_color p'") (auto simp: fits_def)
      then show ?thesis using red_ok_plug [of rest' t] ok(1) t False black q
        by (auto simp: Let_def simp del: red_sibling.simps)
    qed
  qed
qed

lemma unlink_ok:
  assumes "red_ok Y" and "path_ok path" and "fits path (node_color Y)" and "Y \<noteq> NIL" and "left_child Y = NIL \<or> right_child Y = NIL"
  shows "\<exists>t. unlink Y path = Some t \<and> red_ok t \<and> node_color t = Black \<and>
    inorder t = before path @ inorder (left_child Y) @ inorder (right_child Y) @ after path"
proof -
  obtain c l d r where Y: "Y = RBNode c l d r" using assms(4) by (cases Y) auto
  define X where "X = (if l \<noteq> NIL then l else r)"
  have X: "inorder X = inorder l @ inorder r" "red_ok X" using assms(1,5) Y by (auto simp: X_def)
  show ?thesis
  proof (cases "c = Black \<and> X \<noteq> NIL")
    case True
    then have "unlink Y path = DeleteFixup X path" by (auto simp: unlink_def Y X_def Let_def)
    moreover obtain t where "DeleteFixup X path = Some t" "red_ok t" "node_color t = Black" using DeleteFixup_ok [of X path] X(2) assms(2) by auto
    ultimately show ?thesis using inorder_DeleteFixup [of X path t] X(1) Y by (simp add: inorder_plug)
  next
    case False
    then have u: "unlink Y path = Some (plug path X)" by (auto simp: unlink_def Y X_def Let_def)
    have "node_color X = Black" using False assms(1) Y by (cases c) (auto simp: X_def)
    then have "fits path (node_color X)" by (simp add: fits_def)
    then show ?thesis using u red_ok_plug [OF assms(2) X(2)] X(1) Y by (simp add: inorder_plug)
  qed
qed

lemma leftmost_append: "leftmost t (path @ q) = (let (Y, p) = leftmost t path in (Y, p @ q))"
proof (induction t path rule: leftmost.induct)
  case (2 c l d r path)
  then show ?case by (simp flip: append_Cons)
qed simp

lemma leftmost_ok:
  assumes "t \<noteq> NIL" and "red_ok t" and "path_ok path" and "fits path (node_color t)" and "leftmost t path = (Y, path')"
  shows "Y \<noteq> NIL \<and> left_child Y = NIL \<and> red_ok Y \<and> path_ok path' \<and> fits path' (node_color Y) \<and> before path' = before path \<and>
    inorder t @ after path = inorder Y @ after path'"
  using assms
proof (induction t path rule: leftmost.induct)
  case (2 c l d r path)
  show ?case
  proof (cases "l = NIL")
    case True
    then show ?thesis using 2(3-6) by auto
  next
    case False
    let ?f = "\<lparr>fr_side = OnLeft, fr_color = c, fr_data = d, fr_other = r\<rparr>"
    have "path_ok (?f # path)" "fits (?f # path) (node_color l)" "red_ok l" using 2(3-5) by (auto simp: fits_def split: if_split_asm)
    then show ?thesis using 2(1) [OF False False] 2(6) False by simp
  qed
qed simp

text \<open>Deleting the node at a position removes its data and keeps the colours.\<close>

lemma rbtree_delete_ok:
  assumes "red_ok (RBNode c l d r)" and "path_ok path" and "fits path c"
  shows "\<exists>t. rbtree_delete tree (RBNode c l d r, path) = Some (Some d, tree\<lparr>rb_root := t, rb_num_elements := rb_num_elements tree - 1\<rparr>) \<and>
    red_ok t \<and> node_color t = Black \<and> inorder t = before path @ inorder l @ inorder r @ after path"
proof (cases "l = NIL \<or> r = NIL")
  case True
  then show ?thesis using unlink_ok [OF assms(1,2)] assms(3) by auto
next
  case False
  obtain Y ypath where y: "leftmost r [] = (Y, ypath)" by fastforce
  let ?f = "\<lambda>dy. \<lparr>fr_side = OnRight, fr_color = c, fr_data = dy, fr_other = l\<rparr>"
  have f: "path_ok (?f dy # path)" "fits (?f dy # path) (node_color r)" for dy
    using assms by (auto simp: fits_def split: if_split_asm)
  have "leftmost r (?f dy # path) = (Y, ypath @ ?f dy # path)" for dy using leftmost_append [of r "[]" "?f dy # path"] y by simp
  note y' = leftmost_ok [OF _ _ f this]
  have Y: "Y \<noteq> NIL" "left_child Y = NIL" using y' [of d] False assms(1) by auto
  then obtain cy dy ry where Yd: "Y = RBNode cy NIL dy ry" by (cases Y) auto
  have yd: "red_ok Y" "path_ok (ypath @ ?f dy # path)" "fits (ypath @ ?f dy # path) (node_color Y)"
      "before (ypath @ ?f dy # path) = before path @ inorder l @ [dy]"
      "inorder r @ after path = dy # inorder ry @ after (ypath @ ?f dy # path)"
    using y' [of dy] False assms(1) Yd by auto
  obtain t where "unlink Y (ypath @ ?f dy # path) = Some t" "red_ok t" "node_color t = Black"
      "inorder t = (before path @ inorder l @ [dy]) @ inorder ry @ after (ypath @ ?f dy # path)"
    using unlink_ok [OF yd(1-3) Y(1)] Y(2) Yd yd(4) by auto
  then show ?thesis using False y Yd yd(5) by auto
qed

section \<open>Balance\<close>

fun black_height :: "'a rbnode \<Rightarrow> nat" where
  "black_height NIL = 0"
| "black_height (RBNode c l d r) = black_height l + (if c = Black then 1 else 0)"

fun balanced :: "'a rbnode \<Rightarrow> bool" where
  "balanced NIL \<longleftrightarrow> True"
| "balanced (RBNode c l d r) \<longleftrightarrow> balanced l \<and> balanced r \<and> black_height l = black_height r"

fun tree_height :: "'a rbnode \<Rightarrow> nat" where
  "tree_height NIL = 0"
| "tree_height (RBNode c l d r) = Suc (max (tree_height l) (tree_height r))"

fun path_balanced :: "'a frame list \<Rightarrow> nat \<Rightarrow> bool" where
  "path_balanced [] h \<longleftrightarrow> True"
| "path_balanced (f # fs) h \<longleftrightarrow> balanced (fr_other f) \<and> black_height (fr_other f) = h \<and>
     path_balanced fs (h + (if fr_color f = Black then 1 else 0))"

lemma balanced_up [simp]:
  "balanced (up f t) \<longleftrightarrow> balanced t \<and> balanced (fr_other f) \<and> black_height (fr_other f) = black_height t"
  by (auto simp: up_def split: side.split)

lemma black_height_up:
  "black_height (fr_other f) = black_height t \<Longrightarrow> black_height (up f t) = black_height t + (if fr_color f = Black then 1 else 0)"
  by (auto simp: up_def split: side.split)

lemma balanced_paint [simp]: "balanced (paint c t) = balanced t"
  by (cases t) auto

lemma balanced_plug: "path_balanced path (black_height t) \<Longrightarrow> balanced t \<Longrightarrow> balanced (plug path t)"
  by (induction path arbitrary: t) (auto simp: black_height_up)

lemma plug_balanced: "balanced (plug path t) \<Longrightarrow> path_balanced path (black_height t) \<and> balanced t"
proof (induction path arbitrary: t)
  case (Cons f fs)
  then have "path_balanced fs (black_height (up f t))" and up: "balanced (up f t)" using Cons.IH [of "up f t"] by simp_all
  then show ?case using black_height_up [of f t] by auto
qed simp

lemma black_height_paint: "node_color t = Red \<Longrightarrow> black_height (paint Black t) = Suc (black_height t)"
  by (cases t) auto

lemma InsertFixup_balanced:
  assumes "red_ok X" and "node_color X = Red" and "path_ok path" and "balanced X" and "path_balanced path (black_height X)"
    and "InsertFixup X path = Some t"
  shows "balanced t"
  using assms
proof (induction X path rule: InsertFixup.induct)
  case (3 X p g rest)
  show ?case
  proof (cases "fr_color p = Black")
    case True
    then show ?thesis using 3(5-7) balanced_plug [of "p # g # rest" X] by auto
  next
    case red: False
    then have g: "fr_color g = Black" "node_color (fr_other p) = Black" using 3(4) by auto
    show ?thesis
    proof (cases "node_color (fr_other g) = Red")
      case True
      then show ?thesis using 3 red g by (auto simp: red_ok_up color_paint black_height_up black_height_paint)
    next
      case False
      obtain xl xd xr where X: "X = RBNode Red xl xd xr" using 3(3) by (cases X) auto
      define r where "r = the (Option.bind (if fr_side p \<noteq> fr_side g then rotate_to (fr_side g) (up p X) else Some (up p X))
          (\<lambda>parent. rotate_to (opposite (fr_side g)) (up (g\<lparr>fr_color := Red\<rparr>) (paint Black parent))))"
      have "t = paint Black (plug rest r) \<and> balanced r \<and> black_height r = Suc (black_height X)"
        using False red g X 3(4-7) by (cases "fr_side p"; cases "fr_side g") (auto simp: r_def up_def rotate_to_def)
      then show ?thesis using balanced_plug [of rest r] 3(6) red g by simp
    qed
  qed
qed (auto split: if_split_asm)

lemma balanced_size: "balanced t \<Longrightarrow> 2 ^ black_height t \<le> length (inorder t) + 1"
proof (induction t)
  case (RBNode c l d r)
  then have "2 ^ black_height l \<le> length (inorder l) + 1" "2 ^ black_height l \<le> length (inorder r) + 1" by auto
  then show ?case by (cases c) auto
qed simp

lemma red_ok_height: "red_ok t \<Longrightarrow> balanced t \<Longrightarrow> tree_height t \<le> 2 * black_height t + (if node_color t = Red then 1 else 0)"
proof (induction t)
  case (RBNode c l d r)
  then show ?case by (cases c) (auto split: if_split_asm)
qed simp

end
