(* ===== verification/Red_Black_Map.thy ===== *)
theory Red_Black_Map
  imports Red_Black_Props Table_Spec "HOL-Library.Multiset"
begin

text \<open>
  The red-black tree as a container: over a comparison that is an order on the data (the locale \<open>rb_order\<close>), searching finds
  by key, insertion and deletion act on the map of the data, the walk in order is ascending.
\<close>

section \<open>Trees as maps\<close>

definition tree_map :: "('a \<Rightarrow> 'k) \<Rightarrow> 'a rbnode \<Rightarrow> 'k \<rightharpoonup> 'a" where
  "tree_map key t = map_of (map (\<lambda>d. (key d, d)) (inorder t))"

definition rb_rep :: "('a \<Rightarrow> 'k :: linorder) \<Rightarrow> 'a set \<Rightarrow> bool \<Rightarrow> 'a rbtree \<Rightarrow> ('k \<rightharpoonup> 'a) \<Rightarrow> bool" where
  "rb_rep key U flag tree m \<longleftrightarrow> rb_replace_flag tree = flag \<and> red_ok (rb_root tree) \<and> node_color (rb_root tree) = Black \<and>
     sorted_wrt (<) (map key (inorder (rb_root tree))) \<and> set (inorder (rb_root tree)) \<subseteq> U \<and>
     rb_num_elements tree = int (length (inorder (rb_root tree))) \<and> m = tree_map key (rb_root tree)"

lemma map_of_sorted:
  fixes key :: "'a \<Rightarrow> 'k :: linorder"
  assumes "sorted_wrt (<) (map key xs)"
  shows "map_of (map (\<lambda>d. (key d, d)) xs) k = Some d \<longleftrightarrow> d \<in> set xs \<and> key d = k"
proof -
  have "distinct (map fst (map (\<lambda>d. (key d, d)) xs))" using assms by (simp add: comp_def strict_sorted_iff)
  then show ?thesis by (auto simp: map_of_eq_Some_iff)
qed

lemma map_of_split:
  fixes key :: "'a \<Rightarrow> 'k :: linorder"
  assumes "sorted_wrt (<) (map key (xs @ ys))" and "\<forall>d \<in> set xs. key d < k" and "\<forall>d \<in> set ys. k < key d"
  shows "map_of (map (\<lambda>d. (key d, d)) (xs @ ys)) k = None"
    and "key x = k \<Longrightarrow> sorted_wrt (<) (map key (xs @ x # ys))"
    and "key x = k \<Longrightarrow> map_of (map (\<lambda>d. (key d, d)) (xs @ x # ys)) = (map_of (map (\<lambda>d. (key d, d)) (xs @ ys)))(k \<mapsto> x)"
proof -
  have None: "map_of (map (\<lambda>d. (key d, d)) zs) k = None" if "\<forall>d \<in> set zs. key d \<noteq> k" for zs
    using that by (induction zs) auto
  show "map_of (map (\<lambda>d. (key d, d)) (xs @ ys)) k = None" by (rule None) (use assms(2,3) in auto)
  show "key x = k \<Longrightarrow> sorted_wrt (<) (map key (xs @ x # ys))" using assms by (auto simp: sorted_wrt_append)
  assume x: "key x = k"
  have "map_of (map (\<lambda>d. (key d, d)) xs) k = None" by (rule None) (use assms(2) in auto)
  then show "map_of (map (\<lambda>d. (key d, d)) (xs @ x # ys)) = (map_of (map (\<lambda>d. (key d, d)) (xs @ ys)))(k \<mapsto> x)"
    using x by (auto simp: fun_eq_iff map_add_def split: option.split)
qed

lemma length_map_of:
  fixes key :: "'a \<Rightarrow> 'k :: linorder"
  assumes "sorted_wrt (<) (map key xs)"
  shows "card (dom (map_of (map (\<lambda>d. (key d, d)) xs))) = length xs"
proof -
  have "distinct (map key xs)" using assms by (simp add: strict_sorted_iff)
  then have "card (set (map key xs)) = length xs" by (metis distinct_card length_map)
  then show ?thesis by (simp add: dom_map_of_conv_image_fst image_image)
qed

section \<open>An ordered tree\<close>

locale rb_order =
  fixes cmp :: "'a \<Rightarrow> 'a \<Rightarrow> int" and key :: "'a \<Rightarrow> 'k :: linorder" and U :: "'a set"
  assumes cmp_less: "x \<in> U \<Longrightarrow> y \<in> U \<Longrightarrow> cmp x y < 0 \<longleftrightarrow> key x < key y"
    and cmp_eq: "x \<in> U \<Longrightarrow> y \<in> U \<Longrightarrow> cmp x y = 0 \<longleftrightarrow> key x = key y"
begin

lemma search_ok:
  assumes "rb_search cmp data t path = (X, path')" and "data \<in> U" and "set (inorder t) \<subseteq> U"
    and "sorted_wrt (<) (map key (inorder t))" and "\<forall>d \<in> set (before path). key d < key data" and "\<forall>d \<in> set (after path). key data < key d"
    and "red_ok t" and "path_ok path" and "fits path (node_color t)"
  shows "plug path' X = plug path t \<and> (\<forall>d \<in> set (before path' @ inorder (left_child X)). key d < key data) \<and>
    (\<forall>d \<in> set (inorder (right_child X) @ after path'). key data < key d) \<and> (\<forall>d. rbtree_node2data X = Some d \<longrightarrow> key d = key data) \<and>
    red_ok X \<and> path_ok path' \<and> fits path' (node_color X)"
  using assms
proof (induction t arbitrary: path)
  case (RBNode c l d r)
  have d: "d \<in> U" "set (inorder l) \<subseteq> U" "set (inorder r) \<subseteq> U" using RBNode.prems(3) by auto
  have srt: "sorted_wrt (<) (map key (inorder l))" "sorted_wrt (<) (map key (inorder r))" "\<forall>x \<in> set (inorder l). key x < key d"
      "\<forall>x \<in> set (inorder r). key d < key x"
    using RBNode.prems(4) by (auto simp: sorted_wrt_append)
  note cmp = cmp_less [OF assms(2) d(1)] cmp_eq [OF assms(2) d(1)]
  consider "key data = key d" | "key data < key d" | "key d < key data" by (metis linorder_cases)
  then show ?case
  proof cases
    case 1
    then have X: "X = RBNode c l d r" "path' = path" using RBNode.prems(1) cmp by auto
    have "\<forall>x \<in> set (before path @ inorder l). key x < key data" "\<forall>x \<in> set (inorder r @ after path). key data < key x"
      using srt(3,4) 1 RBNode.prems(5,6) by auto
    then show ?thesis using RBNode.prems(7-9) 1 unfolding X by simp
  next
    case 2
    let ?f = "\<lparr>fr_side = OnLeft, fr_color = c, fr_data = d, fr_other = r\<rparr>"
    have s: "rb_search cmp data l (?f # path) = (X, path')" using RBNode.prems(1) cmp 2 by simp
    have bounds: "\<forall>x \<in> set (before (?f # path)). key x < key data" "\<forall>x \<in> set (after (?f # path)). key data < key x"
      using 2 srt(4) RBNode.prems(5,6) by auto
    have "path_ok (?f # path)" "fits (?f # path) (node_color l)" "red_ok l"
      using RBNode.prems(7-9) by (auto simp: fits_def split: if_split_asm)
    from RBNode.IH(1) [OF s assms(2) d(2) srt(1) bounds this(3) this(1,2)] show ?thesis by (simp add: up_def)
  next
    case 3
    let ?f = "\<lparr>fr_side = OnRight, fr_color = c, fr_data = d, fr_other = l\<rparr>"
    have "\<not> cmp data d < 0" "cmp data d \<noteq> 0" using cmp 3 by auto
    then have s: "rb_search cmp data r (?f # path) = (X, path')" using RBNode.prems(1) by simp
    have bounds: "\<forall>x \<in> set (before (?f # path)). key x < key data" "\<forall>x \<in> set (after (?f # path)). key data < key x"
      using 3 srt(3) RBNode.prems(5,6) by auto
    have "path_ok (?f # path)" "fits (?f # path) (node_color r)" "red_ok r"
      using RBNode.prems(7-9) by (auto simp: fits_def split: if_split_asm)
    from RBNode.IH(2) [OF s assms(2) d(3) srt(2) bounds this(3) this(1,2)] show ?thesis by (simp add: up_def)
  qed
qed auto

lemma link_path_id:
  assumes "\<forall>d \<in> set (before path). key d < key data" and "\<forall>d \<in> set (after path). key data < key d" and "data \<in> U"
    and "set (before path @ after path) \<subseteq> U"
  shows "link_path cmp data path = path"
proof (cases path)
  case (Cons f fs)
  have f: "fr_data f \<in> U" using assms(4) Cons by (cases "fr_side f") auto
  show ?thesis
  proof (cases "fr_side f")
    case OnLeft
    then have "cmp data (fr_data f) < 0" using assms(2) Cons cmp_less [OF assms(3) f] by simp
    then show ?thesis using Cons OnLeft by (simp add: link_path_def)
  next
    case OnRight
    then have "key (fr_data f) < key data" using assms(1) Cons by simp
    then have "\<not> cmp data (fr_data f) \<le> 0" using cmp_less [OF assms(3) f] cmp_eq [OF assms(3) f] by (auto simp: order_le_less)
    then show ?thesis using Cons OnRight by (simp add: link_path_def)
  qed
qed (simp add: link_path_def)

text \<open>What searching a tree from its root gives.\<close>

lemma located:
  assumes "rb_rep key U flag tree m" and "data \<in> U"
  obtains path where "rb_search cmp data (rb_root tree) [] = (NIL, path)" and "m (key data) = None" and "path_ok path" and "fits path Black"
      and "rb_root tree = plug path NIL" and "\<forall>d \<in> set (before path). key d < key data" and "\<forall>d \<in> set (after path). key data < key d"
  | c l d r path where "rb_search cmp data (rb_root tree) [] = (RBNode c l d r, path)" and "m (key data) = Some d" and "key d = key data"
      and "path_ok path" and "fits path c" and "red_ok (RBNode c l d r)" and "rb_root tree = plug path (RBNode c l d r)"
      and "\<forall>d \<in> set (before path @ inorder l). key d < key data" and "\<forall>d \<in> set (inorder r @ after path). key data < key d"
proof -
  note rep = assms(1) [unfolded rb_rep_def tree_map_def]
  obtain X path where s: "rb_search cmp data (rb_root tree) [] = (X, path)" by fastforce
  have ok: "plug path X = rb_root tree" "\<forall>d \<in> set (before path @ inorder (left_child X)). key d < key data"
      "\<forall>d \<in> set (inorder (right_child X) @ after path). key data < key d" "\<forall>d. rbtree_node2data X = Some d \<longrightarrow> key d = key data"
      "red_ok X" "path_ok path" "fits path (node_color X)"
    using search_ok [OF s assms(2)] rep by (auto simp: fits_def)
  have io: "inorder (rb_root tree) = before path @ inorder X @ after path" using ok(1) inorder_plug by metis
  have mk: "m (key data) = Some d \<longleftrightarrow> d \<in> set (inorder (rb_root tree)) \<and> key d = key data" for d
    using rep map_of_sorted [of key "inorder (rb_root tree)" "key data" d] by simp
  show thesis
  proof (cases X)
    case NIL
    have "m (key data) = None"
    proof (rule ccontr)
      assume "m (key data) \<noteq> None"
      then obtain a where "m (key data) = Some a" by blast
      then have "a \<in> set (before path) \<or> a \<in> set (after path)" and a: "key a = key data" using mk [of a] io NIL by auto
      from this(1) show False
      proof
        assume "a \<in> set (before path)"
        then have "key a < key data" using ok(2) by simp
        then show False using a by simp
      next
        assume "a \<in> set (after path)"
        then have "key data < key a" using ok(3) by simp
        then show False using a by simp
      qed
    qed
    from that(1) [OF s [unfolded NIL] this ok(6)] show thesis using ok(1-3,7) unfolding NIL by simp
  next
    case (RBNode c l d r)
    have "m (key data) = Some d" using mk [of d] ok(4) RBNode io by auto
    from that(2) [OF s [unfolded RBNode] this _ ok(6)] show thesis using ok(1-5,7) unfolding RBNode by simp
  qed
qed

lemma rbtree_create_rep: "rb_rep key U flag (rbtree_create flag) Map.empty"
  by (simp add: rb_rep_def rbtree_create_def tree_map_def)

lemma rbtree_find_rep:
  assumes "rb_rep key U flag tree m" and "data \<in> U"
  shows "rbtree_finddata cmp tree data = m (key data)"
  using assms by (cases rule: located) (simp_all add: rbtree_finddata_def rbtree_find_def)

text \<open>Insertion of new data, and of data with a key that is there.\<close>

lemma rbtree_insert_new:
  assumes "rb_rep key U flag tree m" and "data \<in> U" and "m (key data) = None"
  shows "\<exists>tree'. rbtree_insert cmp tree data = Some (True, None, tree') \<and> rb_rep key U flag tree' (m(key data \<mapsto> data)) \<and>
    (balanced (rb_root tree) \<longrightarrow> balanced (rb_root tree'))"
  using assms(1,2)
proof (cases rule: located)
  case (1 path)
  note rep = assms(1) [unfolded rb_rep_def tree_map_def]
  have io: "inorder (rb_root tree) = before path @ after path" unfolding 1(5) by (simp add: inorder_plug)
  have link: "link_path cmp data path = path" using link_path_id [OF 1(6,7) assms(2)] io rep by simp
  obtain t where t: "InsertFixup (RBNode Red NIL data NIL) path = Some t" "red_ok t" "node_color t = Black"
    using InsertFixup_ok [of "RBNode Red NIL data NIL" path] 1(3) by auto
  have it: "inorder t = before path @ data # after path" using inorder_InsertFixup [OF t(1)] by (simp add: inorder_plug)
  let ?tree = "tree\<lparr>rb_root := t, rb_num_elements := rb_num_elements tree + 1\<rparr>"
  have srt: "sorted_wrt (<) (map key (before path @ after path))" using rep io by simp
  have "rb_rep key U flag ?tree (m(key data \<mapsto> data))"
    using rep io it t(2,3) assms(2) map_of_split(2,3) [OF srt 1(6,7) refl] by (simp add: rb_rep_def tree_map_def)
  moreover have "balanced t" if "balanced (rb_root tree)"
    using InsertFixup_balanced [OF _ _ 1(3) _ _ t(1)] plug_balanced [of path NIL] that unfolding 1(5) by simp
  ultimately show ?thesis using 1(1) link t(1) by (simp add: rbtree_insert_def rbtree_insertnode_def)
qed (use assms(3) in simp)

lemma rbtree_insert_old:
  assumes "rb_rep key U flag tree m" and "data \<in> U" and "m (key data) = Some d"
  shows "\<exists>tree'. rbtree_insert cmp tree data = Some (flag, if flag then Some d else None, tree') \<and>
    rb_rep key U flag tree' (if flag then m(key data \<mapsto> data) else m) \<and> (balanced (rb_root tree) \<longrightarrow> balanced (rb_root tree'))"
  using assms(1,2)
proof (cases rule: located)
  case (2 c l d' r path)
  note rep = assms(1) [unfolded rb_rep_def tree_map_def]
  have d: "d' = d" using 2(2) assms(3) by simp
  show ?thesis
  proof (cases flag)
    case False
    then show ?thesis using 2(1) rep assms(1) by (simp add: rbtree_insert_def rbtree_insertnode_def)
  next
    case True
    let ?xs = "before path @ inorder l" and ?ys = "inorder r @ after path"
    let ?tree = "tree\<lparr>rb_root := plug path (RBNode c l data r)\<rparr>"
    have io: "inorder (rb_root tree) = ?xs @ d # ?ys" unfolding 2(7) d by (simp add: inorder_plug)
    have io': "inorder (rb_root ?tree) = ?xs @ data # ?ys" by (simp add: inorder_plug)
    have srt: "sorted_wrt (<) (map key (?xs @ ?ys))" using rep io by (simp add: sorted_wrt_append)
    have key: "key d = key data" using 2(3) d by simp
    have m: "m = (map_of (map (\<lambda>d. (key d, d)) (?xs @ ?ys)))(key data \<mapsto> d)" using map_of_split(3) [OF srt 2(8,9) key] rep io by simp
    have m': "m(key data \<mapsto> data) = map_of (map (\<lambda>d. (key d, d)) (?xs @ data # ?ys))"
      unfolding m map_of_split(3) [OF srt 2(8,9) refl] by (rule fun_upd_upd)
    have "rb_rep key U flag ?tree (m(key data \<mapsto> data))"
      unfolding rb_rep_def tree_map_def io' m' using rep io red_ok_plug [OF 2(4), of "RBNode c l data r"] 2(5,6) assms(2)
        map_of_split(2) [OF srt 2(8,9) refl] by simp
    moreover have "balanced (plug path (RBNode c l data r))" if "balanced (rb_root tree)"
      using plug_balanced [OF that [unfolded 2(7)]] by (intro balanced_plug) auto
    ultimately show ?thesis using True 2(1) rep d by (simp add: rbtree_insert_def rbtree_insertnode_def)
  qed
qed (use assms(3) in simp)

lemma rbtree_deletebydata_rep:
  assumes "rb_rep key U flag tree m" and "data \<in> U"
  shows "\<exists>tree'. rbtree_deletebydata cmp tree data = Some (m (key data) \<noteq> None, m (key data), tree') \<and>
    rb_rep key U flag tree' (m(key data := None))"
  using assms
proof (cases rule: located)
  case (1 path)
  moreover from this have "m(key data := None) = m" by auto
  ultimately show ?thesis using assms(1) by (simp add: rbtree_deletebydata_def rbtree_find_def)
next
  case (2 c l d r path)
  note rep = assms(1) [unfolded rb_rep_def tree_map_def]
  let ?xs = "before path @ inorder l" and ?ys = "inorder r @ after path"
  obtain t where t: "rbtree_delete tree (RBNode c l d r, path) = Some (Some d, tree\<lparr>rb_root := t, rb_num_elements := rb_num_elements tree - 1\<rparr>)"
      "red_ok t" "node_color t = Black" "inorder t = ?xs @ ?ys"
    using rbtree_delete_ok [OF 2(6,4,5), of tree] by (auto simp del: rbtree_delete.simps)
  have io: "inorder (rb_root tree) = ?xs @ d # ?ys" unfolding 2(7) by (simp add: inorder_plug)
  have srt: "sorted_wrt (<) (map key (?xs @ ?ys))" using rep io by (simp add: sorted_wrt_append)
  have m: "m = (map_of (map (\<lambda>d. (key d, d)) (?xs @ ?ys)))(key data \<mapsto> d)" using map_of_split(3) [OF srt 2(8,9,3)] rep io by simp
  have "m(key data := None) = map_of (map (\<lambda>d. (key d, d)) (?xs @ ?ys))"
    unfolding m fun_upd_upd using map_of_split(1) [OF srt 2(8,9)] by (rule fun_upd_idem)
  then have "rb_rep key U flag (tree\<lparr>rb_root := t, rb_num_elements := rb_num_elements tree - 1\<rparr>) (m(key data := None))"
    using rep io t(2-4) srt by (simp add: rb_rep_def tree_map_def)
  then show ?thesis using 2(1,2) t(1) by (simp add: rbtree_deletebydata_def rbtree_find_def del: rbtree_delete.simps)
qed

lemma rbtree_num_elements_rep: "rb_rep key U flag tree m \<Longrightarrow> rbtree_num_elements tree = int (card (dom m))"
  by (simp add: rb_rep_def rbtree_num_elements_def tree_map_def length_map_of)

text \<open>The walk in order calls back for every datum, ascending; the smallest datum is the first.\<close>

lemma rb_values:
  assumes "rb_rep key U flag tree m"
  shows "inorder (rb_root tree) = map (the \<circ> m) (sorted_list_of_set (dom m))"
proof -
  note rep = assms [unfolded rb_rep_def tree_map_def]
  let ?xs = "inorder (rb_root tree)"
  have srt: "sorted_wrt (<) (map key ?xs)" using rep by simp
  have "dom m = set (map key ?xs)" using rep by (simp add: dom_map_of_conv_image_fst image_image)
  then have "sorted_list_of_set (dom m) = map key ?xs" using srt
    using sorted_list_of_set.idem_if_sorted_distinct [of "map key ?xs"] by (simp add: strict_sorted_iff)
  moreover have "m (key x) = Some x" if "x \<in> set ?xs" for x using that rep map_of_sorted [OF srt] by simp
  then have "map (the \<circ> m) (map key ?xs) = ?xs" by (simp add: map_idI)
  ultimately show ?thesis by simp
qed

end

sublocale rb_order \<subseteq> tree: table_spec "rb_rep key U False" key U "rbtree_create False"
  "\<lambda>t x. map_option (\<lambda>(b, _, t). (b, t)) (rbtree_insert cmp t x)" "\<lambda>t x. Some (rbtree_finddata cmp t x, t)"
  "\<lambda>t x. map_option snd (rbtree_deletebydata cmp t x)" "\<lambda>t. nat (rbtree_num_elements t)"
proof
  fix t m x
  assume rep: "rb_rep key U False t m" and x: "x \<in> U"
  show "\<exists>t'. map_option (\<lambda>(b, _, t). (b, t)) (rbtree_insert cmp t x) = Some (m (key x) = None, t') \<and>
      rb_rep key U False t' (if m (key x) = None then m(key x \<mapsto> x) else m)"
    using rbtree_insert_new [OF rep x] rbtree_insert_old [OF rep x] by (cases "m (key x)") auto
  show "\<exists>t'. Some (rbtree_finddata cmp t x, t) = Some (m (key x), t') \<and> rb_rep key U False t' m"
    using rep rbtree_find_rep [OF rep x] by simp
  show "\<exists>t'. map_option snd (rbtree_deletebydata cmp t x) = Some (m (key x), t') \<and> rb_rep key U False t' (m(key x := None))"
    using rbtree_deletebydata_rep [OF rep x] by auto
qed (simp_all add: rbtree_create_rep rbtree_num_elements_rep)

section \<open>Sequences of calls\<close>

datatype 'a rb_call = RbInsert 'a | RbFind 'a | RbDelete 'a | RbCount | RbMin | RbWalk

datatype 'a rb_answer = RbDone bool "'a option" | RbData "'a option" | RbTotal int | RbList "'a list"

fun rb_data :: "'a rb_call \<Rightarrow> 'a set" where
  "rb_data (RbInsert x) = {x}"
| "rb_data (RbFind x) = {x}"
| "rb_data (RbDelete x) = {x}"
| "rb_data _ = {}"

definition rb_collect :: "('a, 'a list) walk_callback" where
  "rb_collect ctx d = (0, ctx @ [d])"

fun rb_step :: "('a \<Rightarrow> 'a \<Rightarrow> int) \<Rightarrow> 'a rb_call \<Rightarrow> 'a rbtree \<Rightarrow> ('a rb_answer \<times> 'a rbtree) option" where
  "rb_step cmp (RbInsert x) tree = map_option (\<lambda>(b, freed, tree). (RbDone b freed, tree)) (rbtree_insert cmp tree x)"
| "rb_step cmp (RbFind x) tree = Some (RbData (rbtree_finddata cmp tree x), tree)"
| "rb_step cmp (RbDelete x) tree = map_option (\<lambda>(b, freed, tree). (RbDone b freed, tree)) (rbtree_deletebydata cmp tree x)"
| "rb_step cmp RbCount tree = Some (RbTotal (rbtree_num_elements tree), tree)"
| "rb_step cmp RbMin tree = Some (RbData (rbtree_min tree), tree)"
| "rb_step cmp RbWalk tree = Some (RbList (snd (rbtree_walk tree InOrder rb_collect [])), tree)"

fun rb_run :: "('a \<Rightarrow> 'a \<Rightarrow> int) \<Rightarrow> 'a rb_call list \<Rightarrow> 'a rbtree \<Rightarrow> ('a rb_answer list \<times> 'a rbtree) option" where
  "rb_run cmp [] tree = Some ([], tree)"
| "rb_run cmp (c # cs) tree =
     (case rb_step cmp c tree of
        None \<Rightarrow> None
      | Some (a, tree) \<Rightarrow> map_option (\<lambda>(as, tree). (a # as, tree)) (rb_run cmp cs tree))"

text \<open>The same calls on a map from keys.\<close>

definition values_of :: "('k :: linorder \<rightharpoonup> 'a) \<Rightarrow> 'a list" where
  "values_of m = map (the \<circ> m) (sorted_list_of_set (dom m))"

fun rb_map_step :: "('a \<Rightarrow> 'k :: linorder) \<Rightarrow> bool \<Rightarrow> 'a rb_call \<Rightarrow> ('k \<rightharpoonup> 'a) \<Rightarrow> 'a rb_answer \<times> ('k \<rightharpoonup> 'a)" where
  "rb_map_step key flag (RbInsert x) m =
     (if m (key x) = None then (RbDone True None, m(key x \<mapsto> x))
      else if flag then (RbDone True (m (key x)), m(key x \<mapsto> x)) else (RbDone False None, m))"
| "rb_map_step key flag (RbFind x) m = (RbData (m (key x)), m)"
| "rb_map_step key flag (RbDelete x) m = (RbDone (m (key x) \<noteq> None) (m (key x)), m(key x := None))"
| "rb_map_step key flag RbCount m = (RbTotal (int (card (dom m))), m)"
| "rb_map_step key flag RbMin m = (RbData (case values_of m of [] \<Rightarrow> None | d # _ \<Rightarrow> Some d), m)"
| "rb_map_step key flag RbWalk m = (RbList (values_of m), m)"

fun rb_map_run :: "('a \<Rightarrow> 'k :: linorder) \<Rightarrow> bool \<Rightarrow> 'a rb_call list \<Rightarrow> ('k \<rightharpoonup> 'a) \<Rightarrow> 'a rb_answer list" where
  "rb_map_run key flag [] m = []"
| "rb_map_run key flag (c # cs) m = (let (a, m) = rb_map_step key flag c m in a # rb_map_run key flag cs m)"

lemma WalkNodeInOrder_collect: "WalkNodeInOrder rb_collect t ctx = (0, ctx @ inorder t)"
  by (induction t arbitrary: ctx) (auto simp: rb_collect_def)

text \<open>The walk in post order visits the subtrees of the root in order.\<close>

lemma WalkNodePostOrder_collect:
  "WalkNodePostOrder rb_collect (RBNode c l d r) ctx = (0, ctx @ inorder l @ inorder r @ [d])"
  by (simp add: WalkNodeInOrder_collect) (simp add: rb_collect_def)

lemma leftmost_min: "rbtree_node2data (fst (leftmost t path)) = (case inorder t of [] \<Rightarrow> None | d # _ \<Rightarrow> Some d)"
proof (induction t path rule: leftmost.induct)
  case (2 c l d r path)
  then show ?case by (cases "inorder l"; cases l) auto
qed simp

context rb_order
begin

lemma rb_step_rep:
  assumes "rb_rep key U flag tree m" and "rb_data c \<subseteq> U"
  shows "\<exists>tree'. rb_step cmp c tree = Some (fst (rb_map_step key flag c m), tree') \<and> rb_rep key U flag tree' (snd (rb_map_step key flag c m)) \<and>
    (balanced (rb_root tree) \<and> (\<forall>x. c \<noteq> RbDelete x) \<longrightarrow> balanced (rb_root tree'))"
proof (cases c)
  case (RbInsert x)
  then have x: "x \<in> U" using assms(2) by simp
  show ?thesis using rbtree_insert_new [OF assms(1) x] rbtree_insert_old [OF assms(1) x] RbInsert by (cases "m (key x)"; cases flag) auto
next
  case (RbDelete x)
  then show ?thesis using rbtree_deletebydata_rep [OF assms(1), of x] assms(2) by auto
qed (use assms rbtree_find_rep [OF assms(1)] rb_values [OF assms(1)] in
    \<open>simp_all add: rbtree_num_elements_rep rbtree_min_def leftmost_min values_of_def rbtree_walk_def WalkNodeInOrder_collect\<close>)

lemma rb_run_rep:
  assumes "rb_rep key U flag tree m" and "\<forall>c \<in> set cs. rb_data c \<subseteq> U"
  shows "\<exists>tree' m'. rb_run cmp cs tree = Some (rb_map_run key flag cs m, tree') \<and> rb_rep key U flag tree' m' \<and>
    (balanced (rb_root tree) \<and> (\<forall>x. RbDelete x \<notin> set cs) \<longrightarrow> balanced (rb_root tree'))"
  using assms
proof (induction cs arbitrary: tree m)
  case (Cons c cs)
  obtain a m' where s: "rb_map_step key flag c m = (a, m')" by fastforce
  from rb_step_rep [OF Cons.prems(1), of c] s Cons.prems(2) obtain tree' where t: "rb_step cmp c tree = Some (a, tree')"
      "rb_rep key U flag tree' m'" "balanced (rb_root tree) \<and> (\<forall>x. c \<noteq> RbDelete x) \<longrightarrow> balanced (rb_root tree')" by auto
  obtain tree'' m'' where "rb_run cmp cs tree' = Some (rb_map_run key flag cs m', tree'')" "rb_rep key U flag tree'' m''"
      "balanced (rb_root tree') \<and> (\<forall>x. RbDelete x \<notin> set cs) \<longrightarrow> balanced (rb_root tree'')" using Cons.IH [OF t(2)] Cons.prems(2) by auto
  then show ?case using t(1,3) s by auto
qed auto

end

section \<open>The properties\<close>

lemma FreeWalker_mset: "mset (FreeWalker t) = mset (inorder t)"
  by (induction t) auto

text \<open>C36: A red-black tree is an ordered map. When the comparison orders the data of \<open>U\<close> by their keys, every sequence of
  insertions, lookups, deletions, counts, minima and walks in order returns on every call, never following a
  null parent or rotating the sentinel, and answers as the same calls on a map from keys to data do: with \<^verbatim>\<open>replace_flag\<close> or
  without, what the free callback gets and the ascending order of the walk included. No red node has a red child, and
  freeing the tree releases each of its data exactly once.\<close>

theorem rbtree_refines_map:
  assumes "\<forall>x \<in> U. \<forall>y \<in> U. (cmp x y < 0 \<longleftrightarrow> key x < key y) \<and> (cmp x y = 0 \<longleftrightarrow> key x = key y)"
    and "\<forall>c \<in> set calls. rb_data c \<subseteq> U"
  shows "\<exists>tree. rb_run cmp calls (rbtree_create flag) = Some (rb_map_run key flag calls Map.empty, tree) \<and>
    red_ok (rb_root tree) \<and> node_color (rb_root tree) = Black \<and> sorted_wrt (<) (map key (inorder (rb_root tree))) \<and>
    mset (rbtree_free tree) = mset (inorder (rb_root tree)) \<and> rbtree_num_elements tree = int (length (rbtree_free tree))"
proof -
  have ord: "rb_order cmp key U" using assms(1) by unfold_locales auto
  obtain tree m where "rb_run cmp calls (rbtree_create flag) = Some (rb_map_run key flag calls Map.empty, tree)" "rb_rep key U flag tree m"
    using rb_order.rb_run_rep [OF ord rb_order.rbtree_create_rep [OF ord] assms(2)] by blast
  then show ?thesis
    by (auto simp: rb_rep_def rbtree_free_def FreeWalker_mset rbtree_num_elements_def mset_eq_length [OF FreeWalker_mset])
qed

theorem rbtree_refines_map_witness:
  "map_option fst (rb_run (-) [RbInsert 7, RbInsert 3, RbInsert (7 :: int), RbDelete 7, RbFind 3, RbFind 7, RbCount] (rbtree_create False)) =
   Some [RbDone True None, RbDone True None, RbDone False None, RbDone True (Some 7), RbData (Some 3), RbData None, RbTotal 1]"
  using rbtree_refines_map [of UNIV "(-)" id "[RbInsert 7, RbInsert 3, RbInsert (7 :: int), RbDelete 7, RbFind 3, RbFind 7, RbCount]" False] by auto

text \<open>C37: As long as nothing is deleted, the tree is logarithmically deep: with \<open>h\<close> nodes on the longest way from the root there are
  at least \<open>2\<^bsup>h/2\<^esup> - 1\<close> elements, so that the loops of a search and the recursion of a walk are short.\<close>

theorem rbtree_insert_depth:
  fixes key :: "'a \<Rightarrow> 'k :: linorder"
  assumes "\<forall>x \<in> U. \<forall>y \<in> U. (cmp x y < 0 \<longleftrightarrow> key x < key y) \<and> (cmp x y = 0 \<longleftrightarrow> key x = key y)"
    and "\<forall>c \<in> set calls. rb_data c \<subseteq> U" and "\<forall>x. RbDelete x \<notin> set calls"
  shows "\<exists>answers tree. rb_run cmp calls (rbtree_create flag) = Some (answers, tree) \<and>
    2 ^ ((tree_height (rb_root tree) + 1) div 2) \<le> rbtree_num_elements tree + 1"
proof -
  have ord: "rb_order cmp key U" using assms(1) by unfold_locales auto
  have bal: "balanced (rb_root (rbtree_create flag))" by (simp add: rbtree_create_def)
  obtain tree m where t: "rb_run cmp calls (rbtree_create flag) = Some (rb_map_run key flag calls Map.empty, tree)" "rb_rep key U flag tree m"
      "balanced (rb_root tree)"
    using rb_order.rb_run_rep [OF ord rb_order.rbtree_create_rep [OF ord, of flag] assms(2)] bal assms(3) by blast
  let ?r = "rb_root tree"
  have r: "red_ok ?r" "node_color ?r = Black" "rbtree_num_elements tree = int (length (inorder ?r))"
    using t(2) by (simp_all add: rb_rep_def rbtree_num_elements_def)
  have "tree_height ?r \<le> 2 * black_height ?r" using red_ok_height [OF r(1) t(3)] r(2) by simp
  then have "(tree_height ?r + 1) div 2 \<le> black_height ?r" by simp
  then have "(2 :: nat) ^ ((tree_height ?r + 1) div 2) \<le> 2 ^ black_height ?r" by (rule power_increasing) simp
  also have "\<dots> \<le> length (inorder ?r) + 1" by (rule balanced_size [OF t(3)])
  finally have "int (2 ^ ((tree_height ?r + 1) div 2)) \<le> int (length (inorder ?r) + 1)" by (simp only: of_nat_le_iff)
  then show ?thesis using t(1) r(3) by simp
qed

theorem rbtree_insert_depth_witness:
  "\<exists>answers tree. rb_run (-) (map RbInsert [1 :: int, 2, 3]) (rbtree_create False) = Some (answers, tree) \<and>
    2 ^ ((tree_height (rb_root tree) + 1) div 2) \<le> rbtree_num_elements tree + 1"
  using rbtree_insert_depth [of UNIV "(-)" id "map RbInsert [1 :: int, 2, 3]" False] by simp

text \<open>With deletions it is not: removing a black leaf is not followed by \<open>DeleteFixup\<close>. Here five elements are left, one below the other,
  where the bound above allows a height of four at most.\<close>

definition chain_calls :: "int rb_call list" where
  "chain_calls = map RbInsert [1, 2, 3, 4, 5, 6, 7, 8, 9, 10, 11, 12, 13, 14] @ map RbDelete [1, 2, 3, 5, 6, 7, 9, 11, 4]"

lemma rbtree_delete_chain:
  "map_option (\<lambda>(_, tree). (tree_height (rb_root tree), rbtree_num_elements tree)) (rb_run (-) chain_calls (rbtree_create False)) = Some (5, 5)"
  by code_simp
end
