(* ===== verification/Packet_List.thy ===== *)
theory Packet_List
  imports Ip_Address Hash_Map Red_Black_Map
begin

text \<open>
  Lists of packets that wait for a reply: \<^verbatim>\<open>src/lib/packet.cpp\<close>. A list keeps its packets in a red-black tree, its sockets
  in 32 slots and, for each destination, 256 words with one bit for each socket that uses the identifier. A pointer to a
  packet stands for the packet, whose key fields the caller must not change while it is in the list; the words of a
  destination are mutated in place, so the entries of the hash table hold addresses (\<open>pd_addr\<close>) in a store \<open>pl_ids\<close>.
  \<^verbatim>\<open>getsockname\<close>, the set of readable sockets and \<^verbatim>\<open>rad_recv\<close> are arguments.
\<close>

section \<open>Sockets\<close>

record fr_packet_socket =
  ps_sockfd :: int
  ps_num_outgoing :: int
  ps_offset :: nat
  ps_inaddr_any :: bool
  ps_ipaddr :: fr_ipaddr
  ps_port :: nat

record fr_packet_dst2id =
  pd_dst_ipaddr :: fr_ipaddr
  pd_dst_port :: nat
  pd_addr :: nat

record fr_packet_list =
  pl_tree :: "radius_packet rbtree"
  pl_dst2id_ht :: "fr_packet_dst2id fr_hash_table option"
  pl_ids :: "u32 list list"
  pl_alloc_id :: bool
  pl_num_outgoing :: int
  pl_mask :: u32
  pl_last_recv :: nat
  pl_sockets :: "fr_packet_socket list"

definition MAX_SOCKETS :: nat where "MAX_SOCKETS = 32"

definition SOCK2OFFSET :: "int \<Rightarrow> nat" where
  "SOCK2OFFSET sockfd = unat ((word_of_int sockfd * FNV_MAGIC_PRIME) AND (31 :: u32))"

text \<open>The loops over the slots from a start, around the end of the array, until they come back to it: \<open>n\<close> slots are left.\<close>

fun probe :: "(fr_packet_socket \<Rightarrow> bool) \<Rightarrow> fr_packet_socket list \<Rightarrow> nat \<Rightarrow> nat \<Rightarrow> nat option" where
  "probe P sockets i 0 = None"
| "probe P sockets i (Suc n) = (if P (sockets ! i) then Some i else probe P sockets ((i + 1) mod MAX_SOCKETS) n)"

definition fr_socket_find :: "fr_packet_list \<Rightarrow> int \<Rightarrow> nat option" where
  "fr_socket_find pl sockfd = probe (\<lambda>ps. ps_sockfd ps = sockfd) (pl_sockets pl) (SOCK2OFFSET sockfd) MAX_SOCKETS"

definition fr_packet_list_socket_remove :: "fr_packet_list \<Rightarrow> int \<Rightarrow> bool \<times> fr_packet_list" where
  "fr_packet_list_socket_remove pl sockfd =
     (case fr_socket_find pl sockfd of
        None \<Rightarrow> (False, pl)
      | Some i \<Rightarrow>
          let ps = pl_sockets pl ! i
          in if ps_num_outgoing ps \<noteq> 0 then (False, pl)
             else (True, pl\<lparr>pl_sockets := (pl_sockets pl)[i := ps\<lparr>ps_sockfd := - 1\<rparr>], pl_mask := pl_mask pl AND NOT (push_bit (ps_offset ps) 1)\<rparr>))"

text \<open>A slot after \<^verbatim>\<open>memset(ps, 0, sizeof(*ps))\<close>.\<close>

definition socket0 :: fr_packet_socket where
  "socket0 = \<lparr>ps_sockfd = 0, ps_num_outgoing = 0, ps_offset = 0, ps_inaddr_any = False, ps_ipaddr = ipaddr0, ps_port = 0\<rparr>"

definition fr_packet_list_socket_add :: "(sockaddr_storage \<times> nat) option \<Rightarrow> fr_packet_list \<Rightarrow> int \<Rightarrow> bool \<times> fr_packet_list" where
  "fr_packet_list_socket_add sockname pl sockfd =
     (case probe (\<lambda>ps. ps_sockfd ps = - 1) (pl_sockets pl) (SOCK2OFFSET sockfd) MAX_SOCKETS of
        None \<Rightarrow> (False, pl)
      | Some start \<Rightarrow>
          let ps = socket0\<lparr>ps_sockfd := sockfd, ps_offset := start\<rparr>;
              store = (\<lambda>ps. pl\<lparr>pl_sockets := (pl_sockets pl)[start := ps]\<rparr>)
          in case sockname of
               None \<Rightarrow> (False, store ps)
             | Some (src, sizeof_src) \<Rightarrow>
                 (case fr_sockaddr2ipaddr src sizeof_src (ps_ipaddr ps) of
                    None \<Rightarrow> (False, store ps)
                  | Some (ipaddr, port) \<Rightarrow>
                      let ps = ps\<lparr>ps_ipaddr := ipaddr, ps_port := port\<rparr>
                      in if ss_family src = AF_INET \<or> ss_family src = AF_INET6 then
                           let ps = ps\<lparr>ps_inaddr_any := fr_inaddr_any ipaddr = 1\<rparr>
                           in (True, (store ps)\<lparr>pl_mask := pl_mask pl OR push_bit (ps_offset ps) 1\<rparr>)
                         else (False, store ps)))"

section \<open>Destinations\<close>

definition packet_dst2id_hash :: "fr_packet_dst2id \<Rightarrow> u32" where
  "packet_dst2id_hash pd =
     hash_addr (ip_af (pd_dst_ipaddr pd)) (pd_dst_ipaddr pd) (fr_hash (le32_bytes (of_nat (pd_dst_port pd))))"

definition packet_dst2id_cmp :: "fr_packet_dst2id \<Rightarrow> fr_packet_dst2id \<Rightarrow> int" where
  "packet_dst2id_cmp a b =
     (if pd_dst_port a < pd_dst_port b then - 1 else if pd_dst_port a > pd_dst_port b then 1
      else fr_ipaddr_cmp (pd_dst_ipaddr a) (pd_dst_ipaddr b))"

definition packet_entry_cmp :: "radius_packet \<Rightarrow> radius_packet \<Rightarrow> int" where
  "packet_entry_cmp = fr_packet_cmp"

definition fr_packet_list_create :: "bool \<Rightarrow> fr_packet_list" where
  "fr_packet_list_create alloc_id =
     \<lparr>pl_tree = rbtree_create False, pl_dst2id_ht = (if alloc_id then Some fr_hash_table_create else None), pl_ids = [],
      pl_alloc_id = alloc_id, pl_num_outgoing = 0, pl_mask = 0, pl_last_recv = 0,
      pl_sockets = replicate MAX_SOCKETS (socket0\<lparr>ps_sockfd := - 1\<rparr>)\<rparr>"

text \<open>The packets of the tree belong to the caller; what is freed are the entries of the destinations.\<close>

definition fr_packet_list_free :: "fr_packet_list \<Rightarrow> fr_packet_dst2id list" where
  "fr_packet_list_free pl = (case pl_dst2id_ht pl of None \<Rightarrow> [] | Some ht \<Rightarrow> fr_hash_table_free ht)"

section \<open>The packets\<close>

definition fr_packet_list_insert :: "fr_packet_list \<Rightarrow> radius_packet \<Rightarrow> (bool \<times> fr_packet_list) option" where
  "fr_packet_list_insert pl request =
     map_option (\<lambda>(b, _, tree). (b, pl\<lparr>pl_tree := tree\<rparr>)) (rbtree_insert packet_entry_cmp (pl_tree pl) request)"

definition fr_packet_list_find :: "fr_packet_list \<Rightarrow> radius_packet \<Rightarrow> radius_packet option" where
  "fr_packet_list_find pl request = rbtree_finddata packet_entry_cmp (pl_tree pl) request"

text \<open>The fields of the request on the stack that are not set do not matter to the comparison; \<open>packet0\<close> stands for them.\<close>

definition fr_packet_list_find_byreply :: "fr_packet_list \<Rightarrow> radius_packet \<Rightarrow> radius_packet option" where
  "fr_packet_list_find_byreply pl reply =
     (case fr_socket_find pl (pk_sockfd reply) of
        None \<Rightarrow> None
      | Some i \<Rightarrow>
          let ps = pl_sockets pl ! i;
              my_request = packet0\<lparr>pk_sockfd := pk_sockfd reply, pk_id := pk_id reply,
                pk_src_ipaddr := (if ps_inaddr_any ps then ps_ipaddr ps else pk_dst_ipaddr reply), pk_src_port := ps_port ps,
                pk_dst_ipaddr := pk_src_ipaddr reply, pk_dst_port := pk_src_port reply\<rparr>
          in rbtree_finddata packet_entry_cmp (pl_tree pl) my_request)"

definition fr_packet_list_yank :: "fr_packet_list \<Rightarrow> radius_packet \<Rightarrow> (radius_packet option \<times> fr_packet_list) option" where
  "fr_packet_list_yank pl request =
     (case rbtree_finddata packet_entry_cmp (pl_tree pl) request of
        None \<Rightarrow> Some (None, pl)
      | Some packet \<Rightarrow>
          map_option (\<lambda>(_, _, tree). (Some packet, pl\<lparr>pl_tree := tree\<rparr>)) (rbtree_deletebydata packet_entry_cmp (pl_tree pl) packet))"

definition fr_packet_list_num_elements :: "fr_packet_list \<Rightarrow> int" where
  "fr_packet_list_num_elements pl = rbtree_num_elements (pl_tree pl)"

section \<open>Identifiers\<close>

text \<open>The loop that looks for an identifier that some socket does not use, \<open>n\<close> of 256 left.\<close>

fun id_search :: "u32 list \<Rightarrow> u32 \<Rightarrow> nat \<Rightarrow> nat \<Rightarrow> nat option" where
  "id_search ids msk i 0 = None"
| "id_search ids msk i (Suc n) = (if ids ! i \<noteq> msk then Some i else id_search ids msk ((i + 1) mod 256) n)"

definition socket_usable :: "radius_packet \<Rightarrow> bool \<Rightarrow> u32 \<Rightarrow> fr_packet_socket list \<Rightarrow> nat \<Rightarrow> bool" where
  "socket_usable request src_any free_mask sockets i =
     (let ps = sockets ! i
      in if ps_sockfd ps = - 1 then False
         else if ip_af (ps_ipaddr ps) \<noteq> ip_af (pk_dst_ipaddr request) then False
         else if ps_inaddr_any ps \<and> \<not> src_any then False
         else if \<not> ps_inaddr_any ps \<and> \<not> src_any \<and> fr_ipaddr_cmp (pk_src_ipaddr request) (ps_ipaddr ps) \<noteq> 0 then False
         else free_mask AND push_bit i 1 = 0)"

text \<open>The entry for a destination, made when there is none. \<open>None\<close> is the error return.\<close>

definition dst2id_get ::
    "fr_packet_dst2id fr_hash_table \<Rightarrow> u32 list list \<Rightarrow> fr_ipaddr \<Rightarrow> nat \<Rightarrow>
     (nat option \<times> fr_packet_dst2id fr_hash_table \<times> u32 list list) option" where
  "dst2id_get ht ids ipaddr port =
     (let my_pd = \<lparr>pd_dst_ipaddr = ipaddr, pd_dst_port = port, pd_addr = length ids\<rparr>
      in case fr_hash_table_finddata packet_dst2id_hash (Some packet_dst2id_cmp) ht my_pd of
           None \<Rightarrow> None
         | Some (Some pd, ht) \<Rightarrow> Some (Some (pd_addr pd), ht, ids)
         | Some (None, ht) \<Rightarrow>
             map_option (\<lambda>(b, ht). if b then (Some (length ids), ht, ids @ [replicate 256 0]) else (None, ht, ids))
               (fr_hash_table_insert packet_dst2id_hash (Some packet_dst2id_cmp) ht my_pd))"

text \<open>The search for a free identifier and a socket, from the identifier \<open>start\<close> on.\<close>

definition id_take :: "fr_packet_list \<Rightarrow> nat \<Rightarrow> nat \<Rightarrow> bool \<Rightarrow> radius_packet \<Rightarrow> bool \<times> radius_packet \<times> fr_packet_list" where
  "id_take pl addr start src_any request =
     (let pd_id = pl_ids pl ! addr
      in case id_search pd_id (pl_mask pl) start 256 of
           None \<Rightarrow> (False, request, pl)
         | Some i \<Rightarrow>
             let free_mask = NOT (NOT (pd_id ! i) AND pl_mask pl)
             in case List.find (socket_usable request src_any free_mask (pl_sockets pl)) [0..<MAX_SOCKETS] of
                  None \<Rightarrow> (False, request, pl)
                | Some start \<Rightarrow>
                    let ps = pl_sockets pl ! start
                    in (True, request\<lparr>pk_id := int i, pk_sockfd := ps_sockfd ps, pk_src_ipaddr := ps_ipaddr ps, pk_src_port := ps_port ps\<rparr>,
                        pl\<lparr>pl_ids := (pl_ids pl)[addr := pd_id[i := pd_id ! i OR push_bit start 1]],
                           pl_sockets := (pl_sockets pl)[start := ps\<lparr>ps_num_outgoing := ps_num_outgoing ps + 1\<rparr>],
                           pl_num_outgoing := pl_num_outgoing pl + 1\<rparr>))"

text \<open>\<open>fr_packet_list_id_alloc\<close>: whether an identifier was assigned, and the updated request.\<close>

definition fr_packet_list_id_alloc ::
    "fr_packet_list \<Rightarrow> radius_packet \<Rightarrow> 'a rand_state_scheme \<Rightarrow> (bool \<times> radius_packet \<times> fr_packet_list \<times> 'a rand_state_scheme) option" where
  "fr_packet_list_id_alloc pl request s =
     (case pl_dst2id_ht pl of
        None \<Rightarrow> Some (False, request, pl, s)
      | Some ht \<Rightarrow>
          if \<not> pl_alloc_id pl then Some (False, request, pl, s)
          else if ip_af (pk_dst_ipaddr request) = AF_UNSPEC \<or> pk_dst_port request = 0 then Some (False, request, pl, s)
          else
            let request = (if ip_af (pk_src_ipaddr request) = AF_UNSPEC
                           then request\<lparr>pk_src_ipaddr := \<lparr>ip_af = ip_af (pk_dst_ipaddr request), ip_addr = zeros 16, ip_scope = 0\<rparr>\<rparr> else request);
                src_any = fr_inaddr_any (pk_src_ipaddr request)
            in if src_any < 0 then Some (False, request, pl, s)
               else if fr_inaddr_any (pk_dst_ipaddr request) \<noteq> 0 then Some (False, request, pl, s)
               else
                 case dst2id_get ht (pl_ids pl) (pk_dst_ipaddr request) (pk_dst_port request) of
                   None \<Rightarrow> None
                 | Some (None, ht, ids) \<Rightarrow> Some (False, request, pl\<lparr>pl_dst2id_ht := Some ht, pl_ids := ids\<rparr>, s)
                 | Some (Some addr, ht, ids) \<Rightarrow>
                     let (r, s) = fr_rand s;
                         (b, request, pl) = id_take (pl\<lparr>pl_dst2id_ht := Some ht, pl_ids := ids\<rparr>) addr (unat (r AND 0xff)) (src_any \<noteq> 0) request
                     in Some (b, request, pl, s))"

definition fr_packet_list_id_free :: "fr_packet_list \<Rightarrow> radius_packet \<Rightarrow> (bool \<times> fr_packet_list) option" where
  "fr_packet_list_id_free pl request =
     (case fr_socket_find pl (pk_sockfd request) of
        None \<Rightarrow> Some (False, pl)
      | Some i \<Rightarrow>
          (case pl_dst2id_ht pl of
             None \<Rightarrow> Some (False, pl)
           | Some ht \<Rightarrow>
               (case fr_hash_table_finddata packet_dst2id_hash (Some packet_dst2id_cmp) ht
                   \<lparr>pd_dst_ipaddr = pk_dst_ipaddr request, pd_dst_port = pk_dst_port request, pd_addr = length (pl_ids pl)\<rparr> of
                  None \<Rightarrow> None
                | Some (None, ht) \<Rightarrow> Some (False, pl\<lparr>pl_dst2id_ht := Some ht\<rparr>)
                | Some (Some pd, ht) \<Rightarrow>
                    let ps = pl_sockets pl ! i; pd_id = pl_ids pl ! pd_addr pd; id = nat (pk_id request)
                    in if pk_id request < 0 \<or> 256 \<le> id then None
                       else Some (True,
                         pl\<lparr>pl_dst2id_ht := Some ht,
                            pl_ids := (pl_ids pl)[pd_addr pd := pd_id[id := pd_id ! id AND NOT (push_bit (ps_offset ps) 1)]],
                            pl_sockets := (pl_sockets pl)[i := ps\<lparr>ps_num_outgoing := ps_num_outgoing ps - 1\<rparr>],
                            pl_num_outgoing := pl_num_outgoing pl - 1\<rparr>))))"

section \<open>Walking and receiving\<close>

definition fr_packet_list_walk :: "fr_packet_list \<Rightarrow> (radius_packet, 'c) walk_callback \<Rightarrow> 'c \<Rightarrow> int \<times> 'c" where
  "fr_packet_list_walk pl callback ctx = rbtree_walk (pl_tree pl) InOrder callback ctx"

definition fr_packet_list_fd_set :: "fr_packet_list \<Rightarrow> int set \<Rightarrow> int \<times> int set" where
  "fr_packet_list_fd_set pl fds =
     (let (maxfd, fds) =
        fold (\<lambda>ps (maxfd, fds). if ps_sockfd ps = - 1 then (maxfd, fds)
                else (if ps_sockfd ps > maxfd then ps_sockfd ps else maxfd, insert (ps_sockfd ps) fds)) (pl_sockets pl) (- 1, fds)
      in (if maxfd < 0 then - 1 else maxfd + 1, fds))"

text \<open>Each socket is read at most once; \<open>recv\<close> says what \<^verbatim>\<open>rad_recv\<close> returns for it.\<close>

fun recv_from :: "(int \<Rightarrow> radius_packet option) \<Rightarrow> int set \<Rightarrow> fr_packet_list \<Rightarrow> nat \<Rightarrow> nat \<Rightarrow> radius_packet option \<times> fr_packet_list" where
  "recv_from recv fds pl start 0 = (None, pl)"
| "recv_from recv fds pl start (Suc n) =
     (let start = (start + 1) mod MAX_SOCKETS; sockfd = ps_sockfd (pl_sockets pl ! start)
      in if sockfd = - 1 \<or> sockfd \<notin> fds then recv_from recv fds pl start n
         else case recv sockfd of
                None \<Rightarrow> recv_from recv fds pl start n
              | Some packet \<Rightarrow> (Some packet, pl\<lparr>pl_last_recv := start\<rparr>))"

definition fr_packet_list_recv :: "(int \<Rightarrow> radius_packet option) \<Rightarrow> fr_packet_list \<Rightarrow> int set \<Rightarrow> radius_packet option \<times> fr_packet_list" where
  "fr_packet_list_recv recv pl fds = recv_from recv fds pl (pl_last_recv pl) MAX_SOCKETS"

definition fr_packet_list_num_incoming :: "fr_packet_list \<Rightarrow> int" where
  "fr_packet_list_num_incoming pl =
     (let num_elements = rbtree_num_elements (pl_tree pl)
      in if num_elements < pl_num_outgoing pl then 0 else num_elements - pl_num_outgoing pl)"

definition fr_packet_list_num_outgoing :: "fr_packet_list \<Rightarrow> int" where
  "fr_packet_list_num_outgoing pl = pl_num_outgoing pl"

end
