(* ===== verification/Packet_Ids.thy ===== *)
theory Packet_Ids
  imports Packet_List
begin

text \<open>
  Identifiers and replies. The state of a packet list stands for the set of identifiers in use, each for a slot of the socket
  array and a destination (\<open>ids_rep\<close>); every operation of \<^verbatim>\<open>src/lib/packet.cpp\<close> keeps this relation. Shown: an identifier that is in use is
  never handed out again for the same socket and destination, the counters are exact, and a reply finds its request.
\<close>

declare push_bit_of_1 [simp del]

section \<open>Slots\<close>

lemma MAX_SOCKETS_pos [simp]: "0 < MAX_SOCKETS"
  by (simp add: MAX_SOCKETS_def)

lemma SOCK2OFFSET_less: "SOCK2OFFSET fd < MAX_SOCKETS"
proof -
  have "x AND 31 = take_bit 5 x" for x :: u32 by (simp add: take_bit_eq_mask mask_eq_exp_minus_1)
  moreover have "unat (take_bit 5 (x :: u32)) < 2 ^ 5" for x unfolding unsigned_take_bit_eq by (rule take_bit_nat_less_exp)
  ultimately show ?thesis by (simp add: SOCK2OFFSET_def MAX_SOCKETS_def)
qed

lemma probe_None:
  assumes "i < MAX_SOCKETS"
  shows "probe P ss i n = None \<longleftrightarrow> (\<forall>k<n. \<not> P (ss ! ((i + k) mod MAX_SOCKETS)))"
  using assms
proof (induction n arbitrary: i)
  case (Suc n)
  have split: "(\<forall>k<Suc n. \<not> P (ss ! ((i + k) mod MAX_SOCKETS))) \<longleftrightarrow>
      \<not> P (ss ! i) \<and> (\<forall>k<n. \<not> P (ss ! (((i + 1) mod MAX_SOCKETS + k) mod MAX_SOCKETS)))" if "i < MAX_SOCKETS"
    using that by (auto simp: less_Suc_eq_0_disj mod_simps ac_simps)
  show ?case using Suc by (simp add: split)
qed simp

lemma probe_Some: "probe P ss i n = Some j \<Longrightarrow> i < MAX_SOCKETS \<Longrightarrow> j < MAX_SOCKETS \<and> P (ss ! j)"
  by (induction n arbitrary: i) (auto split: if_split_asm)

lemma probe_all:
  assumes "probe P ss i MAX_SOCKETS = None" and "i < MAX_SOCKETS" and "j < MAX_SOCKETS"
  shows "\<not> P (ss ! j)"
proof -
  have "(i + (j + MAX_SOCKETS - i) mod MAX_SOCKETS) mod MAX_SOCKETS = j" using assms(2,3) by (simp add: mod_simps)
  moreover have "(j + MAX_SOCKETS - i) mod MAX_SOCKETS < MAX_SOCKETS" by simp
  ultimately show ?thesis using assms(1) probe_None [OF assms(2), of P ss MAX_SOCKETS] by metis
qed

section \<open>Identifiers in use\<close>

type_synonym dest = "nat \<times> ip_key"

definition pd_dest :: "fr_packet_dst2id \<Rightarrow> dest" where
  "pd_dest pd = (pd_dst_port pd, ip_key (pd_dst_ipaddr pd))"

definition req_dest :: "radius_packet \<Rightarrow> dest" where
  "req_dest r = (pk_dst_port r, ip_key (pk_dst_ipaddr r))"

definition dst_entries :: "dest set \<Rightarrow> fr_packet_dst2id set" where
  "dst_entries D = {pd. ip_valid (pd_dst_ipaddr pd) \<and> pd_dest pd \<in> D}"

abbreviation dst_hash_ok :: "dest set \<Rightarrow> bool" where
  "dst_hash_ok D \<equiv> no_collision packet_dst2id_hash (Some packet_dst2id_cmp) (dst_entries D)"

text \<open>The bits that are set: slot, destination and identifier.\<close>

definition id_bits :: "(u32 \<rightharpoonup> fr_packet_dst2id) \<Rightarrow> u32 list list \<Rightarrow> (nat \<times> dest \<times> nat) set" where
  "id_bits m ids = {(i, pd_dest pd, k) |i pd k. pd \<in> ran m \<and> k < 256 \<and> bit (ids ! pd_addr pd ! k) i}"

definition table_rep :: "dest set \<Rightarrow> fr_packet_list \<Rightarrow> fr_packet_dst2id fr_hash_table \<Rightarrow> (u32 \<rightharpoonup> fr_packet_dst2id) \<Rightarrow> bool" where
  "table_rep D pl ht m \<longleftrightarrow> pl_alloc_id pl \<and> pl_dst2id_ht pl = Some ht \<and> hash_rep packet_dst2id_hash (dst_entries D) ht m \<and>
     pd_addr ` ran m \<subseteq> {..<length (pl_ids pl)} \<and> inj_on pd_addr (ran m) \<and> (\<forall>w \<in> set (pl_ids pl). length w = 256)"

definition slots_ok :: "fr_packet_list \<Rightarrow> (nat \<times> dest \<times> nat) set \<Rightarrow> bool" where
  "slots_ok pl S \<longleftrightarrow> finite S \<and> length (pl_sockets pl) = MAX_SOCKETS \<and>
     (\<forall>i<MAX_SOCKETS. ps_sockfd (pl_sockets pl ! i) \<noteq> - 1 \<longrightarrow>
        ps_offset (pl_sockets pl ! i) = i \<and> ps_num_outgoing (pl_sockets pl ! i) = int (card {x \<in> S. fst x = i})) \<and>
     (\<forall>i<MAX_SOCKETS. bit (pl_mask pl) i \<longrightarrow> ps_sockfd (pl_sockets pl ! i) \<noteq> - 1) \<and>
     (\<forall>i<MAX_SOCKETS. \<forall>j<MAX_SOCKETS. ps_sockfd (pl_sockets pl ! i) = ps_sockfd (pl_sockets pl ! j) \<longrightarrow> ps_sockfd (pl_sockets pl ! i) \<noteq> - 1 \<longrightarrow> i = j) \<and>
     (\<forall>x \<in> S. bit (pl_mask pl) (fst x)) \<and> pl_num_outgoing pl = int (card S)"

lemma slots_okI:
  assumes "finite S" and "length (pl_sockets pl) = MAX_SOCKETS"
    and "\<And>i. i < MAX_SOCKETS \<Longrightarrow> ps_sockfd (pl_sockets pl ! i) \<noteq> - 1 \<Longrightarrow>
      ps_offset (pl_sockets pl ! i) = i \<and> ps_num_outgoing (pl_sockets pl ! i) = int (card {x \<in> S. fst x = i})"
    and "\<And>i. i < MAX_SOCKETS \<Longrightarrow> bit (pl_mask pl) i \<Longrightarrow> ps_sockfd (pl_sockets pl ! i) \<noteq> - 1"
    and "\<And>i j. i < MAX_SOCKETS \<Longrightarrow> j < MAX_SOCKETS \<Longrightarrow> ps_sockfd (pl_sockets pl ! i) = ps_sockfd (pl_sockets pl ! j) \<Longrightarrow>
      ps_sockfd (pl_sockets pl ! i) \<noteq> - 1 \<Longrightarrow> i = j"
    and "\<And>x. x \<in> S \<Longrightarrow> bit (pl_mask pl) (fst x)" and "pl_num_outgoing pl = int (card S)"
  shows "slots_ok pl S"
  unfolding slots_ok_def using assms by blast

lemma slots_okD:
  assumes "slots_ok pl S"
  shows "finite S" and "length (pl_sockets pl) = MAX_SOCKETS"
    and "i < MAX_SOCKETS \<Longrightarrow> ps_sockfd (pl_sockets pl ! i) \<noteq> - 1 \<Longrightarrow>
      ps_offset (pl_sockets pl ! i) = i \<and> ps_num_outgoing (pl_sockets pl ! i) = int (card {x \<in> S. fst x = i})"
    and "i < MAX_SOCKETS \<Longrightarrow> bit (pl_mask pl) i \<Longrightarrow> ps_sockfd (pl_sockets pl ! i) \<noteq> - 1"
    and "i < MAX_SOCKETS \<Longrightarrow> j < MAX_SOCKETS \<Longrightarrow> ps_sockfd (pl_sockets pl ! i) = ps_sockfd (pl_sockets pl ! j) \<Longrightarrow>
      ps_sockfd (pl_sockets pl ! i) \<noteq> - 1 \<Longrightarrow> i = j"
    and "x \<in> S \<Longrightarrow> bit (pl_mask pl) (fst x)" and "pl_num_outgoing pl = int (card S)"
  using assms unfolding slots_ok_def by blast+

definition ids_rep :: "dest set \<Rightarrow> fr_packet_list \<Rightarrow> (nat \<times> dest \<times> nat) set \<Rightarrow> bool" where
  "ids_rep D pl S \<longleftrightarrow> (\<exists>ht m. table_rep D pl ht m \<and> S = id_bits m (pl_ids pl)) \<and> slots_ok pl S"

lemma bit_u32: "bit (w :: u32) i \<Longrightarrow> i < MAX_SOCKETS"
  using bit_imp_le_length [of w i] by (simp add: MAX_SOCKETS_def)

lemma packet_dst2id_cmp_dest:
  assumes "ip_valid (pd_dst_ipaddr a)" and "ip_valid (pd_dst_ipaddr b)"
  shows "packet_dst2id_cmp a b = 0 \<longleftrightarrow> pd_dest a = pd_dest b"
  unfolding packet_dst2id_cmp_def pd_dest_def by (rule lex_step(2) [OF fr_ipaddr_cmp_key [OF assms]])

lemma packet_dst2id_hash_dest:
  assumes "pd_dest a = pd_dest b"
  shows "packet_dst2id_hash a = packet_dst2id_hash b"
  using assms by (simp add: packet_dst2id_hash_def pd_dest_def ip_key_def hash_addr_def)

text \<open>What the table holds under the hash of a destination is the entry of the destination.\<close>

lemma table_entry:
  assumes "dst_hash_ok D" and "hash_rep packet_dst2id_hash (dst_entries D) ht m" and "pd \<in> dst_entries D"
    and "m (packet_dst2id_hash pd) = Some pd'"
  shows "pd_dest pd' = pd_dest pd"
proof -
  have pd': "pd' \<in> dst_entries D" "packet_dst2id_hash pd' = packet_dst2id_hash pd" using hash_rep_entry [OF assms(2,4)] by auto
  then have "packet_dst2id_cmp pd' pd = 0" using assms(1,3) by (auto simp: no_collision_def)
  then show ?thesis using packet_dst2id_cmp_dest [of pd' pd] pd'(1) assms(3) by (simp add: dst_entries_def)
qed

lemma table_rep_dest_inj:
  assumes "hash_rep packet_dst2id_hash (dst_entries D) ht m" and "p \<in> ran m" and "q \<in> ran m" and "pd_dest p = pd_dest q"
  shows "p = q"
proof -
  obtain h h' where "m h = Some p" "m h' = Some q" using assms(2,3) by (auto simp: ran_def)
  moreover from this have "h = h'" using hash_rep_entry [OF assms(1)] packet_dst2id_hash_dest [OF assms(4)] by metis
  ultimately show ?thesis by simp
qed

lemma id_bits_mem:
  assumes "hash_rep packet_dst2id_hash (dst_entries D) ht m" and "pd \<in> ran m" and "k < 256"
  shows "(i, pd_dest pd, k) \<in> id_bits m ids \<longleftrightarrow> bit (ids ! pd_addr pd ! k) i"
proof
  assume "(i, pd_dest pd, k) \<in> id_bits m ids"
  then obtain q where "q \<in> ran m" "pd_dest q = pd_dest pd" "bit (ids ! pd_addr q ! k) i" by (auto simp: id_bits_def)
  then show "bit (ids ! pd_addr pd ! k) i" using table_rep_dest_inj [OF assms(1) _ assms(2)] by metis
next
  assume "bit (ids ! pd_addr pd ! k) i"
  then show "(i, pd_dest pd, k) \<in> id_bits m ids" using assms(2,3) by (auto simp: id_bits_def)
qed

text \<open>Writing one word of one destination changes the bits of its identifier only.\<close>

lemma id_bits_write:
  assumes "hash_rep packet_dst2id_hash (dst_entries D) ht m" and "inj_on pd_addr (ran m)" and "pd \<in> ran m" and "k < 256"
    and "pd_addr pd < length ids" and "length (ids ! pd_addr pd) = 256"
  shows "id_bits m (ids[pd_addr pd := (ids ! pd_addr pd)[k := w]]) =
    {x \<in> id_bits m ids. snd x \<noteq> (pd_dest pd, k)} \<union> {(i, pd_dest pd, k) |i. bit w i}" (is "id_bits m ?ids = ?R")
proof -
  have word: "?ids ! pd_addr q ! j = (if q = pd \<and> j = k then w else ids ! pd_addr q ! j)" if "q \<in> ran m" "j < 256" for q j
    using that assms inj_onD [OF assms(2) _ that(1) assms(3)] by (auto simp: nth_list_update)
  have dest: "pd_dest q = pd_dest pd \<longleftrightarrow> q = pd" if "q \<in> ran m" for q using table_rep_dest_inj [OF assms(1) that assms(3)] by auto
  show ?thesis
  proof (rule set_eqI, clarify)
    fix i d j
    show "(i, d, j) \<in> id_bits m ?ids \<longleftrightarrow> (i, d, j) \<in> ?R"
    proof (cases "d = pd_dest pd \<and> j = k")
      case True
      then show ?thesis using id_bits_mem [OF assms(1,3,4), of i ?ids] word [OF assms(3,4)] by simp
    next
      case False
      then show ?thesis by (auto simp: id_bits_def word dest)
    qed
  qed
qed

section \<open>The table of destinations\<close>

lemma dst2id_get_rep:
  assumes "dst_hash_ok D" and "table_rep D pl ht m" and "ip_valid ip" and "(port, ip_key ip) \<in> D"
  shows "\<exists>addr ht' ids' m' pd. dst2id_get ht (pl_ids pl) ip port = Some (Some addr, ht', ids') \<and>
    table_rep D (pl\<lparr>pl_dst2id_ht := Some ht', pl_ids := ids'\<rparr>) ht' m' \<and> id_bits m' ids' = id_bits m (pl_ids pl) \<and>
    pd \<in> ran m' \<and> pd_addr pd = addr \<and> pd_dest pd = (port, ip_key ip)"
proof -
  note rep = assms(2) [unfolded table_rep_def]
  let ?pd = "\<lparr>pd_dst_ipaddr = ip, pd_dst_port = port, pd_addr = length (pl_ids pl)\<rparr>"
  let ?h = "packet_dst2id_hash ?pd"
  have pd: "?pd \<in> dst_entries D" "pd_dest ?pd = (port, ip_key ip)" using assms(3,4) by (simp_all add: dst_entries_def pd_dest_def)
  from rep have hr: "hash_rep packet_dst2id_hash (dst_entries D) ht m" by simp
  obtain ht1 where f: "fr_hash_table_finddata packet_dst2id_hash (Some packet_dst2id_cmp) ht ?pd = Some (m ?h, ht1)"
      "hash_rep packet_dst2id_hash (dst_entries D) ht1 m"
    using fr_hash_table_finddata_rep [OF assms(1) hr pd(1)] by blast
  show ?thesis
  proof (cases "m ?h")
    case (Some pd')
    then have "pd_dest pd' = (port, ip_key ip)" "pd' \<in> ran m" using table_entry [OF assms(1) hr pd(1)] pd(2) by (auto intro: ranI)
    then show ?thesis using f rep Some by (auto simp: dst2id_get_def table_rep_def)
  next
    case None
    obtain ht2 where i: "fr_hash_table_insert packet_dst2id_hash (Some packet_dst2id_cmp) ht1 ?pd = Some (True, ht2)"
        "hash_rep packet_dst2id_hash (dst_entries D) ht2 (m(?h \<mapsto> ?pd))"
      using fr_hash_table_insert_rep [OF assms(1) f(2) pd(1)] None by auto
    let ?ids = "pl_ids pl @ [replicate 256 0]" and ?m = "m(?h \<mapsto> ?pd)"
    have ran: "ran ?m = insert ?pd (ran m)" using None by simp
    have old: "?ids ! pd_addr q = pl_ids pl ! pd_addr q" if "q \<in> ran m" for q using that rep by (auto simp: nth_append)
    have "id_bits ?m ?ids = id_bits m (pl_ids pl)" unfolding id_bits_def ran by (auto simp: old) (metis old)
    moreover have "length (pl_ids pl) \<notin> pd_addr ` ran m" using rep by auto
    then have "inj_on pd_addr (ran ?m)" unfolding ran inj_on_insert using rep by auto
    ultimately show ?thesis using f(1) i rep None pd(2) ran
      by (auto simp: dst2id_get_def table_rep_def less_Suc_eq image_subset_iff intro!: exI [of _ ?m] exI [of _ ?pd])
  qed
qed

section \<open>Sockets\<close>

lemma find_slot:
  assumes "slots_ok pl S" and "fd \<noteq> - 1"
  shows "fr_socket_find pl fd = Some i \<longleftrightarrow> i < MAX_SOCKETS \<and> ps_sockfd (pl_sockets pl ! i) = fd"
proof -
  have found: "j < MAX_SOCKETS \<and> ps_sockfd (pl_sockets pl ! j) = fd" if "fr_socket_find pl fd = Some j" for j
    using probe_Some [OF that [unfolded fr_socket_find_def] SOCK2OFFSET_less] .
  show ?thesis
  proof
    assume i: "i < MAX_SOCKETS \<and> ps_sockfd (pl_sockets pl ! i) = fd"
    then have "fr_socket_find pl fd \<noteq> None" using probe_all [OF _ SOCK2OFFSET_less] unfolding fr_socket_find_def by blast
    then obtain j where j: "fr_socket_find pl fd = Some j" by blast
    moreover have "j = i" using found [OF j] i assms by (auto simp: slots_ok_def)
    ultimately show "fr_socket_find pl fd = Some i" by simp
  qed (rule found)
qed

lemma slots_ok_cong:
  assumes "slots_ok pl S" and "pl_sockets pl' = pl_sockets pl" and "pl_mask pl' = pl_mask pl" and "pl_num_outgoing pl' = pl_num_outgoing pl"
  shows "slots_ok pl' S"
  using assms by (simp add: slots_ok_def)

lemma mask_bit [simp]: "bit (m OR push_bit j (1 :: u32)) i \<longleftrightarrow> bit m i \<or> i = j \<and> j < 32"
  "bit (m AND NOT (push_bit j (1 :: u32))) i \<longleftrightarrow> bit m i \<and> i \<noteq> j"
  using bit_imp_le_length [of m i] by (auto simp: bit_simps)

text \<open>The identifiers in use by the descriptors of their sockets.\<close>

definition used_of :: "fr_packet_list \<Rightarrow> (nat \<times> dest \<times> nat) set \<Rightarrow> (int \<times> dest \<times> int) set" where
  "used_of pl S = (\<lambda>(j, d, k). (ps_sockfd (pl_sockets pl ! j), d, int k)) ` S"

text \<open>The identifiers in use as they are stored: the bits of the sockets under the destinations of the table.\<close>

definition ids_in_use :: "fr_packet_list \<Rightarrow> (int \<times> dest \<times> int) set" where
  "ids_in_use pl =
     (case pl_dst2id_ht pl of
        None \<Rightarrow> {}
      | Some ht \<Rightarrow>
          {(ps_sockfd (pl_sockets pl ! j), pd_dest (he_data c), int k) |j c k.
             c \<in> entries (ht_buckets ht) \<and> k < 256 \<and> bit (pl_ids pl ! pd_addr (he_data c) ! k) j})"

lemma ids_in_use_rep: "ids_rep D pl S \<Longrightarrow> ids_in_use pl = used_of pl S"
proof -
  assume "ids_rep D pl S"
  then obtain ht m where t: "table_rep D pl ht m" "S = id_bits m (pl_ids pl)" by (auto simp: ids_rep_def)
  then have "pd \<in> ran m \<longleftrightarrow> (\<exists>c \<in> entries (ht_buckets ht). he_data c = pd)" for pd by (auto simp: table_rep_def hash_rep_def ran_def)
  moreover have "pl_dst2id_ht pl = Some ht" using t(1) by (simp add: table_rep_def)
  ultimately show ?thesis unfolding t(2) by (fastforce simp: ids_in_use_def used_of_def id_bits_def image_iff)
qed

lemma used_of_put:
  assumes "\<forall>x \<in> S. fst x \<noteq> i" and "pl_sockets pl' = (pl_sockets pl)[i := ps]"
  shows "used_of pl' S = used_of pl S"
  unfolding used_of_def using assms by (intro image_cong) auto

text \<open>A slot that no identifier uses can be overwritten.\<close>

lemma slots_ok_put:
  assumes "slots_ok pl S" and "i < MAX_SOCKETS" and "\<forall>x \<in> S. fst x \<noteq> i" and "pl_sockets pl' = (pl_sockets pl)[i := ps]"
    and "ps_sockfd ps \<noteq> - 1 \<longrightarrow> ps_offset ps = i \<and> ps_num_outgoing ps = 0 \<and> (\<forall>j<MAX_SOCKETS. ps_sockfd (pl_sockets pl ! j) \<noteq> ps_sockfd ps)"
    and "\<forall>j. j \<noteq> i \<longrightarrow> bit (pl_mask pl') j = bit (pl_mask pl) j" and "bit (pl_mask pl') i \<longrightarrow> ps_sockfd ps \<noteq> - 1"
    and "pl_num_outgoing pl' = pl_num_outgoing pl"
  shows "slots_ok pl' S"
proof (rule slots_okI)
  note ok = slots_okD [OF assms(1)]
  have "{x \<in> S. fst x = i} = {}" using assms(3) by blast
  then have card: "card {x \<in> S. fst x = i} = 0" by (simp only: card.empty)
  have slot: "pl_sockets pl' ! j = (if j = i then ps else pl_sockets pl ! j)" if "j < MAX_SOCKETS" for j
    using assms(4) ok(2) that by (simp add: nth_list_update)
  show "finite S" "length (pl_sockets pl') = MAX_SOCKETS" "pl_num_outgoing pl' = int (card S)" using ok(1,2,7) assms(4,8) by auto
  show "bit (pl_mask pl') (fst x)" if "x \<in> S" for x using assms(3,6) ok(6) that by metis
  show "ps_sockfd (pl_sockets pl' ! j) \<noteq> - 1" if "j < MAX_SOCKETS" "bit (pl_mask pl') j" for j
    using slot [OF that(1)] ok(4) [OF that(1)] that(2) assms(6,7) by (cases "j = i") simp_all
  show "ps_offset (pl_sockets pl' ! j) = j \<and> ps_num_outgoing (pl_sockets pl' ! j) = int (card {x \<in> S. fst x = j})"
    if "j < MAX_SOCKETS" "ps_sockfd (pl_sockets pl' ! j) \<noteq> - 1" for j
    using slot [OF that(1)] ok(3) [OF that(1)] that(2) assms(5) card by (cases "j = i") simp_all
  show "j = k" if "j < MAX_SOCKETS" "k < MAX_SOCKETS" "ps_sockfd (pl_sockets pl' ! j) = ps_sockfd (pl_sockets pl' ! k)"
      "ps_sockfd (pl_sockets pl' ! j) \<noteq> - 1" for j k
    using slot [OF that(1)] slot [OF that(2)] ok(5) [OF that(1,2)] that assms(5)
    by (cases "j = i"; cases "k = i") auto
qed

lemma socket_remove_rep:
  assumes "ids_rep D pl S" and "fd \<noteq> - 1" and "fr_packet_list_socket_remove pl fd = (b, pl')"
  shows "ids_rep D pl' S" and "b \<longleftrightarrow> (\<exists>i. fr_socket_find pl fd = Some i \<and> (\<forall>x \<in> S. fst x \<noteq> i))" and "used_of pl' S = used_of pl S"
proof -
  note rep = assms(1) [unfolded ids_rep_def]
  from rep have slots: "slots_ok pl S" by simp
  have "ids_rep D pl' S \<and> (b \<longleftrightarrow> (\<exists>i. fr_socket_find pl fd = Some i \<and> (\<forall>x \<in> S. fst x \<noteq> i))) \<and> used_of pl' S = used_of pl S"
  proof (cases "fr_socket_find pl fd")
    case None
    then show ?thesis using assms(1,3) by (auto simp: fr_packet_list_socket_remove_def)
  next
    case (Some i)
    let ?ps = "pl_sockets pl ! i"
    have i: "i < MAX_SOCKETS" "ps_sockfd ?ps = fd" using Some find_slot [OF slots assms(2)] by auto
    define X where "X = {x \<in> S. fst x = i}"
    have ps: "ps_offset ?ps = i" "ps_num_outgoing ?ps = int (card X)" using slots_okD(3) [OF slots i(1)] i(2) assms(2) by (simp_all add: X_def)
    have fin: "finite X" using slots_okD(1) [OF slots] by (simp add: X_def)
    show ?thesis
    proof (cases "ps_num_outgoing ?ps = 0")
      case False
      then have "X \<noteq> {}" using ps(2) by auto
      then have "\<exists>x \<in> S. fst x = i" unfolding X_def by blast
      then show ?thesis using Some False assms(1,3) by (auto simp: fr_packet_list_socket_remove_def Let_def)
    next
      case True
      then have "X = {}" using ps(2) fin by simp
      then have none: "\<forall>x \<in> S. fst x \<noteq> i" unfolding X_def by blast
      have pl': "b" "pl' = pl\<lparr>pl_sockets := (pl_sockets pl)[i := ?ps\<lparr>ps_sockfd := - 1\<rparr>], pl_mask := pl_mask pl AND NOT (push_bit i 1)\<rparr>"
        using assms(3) Some True ps(1) by (auto simp: fr_packet_list_socket_remove_def Let_def)
      have "slots_ok pl' S" unfolding pl'
        by (rule slots_ok_put [OF slots i(1) none, where ps = "?ps\<lparr>ps_sockfd := - 1\<rparr>"]) simp_all
      moreover have "used_of pl' S = used_of pl S" using used_of_put [OF none, of pl' pl] pl'(2) by simp
      ultimately show ?thesis using rep Some none pl' by (auto simp: ids_rep_def table_rep_def)
    qed
  qed
  then show "ids_rep D pl' S" "b \<longleftrightarrow> (\<exists>i. fr_socket_find pl fd = Some i \<and> (\<forall>x \<in> S. fst x \<noteq> i))" "used_of pl' S = used_of pl S" by auto
qed

text \<open>Adding a socket fills a free slot, which no identifier uses.\<close>

lemma socket_add_rep:
  assumes "ids_rep D pl S" and "fd \<noteq> - 1" and "fr_socket_find pl fd = None" and "fr_packet_list_socket_add sockname pl fd = (b, pl')"
  shows "ids_rep D pl' S \<and> used_of pl' S = used_of pl S"
proof (cases "probe (\<lambda>ps. ps_sockfd ps = - 1) (pl_sockets pl) (SOCK2OFFSET fd) MAX_SOCKETS")
  case None
  then show ?thesis using assms(1,4) by (simp add: fr_packet_list_socket_add_def)
next
  case (Some i)
  have i: "i < MAX_SOCKETS" "ps_sockfd (pl_sockets pl ! i) = - 1" using probe_Some [OF Some SOCK2OFFSET_less] by auto
  have slots: "slots_ok pl S" using assms(1) by (simp add: ids_rep_def)
  have "\<not> bit (pl_mask pl) i" using slots_okD(4) [OF slots i(1)] i(2) by blast
  then have none: "\<forall>x \<in> S. fst x \<noteq> i" using slots_okD(6) [OF slots] by metis
  have fresh: "\<forall>j<MAX_SOCKETS. ps_sockfd (pl_sockets pl ! j) \<noteq> fd" using find_slot [OF slots assms(2)] assms(3) by auto
  note fill = slots_ok_put [OF slots i(1) none]
  have "slots_ok pl' S" using assms(4) Some
    by (auto simp: fr_packet_list_socket_add_def Let_def socket0_def assms(2) fresh intro!: fill split: option.split_asm prod.split_asm if_split_asm)
  moreover have "pl_ids pl' = pl_ids pl \<and> pl_dst2id_ht pl' = pl_dst2id_ht pl \<and> pl_alloc_id pl' = pl_alloc_id pl \<and> used_of pl' S = used_of pl S"
    using assms(4) Some by (auto intro!: used_of_put [OF none] simp: fr_packet_list_socket_add_def Let_def split: option.split_asm prod.split_asm if_split_asm)
  ultimately show ?thesis using assms(1) by (auto simp: ids_rep_def table_rep_def)
qed

section \<open>Taking and releasing an identifier\<close>

text \<open>The counter of one slot changes with the identifiers of the slot.\<close>

lemma slots_ok_count:
  assumes "slots_ok pl S" and "i < MAX_SOCKETS" and "finite S'" and "\<forall>x \<in> S'. bit (pl_mask pl) (fst x)" and "\<forall>x. fst x \<noteq> i \<longrightarrow> (x \<in> S' \<longleftrightarrow> x \<in> S)"
    and "pl_sockets pl' = (pl_sockets pl)[i := (pl_sockets pl ! i)\<lparr>ps_num_outgoing := int (card {x \<in> S'. fst x = i})\<rparr>]"
    and "pl_mask pl' = pl_mask pl" and "pl_num_outgoing pl' = int (card S')"
  shows "slots_ok pl' S'"
proof (rule slots_okI)
  note ok = slots_okD [OF assms(1)]
  have slot: "pl_sockets pl' ! j = (if j = i then (pl_sockets pl ! i)\<lparr>ps_num_outgoing := int (card {x \<in> S'. fst x = i})\<rparr> else pl_sockets pl ! j)"
    if "j < MAX_SOCKETS" for j using assms(6) ok(2) that by (simp add: nth_list_update)
  then have fd: "ps_sockfd (pl_sockets pl' ! j) = ps_sockfd (pl_sockets pl ! j)" if "j < MAX_SOCKETS" for j using that by simp
  show "finite S'" "length (pl_sockets pl') = MAX_SOCKETS" "pl_num_outgoing pl' = int (card S')" using assms(3,6,8) ok(2) by auto
  show "bit (pl_mask pl') (fst x)" if "x \<in> S'" for x using assms(4,7) that by simp
  show "ps_sockfd (pl_sockets pl' ! j) \<noteq> - 1" if "j < MAX_SOCKETS" "bit (pl_mask pl') j" for j using fd ok(4) that assms(7) by simp
  show "j = k" if "j < MAX_SOCKETS" "k < MAX_SOCKETS" "ps_sockfd (pl_sockets pl' ! j) = ps_sockfd (pl_sockets pl' ! k)"
      "ps_sockfd (pl_sockets pl' ! j) \<noteq> - 1" for j k using ok(5) that fd by simp
  show "ps_offset (pl_sockets pl' ! j) = j \<and> ps_num_outgoing (pl_sockets pl' ! j) = int (card {x \<in> S'. fst x = j})"
    if "j < MAX_SOCKETS" "ps_sockfd (pl_sockets pl' ! j) \<noteq> - 1" for j
  proof (cases "j = i")
    case False
    then have "{x \<in> S'. fst x = j} = {x \<in> S. fst x = j}" using assms(5) by blast
    then show ?thesis using ok(3) [OF that(1)] slot [OF that(1)] that(2) False by simp
  qed (use ok(3) [OF that(1)] slot [OF that(1)] that(2) in simp)
qed

lemma id_search_Some: "id_search ids msk i n = Some k \<Longrightarrow> i < 256 \<Longrightarrow> k < 256 \<and> ids ! k \<noteq> msk"
  by (induction n arbitrary: i) (auto split: if_split_asm)

lemma usable_free:
  assumes "socket_usable request src_any (NOT (NOT w AND msk)) ss j" and "j < MAX_SOCKETS"
  shows "\<not> bit w j" and "bit msk j" and "ps_sockfd (ss ! j) \<noteq> - 1" and "ip_af (ps_ipaddr (ss ! j)) = ip_af (pk_dst_ipaddr request)"
proof -
  have "NOT (NOT w AND msk) AND push_bit j 1 = 0" using assms(1) by (simp add: socket_usable_def Let_def split: if_split_asm)
  then have "\<not> bit (NOT (NOT w AND msk) AND push_bit j 1) j" by simp
  then show "\<not> bit w j" "bit msk j" using assms(2) by (auto simp: bit_simps MAX_SOCKETS_def)
  show "ps_sockfd (ss ! j) \<noteq> - 1" "ip_af (ps_ipaddr (ss ! j)) = ip_af (pk_dst_ipaddr request)"
    using assms(1) by (simp_all add: socket_usable_def Let_def split: if_split_asm)
qed

text \<open>The request got an identifier that was free for its socket and destination.\<close>

definition id_taken :: "dest set \<Rightarrow> fr_packet_list \<Rightarrow> (nat \<times> dest \<times> nat) set \<Rightarrow> radius_packet \<Rightarrow> radius_packet \<Rightarrow> fr_packet_list \<Rightarrow> bool" where
  "id_taken D pl S request request' pl' \<longleftrightarrow>
     (\<exists>j k. j < MAX_SOCKETS \<and> k < 256 \<and> (j, req_dest request, k) \<notin> S \<and> ids_rep D pl' (insert (j, req_dest request, k) S) \<and>
       ps_sockfd (pl_sockets pl ! j) \<noteq> - 1 \<and>
       request' = request\<lparr>pk_id := int k, pk_sockfd := ps_sockfd (pl_sockets pl ! j), pk_src_ipaddr := ps_ipaddr (pl_sockets pl ! j),
         pk_src_port := ps_port (pl_sockets pl ! j)\<rparr>)"

lemma id_take_rep:
  assumes "table_rep D pl ht m" and "slots_ok pl (id_bits m (pl_ids pl))" and "pd \<in> ran m" and "start < 256"
    and "id_take pl (pd_addr pd) start src_any request = (b, request', pl')"
    and "pd_dest pd = req_dest request"
  shows "if b then id_taken D pl (id_bits m (pl_ids pl)) request request' pl' else request' = request \<and> pl' = pl"
proof (cases "b")
  case False
  then show ?thesis using assms(5) by (auto simp: id_take_def Let_def split: option.split_asm)
next
  case True
  let ?S = "id_bits m (pl_ids pl)" and ?w = "pl_ids pl ! pd_addr pd"
  note rep = assms(1) [unfolded table_rep_def]
  obtain k j where k: "id_search ?w (pl_mask pl) start 256 = Some k"
    and j: "List.find (socket_usable request src_any (NOT (NOT (?w ! k) AND pl_mask pl)) (pl_sockets pl)) [0..<MAX_SOCKETS] = Some j"
    using assms(5) True by (auto simp: id_take_def Let_def split: option.split_asm)
  have k': "k < 256" using id_search_Some [OF k assms(4)] by simp
  have j': "j < MAX_SOCKETS" "socket_usable request src_any (NOT (NOT (?w ! k) AND pl_mask pl)) (pl_sockets pl) j"
    using j by (auto simp: find_Some_iff)
  note free = usable_free [OF j'(2,1)]
  let ?ps = "pl_sockets pl ! j" and ?S' = "insert (j, pd_dest pd, k) ?S"
  have res: "request' = request\<lparr>pk_id := int k, pk_sockfd := ps_sockfd ?ps, pk_src_ipaddr := ps_ipaddr ?ps, pk_src_port := ps_port ?ps\<rparr>"
    "pl' = pl\<lparr>pl_ids := (pl_ids pl)[pd_addr pd := ?w[k := ?w ! k OR push_bit j 1]],
         pl_sockets := (pl_sockets pl)[j := ?ps\<lparr>ps_num_outgoing := ps_num_outgoing ?ps + 1\<rparr>], pl_num_outgoing := pl_num_outgoing pl + 1\<rparr>"
    using assms(5) k j by (simp_all add: id_take_def Let_def)
  have hr: "hash_rep packet_dst2id_hash (dst_entries D) ht m" using rep by simp
  have addr: "pd_addr pd < length (pl_ids pl)" "length ?w = 256" using rep assms(3) by auto
  note mem = id_bits_mem [OF hr assms(3) k']
  have new: "(j, pd_dest pd, k) \<notin> ?S" using mem free(1) by simp
  have bits: "id_bits m (pl_ids pl') = ?S'"
  proof -
    have "id_bits m (pl_ids pl') = {x \<in> ?S. snd x \<noteq> (pd_dest pd, k)} \<union> {(i, pd_dest pd, k) |i. bit (?w ! k OR push_bit j 1) i}"
      using id_bits_write [OF hr _ assms(3) k' addr] rep res(2) by simp
    also have "\<dots> = ?S'" using mem [of _ "pl_ids pl"] j'(1) by (auto simp: MAX_SOCKETS_def)
    finally show ?thesis .
  qed
  have card: "card {x \<in> ?S'. fst x = j} = Suc (card {x \<in> ?S. fst x = j})"
  proof -
    have "{x \<in> ?S'. fst x = j} = insert (j, pd_dest pd, k) {x \<in> ?S. fst x = j}" by auto
    then show ?thesis using new slots_okD(1) [OF assms(2)] by simp
  qed
  have num: "ps_num_outgoing ?ps + 1 = int (card {x \<in> ?S'. fst x = j})" "pl_num_outgoing pl + 1 = int (card ?S')"
    using slots_okD(3) [OF assms(2) j'(1) free(3)] card slots_okD(1,7) [OF assms(2)] new by simp_all
  have "slots_ok pl' ?S'"
  proof (rule slots_ok_count [OF assms(2) j'(1)])
    show "pl_sockets pl' = (pl_sockets pl)[j := ?ps\<lparr>ps_num_outgoing := int (card {x \<in> ?S'. fst x = j})\<rparr>]" by (simp only: res(2) num flip: num) simp
  qed (use slots_okD(1,6) [OF assms(2)] free(2) num(2) res(2) in auto)
  moreover have "table_rep D pl' ht m" using rep addr res(2) by (auto simp: table_rep_def dest!: set_update_subset_insert [THEN subsetD])
  ultimately have "ids_rep D pl' ?S'" unfolding ids_rep_def using bits by blast
  then show ?thesis using True new k' j'(1) free(3) res(1) unfolding id_taken_def assms(6) by (simp only: if_True) blast
qed

text \<open>The request with an unspecified source made explicit, and the requests that are refused outright.\<close>

definition src_filled :: "radius_packet \<Rightarrow> radius_packet" where
  "src_filled r = (if ip_af (pk_src_ipaddr r) = AF_UNSPEC
     then r\<lparr>pk_src_ipaddr := \<lparr>ip_af = ip_af (pk_dst_ipaddr r), ip_addr = zeros 16, ip_scope = 0\<rparr>\<rparr> else r)"

definition ill_addressed :: "radius_packet \<Rightarrow> bool" where
  "ill_addressed r \<longleftrightarrow> ip_af (pk_dst_ipaddr r) = AF_UNSPEC \<or> pk_dst_port r = 0 \<or> fr_inaddr_any (pk_src_ipaddr (src_filled r)) < 0 \<or>
     fr_inaddr_any (pk_dst_ipaddr r) \<noteq> 0"

lemma src_filled_simps [simp]: "pk_dst_ipaddr (src_filled r) = pk_dst_ipaddr r" "pk_dst_port (src_filled r) = pk_dst_port r"
  "req_dest (src_filled r) = req_dest r"
  by (simp_all add: src_filled_def req_dest_def)

lemma open_source_ok:
  assumes "ip_valid (pk_dst_ipaddr r)" and "fr_inaddr_any (pk_dst_ipaddr r) = 0" and "pk_dst_port r \<noteq> 0" and "ip_af (pk_src_ipaddr r) = AF_UNSPEC"
  shows "\<not> ill_addressed r"
  using assms by (auto simp: ill_addressed_def src_filled_def fr_inaddr_any_def ip_valid_def)

lemma low_octet: "unat (r AND 0xff :: u32) < 256"
proof -
  have "r AND 0xff = take_bit 8 r" by (simp add: take_bit_eq_mask mask_eq_exp_minus_1)
  then show ?thesis using take_bit_nat_less_exp [of 8 "unat r"] by (simp add: unsigned_take_bit_eq)
qed

lemma id_alloc_refused:
  assumes "ill_addressed r" and "pl_dst2id_ht pl \<noteq> None"
  shows "\<exists>r'. fr_packet_list_id_alloc pl r s = Some (False, r', pl, s)"
  using assms by (auto simp: fr_packet_list_id_alloc_def ill_addressed_def src_filled_def Let_def)

lemma id_alloc_take:
  assumes "dst_hash_ok D" and "ids_rep D pl S" and "ip_valid (pk_dst_ipaddr r)" and "req_dest r \<in> D" and "\<not> ill_addressed r"
  obtains ht' ids' m' pd start s' where "table_rep D (pl\<lparr>pl_dst2id_ht := Some ht', pl_ids := ids'\<rparr>) ht' m'" and "id_bits m' ids' = S" and "pd \<in> ran m'"
    and "pd_dest pd = req_dest r" and "start < 256"
    and "fr_packet_list_id_alloc pl r s = (case id_take (pl\<lparr>pl_dst2id_ht := Some ht', pl_ids := ids'\<rparr>) (pd_addr pd) start
        (fr_inaddr_any (pk_src_ipaddr (src_filled r)) \<noteq> 0) (src_filled r) of (b, r', pl') \<Rightarrow> Some (b, r', pl', s'))"
proof -
  obtain ht m where t: "table_rep D pl ht m" "S = id_bits m (pl_ids pl)" "slots_ok pl S" using assms(2) by (auto simp: ids_rep_def)
  then have pl: "pl_dst2id_ht pl = Some ht" "pl_alloc_id pl" by (simp_all add: table_rep_def)
  obtain addr ht' ids' m' pd where g: "dst2id_get ht (pl_ids pl) (pk_dst_ipaddr r) (pk_dst_port r) = Some (Some addr, ht', ids')"
      "table_rep D (pl\<lparr>pl_dst2id_ht := Some ht', pl_ids := ids'\<rparr>) ht' m'" "id_bits m' ids' = S" "pd \<in> ran m'" "pd_addr pd = addr"
      "pd_dest pd = req_dest r"
    using dst2id_get_rep [OF assms(1) t(1) assms(3) assms(4) [unfolded req_dest_def]] unfolding t(2) req_dest_def by blast
  obtain n s1 where r: "fr_rand s = (n, s1)" by fastforce
  have "fr_packet_list_id_alloc pl r s = (case id_take (pl\<lparr>pl_dst2id_ht := Some ht', pl_ids := ids'\<rparr>) (pd_addr pd) (unat (n AND 0xff))
        (fr_inaddr_any (pk_src_ipaddr (src_filled r)) \<noteq> 0) (src_filled r) of (b, r', pl') \<Rightarrow> Some (b, r', pl', s1))"
    using assms(5) g(1,5) r by (simp add: fr_packet_list_id_alloc_def pl ill_addressed_def flip: src_filled_def) (simp add: Let_def)
  then show thesis using that g(2-4,6) low_octet by blast
qed

lemma id_alloc_rep:
  assumes "dst_hash_ok D" and "ids_rep D pl S" and "ip_valid (pk_dst_ipaddr request)" and "req_dest request \<in> D"
  shows "\<exists>b request' pl' s'. fr_packet_list_id_alloc pl request s = Some (b, request', pl', s') \<and>
    (if b then id_taken D pl S request request' pl' else ids_rep D pl' S)"
proof (cases "ill_addressed request")
  case True
  have "pl_dst2id_ht pl \<noteq> None" using assms(2) by (auto simp: ids_rep_def table_rep_def)
  then show ?thesis using id_alloc_refused [OF True] assms(2) by fastforce
next
  case False
  from id_alloc_take [OF assms False, of s] obtain ht' ids' m' pd start s' where
    g: "table_rep D (pl\<lparr>pl_dst2id_ht := Some ht', pl_ids := ids'\<rparr>) ht' m'" "id_bits m' ids' = S" "pd \<in> ran m'" "pd_dest pd = req_dest request" "start < 256"
    and alloc: "fr_packet_list_id_alloc pl request s = (case id_take (pl\<lparr>pl_dst2id_ht := Some ht', pl_ids := ids'\<rparr>) (pd_addr pd) start
        (fr_inaddr_any (pk_src_ipaddr (src_filled request)) \<noteq> 0) (src_filled request) of (b, r', pl') \<Rightarrow> Some (b, r', pl', s'))" .
  let ?pl = "pl\<lparr>pl_dst2id_ht := Some ht', pl_ids := ids'\<rparr>"
  obtain b request' pl' where take: "id_take ?pl (pd_addr pd) start (fr_inaddr_any (pk_src_ipaddr (src_filled request)) \<noteq> 0) (src_filled request) =
      (b, request', pl')" by (metis prod_cases3)
  have ok: "slots_ok pl S" using assms(2) by (simp add: ids_rep_def)
  have slots: "slots_ok ?pl (id_bits m' (pl_ids ?pl))" using ok g(2) by (simp add: slots_ok_def)
  from id_take_rep [OF g(1) slots g(3,5) take] g(4) have res: "if b then id_taken D ?pl S (src_filled request) request' pl' else pl' = ?pl"
    using g(2) by (simp split: if_split_asm)
  show ?thesis
  proof (cases b)
    case True
    then have "id_taken D pl S request request' pl'" using res by (auto simp: id_taken_def src_filled_def req_dest_def split: if_split_asm)
    then show ?thesis using alloc take True by auto
  next
    case b: False
    then have "ids_rep D pl' S" using res g(1,2) ok by (auto simp: ids_rep_def slots_ok_def)
    then show ?thesis using alloc take b by auto
  qed
qed

section \<open>When an identifier is found\<close>

lemma id_search_None:
  assumes "i < 256"
  shows "id_search ids msk i n = None \<longleftrightarrow> (\<forall>k<n. ids ! ((i + k) mod 256) = msk)"
  using assms
proof (induction n arbitrary: i)
  case (Suc n)
  have "(\<forall>k<Suc n. ids ! ((i + k) mod 256) = msk) \<longleftrightarrow> ids ! i = msk \<and> (\<forall>k<n. ids ! (((i + 1) mod 256 + k) mod 256) = msk)"
    using Suc.prems by (auto simp: less_Suc_eq_0_disj mod_simps ac_simps)
  then show ?case using Suc by simp
qed simp

lemma id_search_all:
  assumes "id_search ids msk i 256 = None" and "i < 256" and "k < 256"
  shows "ids ! k = msk"
proof -
  have "(i + (k + 256 - i) mod 256) mod 256 = k" using assms(2,3) by (simp add: mod_simps)
  moreover have "(k + 256 - i) mod 256 < 256" by simp
  ultimately show ?thesis using assms(1) id_search_None [OF assms(2), of ids msk 256] by metis
qed

lemma id_alloc_live:
  assumes "dst_hash_ok D" and "ids_rep D pl S" and "ip_valid (pk_dst_ipaddr r)" and "req_dest r \<in> D" and "\<not> ill_addressed r"
    and "ip_af (pk_src_ipaddr r) = AF_UNSPEC" and "\<forall>i<MAX_SOCKETS. bit (pl_mask pl) i \<longrightarrow> ip_af (ps_ipaddr (pl_sockets pl ! i)) = ip_af (pk_dst_ipaddr r)"
    and "i < MAX_SOCKETS" and "bit (pl_mask pl) i" and "k < 256" and "(i, req_dest r, k) \<notin> S"
  shows "\<exists>r' pl' s'. fr_packet_list_id_alloc pl r s = Some (True, r', pl', s')"
proof -
  from id_alloc_take [OF assms(1-5), of s] obtain ht' ids' m' pd start s' where
    g: "table_rep D (pl\<lparr>pl_dst2id_ht := Some ht', pl_ids := ids'\<rparr>) ht' m'" "id_bits m' ids' = S" "pd \<in> ran m'" "pd_dest pd = req_dest r" "start < 256"
    and alloc: "fr_packet_list_id_alloc pl r s = (case id_take (pl\<lparr>pl_dst2id_ht := Some ht', pl_ids := ids'\<rparr>) (pd_addr pd) start
        (fr_inaddr_any (pk_src_ipaddr (src_filled r)) \<noteq> 0) (src_filled r) of (b, r', pl') \<Rightarrow> Some (b, r', pl', s'))" .
  let ?w = "ids' ! pd_addr pd"
  have hr: "hash_rep packet_dst2id_hash (dst_entries D) ht' m'" using g(1) by (simp add: table_rep_def)
  have slots: "slots_ok pl S" using assms(2) by (simp add: ids_rep_def)
  have any: "fr_inaddr_any (pk_src_ipaddr (src_filled r)) \<noteq> 0"
    using assms(3,6) by (auto simp: src_filled_def fr_inaddr_any_def ip_valid_def zeros_def)
  have mem: "(j, req_dest r, n) \<in> S \<longleftrightarrow> bit (?w ! n) j" if "n < 256" for j n using id_bits_mem [OF hr g(3) that, of j ids'] g(2,4) by simp
  have "?w ! k \<noteq> pl_mask pl" using mem [OF assms(10)] assms(9,11) by auto
  then obtain n where n: "id_search ?w (pl_mask pl) start 256 = Some n" using id_search_all [OF _ g(5) assms(10), of ?w "pl_mask pl"] by blast
  have n': "n < 256" "?w ! n \<noteq> pl_mask pl" using id_search_Some [OF n g(5)] by auto
  have "bit (?w ! n) j \<Longrightarrow> bit (pl_mask pl) j" for j using mem [OF n'(1), of j] slots_okD(6) [OF slots, of "(j, req_dest r, n)"] by simp
  then obtain j where j: "bit (pl_mask pl) j" "\<not> bit (?w ! n) j" using n'(2) by (metis bit_eqI)
  have j32: "j < MAX_SOCKETS" using bit_u32 [OF j(1)] .
  have "NOT (NOT (?w ! n) AND pl_mask pl) AND push_bit j 1 = 0" using j by (intro bit_word_eqI) (auto simp: bit_simps)
  then have "socket_usable (src_filled r) True (NOT (NOT (?w ! n) AND pl_mask pl)) (pl_sockets pl) j"
    using slots_okD(4) [OF slots j32 j(1)] assms(7) j32 j(1) by (simp add: socket_usable_def Let_def)
  then have "List.find (socket_usable (src_filled r) True (NOT (NOT (?w ! n) AND pl_mask pl)) (pl_sockets pl)) [0..<MAX_SOCKETS] \<noteq> None"
    using j32 by (auto simp: find_None_iff)
  then show ?thesis using alloc n any by (auto simp: id_take_def Let_def split: option.split)
qed

lemma dst_lookup:
  assumes "dst_hash_ok D" and "hash_rep packet_dst2id_hash (dst_entries D) ht m" and "pd \<in> ran m"
    and "pd_dest pd = (port, ip_key ip)" and "ip_valid ip"
  shows "\<exists>ht'. fr_hash_table_finddata packet_dst2id_hash (Some packet_dst2id_cmp) ht \<lparr>pd_dst_ipaddr = ip, pd_dst_port = port, pd_addr = n\<rparr> =
      Some (Some pd, ht') \<and> hash_rep packet_dst2id_hash (dst_entries D) ht' m"
proof -
  obtain h where h: "m h = Some pd" using assms(3) by (auto simp: ran_def)
  have pd: "pd \<in> dst_entries D" "packet_dst2id_hash pd = h" using hash_rep_entry [OF assms(2) h] by auto
  let ?pd = "\<lparr>pd_dst_ipaddr = ip, pd_dst_port = port, pd_addr = n\<rparr>"
  have same: "pd_dest ?pd = pd_dest pd" using assms(4) by (simp add: pd_dest_def)
  then have "?pd \<in> dst_entries D" "packet_dst2id_hash ?pd = h" using assms(5) pd packet_dst2id_hash_dest [OF same]
    by (simp_all add: dst_entries_def)
  then show ?thesis using fr_hash_table_finddata_rep [OF assms(1,2), of ?pd] h by auto
qed

lemma id_free_rep:
  assumes "dst_hash_ok D" and "ids_rep D pl S" and "ip_valid (pk_dst_ipaddr request)"
    and "(j, req_dest request, nat (pk_id request)) \<in> S" and "0 \<le> pk_id request" and "pk_sockfd request = ps_sockfd (pl_sockets pl ! j)"
  shows "\<exists>pl'. fr_packet_list_id_free pl request = Some (True, pl') \<and> ids_rep D pl' (S - {(j, req_dest request, nat (pk_id request))})"
proof -
  obtain ht m where t: "table_rep D pl ht m" "S = id_bits m (pl_ids pl)" "slots_ok pl S" using assms(2) by (auto simp: ids_rep_def)
  note rep = t(1) [unfolded table_rep_def]
  have hr: "hash_rep packet_dst2id_hash (dst_entries D) ht m" using rep by simp
  define k where "k = nat (pk_id request)"
  obtain pd where pd: "pd \<in> ran m" "pd_dest pd = req_dest request" "k < 256" "bit (pl_ids pl ! pd_addr pd ! k) j"
    using assms(4) by (auto simp: t(2) id_bits_def k_def)
  have j: "j < MAX_SOCKETS" using bit_u32 [OF pd(4)] .
  have "bit (pl_mask pl) j" using slots_okD(6) [OF t(3) assms(4)] by simp
  then have fd: "ps_sockfd (pl_sockets pl ! j) \<noteq> - 1" using slots_okD(4) [OF t(3) j] by simp
  then have find: "fr_socket_find pl (pk_sockfd request) = Some j" using find_slot [OF t(3), of "pk_sockfd request" j] assms(6) j by simp
  obtain ht' where f: "fr_hash_table_finddata packet_dst2id_hash (Some packet_dst2id_cmp) ht
        \<lparr>pd_dst_ipaddr = pk_dst_ipaddr request, pd_dst_port = pk_dst_port request, pd_addr = length (pl_ids pl)\<rparr> = Some (Some pd, ht')"
      "hash_rep packet_dst2id_hash (dst_entries D) ht' m"
    using dst_lookup [OF assms(1) hr pd(1)] pd(2) assms(3) by (auto simp: req_dest_def)
  let ?ps = "pl_sockets pl ! j" and ?w = "pl_ids pl ! pd_addr pd" and ?S' = "S - {(j, req_dest request, k)}"
  have off: "ps_offset ?ps = j" "ps_num_outgoing ?ps = int (card {x \<in> S. fst x = j})" using slots_okD(3) [OF t(3) j fd] by simp_all
  define pl' where "pl' = pl\<lparr>pl_dst2id_ht := Some ht', pl_ids := (pl_ids pl)[pd_addr pd := ?w[k := ?w ! k AND NOT (push_bit j 1)]],
      pl_sockets := (pl_sockets pl)[j := ?ps\<lparr>ps_num_outgoing := ps_num_outgoing ?ps - 1\<rparr>], pl_num_outgoing := pl_num_outgoing pl - 1\<rparr>"
  have free: "fr_packet_list_id_free pl request = Some (True, pl')"
    using find rep f(1) off(1) assms(5) pd(3) by (simp add: fr_packet_list_id_free_def Let_def pl'_def k_def)
  have addr: "pd_addr pd < length (pl_ids pl)" "length ?w = 256" using rep pd(1) by auto
  have bits: "id_bits m (pl_ids pl') = ?S'"
  proof -
    have "id_bits m (pl_ids pl') = {x \<in> S. snd x \<noteq> (pd_dest pd, k)} \<union> {(i, pd_dest pd, k) |i. bit (?w ! k AND NOT (push_bit j 1)) i}"
      using id_bits_write [OF hr _ pd(1,3) addr] rep t(2) by (simp add: pl'_def)
    also have "\<dots> = ?S'" using id_bits_mem [OF hr pd(1,3), of _ "pl_ids pl"] pd(2) t(2) by auto
    finally show ?thesis .
  qed
  have num: "ps_num_outgoing ?ps - 1 = int (card {x \<in> ?S'. fst x = j})" "pl_num_outgoing pl - 1 = int (card ?S')"
  proof -
    have mem: "(j, req_dest request, k) \<in> {x \<in> S. fst x = j}" "(j, req_dest request, k) \<in> S" using assms(4) by (simp_all add: k_def)
    have "{x \<in> ?S'. fst x = j} = {x \<in> S. fst x = j} - {(j, req_dest request, k)}" by auto
    then show "ps_num_outgoing ?ps - 1 = int (card {x \<in> ?S'. fst x = j})" "pl_num_outgoing pl - 1 = int (card ?S')"
      using off(2) slots_okD(1,7) [OF t(3)] card_Suc_Diff1 [OF _ mem(1)] card_Suc_Diff1 [OF _ mem(2)] by auto
  qed
  have "slots_ok pl' ?S'"
  proof (rule slots_ok_count [OF t(3) j])
    show "pl_sockets pl' = (pl_sockets pl)[j := ?ps\<lparr>ps_num_outgoing := int (card {x \<in> ?S'. fst x = j})\<rparr>]" unfolding num(1) [symmetric] by (simp add: pl'_def)
    show "\<forall>x. fst x \<noteq> j \<longrightarrow> (x \<in> ?S' \<longleftrightarrow> x \<in> S)" by auto
  qed (use slots_okD(1,6) [OF t(3)] num(2) in \<open>simp_all add: pl'_def\<close>)
  moreover have "table_rep D pl' ht' m" using rep addr f(2) by (auto simp: table_rep_def pl'_def dest!: set_update_subset_insert [THEN subsetD])
  ultimately show ?thesis using free bits by (auto simp: ids_rep_def k_def)
qed

section \<open>Histories\<close>

text \<open>What an identifier is used for: the socket, the destination and the identifier in the request.\<close>

definition id_of :: "radius_packet \<Rightarrow> int \<times> dest \<times> int" where
  "id_of r = (pk_sockfd r, req_dest r, pk_id r)"

text \<open>The states of a packet list and the identifiers handed out and not yet released. Destinations are from \<open>D\<close>; a
  socket is not added twice, and only identifiers in use are released.\<close>

inductive id_history :: "dest set \<Rightarrow> fr_packet_list \<Rightarrow> (int \<times> dest \<times> int) set \<Rightarrow> bool" for D where
  create: "id_history D (fr_packet_list_create True) {}"
| socket_add: "id_history D pl used \<Longrightarrow> fd \<noteq> - 1 \<Longrightarrow> fr_socket_find pl fd = None \<Longrightarrow>
    fr_packet_list_socket_add sockname pl fd = (b, pl') \<Longrightarrow> id_history D pl' used"
| socket_remove: "id_history D pl used \<Longrightarrow> fd \<noteq> - 1 \<Longrightarrow> fr_packet_list_socket_remove pl fd = (b, pl') \<Longrightarrow> id_history D pl' used"
| id_alloc: "id_history D pl used \<Longrightarrow> ip_valid (pk_dst_ipaddr r) \<Longrightarrow> req_dest r \<in> D \<Longrightarrow>
    fr_packet_list_id_alloc pl r (s :: lib_state) = Some (b, r', pl', s') \<Longrightarrow> id_history D pl' (if b then insert (id_of r') used else used)"
| id_free: "id_history D pl used \<Longrightarrow> ip_valid (pk_dst_ipaddr r) \<Longrightarrow> id_of r \<in> used \<Longrightarrow>
    fr_packet_list_id_free pl r = Some (b, pl') \<Longrightarrow> id_history D pl' (used - {id_of r})"
| insert: "id_history D pl used \<Longrightarrow> r \<in> addressed \<Longrightarrow> fr_packet_list_insert pl r = Some (b, pl') \<Longrightarrow> id_history D pl' used"
| yank: "id_history D pl used \<Longrightarrow> r \<in> addressed \<Longrightarrow> fr_packet_list_yank pl r = Some (p, pl') \<Longrightarrow> id_history D pl' used"
| recv: "id_history D pl used \<Longrightarrow> fr_packet_list_recv rcv pl fds = (p, pl') \<Longrightarrow> id_history D pl' used"

lemma used_of_inj:
  assumes "slots_ok pl S"
  shows "inj_on (\<lambda>(j, d, k). (ps_sockfd (pl_sockets pl ! j), d, int k)) S"
proof (rule inj_onI, clarsimp)
  fix i j d k
  assume x: "(i, d, k) \<in> S" "(j, d, k) \<in> S" "ps_sockfd (pl_sockets pl ! i) = ps_sockfd (pl_sockets pl ! j)"
  then have "bit (pl_mask pl) i" "bit (pl_mask pl) j" using slots_okD(6) [OF assms, of "(i, d, k)"] slots_okD(6) [OF assms, of "(j, d, k)"] by auto
  then show "i = j" using slots_okD(4,5) [OF assms] bit_u32 x(3) by metis
qed

lemma used_of_fds:
  assumes "map ps_sockfd (pl_sockets pl') = map ps_sockfd (pl_sockets pl)" and "slots_ok pl S" and "\<forall>x \<in> S'. fst x < MAX_SOCKETS"
  shows "used_of pl' S' = used_of pl S'"
proof -
  have "ps_sockfd (pl_sockets pl' ! j) = ps_sockfd (pl_sockets pl ! j)" if "j < MAX_SOCKETS" for j
    using assms(1) slots_okD(2) [OF assms(2)] that by (metis length_map nth_map)
  then show ?thesis unfolding used_of_def using assms(3) by (intro image_cong) auto
qed

lemma fds_count: "map ps_sockfd (ss[j := (ss ! j)\<lparr>ps_num_outgoing := n\<rparr>]) = map ps_sockfd ss"
  by (cases "j < length ss") (simp_all add: map_update list_update_same_conv list_update_beyond)

lemma id_alloc_fds: "fr_packet_list_id_alloc pl r s = Some (b, r', pl', s') \<Longrightarrow> map ps_sockfd (pl_sockets pl') = map ps_sockfd (pl_sockets pl)"
  by (auto simp: fr_packet_list_id_alloc_def id_take_def Let_def fds_count split: option.split_asm if_split_asm prod.split_asm)

lemma id_alloc_ipaddrs:
  assumes "fr_packet_list_id_alloc pl r s = Some (b, r', pl', s')"
  shows "pl_mask pl' = pl_mask pl" and "map ps_ipaddr (pl_sockets pl') = map ps_ipaddr (pl_sockets pl)"
proof -
  have "map ps_ipaddr (ss[j := (ss ! j)\<lparr>ps_num_outgoing := n\<rparr>]) = map ps_ipaddr ss" for ss j n
    by (cases "j < length ss") (simp_all add: map_update list_update_same_conv list_update_beyond)
  then show "pl_mask pl' = pl_mask pl" "map ps_ipaddr (pl_sockets pl') = map ps_ipaddr (pl_sockets pl)"
    using assms by (auto simp: fr_packet_list_id_alloc_def id_take_def Let_def split: option.split_asm prod.split_asm if_split_asm)
qed

lemma id_free_fds: "fr_packet_list_id_free pl r = Some (b, pl') \<Longrightarrow> map ps_sockfd (pl_sockets pl') = map ps_sockfd (pl_sockets pl)"
  by (auto simp: fr_packet_list_id_free_def Let_def fds_count split: option.split_asm if_split_asm prod.split_asm)

lemma ids_rep_cong:
  assumes "ids_rep D pl S" and "pl_sockets pl' = pl_sockets pl" and "pl_mask pl' = pl_mask pl" and "pl_num_outgoing pl' = pl_num_outgoing pl"
    and "pl_ids pl' = pl_ids pl" and "pl_dst2id_ht pl' = pl_dst2id_ht pl" and "pl_alloc_id pl' = pl_alloc_id pl"
  shows "ids_rep D pl' S \<and> used_of pl' S = used_of pl S"
  using assms by (auto simp: ids_rep_def table_rep_def slots_ok_def used_of_def)

lemma create_slot: "i < MAX_SOCKETS \<Longrightarrow> ps_sockfd (pl_sockets (fr_packet_list_create b) ! i) = - 1"
  by (simp add: fr_packet_list_create_def)

lemma create_rep: "ids_rep D (fr_packet_list_create True) {}"
proof -
  let ?pl = "fr_packet_list_create True"
  have "table_rep D ?pl fr_hash_table_create Map.empty"
    by (simp add: table_rep_def fr_packet_list_create_def fr_hash_table_create_rep)
  moreover have "id_bits Map.empty (pl_ids ?pl) = {}" by (simp add: id_bits_def)
  moreover have "slots_ok ?pl {}" by (rule slots_okI) (simp_all add: fr_packet_list_create_def)
  ultimately show ?thesis unfolding ids_rep_def by blast
qed

lemma recv_from_fields: "recv_from rcv fds pl start n = (p, pl') \<Longrightarrow> \<exists>k. pl' = pl \<or> pl' = pl\<lparr>pl_last_recv := k\<rparr>"
  by (induction n arbitrary: start) (auto simp: Let_def split: if_split_asm option.split_asm)

lemma id_history_rep:
  assumes "dst_hash_ok D" and "id_history D pl used"
  shows "\<exists>S. ids_rep D pl S \<and> used = used_of pl S"
  using assms(2)
proof induction
  case create
  then show ?case using create_rep [of D] by (auto simp: used_of_def)
next
  case (socket_add pl used fd sockname b pl')
  then show ?case using socket_add_rep by metis
next
  case (socket_remove pl used fd b pl')
  then show ?case using socket_remove_rep by metis
next
  case (id_alloc pl used r s b r' pl' s')
  then obtain S where S: "ids_rep D pl S" "used = used_of pl S" by blast
  then have slots: "slots_ok pl S" by (simp add: ids_rep_def)
  have less: "\<forall>x \<in> S. fst x < MAX_SOCKETS" using slots_okD(6) [OF slots] bit_u32 by blast
  show ?case
  proof (cases b)
    case False
    then have "ids_rep D pl' S" using id_alloc_rep [OF assms(1) S(1) id_alloc.hyps(2,3), of s] id_alloc.hyps(4) by auto
    then show ?thesis using False S(2) used_of_fds [OF id_alloc_fds [OF id_alloc.hyps(4)] slots less] by auto
  next
    case True
    then have "id_taken D pl S r r' pl'" using id_alloc_rep [OF assms(1) S(1) id_alloc.hyps(2,3), of s] id_alloc.hyps(4) by auto
    then obtain j k where jk: "j < MAX_SOCKETS" "ids_rep D pl' (insert (j, req_dest r, k) S)" "id_of r' = (ps_sockfd (pl_sockets pl ! j), req_dest r, int k)"
      by (auto simp: id_taken_def id_of_def req_dest_def)
    have "used_of pl' (insert (j, req_dest r, k) S) = used_of pl (insert (j, req_dest r, k) S)"
      using used_of_fds [OF id_alloc_fds [OF id_alloc.hyps(4)] slots] less jk(1) by simp
    moreover have "used_of pl (insert (j, req_dest r, k) S) = insert (id_of r') used" using S(2) jk(3) by (simp add: used_of_def)
    ultimately show ?thesis using True jk(2) by metis
  qed
next
  case (id_free pl used r b pl')
  then obtain S where S: "ids_rep D pl S" "used = used_of pl S" by blast
  then have slots: "slots_ok pl S" by (simp add: ids_rep_def)
  have less: "\<forall>x \<in> S. fst x < MAX_SOCKETS" using slots_okD(6) [OF slots] bit_u32 by blast
  obtain j k where jk: "(j, req_dest r, k) \<in> S" "pk_sockfd r = ps_sockfd (pl_sockets pl ! j)" "pk_id r = int k"
    using id_free.hyps(3) S(2) by (auto simp: used_of_def id_of_def)
  have "ids_rep D pl' (S - {(j, req_dest r, k)})"
    using id_free_rep [OF assms(1) S(1) id_free.hyps(2), of j] jk id_free.hyps(4) by auto
  moreover have "used_of pl' (S - {(j, req_dest r, k)}) = used - {id_of r}"
  proof -
    have "used_of pl' (S - {(j, req_dest r, k)}) = used_of pl (S - {(j, req_dest r, k)})"
      using used_of_fds [OF id_free_fds [OF id_free.hyps(4)] slots] less by simp
    also have "\<dots> = used_of pl S - used_of pl {(j, req_dest r, k)}"
      unfolding used_of_def using inj_on_image_set_diff [OF used_of_inj [OF slots], of S "{(j, req_dest r, k)}"] jk(1) by simp
    finally show ?thesis using S(2) jk(2,3) by (simp add: used_of_def id_of_def)
  qed
  ultimately show ?case by auto
next
  case (insert pl used r b pl')
  then show ?case using ids_rep_cong [of D pl _ pl'] by (fastforce simp: fr_packet_list_insert_def)
next
  case (yank pl used r p pl')
  then show ?case using ids_rep_cong [of D pl _ pl'] by (fastforce simp: fr_packet_list_yank_def split: option.split_asm)
next
  case (recv pl used rcv fds p pl')
  then show ?case using ids_rep_cong [of D pl _ pl'] recv_from_fields [of rcv fds pl "pl_last_recv pl" MAX_SOCKETS p pl']
    by (fastforce simp: fr_packet_list_recv_def)
qed

section \<open>The packets of a list\<close>

interpretation packet_tree: rb_order packet_entry_cmp packet_key addressed
  by unfold_locales (simp_all add: packet_entry_cmp_def fr_packet_cmp_key)

lemma insert_tree:
  assumes "rb_rep packet_key addressed False (pl_tree pl) m" and "r \<in> addressed" and "fr_packet_list_insert pl r = Some (b, pl')"
  shows "\<exists>m. rb_rep packet_key addressed False (pl_tree pl') m"
  using packet_tree.tree.ins [OF assms(1,2)] assms(3) by (auto simp: fr_packet_list_insert_def)

lemma yank_tree:
  assumes "rb_rep packet_key addressed False (pl_tree pl) m" and "r \<in> addressed" and "fr_packet_list_yank pl r = Some (p, pl')"
  shows "\<exists>m. rb_rep packet_key addressed False (pl_tree pl') m"
proof (cases "rbtree_finddata packet_entry_cmp (pl_tree pl) r")
  case None
  then show ?thesis using assms by (auto simp: fr_packet_list_yank_def)
next
  case (Some q)
  then have "m (packet_key r) = Some q" using packet_tree.rbtree_find_rep [OF assms(1,2)] by simp
  then have "q \<in> set (inorder (rb_root (pl_tree pl)))"
    using assms(1) map_of_sorted [of packet_key "inorder (rb_root (pl_tree pl))"] by (simp add: rb_rep_def tree_map_def)
  then have "q \<in> addressed" using assms(1) by (auto simp: rb_rep_def)
  then show ?thesis using packet_tree.rbtree_deletebydata_rep [OF assms(1)] assms(3) Some by (fastforce simp: fr_packet_list_yank_def)
qed

lemma id_history_tree:
  assumes "id_history D pl used"
  shows "\<exists>m. rb_rep packet_key addressed False (pl_tree pl) m"
  using assms
proof induction
  case create
  then show ?case using packet_tree.rbtree_create_rep by (auto simp: fr_packet_list_create_def)
next
  case (socket_add pl used fd sockname b pl')
  then have "pl_tree pl' = pl_tree pl"
    by (auto simp: fr_packet_list_socket_add_def Let_def split: option.split_asm prod.split_asm if_split_asm)
  then show ?case using socket_add by simp
next
  case (socket_remove pl used fd b pl')
  then have "pl_tree pl' = pl_tree pl" by (auto simp: fr_packet_list_socket_remove_def Let_def split: option.split_asm if_split_asm)
  then show ?case using socket_remove by simp
next
  case (id_alloc pl used r s b r' pl' s')
  then have "pl_tree pl' = pl_tree pl"
    by (auto simp: fr_packet_list_id_alloc_def id_take_def Let_def split: option.split_asm prod.split_asm if_split_asm)
  then show ?case using id_alloc by simp
next
  case (id_free pl used r b pl')
  then have "pl_tree pl' = pl_tree pl" by (auto simp: fr_packet_list_id_free_def Let_def split: option.split_asm prod.split_asm if_split_asm)
  then show ?case using id_free by simp
next
  case (insert pl used r b pl')
  then show ?case using insert_tree by blast
next
  case (yank pl used r p pl')
  then show ?case using yank_tree by blast
next
  case (recv pl used rcv fds p pl')
  then show ?case using recv_from_fields [of rcv fds pl "pl_last_recv pl" MAX_SOCKETS p pl'] by (auto simp: fr_packet_list_recv_def)
qed

section \<open>The properties\<close>

lemma single_dest_ok: "dst_hash_ok {d}"
  by (auto simp: no_collision_def dst_entries_def packet_dst2id_cmp_dest)

text \<open>An IPv4 socket with descriptor 5, bound to 10.0.0.1, port 2000.\<close>

definition sample_sockname :: "sockaddr_storage \<times> nat" where
  "sample_sockname = (\<lparr>ss_family = AF_INET, ss_port = htons 2000, ss_addr = [10, 0, 0, 1], ss_scope = 0\<rparr>, 16)"

definition sample_list :: fr_packet_list where
  "sample_list = snd (fr_packet_list_socket_add (Some sample_sockname) (fr_packet_list_create True) 5)"

definition sample_request :: radius_packet where
  "sample_request = packet0\<lparr>pk_dst_ipaddr := \<lparr>ip_af = AF_INET, ip_addr = [10, 0, 0, 2], ip_scope = 0\<rparr>, pk_dst_port := 1812\<rparr>"

lemma sample_history: "id_history {req_dest sample_request} sample_list {}"
proof (rule socket_add [OF create])
  let ?pl = "fr_packet_list_create True"
  have "slots_ok ?pl {}" using create_rep by (simp add: ids_rep_def)
  from find_slot [OF this, of 5] have "fr_socket_find ?pl 5 \<noteq> Some i" for i using create_slot [of i True] by auto
  then show "fr_socket_find ?pl 5 = None" by blast
  show "fr_packet_list_socket_add (Some sample_sockname) ?pl 5 = (fst (fr_packet_list_socket_add (Some sample_sockname) ?pl 5), sample_list)"
    by (simp add: sample_list_def)
qed simp

lemma sample_request_valid: "ip_valid (pk_dst_ipaddr sample_request)"
  by (simp add: sample_request_def ip_valid_def)

lemma sample_socket: "bit (pl_mask sample_list) (SOCK2OFFSET 5) \<and>
  ps_ipaddr (pl_sockets sample_list ! SOCK2OFFSET 5) = \<lparr>ip_af = AF_INET, ip_addr = [10, 0, 0, 1], ip_scope = 0\<rparr> \<and>
  (\<forall>i. bit (pl_mask sample_list) i \<longrightarrow> i = SOCK2OFFSET 5) \<and> ps_sockfd (pl_sockets sample_list ! SOCK2OFFSET 5) = 5 \<and>
  ps_port (pl_sockets sample_list ! SOCK2OFFSET 5) = 2000 \<and> \<not> ps_inaddr_any (pl_sockets sample_list ! SOCK2OFFSET 5)"
proof -
  let ?pl = "fr_packet_list_create True"
  have "probe (\<lambda>ps. ps_sockfd ps = - 1) (pl_sockets ?pl) (SOCK2OFFSET 5) (Suc 31) = Some (SOCK2OFFSET 5)"
    using create_slot [OF SOCK2OFFSET_less, of True 5] by (simp only: probe.simps) simp
  then have p: "probe (\<lambda>ps. ps_sockfd ps = - 1) (pl_sockets ?pl) (SOCK2OFFSET 5) MAX_SOCKETS = Some (SOCK2OFFSET 5)"
    by (simp add: MAX_SOCKETS_def)
  have len: "length (pl_sockets ?pl) = MAX_SOCKETS" "pl_mask ?pl = 0" by (simp_all add: fr_packet_list_create_def)
  have any: "fr_inaddr_any \<lparr>ip_af = AF_INET, ip_addr = [10, 0, 0, 1], ip_scope = 0\<rparr> = 0" by (simp add: fr_inaddr_any_def zeros_def numeral_eq_Suc)
  have eq: "sample_list = ?pl\<lparr>pl_sockets := (pl_sockets ?pl)[SOCK2OFFSET 5 := \<lparr>ps_sockfd = 5, ps_num_outgoing = 0, ps_offset = SOCK2OFFSET 5,
      ps_inaddr_any = False, ps_ipaddr = \<lparr>ip_af = AF_INET, ip_addr = [10, 0, 0, 1], ip_scope = 0\<rparr>, ps_port = 2000\<rparr>], pl_mask := push_bit (SOCK2OFFSET 5) 1\<rparr>"
    by (simp add: sample_list_def fr_packet_list_socket_add_def p len Let_def sample_sockname_def fr_sockaddr2ipaddr_def socket0_def ipaddr0_def any)
  show ?thesis unfolding eq using SOCK2OFFSET_less [of 5] len(1) by (auto simp: MAX_SOCKETS_def bit_simps)
qed

lemma sample_request_open: "fr_inaddr_any (pk_dst_ipaddr sample_request) = 0" "pk_dst_port sample_request \<noteq> 0" "ip_af (pk_src_ipaddr sample_request) = AF_UNSPEC"
  by (simp_all add: sample_request_def packet0_def ipaddr0_def AF_UNSPEC_def fr_inaddr_any_def) (simp add: zeros_def numeral_eq_Suc)

lemma sample_sockets:
  "\<forall>i<MAX_SOCKETS. bit (pl_mask sample_list) i \<longrightarrow> ip_af (ps_ipaddr (pl_sockets sample_list ! i)) = ip_af (pk_dst_ipaddr sample_request)"
  using sample_socket by (auto simp: sample_request_def)

lemma sample_alloc:
  obtains r' pl' s' where "fr_packet_list_id_alloc sample_list sample_request (lib_start 0 0) = Some (True, r', pl', s')"
proof -
  obtain S where S: "ids_rep {req_dest sample_request} sample_list S" "{} = used_of sample_list S"
    using id_history_rep [OF single_dest_ok sample_history] by blast
  then have "S = {}" by (simp add: used_of_def)
  moreover have "\<not> ill_addressed sample_request" by (rule open_source_ok) (rule sample_request_valid sample_request_open)+
  ultimately show thesis
    using id_alloc_live [OF single_dest_ok S(1) sample_request_valid _ _ sample_request_open(3) sample_sockets SOCK2OFFSET_less, of 5 0 "lib_start 0 0"]
      that sample_socket by auto
qed

text \<open>A second request to the same destination: one identifier is in use then.\<close>

lemma sample_alloc_taken:
  assumes "fr_packet_list_id_alloc sample_list sample_request (lib_start 0 0) = Some (True, r', pl', s')"
  shows "id_history {req_dest sample_request} pl' {id_of r'}" and "ip_valid (pk_dst_ipaddr r')"
    and "bit (pl_mask pl') (SOCK2OFFSET 5)" and "ps_sockfd (pl_sockets pl' ! SOCK2OFFSET 5) = 5"
    and "\<forall>i<MAX_SOCKETS. bit (pl_mask pl') i \<longrightarrow> ip_af (ps_ipaddr (pl_sockets pl' ! i)) = ip_af (pk_dst_ipaddr sample_request)"
proof -
  show "id_history {req_dest sample_request} pl' {id_of r'}" using id_alloc [OF sample_history sample_request_valid _ assms] by simp
  obtain S where S: "ids_rep {req_dest sample_request} sample_list S" using id_history_rep [OF single_dest_ok sample_history] by blast
  from id_alloc_rep [OF single_dest_ok S sample_request_valid singletonI, of "lib_start 0 0"] assms
  have "id_taken {req_dest sample_request} sample_list S sample_request r' pl'" by auto
  then show "ip_valid (pk_dst_ipaddr r')" using sample_request_valid by (auto simp: id_taken_def)
  have len: "length (pl_sockets sample_list) = MAX_SOCKETS" using S slots_okD(2) by (auto simp: ids_rep_def)
  have len': "length (pl_sockets pl') = MAX_SOCKETS" using id_alloc_fds [OF assms] len by (metis length_map)
  have same: "pl_mask pl' = pl_mask sample_list" "ps_sockfd (pl_sockets pl' ! i) = ps_sockfd (pl_sockets sample_list ! i)"
      "ps_ipaddr (pl_sockets pl' ! i) = ps_ipaddr (pl_sockets sample_list ! i)" if "i < MAX_SOCKETS" for i
    using id_alloc_fds [OF assms] id_alloc_ipaddrs [OF assms] len len' that by (metis nth_map)+
  show "bit (pl_mask pl') (SOCK2OFFSET 5)" "ps_sockfd (pl_sockets pl' ! SOCK2OFFSET 5) = 5"
    using same [OF SOCK2OFFSET_less [of 5]] sample_socket by simp_all
  show "\<forall>i<MAX_SOCKETS. bit (pl_mask pl') i \<longrightarrow> ip_af (ps_ipaddr (pl_sockets pl' ! i)) = ip_af (pk_dst_ipaddr sample_request)"
    using same sample_sockets by simp
qed

lemma free_id: "\<exists>k<256. (fd, d, int k) \<noteq> x"
proof (cases "x = (fd, d, 0)")
  case True
  then show ?thesis by (intro exI [of _ 1]) simp
next
  case False
  then show ?thesis by (intro exI [of _ 0]) auto
qed

lemma sample_alloc_again:
  obtains r1 pl1 s1 r2 pl2 s2 where "fr_packet_list_id_alloc sample_list sample_request (lib_start 0 0) = Some (True, r1, pl1, s1)"
    and "fr_packet_list_id_alloc pl1 sample_request s1 = Some (True, r2, pl2, s2)"
proof -
  obtain r1 pl1 s1 where a: "fr_packet_list_id_alloc sample_list sample_request (lib_start 0 0) = Some (True, r1, pl1, s1)" by (rule sample_alloc)
  note t = sample_alloc_taken [OF a]
  obtain S where S: "ids_rep {req_dest sample_request} pl1 S" "{id_of r1} = used_of pl1 S"
    using id_history_rep [OF single_dest_ok t(1)] by blast
  obtain k where k: "k < 256" "(5, req_dest sample_request, int k) \<noteq> id_of r1"
    using free_id [of 5 "req_dest sample_request" "id_of r1"] by auto
  have "(SOCK2OFFSET 5, req_dest sample_request, k) \<notin> S"
  proof
    assume "(SOCK2OFFSET 5, req_dest sample_request, k) \<in> S"
    then have "(5, req_dest sample_request, int k) \<in> used_of pl1 S" unfolding used_of_def by (rule rev_image_eqI) (simp add: t(4))
    then show False using S(2) k(2) by (metis singletonD)
  qed
  moreover have "\<not> ill_addressed sample_request" by (rule open_source_ok) (rule sample_request_valid sample_request_open)+
  ultimately have "\<exists>r' pl' s'. fr_packet_list_id_alloc pl1 sample_request s1 = Some (True, r', pl', s')"
    using id_alloc_live [OF single_dest_ok S(1) sample_request_valid singletonI _ sample_request_open(3) t(5) SOCK2OFFSET_less t(3) k(1)] by blast
  then show thesis using that a by blast
qed

text \<open>C38: An identifier in use is never handed out again, as long as the destinations do not collide in the hash table. In every state of a packet
  list that operations of it lead to under this condition, the bits that are set are the identifiers that were handed out and not released, and
  their number is the counter of the list; \<^verbatim>\<open>fr_packet_list_id_alloc\<close> returns, and when it assigns an identifier, that is in 0..255 and not in use
  for the socket and the destination; the request keeps its destination and gets the address and port of a socket of the list.\<close>

theorem id_alloc_unique:
  assumes "dst_hash_ok D" and "id_history D pl used" and "ip_valid (pk_dst_ipaddr r)" and "req_dest r \<in> D"
  shows "\<exists>b r' pl' s'. fr_packet_list_id_alloc pl r (s :: lib_state) = Some (b, r', pl', s') \<and>
    (b \<longrightarrow> id_of r' \<notin> used \<and> 0 \<le> pk_id r' \<and> pk_id r' < 256 \<and> req_dest r' = req_dest r \<and>
      (\<exists>i. fr_socket_find pl (pk_sockfd r') = Some i \<and> pk_src_ipaddr r' = ps_ipaddr (pl_sockets pl ! i) \<and> pk_src_port r' = ps_port (pl_sockets pl ! i))) \<and>
    ids_in_use pl = used \<and> fr_packet_list_num_outgoing pl = int (card used)"
proof -
  obtain S where S: "ids_rep D pl S" "used = used_of pl S" using id_history_rep [OF assms(1,2)] by blast
  then have slots: "slots_ok pl S" by (simp add: ids_rep_def)
  have "card used = card S" unfolding S(2) used_of_def by (rule card_image) (rule used_of_inj [OF slots])
  then have count: "ids_in_use pl = used \<and> fr_packet_list_num_outgoing pl = int (card used)"
    using slots_okD(7) [OF slots] ids_in_use_rep [OF S(1)] S(2) by (simp add: fr_packet_list_num_outgoing_def)
  obtain b r' pl' s' where a: "fr_packet_list_id_alloc pl r s = Some (b, r', pl', s')" "if b then id_taken D pl S r r' pl' else ids_rep D pl' S"
    using id_alloc_rep [OF assms(1) S(1) assms(3,4)] by blast
  moreover have "id_of r' \<notin> used \<and> 0 \<le> pk_id r' \<and> pk_id r' < 256 \<and> req_dest r' = req_dest r \<and>
      (\<exists>i. fr_socket_find pl (pk_sockfd r') = Some i \<and> pk_src_ipaddr r' = ps_ipaddr (pl_sockets pl ! i) \<and> pk_src_port r' = ps_port (pl_sockets pl ! i))" if b
  proof -
    from a(2) that obtain j k where jk: "j < MAX_SOCKETS" "k < 256" "(j, req_dest r, k) \<notin> S" "ps_sockfd (pl_sockets pl ! j) \<noteq> - 1"
        "r' = r\<lparr>pk_id := int k, pk_sockfd := ps_sockfd (pl_sockets pl ! j), pk_src_ipaddr := ps_ipaddr (pl_sockets pl ! j),
          pk_src_port := ps_port (pl_sockets pl ! j)\<rparr>" by (auto simp: id_taken_def)
    have "id_of r' \<notin> used"
    proof
      assume "id_of r' \<in> used"
      then obtain i where i: "(i, req_dest r, k) \<in> S" "ps_sockfd (pl_sockets pl ! i) = ps_sockfd (pl_sockets pl ! j)"
        using S(2) jk(5) by (auto simp: used_of_def id_of_def req_dest_def)
      then have "i < MAX_SOCKETS" using slots_okD(6) [OF slots i(1)] bit_u32 by auto
      then have "i = j" using slots_okD(5) [OF slots, of i j] jk(1,4) i(2) by simp
      then show False using i(1) jk(3) by simp
    qed
    moreover have "fr_socket_find pl (pk_sockfd r') = Some j" using find_slot [OF slots jk(4)] jk(1,5) by simp
    ultimately show ?thesis using jk(2,5) by (simp add: req_dest_def)
  qed
  ultimately show ?thesis using count by blast
qed

theorem id_alloc_unique_witness:
  "\<exists>r1 pl1 s1 r2 pl2 s2. fr_packet_list_id_alloc sample_list sample_request (lib_start 0 0) = Some (True, r1, pl1, s1) \<and>
     fr_packet_list_id_alloc pl1 sample_request s1 = Some (True, r2, pl2, s2) \<and> ids_in_use pl1 = {id_of r1} \<and> id_of r2 \<noteq> id_of r1 \<and>
     0 \<le> pk_id r2 \<and> pk_id r2 < 256 \<and> req_dest r2 = req_dest sample_request"
proof -
  obtain r1 pl1 s1 r2 pl2 s2 where a: "fr_packet_list_id_alloc sample_list sample_request (lib_start 0 0) = Some (True, r1, pl1, s1)"
    "fr_packet_list_id_alloc pl1 sample_request s1 = Some (True, r2, pl2, s2)" by (rule sample_alloc_again)
  from id_alloc_unique [OF single_dest_ok sample_alloc_taken(1) [OF a(1)] sample_request_valid, of s1] a(2)
  have "ids_in_use pl1 = {id_of r1} \<and> id_of r2 \<noteq> id_of r1 \<and> 0 \<le> pk_id r2 \<and> pk_id r2 < 256 \<and> req_dest r2 = req_dest sample_request" by auto
  then show ?thesis using a by blast
qed

text \<open>C39: Identifiers are released, as long as the destinations do not collide in the hash table. In every state that operations of the list lead to
  under this condition, releasing an identifier that is in use succeeds, clears its bit and no other, and lowers the counter by one; a socket
  can then be removed from the list exactly when it is in the list and none of its identifiers is in use.\<close>

theorem id_free_exact:
  assumes "dst_hash_ok D" and "id_history D pl used" and "ip_valid (pk_dst_ipaddr r)" and "id_of r \<in> used"
  shows "\<exists>pl'. fr_packet_list_id_free pl r = Some (True, pl') \<and> fr_packet_list_num_outgoing pl' = fr_packet_list_num_outgoing pl - 1 \<and>
    ids_in_use pl' = ids_in_use pl - {id_of r} \<and>
    (\<forall>fd. fd \<noteq> - 1 \<longrightarrow> (fst (fr_packet_list_socket_remove pl' fd) \<longleftrightarrow> fr_socket_find pl' fd \<noteq> None \<and> (\<forall>x \<in> ids_in_use pl'. fst x \<noteq> fd)))"
proof -
  obtain S where S: "ids_rep D pl S" "used = used_of pl S" using id_history_rep [OF assms(1,2)] by blast
  obtain j k where jk: "(j, req_dest r, k) \<in> S" "pk_sockfd r = ps_sockfd (pl_sockets pl ! j)" "pk_id r = int k"
    using assms(4) S(2) by (auto simp: used_of_def id_of_def)
  then obtain pl' where free: "fr_packet_list_id_free pl r = Some (True, pl')" using id_free_rep [OF assms(1) S(1) assms(3), of j] by auto
  from id_history_rep [OF assms(1) id_free [OF assms(2-4) free]] obtain S' where S': "ids_rep D pl' S'" "used - {id_of r} = used_of pl' S'" by blast
  then have slots: "slots_ok pl' S'" by (simp add: ids_rep_def)
  have in_use: "ids_in_use pl = used" "ids_in_use pl' = used - {id_of r}" using ids_in_use_rep [OF S(1)] ids_in_use_rep [OF S'(1)] S(2) S'(2) by simp_all
  have "fst (fr_packet_list_socket_remove pl' fd) \<longleftrightarrow> fr_socket_find pl' fd \<noteq> None \<and> (\<forall>x \<in> used - {id_of r}. fst x \<noteq> fd)" if fd: "fd \<noteq> - 1" for fd
  proof -
    obtain b pl'' where rem: "fr_packet_list_socket_remove pl' fd = (b, pl'')" by fastforce
    have eq: "(\<forall>x \<in> S'. fst x \<noteq> i) \<longleftrightarrow> (\<forall>x \<in> used - {id_of r}. fst x \<noteq> fd)" if "fr_socket_find pl' fd = Some i" for i
    proof -
      have "ps_sockfd (pl_sockets pl' ! fst x) = fd \<longleftrightarrow> fst x = i" if x: "x \<in> S'" for x
        using find_slot [OF slots fd] \<open>fr_socket_find pl' fd = Some i\<close> bit_u32 slots_okD(6) [OF slots x] by (metis option.inject)
      then have "(\<forall>x \<in> S'. fst x \<noteq> i) \<longleftrightarrow> (\<forall>x \<in> S'. ps_sockfd (pl_sockets pl' ! fst x) \<noteq> fd)" by blast
      then show ?thesis unfolding S'(2) used_of_def by (simp add: split_beta)
    qed
    show ?thesis using socket_remove_rep(2) [OF S'(1) fd rem] rem eq by (cases "fr_socket_find pl' fd") auto
  qed
  moreover have "fr_packet_list_num_outgoing pl' = fr_packet_list_num_outgoing pl - 1"
    using free by (auto simp: fr_packet_list_id_free_def fr_packet_list_num_outgoing_def Let_def split: option.split_asm if_split_asm)
  ultimately show ?thesis using free in_use by (intro exI [of _ pl']) simp
qed

theorem id_free_exact_witness:
  "\<exists>r pl pl'. ids_in_use pl = {id_of r} \<and> fr_packet_list_id_free pl r = Some (True, pl') \<and> ids_in_use pl' = {} \<and>
     fr_packet_list_num_outgoing pl' = fr_packet_list_num_outgoing pl - 1"
proof -
  obtain r' pl' s' where a: "fr_packet_list_id_alloc sample_list sample_request (lib_start 0 0) = Some (True, r', pl', s')" using sample_alloc .
  note t = sample_alloc_taken [OF a]
  obtain S where "ids_rep {req_dest sample_request} pl' S" "{id_of r'} = used_of pl' S" using id_history_rep [OF single_dest_ok t(1)] by blast
  then have "ids_in_use pl' = {id_of r'}" using ids_in_use_rep by metis
  with id_free_exact [OF single_dest_ok t(1,2)] show ?thesis by auto
qed

text \<open>C40: Allocation succeeds when it can. As long as the destinations do not collide in the hash table: if the request has a valid destination and
  leaves its source open (\<^verbatim>\<open>AF_UNSPEC\<close>), every socket of the list has the family of the destination and some identifier is free for some socket,
  an identifier is assigned. (With a source address it may not be: \<open>id_take_gives_up\<close>.)\<close>

theorem id_alloc_succeeds:
  assumes "dst_hash_ok D" and "id_history D pl used" and "ip_valid (pk_dst_ipaddr r)" and "req_dest r \<in> D"
    and "pk_dst_port r \<noteq> 0" and "fr_inaddr_any (pk_dst_ipaddr r) = 0" and "ip_af (pk_src_ipaddr r) = AF_UNSPEC"
    and "\<forall>i<MAX_SOCKETS. bit (pl_mask pl) i \<longrightarrow> ip_af (ps_ipaddr (pl_sockets pl ! i)) = ip_af (pk_dst_ipaddr r)"
    and "i < MAX_SOCKETS" and "bit (pl_mask pl) i" and "k < 256" and "(ps_sockfd (pl_sockets pl ! i), req_dest r, int k) \<notin> used"
  shows "\<exists>r' pl' s'. fr_packet_list_id_alloc pl r (s :: lib_state) = Some (True, r', pl', s')"
proof -
  obtain S where S: "ids_rep D pl S" "used = used_of pl S" using id_history_rep [OF assms(1,2)] by blast
  have "(i, req_dest r, k) \<notin> S" using assms(12) S(2) by (auto simp: used_of_def image_iff split_beta)
  moreover have "\<not> ill_addressed r" by (rule open_source_ok) (rule assms)+
  ultimately show ?thesis using id_alloc_live [OF assms(1) S(1) assms(3,4) _ assms(7-11)] by blast
qed

theorem id_alloc_succeeds_witness:
  "\<exists>r1 pl1 s1 r2 pl2 s2. fr_packet_list_id_alloc sample_list sample_request (lib_start 0 0) = Some (True, r1, pl1, s1) \<and>
     fr_packet_list_id_alloc pl1 sample_request s1 = Some (True, r2, pl2, s2)"
proof -
  obtain r1 pl1 s1 where a: "fr_packet_list_id_alloc sample_list sample_request (lib_start 0 0) = Some (True, r1, pl1, s1)" by (rule sample_alloc)
  note t = sample_alloc_taken [OF a]
  obtain k where k: "k < 256" "(5, req_dest sample_request, int k) \<noteq> id_of r1"
    using free_id [of 5 "req_dest sample_request" "id_of r1"] by auto
  from id_alloc_succeeds [OF single_dest_ok t(1) sample_request_valid singletonI sample_request_open(2,1,3) t(5) SOCK2OFFSET_less t(3) k(1), of s1] k(2) t(4) a
  show ?thesis by auto
qed

text \<open>A reply finds its request. When a request whose source is the address and port of a socket of the list (as \<^verbatim>\<open>fr_packet_list_id_alloc\<close>
  leaves it) was inserted, a packet that comes back on that socket from the request's destination, with its identifier and to its source address
  (or to any address, when the socket is bound to all of them), finds this request.\<close>

theorem reply_finds_request:
  assumes "id_history D pl used" and "r \<in> addressed" and "reply \<in> addressed" and "fr_packet_list_insert pl r = Some (True, pl')"
    and "fr_socket_find pl (pk_sockfd r) = Some i" and "pk_src_ipaddr r = ps_ipaddr (pl_sockets pl ! i)" and "pk_src_port r = ps_port (pl_sockets pl ! i)"
    and "pk_sockfd reply = pk_sockfd r" and "pk_id reply = pk_id r" and "pk_src_ipaddr reply = pk_dst_ipaddr r" and "pk_src_port reply = pk_dst_port r"
    and "ps_inaddr_any (pl_sockets pl ! i) \<or> pk_dst_ipaddr reply = pk_src_ipaddr r"
  shows "fr_packet_list_find_byreply pl' reply = Some r"
proof -
  obtain m where m: "rb_rep packet_key addressed False (pl_tree pl) m" using id_history_tree [OF assms(1)] by blast
  obtain freed tree where t: "rbtree_insert packet_entry_cmp (pl_tree pl) r = Some (True, freed, tree)" "pl' = pl\<lparr>pl_tree := tree\<rparr>"
    using assms(4) by (auto simp: fr_packet_list_insert_def)
  define q where "q = packet0\<lparr>pk_sockfd := pk_sockfd reply, pk_id := pk_id reply,
      pk_src_ipaddr := (if ps_inaddr_any (pl_sockets pl ! i) then ps_ipaddr (pl_sockets pl ! i) else pk_dst_ipaddr reply),
      pk_src_port := ps_port (pl_sockets pl ! i), pk_dst_ipaddr := pk_src_ipaddr reply, pk_dst_port := pk_src_port reply\<rparr>"
  have "packet_key q = packet_key r" using assms(6-12) by (auto simp: q_def packet_key_def)
  moreover have "q \<in> addressed" using assms(2,3,6,12) by (auto simp: q_def addressed_def)
  ultimately have "rbtree_finddata packet_entry_cmp tree q = Some r"
    using packet_tree.tree.ins_look [OF m assms(2), of q tree] t(1) by simp
  moreover have "fr_socket_find pl' (pk_sockfd reply) = Some i" using assms(5,8) t(2) by (simp add: fr_socket_find_def)
  ultimately show ?thesis using t(2) by (simp add: fr_packet_list_find_byreply_def q_def)
qed

theorem reply_finds_request_witness:
  "\<exists>pl' r. fr_packet_list_insert sample_list r = Some (True, pl') \<and>
    fr_packet_list_find_byreply pl' (fr_request_from_reply packet0 r) = Some r"
proof -
  define r where "r = packet0\<lparr>pk_sockfd := 5, pk_id := 7, pk_src_port := 2000, pk_dst_port := 1812,
      pk_src_ipaddr := \<lparr>ip_af = AF_INET, ip_addr = [10, 0, 0, 1], ip_scope = 0\<rparr>, pk_dst_ipaddr := \<lparr>ip_af = AF_INET, ip_addr = [10, 0, 0, 2], ip_scope = 0\<rparr>\<rparr>"
  define reply where "reply = fr_request_from_reply packet0 r"
  have ok: "r \<in> addressed" "reply \<in> addressed" by (simp_all add: r_def reply_def fr_request_from_reply_def addressed_def ip_valid_def)
  obtain S where "slots_ok sample_list S" using id_history_rep [OF single_dest_ok sample_history] by (auto simp: ids_rep_def)
  then have find: "fr_socket_find sample_list (pk_sockfd r) = Some (SOCK2OFFSET 5)"
    using find_slot [of sample_list S 5 "SOCK2OFFSET 5"] sample_socket SOCK2OFFSET_less [of 5] by (simp add: r_def)
  have "pl_tree sample_list = rbtree_create False"
    by (simp add: sample_list_def fr_packet_list_socket_add_def fr_packet_list_create_def Let_def split: option.split prod.split)
  then have "\<exists>pl'. fr_packet_list_insert sample_list r = Some (True, pl')"
    by (simp add: fr_packet_list_insert_def rbtree_insert_def rbtree_insertnode_def rbtree_create_def link_path_def)
  then obtain pl' where ins: "fr_packet_list_insert sample_list r = Some (True, pl')" by blast
  have "fr_packet_list_find_byreply pl' reply = Some r"
    by (rule reply_finds_request [OF sample_history ok ins find])
      (use sample_socket in \<open>simp_all add: r_def reply_def fr_request_from_reply_def\<close>)
  then show ?thesis using ins by (auto simp: reply_def)
qed

section \<open>Limits\<close>

text \<open>The search settles for the first identifier that some socket does not use, also when that socket cannot serve the request: then the
  request is refused although other identifiers are free.\<close>

lemma id_take_gives_up:
  assumes "pl_ids pl ! addr ! start \<noteq> pl_mask pl"
    and "\<forall>j<MAX_SOCKETS. \<not> socket_usable r src_any (NOT (NOT (pl_ids pl ! addr ! start) AND pl_mask pl)) (pl_sockets pl) j"
  shows "id_take pl addr start src_any r = (False, r, pl)"
proof -
  have "id_search (pl_ids pl ! addr) (pl_mask pl) start (Suc 255) = Some start" using assms(1) by (simp only: id_search.simps) simp
  then have "id_search (pl_ids pl ! addr) (pl_mask pl) start 256 = Some start" by simp
  moreover have "List.find (socket_usable r src_any (NOT (NOT (pl_ids pl ! addr ! start) AND pl_mask pl)) (pl_sockets pl)) [0..<MAX_SOCKETS] = None"
    using assms(2) by (auto simp: find_None_iff)
  ultimately show ?thesis by (simp add: id_take_def Let_def)
qed

text \<open>IPv6 destinations that differ in their scope only always collide: the hash leaves the scope out, the comparison does not.\<close>

lemma dst2id_scope_collision:
  assumes "ip_af ip = AF_INET6" and "scope \<noteq> ip_scope ip"
  shows "packet_dst2id_hash \<lparr>pd_dst_ipaddr = ip, pd_dst_port = port, pd_addr = a\<rparr> =
      packet_dst2id_hash \<lparr>pd_dst_ipaddr = ip\<lparr>ip_scope := scope\<rparr>, pd_dst_port = port, pd_addr = b\<rparr>"
    and "packet_dst2id_cmp \<lparr>pd_dst_ipaddr = ip, pd_dst_port = port, pd_addr = a\<rparr>
      \<lparr>pd_dst_ipaddr = ip\<lparr>ip_scope := scope\<rparr>, pd_dst_port = port, pd_addr = b\<rparr> \<noteq> 0"
  using assms by (auto simp: packet_dst2id_hash_def hash_addr_def packet_dst2id_cmp_def fr_ipaddr_cmp_def)

end
