(* ===== verification/Proxy_Table.thy ===== *)
theory Proxy_Table
  imports Home_Servers Packet_Ids
begin

text \<open>
  The requests that were proxied and wait for a reply (\<^verbatim>\<open>winradiusd/event.cpp\<close>): the list \<^verbatim>\<open>proxy_list\<close> of their packets, the 32 sockets they are sent
  from, the requests and the home servers. A request is its index in \<open>pq_requests\<close>, where a request that was freed is \<open>None\<close>. Locks, log messages
  and statistics are left out; the socket that \<open>proxy_new_listener\<close> opens is an argument.
\<close>

section \<open>Data\<close>

datatype child_state = REQUEST_QUEUED | REQUEST_RUNNING | REQUEST_PROXIED | REQUEST_REJECT_DELAY | REQUEST_CLEANUP_DELAY | REQUEST_DONE

datatype rad_listen_type =
    RAD_LISTEN_NONE | RAD_LISTEN_PROXY | RAD_LISTEN_AUTH | RAD_LISTEN_ACCT | RAD_LISTEN_DETAIL | RAD_LISTEN_VQP | RAD_LISTEN_DHCP | RAD_LISTEN_COMMAND
  | RAD_LISTEN_COA

text \<open>The callbacks a request can wait for.\<close>

datatype request_callback =
    wait_a_bit_cb | cleanup_delay_cb | reject_delay_cb | wait_for_proxy_id_to_expire_cb | no_response_to_ping_cb
  | no_response_to_proxied_request_cb | retransmit_coa_request_cb | no_response_to_coa_request_cb

text \<open>
  The fields of \<^verbatim>\<open>struct auth_req\<close> that are used here; \<open>au_has_proxy\<close>: the pointer to the proxied packet is not null; \<open>au_ev\<close>: the pending event;
  \<open>au_proxy_listener\<close>: the slot of the socket.
\<close>

record auth_req =
  au_packet :: "radius_packet option"
  au_has_proxy :: bool
  au_proxy :: radius_packet
  au_reply :: "radius_packet option"
  au_proxy_reply :: "radius_packet option"
  au_proxy_listener :: "nat option"
  au_received :: timeval
  au_when :: timeval
  au_delay :: int
  au_child_state :: child_state
  au_priority :: rad_listen_type
  au_ev :: "(request_callback \<times> timeval) option"
  au_next_when :: timeval
  au_next_callback :: "request_callback option"
  au_in_request_hash :: bool
  au_in_proxy_hash :: bool
  au_home_server :: "nat option"
  au_proxy_when :: timeval
  au_num_proxied_requests :: int
  au_num_proxied_responses :: int
  au_server :: "string option"
  au_parent :: "nat option"
  au_coa :: "nat option"

text \<open>
  \<open>pq_list\<close> is \<^verbatim>\<open>proxy_list\<close>, \<open>pq_pl\<close> the list \<^verbatim>\<open>pl\<close> of the packets from clients; \<open>pq_sent\<close> has the replies that were sent to clients.
\<close>

record proxy_state =
  pq_list :: fr_packet_list
  pq_fds :: "int list"
  pq_all_used :: bool
  pq_requests :: "auth_req option list"
  pq_homes :: homes
  pq_lib :: lib_state
  pq_pl :: fr_packet_list
  pq_sent :: "radius_packet list"

section \<open>The table of proxied requests\<close>

definition request_of :: "proxy_state \<Rightarrow> nat \<Rightarrow> auth_req" where
  "request_of st r = the (pq_requests st ! r)"

definition set_request :: "nat \<Rightarrow> auth_req \<Rightarrow> proxy_state \<Rightarrow> proxy_state" where
  "set_request r q st = st\<lparr>pq_requests := (pq_requests st)[r := Some q]\<rparr>"

definition update_home :: "nat option \<Rightarrow> (home_server \<Rightarrow> home_server) \<Rightarrow> proxy_state \<Rightarrow> proxy_state" where
  "update_home h f st = (case h of None \<Rightarrow> st | Some h \<Rightarrow> st\<lparr>pq_homes := (pq_homes st)(h := f (pq_homes st h))\<rparr>)"

text \<open>
  \<^verbatim>\<open>fr_packet2myptr\<close> goes from the packet in the list to the request it is part of. The packets of two requests in the list differ in what the list
  compares, which does not change while a request is in the list.
\<close>

definition fr_packet2myptr :: "proxy_state \<Rightarrow> radius_packet \<Rightarrow> nat option" where
  "fr_packet2myptr st packet =
     List.find (\<lambda>r. case pq_requests st ! r of None \<Rightarrow> False | Some q \<Rightarrow> au_in_proxy_hash q \<and> packet_entry_cmp (au_proxy q) packet = 0)
       [0..<length (pq_requests st)]"

text \<open>The packet is taken off the list and its identifier is released.\<close>

definition yank_and_free :: "radius_packet \<Rightarrow> fr_packet_list \<Rightarrow> fr_packet_list option" where
  "yank_and_free packet pl =
     (case fr_packet_list_yank pl packet of
        None \<Rightarrow> None
      | Some (_, pl) \<Rightarrow> map_option snd (fr_packet_list_id_free pl packet))"

definition lookup_in_proxy_hash :: "radius_packet \<Rightarrow> proxy_state \<Rightarrow> (nat option \<times> proxy_state) option" where
  "lookup_in_proxy_hash reply st =
     (case fr_packet_list_find_byreply (pq_list st) reply of
        None \<Rightarrow> Some (None, st)
      | Some proxy_p \<Rightarrow>
          (case fr_packet2myptr st proxy_p of
             None \<Rightarrow> Some (None, st)
           | Some r \<Rightarrow>
               let q = (request_of st r)\<lparr>au_num_proxied_responses := au_num_proxied_responses (request_of st r) + 1\<rparr>
               in map_option (\<lambda>(q, pl).
                    (Some r, update_home (if au_proxy_reply q = None then au_home_server q else None) outstanding_dec
                       (set_request r q (st\<lparr>pq_list := pl\<rparr>))))
                  (if au_num_proxied_requests q = au_num_proxied_responses q
                   then map_option (Pair (q\<lparr>au_in_proxy_hash := False\<rparr>)) (yank_and_free (au_proxy q) (pq_list st))
                   else Some (q, pq_list st))))"

definition remove_from_proxy_hash :: "nat \<Rightarrow> proxy_state \<Rightarrow> proxy_state option" where
  "remove_from_proxy_hash r st =
     (let q = request_of st r
      in if \<not> au_in_proxy_hash q then Some st
         else
           map_option (\<lambda>pl.
               set_request r (q\<lparr>au_in_proxy_hash := False\<rparr>)
                 (update_home (if au_proxy_reply q = None then au_home_server q else None) outstanding_dec (st\<lparr>pq_list := pl\<rparr>)))
             (yank_and_free (au_proxy q) (pq_list st)))"

definition proxy_add_fds :: "int \<Rightarrow> int list \<Rightarrow> nat option \<times> int list" where
  "proxy_add_fds proxy fds =
     (case List.find (\<lambda>i. fds ! i = - 1) (map (\<lambda>i. unat (word_of_int (proxy + int i) AND (0x1f :: u32))) [0..<32]) of
        None \<Rightarrow> (None, fds)
      | Some found \<Rightarrow> (Some found, fds[found := proxy]))"

text \<open>The table as \<open>radius_event_init\<close> sets it up, and the addition of a socket that is configured; \<open>None\<close> when the server does not start.\<close>

definition proxy_init :: "homes \<Rightarrow> lib_state \<Rightarrow> proxy_state" where
  "proxy_init homes s =
     \<lparr>pq_list = fr_packet_list_create True, pq_fds = replicate 32 (- 1), pq_all_used = False, pq_requests = [], pq_homes = homes, pq_lib = s,
      pq_pl = fr_packet_list_create False, pq_sent = []\<rparr>"

definition proxy_listen :: "int \<Rightarrow> (sockaddr_storage \<times> nat) option \<Rightarrow> proxy_state \<Rightarrow> proxy_state option" where
  "proxy_listen fd sockname st =
     (case proxy_add_fds fd (pq_fds st) of
        (None, _) \<Rightarrow> None
      | (Some _, fds) \<Rightarrow>
          (case fr_packet_list_socket_add sockname (pq_list st) fd of
             (added, pl) \<Rightarrow> if added then Some (st\<lparr>pq_fds := fds, pq_list := pl\<rparr>) else None))"

text \<open>\<open>opened\<close> is the descriptor and the name of the socket that \<open>proxy_new_listener\<close> opens, if it can.\<close>

definition proxy_id_alloc ::
    "(int \<times> (sockaddr_storage \<times> nat) option) option \<Rightarrow> radius_packet \<Rightarrow> proxy_state \<Rightarrow> (bool \<times> radius_packet \<times> proxy_state) option" where
  "proxy_id_alloc opened packet st =
     (case fr_packet_list_id_alloc (pq_list st) packet (pq_lib st) of
        None \<Rightarrow> None
      | Some (b, packet, pl, s) \<Rightarrow>
          let st = st\<lparr>pq_list := pl, pq_lib := s\<rparr>
          in if b then Some (True, packet, st)
             else if pq_all_used st then Some (False, packet, st)
             else
               case opened of
                 None \<Rightarrow> Some (False, packet, st)
               | Some (fd, sockname) \<Rightarrow>
                   (case proxy_add_fds fd (pq_fds st) of
                      (None, _) \<Rightarrow> Some (False, packet, st\<lparr>pq_all_used := True\<rparr>)
                    | (Some _, fds) \<Rightarrow>
                        (case fr_packet_list_socket_add sockname pl fd of
                           (added, pl) \<Rightarrow>
                             let st = st\<lparr>pq_fds := fds, pq_list := pl\<rparr>
                             in if \<not> added then Some (False, packet, st)
                                else
                                  map_option (\<lambda>(b, packet, pl, s). (b, packet, st\<lparr>pq_list := pl, pq_lib := s\<rparr>))
                                    (fr_packet_list_id_alloc pl packet s))))"

text \<open>The last part of \<open>insert_into_proxy_hash\<close>: the request has an identifier.\<close>

definition insert_allocated :: "nat \<Rightarrow> proxy_state \<Rightarrow> (bool \<times> proxy_state) option" where
  "insert_allocated r st =
     (let q = request_of st r
      in case List.find (\<lambda>i. pq_fds st ! i = pk_sockfd (au_proxy q)) [0..<32] of
           None \<Rightarrow> Some (False, st)
         | Some proxy \<Rightarrow>
             let q = q\<lparr>au_proxy_listener := Some proxy\<rparr>
             in case fr_packet_list_insert (pq_list st) (au_proxy q) of
                  None \<Rightarrow> None
                | Some (True, pl) \<Rightarrow> Some (True, set_request r (q\<lparr>au_in_proxy_hash := True\<rparr>) (st\<lparr>pq_list := pl\<rparr>))
                | Some (False, pl) \<Rightarrow>
                    map_option (\<lambda>(_, pl). (False, set_request r q (st\<lparr>pq_list := pl\<rparr>))) (fr_packet_list_id_free pl (au_proxy q)))"

definition insert_into_proxy_hash ::
    "(int \<times> (sockaddr_storage \<times> nat) option) option \<Rightarrow> nat \<Rightarrow> bool \<Rightarrow> proxy_state \<Rightarrow> (bool \<times> proxy_state) option" where
  "insert_into_proxy_hash opened r retransmit st =
     (let q = request_of st r;
          st = update_home (au_home_server q) outstanding_inc st
      in case proxy_id_alloc opened (au_proxy q) st of
           None \<Rightarrow> None
         | Some (b, packet, st) \<Rightarrow>
             if retransmit then
               if \<not> b then Some (False, st)
               else
                 (case yank_and_free (au_proxy q) (pq_list st) of
                    None \<Rightarrow> None
                  | Some pl \<Rightarrow> insert_allocated r (set_request r (q\<lparr>au_proxy := packet\<rparr>) (st\<lparr>pq_list := pl\<rparr>)))
             else if \<not> b then Some (False, set_request r (q\<lparr>au_proxy := packet\<rparr>) st)
             else insert_allocated r (set_request r (q\<lparr>au_proxy := packet\<rparr>) st))"

section \<open>Replies\<close>

text \<open>
  \<open>received_proxy_response\<close>: a reply to a status check goes to the home server and the check is freed, other replies mark the server alive and
  put the request back to work. The result has the request that is to be processed.
\<close>

definition ping_answered :: "timeval \<Rightarrow> nat \<Rightarrow> radius_packet \<Rightarrow> proxy_state \<Rightarrow> proxy_state option" where
  "ping_answered now r packet st =
     (let q = (request_of st r)\<lparr>au_proxy_reply := Some packet, au_ev := None\<rparr>
      in map_option (\<lambda>st.
             (update_home (au_home_server q) (received_response_to_ping now) st)\<lparr>pq_requests := (pq_requests st)[r := None]\<rparr>)
           (remove_from_proxy_hash r (set_request r q st)))"

text \<open>A request of a change of authorization is separated from the request it comes from; otherwise nothing is done when there was a reply.\<close>

definition own_coa :: "nat \<Rightarrow> proxy_state \<Rightarrow> bool" where
  "own_coa r st =
     (case au_parent (request_of st r) of
        None \<Rightarrow> False
      | Some p \<Rightarrow> (case pq_requests st ! p of None \<Rightarrow> False | Some q \<Rightarrow> au_coa q = Some r))"

definition divorce :: "nat \<Rightarrow> proxy_state \<Rightarrow> proxy_state" where
  "divorce r st =
     (case au_parent (request_of st r) of
        None \<Rightarrow> st
      | Some p \<Rightarrow>
          let st = set_request p ((request_of st p)\<lparr>au_coa := None\<rparr>) st
          in set_request r ((request_of st r)\<lparr>au_parent := None\<rparr>) st)"

definition proxied_coa :: "auth_req \<Rightarrow> bool" where
  "proxied_coa q \<longleftrightarrow>
     map_option pk_code (au_packet q) \<noteq> Some (pk_code (au_proxy q)) \<and>
     (pk_code (au_proxy q) = PW_COA_REQUEST \<or> pk_code (au_proxy q) = PW_DISCONNECT_REQUEST)"

definition already_replied :: "auth_req \<Rightarrow> bool" where
  "already_replied q \<longleftrightarrow> (case au_reply q of None \<Rightarrow> False | Some p \<Rightarrow> pk_code p \<noteq> 0)"

definition accept_reply :: "timeval \<Rightarrow> nat \<Rightarrow> radius_packet \<Rightarrow> proxy_state \<Rightarrow> nat option \<times> proxy_state" where
  "accept_reply now r packet st =
     (let st = update_home (au_home_server (request_of st r)) (received_reply now) st;
          coa = own_coa r st;
          st = (if coa then divorce r st else st);
          q = request_of st r
      in if \<not> coa \<and> \<not> proxied_coa q \<and> already_replied q then (None, st)
         else if au_child_state q \<noteq> REQUEST_PROXIED then (None, st)
         else
           let when' = tv_add now USEC
           in (Some r, set_request r (q\<lparr>au_proxy_reply := Some packet, au_child_state := REQUEST_QUEUED, au_when := when', au_delay := USEC,
                 au_priority := RAD_LISTEN_PROXY, au_ev := Some (wait_a_bit_cb, when')\<rparr>) st))"

definition received_proxy_response :: "timeval \<Rightarrow> radius_packet \<Rightarrow> proxy_state \<Rightarrow> (nat option \<times> proxy_state) option" where
  "received_proxy_response now packet st =
     (case lookup_in_proxy_hash packet st of
        None \<Rightarrow> None
      | Some (None, st) \<Rightarrow> Some (None, st)
      | Some (Some r, st) \<Rightarrow>
          let q = request_of st r
          in if au_proxy_reply q \<noteq> None then Some (None, st)
             else
               case rad_verify packet (Some (au_proxy q)) (hs_secret (pq_homes st (the (au_home_server q)))) of
                 None \<Rightarrow> None
               | Some (Inl _) \<Rightarrow> Some (None, st)
               | Some (Inr packet) \<Rightarrow>
                   if au_packet q = None then map_option (Pair None) (ping_answered now r packet st)
                   else Some (accept_reply now r packet st))"

end
