(* ===== verification/Home_Choice.thy ===== *)
theory Home_Choice
  imports Home_Servers
begin

text \<open>
  Which home server is chosen, and that a home server that is dead does not stay dead for want of an event.
\<close>

section \<open>The servers that may be chosen\<close>

text \<open>The servers of a pool that may be used for a request, in the order of the loop.\<close>

definition candidates :: "homes \<Rightarrow> proxy_request \<Rightarrow> home_state \<Rightarrow> nat option list \<Rightarrow> nat list" where
  "candidates homes request st xs = [h \<leftarrow> List.map_filter id xs. ldb_usable request (homes h) \<and> hs_state (homes h) = st]"

lemma candidates_simps [simp]:
  "candidates homes request st [] = []"
  "candidates homes request st (None # xs) = candidates homes request st xs"
  "candidates homes request st (Some h # xs) =
     (if ldb_usable request (homes h) \<and> hs_state (homes h) = st then h # candidates homes request st xs else candidates homes request st xs)"
  by (simp_all add: candidates_def List.map_filter_def)

lemma usable_state: "ldb_usable request home \<Longrightarrow> hs_state home \<noteq> HOME_STATE_ZOMBIE \<Longrightarrow> hs_state home = HOME_STATE_ALIVE"
  by (cases "hs_state home") (auto simp: ldb_usable_def)

definition head_or :: "nat option \<Rightarrow> nat list \<Rightarrow> nat option" where
  "head_or z hs = (if z = None then (case hs of [] \<Rightarrow> None | h # _ \<Rightarrow> Some h) else z)"

lemma head_or_simps [simp]: "head_or (Some z) hs = Some z" "head_or None [] = None" "head_or None (h # hs) = Some h" "head_or y [] = y"
  by (simp_all add: head_or_def)

lemma head_or_hd: "hs \<noteq> [] \<Longrightarrow> head_or None hs = Some (hd hs)"
  by (cases hs) simp_all

lemma head_or_Cons: "head_or (if z = None then Some h else z) hs = head_or z (h # hs)"
  by (cases z) simp_all

lemma ldb_loop_first:
  assumes "ty \<noteq> HOME_POOL_LOAD_BALANCE"
  shows "\<exists>z s'. ldb_loop homes request ty xs seen None zombie s =
      (head_or None (candidates homes request HOME_STATE_ALIVE xs), z, s') \<and>
      (candidates homes request HOME_STATE_ALIVE xs = [] \<longrightarrow> z = head_or zombie (candidates homes request HOME_STATE_ZOMBIE xs))"
proof (induction xs arbitrary: seen zombie s)
  case (Cons x xs)
  then show ?case using assms
    by (cases x) (force simp: Let_def dest: usable_state)+
qed simp

text \<open>With load balancing the one found has the fewest requests outstanding.\<close>

definition least_loaded :: "homes \<Rightarrow> nat option \<Rightarrow> nat list \<Rightarrow> bool" where
  "least_loaded homes found hs \<longleftrightarrow>
     (case found of
        None \<Rightarrow> hs = []
      | Some h \<Rightarrow> h \<in> set hs \<and> (\<forall>x\<in>set hs. hs_currently_outstanding (homes h) \<le> hs_currently_outstanding (homes x)))"

lemma least_loaded_None: "least_loaded homes None before \<Longrightarrow> least_loaded homes (Some h) (before @ [h])"
  by (simp add: least_loaded_def)

lemma least_loaded_Some:
  "least_loaded homes (Some f) before \<Longrightarrow> g = f \<or> g = h \<Longrightarrow> hs_currently_outstanding (homes g) \<le> hs_currently_outstanding (homes f) \<Longrightarrow>
   hs_currently_outstanding (homes g) \<le> hs_currently_outstanding (homes h) \<Longrightarrow> least_loaded homes (Some g) (before @ [h])"
  by (fastforce simp: least_loaded_def)

lemma ldb_loop_balance:
  assumes "least_loaded homes found before"
  shows "\<exists>f z s'. ldb_loop homes request HOME_POOL_LOAD_BALANCE xs seen found zombie s = (f, z, s') \<and>
      least_loaded homes f (before @ candidates homes request HOME_STATE_ALIVE xs) \<and>
      z = head_or zombie (candidates homes request HOME_STATE_ZOMBIE xs)"
  using assms
proof (induction xs arbitrary: seen found zombie before s)
  case (Cons x xs)
  show ?case
  proof (cases x)
    case None
    then show ?thesis using Cons by simp
  next
    case (Some h)
    show ?thesis
    proof (cases "ldb_usable request (homes h) \<and> hs_state (homes h) \<noteq> HOME_STATE_ZOMBIE")
      case False
      have "?thesis" if "ldb_usable request (homes h)"
        using Cons.IH [OF Cons.prems, of "Suc seen" "if zombie = None then Some h else zombie" s] False that Some by (simp add: Let_def head_or_Cons)
      moreover have "?thesis" if "\<not> ldb_usable request (homes h)"
        using Cons.IH [OF Cons.prems, of "Suc seen" zombie s] that Some by (simp add: Let_def)
      ultimately show ?thesis by blast
    next
      case True
      then have alive: "hs_state (homes h) = HOME_STATE_ALIVE" using usable_state by blast
      have found: "\<exists>found' seen' s''. ldb_loop homes request HOME_POOL_LOAD_BALANCE (Some h # xs) seen found zombie s =
          ldb_loop homes request HOME_POOL_LOAD_BALANCE xs seen' found' zombie s'' \<and> least_loaded homes found' (before @ [h])"
      proof (cases found)
        case None
        then show ?thesis using True alive Cons.prems least_loaded_None by (force simp: Let_def)
      next
        case (Some f)
        let ?o = "\<lambda>h. hs_currently_outstanding (homes h)"
        obtain r s1 where r: "fr_rand s = (r, s1)" by fastforce
        note keep = least_loaded_Some [OF Cons.prems [unfolded Some], where h = h]
        consider "?o h < ?o f" | "?o f < ?o h" | "?o f = ?o h" by linarith
        then show ?thesis
        proof cases
          case 1
          then have "least_loaded homes (Some h) (before @ [h])" by (intro keep) auto
          then show ?thesis using True alive Some 1 by (force simp: Let_def)
        next
          case 2
          then have "least_loaded homes (Some f) (before @ [h])" by (intro keep) auto
          then show ?thesis using True alive Some 2 by (force simp: Let_def)
        next
          case 3
          let ?g = "if (of_nat (seen + 1) * (r AND 0xffff) :: u32) < 0x10000 then h else f"
          have "least_loaded homes (Some ?g) (before @ [h])" using 3 by (intro keep) auto
          moreover have "ldb_loop homes request HOME_POOL_LOAD_BALANCE (Some h # xs) seen found zombie s =
              ldb_loop homes request HOME_POOL_LOAD_BALANCE xs (seen + 1) (Some ?g) zombie s1"
            using True alive Some 3 r by (simp add: Let_def)
          ultimately show ?thesis by blast
        qed
      qed
      then obtain found' seen' s'' where f: "ldb_loop homes request HOME_POOL_LOAD_BALANCE (Some h # xs) seen found zombie s =
          ldb_loop homes request HOME_POOL_LOAD_BALANCE xs seen' found' zombie s''" "least_loaded homes found' (before @ [h])" by blast
      from Cons.IH [OF f(2), of seen' zombie s''] show ?thesis unfolding Some f(1) using True alive by simp
    qed
  qed
qed simp

text \<open>The request is set up for the server that was chosen.\<close>

definition proxied_to :: "home_server \<Rightarrow> nat \<Rightarrow> proxy_request \<Rightarrow> bool" where
  "proxied_to home h request \<longleftrightarrow> px_home_server request = Some h \<and>
     (\<exists>p. px_proxy request = Some p \<and> pk_dst_ipaddr p = hs_ipaddr home \<and> pk_dst_port p = hs_port home \<and> pk_src_ipaddr p = hs_src_ipaddr home)"

lemma update_and_return_proxied: "update_and_return mac homes h request s = (request', s') \<Longrightarrow> proxied_to (homes h) h request'"
  by (auto simp: update_and_return_def proxied_to_def Let_def split: option.split_asm prod.split_asm)

lemma ldb_proxied: "home_server_ldb n rc mac realmname pool request homes s = Some (Some h, request', homes', s') \<Longrightarrow> proxied_to (homes' h) h request'"
proof (induction n arbitrary: realmname pool homes s)
  case (Suc n)
  then show ?case by (auto split: option.split_asm prod.split_asm dest: update_and_return_proxied)
qed simp

lemma default_pool_once:
  assumes "\<forall>rd. realm_find rc (Some ''DEFAULT'') = Some rd \<longrightarrow> realm_name rd = ''DEFAULT''" and "default_pool rc realmname request = Some (nm, pool)"
  shows "default_pool rc (Some nm) request = None"
  using assms by (auto simp: default_pool_def split: if_split_asm option.split_asm)

lemma ldb_returns:
  assumes "\<forall>rd. realm_find rc (Some ''DEFAULT'') = Some rd \<longrightarrow> realm_name rd = ''DEFAULT''"
  shows "home_server_ldb (Suc (Suc n)) rc mac realmname pool request homes s \<noteq> None"
  using default_pool_once [OF assms, of realmname request] by (auto split: prod.split option.split)

text \<open>The one a pool gives by itself.\<close>

lemma ldb_found:
  assumes "live = candidates homes request HOME_STATE_ALIVE (rotate (ldb_start pool request) (hp_servers pool))"
    and "zombies = candidates homes request HOME_STATE_ZOMBIE (rotate (ldb_start pool request) (hp_servers pool))"
  shows "\<exists>f z s'. ldb_loop homes request (hp_type pool) (rotate (ldb_start pool request) (hp_servers pool)) 0 None None s = (f, z, s') \<and>
      (live \<noteq> [] \<longrightarrow> (\<exists>h. f = Some h \<and> (if hp_type pool = HOME_POOL_LOAD_BALANCE then least_loaded homes (Some h) live else h = hd live))) \<and>
      (live = [] \<longrightarrow> f = None \<and> z = head_or None zombies)"
proof (cases "hp_type pool = HOME_POOL_LOAD_BALANCE")
  case True
  have "least_loaded homes None []" by (simp add: least_loaded_def)
  from ldb_loop_balance [OF this, of request "rotate (ldb_start pool request) (hp_servers pool)" 0 None s] obtain f z s' where
    *: "ldb_loop homes request HOME_POOL_LOAD_BALANCE (rotate (ldb_start pool request) (hp_servers pool)) 0 None None s = (f, z, s')"
      "least_loaded homes f live" "z = head_or None zombies" using assms by auto
  then show ?thesis using True by (cases f) (auto simp: least_loaded_def)
next
  case False
  from ldb_loop_first [OF this, of homes request "rotate (ldb_start pool request) (hp_servers pool)" 0 None s]
  show ?thesis using False assms by (auto simp: head_or_hd)
qed

text \<open>C10: Which home server gets a request. When the realm \<^verbatim>\<open>DEFAULT\<close> is spelled so, \<open>home_server_ldb\<close> returns, and its answer is: a live server that is not
  overloaded when the pool has one -- the first from the start, or one with the fewest outstanding requests with load balancing -- otherwise
  the first zombie, otherwise the fallback of the pool. The request is addressed to the server that was chosen.\<close>

theorem home_server_choice:
  assumes "\<forall>rd. realm_find rc (Some ''DEFAULT'') = Some rd \<longrightarrow> realm_name rd = ''DEFAULT''"
    and "live = candidates homes request HOME_STATE_ALIVE (rotate (ldb_start pool request) (hp_servers pool))"
    and "zombies = candidates homes request HOME_STATE_ZOMBIE (rotate (ldb_start pool request) (hp_servers pool))"
  shows "\<exists>r request' homes' s'. home_server_ldb 2 rc mac realmname pool request homes s = Some (r, request', homes', s') \<and>
    (live \<noteq> [] \<longrightarrow> (\<exists>h. r = Some h \<and> homes' = homes \<and>
       (if hp_type pool = HOME_POOL_LOAD_BALANCE
        then h \<in> set live \<and> (\<forall>x\<in>set live. hs_currently_outstanding (homes h) \<le> hs_currently_outstanding (homes x)) else h = hd live))) \<and>
    (live = [] \<and> zombies \<noteq> [] \<longrightarrow> r = Some (hd zombies)) \<and>
    (live = [] \<and> zombies = [] \<and> hp_fallback pool \<noteq> None \<longrightarrow> r = hp_fallback pool) \<and>
    (\<forall>h. r = Some h \<longrightarrow> proxied_to (homes' h) h request')"
proof -
  obtain f z s1 where loop: "ldb_loop homes request (hp_type pool) (rotate (ldb_start pool request) (hp_servers pool)) 0 None None s = (f, z, s1)"
    and live: "live \<noteq> [] \<longrightarrow> (\<exists>h. f = Some h \<and> (if hp_type pool = HOME_POOL_LOAD_BALANCE then least_loaded homes (Some h) live else h = hd live))"
    and dead: "live = [] \<longrightarrow> f = None \<and> z = head_or None zombies"
    using ldb_found [OF assms(2,3), of s] by blast
  have two: "(2 :: nat) = Suc (Suc 0)" by simp
  have returns: "home_server_ldb 2 rc mac realmname pool request homes s \<noteq> None"
    unfolding two by (rule ldb_returns [OF assms(1)])
  then obtain r request' homes' s' where res: "home_server_ldb 2 rc mac realmname pool request homes s = Some (r, request', homes', s')" by fastforce
  have hit: "r = Some h \<and> homes' = homes" if "(if f = None then z else f) = Some h" for h
  proof -
    have "pool_choice rc pool request homes s = (Some h, homes, s1)" using loop that by (simp add: pool_choice_def)
    then show ?thesis using res unfolding two by (simp split: prod.split_asm)
  qed
  have spare: "r = hp_fallback pool" if "f = None" "z = None" "hp_fallback pool \<noteq> None"
  proof -
    have "pool_choice rc pool request homes s = (hp_fallback pool, homes, s1)" using loop that by (auto simp: pool_choice_def Let_def)
    then show ?thesis using res that(3) unfolding two by (auto split: prod.split_asm)
  qed
  show ?thesis
  proof (intro exI conjI)
    show "home_server_ldb 2 rc mac realmname pool request homes s = Some (r, request', homes', s')" by (fact res)
    show "live \<noteq> [] \<longrightarrow> (\<exists>h. r = Some h \<and> homes' = homes \<and>
       (if hp_type pool = HOME_POOL_LOAD_BALANCE
        then h \<in> set live \<and> (\<forall>x\<in>set live. hs_currently_outstanding (homes h) \<le> hs_currently_outstanding (homes x)) else h = hd live))"
      using live hit by (fastforce simp: least_loaded_def)
    show "live = [] \<and> zombies \<noteq> [] \<longrightarrow> r = Some (hd zombies)" using dead hit by (cases zombies) auto
    show "live = [] \<and> zombies = [] \<and> hp_fallback pool \<noteq> None \<longrightarrow> r = hp_fallback pool" using dead spare by simp
    show "\<forall>h. r = Some h \<longrightarrow> proxied_to (homes' h) h request'" using ldb_proxied res by blast
  qed
qed

definition sample_home :: home_server where
  "sample_home = \<lparr>hs_ipaddr = ipaddr0, hs_port = 1812, hs_src_ipaddr = ipaddr0, hs_server = None, hs_secret = [], hs_type = HOME_TYPE_AUTH, hs_ev = None,
     hs_when = \<lparr>tv_sec = 0, tv_usec = 0\<rparr>, hs_response_window = 30, hs_max_outstanding = 65536, hs_currently_outstanding = 0, hs_message_authenticator = False,
     hs_last_packet = 0, hs_revive_time = \<lparr>tv_sec = 0, tv_usec = 0\<rparr>, hs_zombie_period_start = \<lparr>tv_sec = 0, tv_usec = 0\<rparr>,
     hs_zombie_period = 40, hs_state = HOME_STATE_ALIVE, hs_ping_check = HOME_PING_CHECK_STATUS_SERVER, hs_ping_user_name = [],
     hs_ping_user_password = [], hs_ping_interval = 30, hs_num_pings_to_alive = 3, hs_num_received_pings = 0, hs_ping_timeout = 4,
     hs_revive_interval = 60, hs_coa_mrd = 30\<rparr>"

theorem home_server_choice_witness:
  "\<exists>request' s'. home_server_ldb 2 \<lparr>rc_fallback = True, rc_wake_all_if_all_dead = False, rc_realms = []\<rparr> (pairalloc None) (Some ''example.com'')
       \<lparr>hp_type = HOME_POOL_LOAD_BALANCE, hp_fallback = None, hp_servers = [Some 0, None, Some 1, Some 2]\<rparr>
       \<lparr>px_packet = packet0, px_proxy = None, px_config_items = [], px_home_server = None, px_detail = False\<rparr>
       ((\<lambda>_. sample_home\<lparr>hs_currently_outstanding := 7\<rparr>)(1 := sample_home, 2 := sample_home\<lparr>hs_state := HOME_STATE_IS_DEAD\<rparr>)) (lib_start 0 0) =
     Some (Some 1, request', (\<lambda>_. sample_home\<lparr>hs_currently_outstanding := 7\<rparr>)(1 := sample_home, 2 := sample_home\<lparr>hs_state := HOME_STATE_IS_DEAD\<rparr>), s') \<and>
     proxied_to sample_home 1 request'"
proof -
  let ?rc = "\<lparr>rc_fallback = True, rc_wake_all_if_all_dead = False, rc_realms = []\<rparr>"
  let ?pool = "\<lparr>hp_type = HOME_POOL_LOAD_BALANCE, hp_fallback = None, hp_servers = [Some 0, None, Some 1, Some 2]\<rparr>"
  let ?request = "\<lparr>px_packet = packet0, px_proxy = None, px_config_items = [], px_home_server = None, px_detail = False\<rparr>"
  let ?homes = "(\<lambda>_. sample_home\<lparr>hs_currently_outstanding := 7\<rparr>)(1 := sample_home, 2 := sample_home\<lparr>hs_state := HOME_STATE_IS_DEAD\<rparr>)"
  have live: "[0, 1] = candidates ?homes ?request HOME_STATE_ALIVE (rotate (ldb_start ?pool ?request) (hp_servers ?pool))"
    and none: "[] = candidates ?homes ?request HOME_STATE_ZOMBIE (rotate (ldb_start ?pool ?request) (hp_servers ?pool))"
    by (simp_all add: ldb_start_def ldb_usable_def sample_home_def Let_def)
  show ?thesis
    using home_server_choice [OF _ live none, of ?rc "pairalloc None" "Some ''example.com''" "lib_start 0 0"]
    by (fastforce simp: realm_find_def sample_home_def)
qed

text \<open>By client and port means by client: the port of the request does not matter.\<close>

lemma client_port_ignored:
  "hp_type pool = HOME_POOL_CLIENT_PORT_BALANCE \<Longrightarrow> ldb_start pool request = ldb_start (pool\<lparr>hp_type := HOME_POOL_CLIENT_BALANCE\<rparr>) request"
  by (simp add: ldb_start_def Let_def)

lemma no_candidates: "(\<forall>h. Some h \<in> set xs \<longrightarrow> \<not> ldb_usable request (homes h)) \<Longrightarrow> candidates homes request st xs = []"
  by (induction xs) (auto simp: candidates_def List.map_filter_def split: option.split)

text \<open>When the default realm is spelled in another case and its pool has no server left, the function calls itself for ever.\<close>

lemma default_case_recursion:
  assumes "rc_fallback rc" and "realm_find rc (Some ''DEFAULT'') = Some rd" and "realm_name rd = ''default''" and "realm_auth_pool rd = Some pool"
    and "\<forall>h. Some h \<in> set (hp_servers pool) \<longrightarrow> \<not> ldb_usable request (homes h)" and "hp_fallback pool = None"
    and "pk_code (px_packet request) = PW_AUTHENTICATION_REQUEST"
    and "realmname \<noteq> None" and "realmname \<noteq> Some ''NULL''" and "realmname \<noteq> Some ''DEFAULT''"
  shows "home_server_ldb n rc mac realmname pool request homes s = None"
  using assms(8-10)
proof (induction n arbitrary: realmname s)
  case (Suc n)
  have none: "candidates homes request st (rotate (ldb_start pool request) (hp_servers pool)) = []" for st
    using assms(5) by (intro no_candidates) simp
  from ldb_found [OF none [symmetric] none [symmetric], of s] obtain s' where
    "ldb_loop homes request (hp_type pool) (rotate (ldb_start pool request) (hp_servers pool)) 0 None None s = (None, None, s')" by auto
  then have "pool_choice rc pool request homes s = (None, homes, s')" using assms(1,6) by (simp add: pool_choice_def)
  moreover have "home_server_ldb n rc mac (Some ''default'') pool request homes s' = None" by (rule Suc.IH) simp_all
  moreover have "default_pool rc realmname request = Some (''default'', pool)" using Suc.prems assms(1-4,7) by (auto simp: default_pool_def)
  ultimately show ?case by simp
qed simp

section \<open>States of a home server\<close>

text \<open>
  What happens to a home server. The flag says whether a status check that the step sends finds a place in the list of proxied requests.
\<close>

inductive home_step :: "bool \<Rightarrow> home_server \<Rightarrow> home_server \<Rightarrow> bool" where
  reply: "home_step True home (received_reply now home)"
| ping_answer: "home_step True home (received_response_to_ping now home)"
| ping_lost: "no_response_to_ping p now w home s = (home', s') \<Longrightarrow> home_step (pi_inserted p) home home'"
| silent: "no_response_to_proxied_request p now now' w home s = (home', s') \<Longrightarrow> home_step (pi_inserted p) home home'"
| duplicate: "check_for_zombie_home_server p now w home s = (home', s') \<Longrightarrow> home_step (pi_inserted p) home home'"
| event: "run_home_event p now home s = (home', s') \<Longrightarrow> home_step (pi_inserted p) home home'"
| set_alive: "home_step True home (revive_home_server now home)"
| set_dead: "mark_home_server_dead p w home s = (home', s') \<Longrightarrow> home_step (pi_inserted p) home home'"
| woken: "can_wake home \<Longrightarrow> home_step True home (home\<lparr>hs_state := HOME_STATE_ALIVE\<rparr>)"
| sent: "home_step True home (outstanding_inc home)"
| answered: "home_step True home (outstanding_dec home)"

text \<open>A server as it is configured: \<open>home_server_add\<close> asks for at least three answers, \<open>old_server_add\<close> makes servers that are not checked.\<close>

definition home_start :: "home_server \<Rightarrow> bool" where
  "home_start home \<longleftrightarrow> hs_state home = HOME_STATE_ALIVE \<and> hs_ev home = None \<and> hs_currently_outstanding home = 0 \<and>
     (hs_ping_check home = HOME_PING_CHECK_NONE \<or> 3 \<le> hs_num_pings_to_alive home)"

text \<open>
  The histories of a home server. The second argument tells whether, since the server was alive last, a status check found no place and left
  the server without an event.
\<close>

inductive home_history :: "home_server \<Rightarrow> bool \<Rightarrow> bool" where
  start: "home_start home \<Longrightarrow> home_history home False"
| step: "home_history home dropped \<Longrightarrow> home_step placed home home' \<Longrightarrow>
    home_history home' ((dropped \<or> \<not> placed) \<and> hs_state home' \<noteq> HOME_STATE_ALIVE \<and> hs_ev home' = None)"

definition event_fits :: "home_server \<Rightarrow> bool" where
  "event_fits home \<longleftrightarrow>
     hs_ev home = None \<or>
     fst (the (hs_ev home)) = (if hs_ping_check home = HOME_PING_CHECK_NONE then revive_home_server_cb else ping_home_server_cb)"

definition revival_pending :: "home_server \<Rightarrow> bool" where
  "revival_pending home \<longleftrightarrow> (hs_ping_check home = HOME_PING_CHECK_NONE \<and> hs_state home = HOME_STATE_IS_DEAD \<longrightarrow> hs_ev home \<noteq> None)"

definition check_pending :: "home_server \<Rightarrow> bool" where
  "check_pending home \<longleftrightarrow> (hs_ping_check home \<noteq> HOME_PING_CHECK_NONE \<and> hs_state home \<noteq> HOME_STATE_ALIVE \<longrightarrow> hs_ev home \<noteq> None)"

text \<open>What holds always, and the next check, which is pending as long as the checks found a place.\<close>

definition home_ready :: "home_server \<Rightarrow> bool" where
  "home_ready home \<longleftrightarrow> event_fits home \<and> revival_pending home \<and> 0 \<le> hs_currently_outstanding home \<and>
     (hs_ping_check home \<noteq> HOME_PING_CHECK_NONE \<longrightarrow> 1 \<le> hs_num_pings_to_alive home \<and>
        (hs_state home \<noteq> HOME_STATE_ALIVE \<longrightarrow> 0 \<le> hs_num_received_pings home \<and> hs_num_received_pings home < hs_num_pings_to_alive home))"

definition home_ok :: "bool \<Rightarrow> home_server \<Rightarrow> bool" where
  "home_ok placed home \<longleftrightarrow> home_ready home \<and> (placed \<longrightarrow> check_pending home)"

lemmas home_ok_simps = home_ok_def home_ready_def event_fits_def revival_pending_def check_pending_def

lemma home_ok_weaken: "home_ok c home \<Longrightarrow> (d \<longrightarrow> c) \<Longrightarrow> home_ok d home"
  by (simp add: home_ok_def)

lemma ping_cases:
  assumes "ping p home s = (home', s')"
  obtains (idle) "hs_state home = HOME_STATE_ALIVE \<or> hs_ping_check home = HOME_PING_CHECK_NONE \<or> hs_ev home \<noteq> None" "home' = home"
  | (pinged) w where "pi_inserted p" "hs_state home \<noteq> HOME_STATE_ALIVE" "hs_ping_check home \<noteq> HOME_PING_CHECK_NONE"
      "home' = home\<lparr>hs_currently_outstanding := hs_currently_outstanding home + 1, hs_when := w, hs_ev := Some (ping_home_server_cb, w)\<rparr>"
  | (dropped) w where "\<not> pi_inserted p" "hs_state home \<noteq> HOME_STATE_ALIVE" "hs_ping_check home \<noteq> HOME_PING_CHECK_NONE" "hs_ev home = None"
      "home' = home\<lparr>hs_when := w, hs_currently_outstanding := hs_currently_outstanding home + 1\<rparr>"
proof (cases "hs_state home = HOME_STATE_ALIVE \<or> hs_ping_check home = HOME_PING_CHECK_NONE \<or> hs_ev home \<noteq> None")
  case True
  show ?thesis by (rule idle [OF True]) (use True assms(1) in \<open>simp add: ping_def ping_home_server_def\<close>)
next
  case tries: False
  obtain r s1 where r: "fr_rand s = (r, s1)" by fastforce
  show ?thesis
  proof (cases "pi_inserted p")
    case True
    let ?w = "tv_add ((pi_sent p)\<lparr>tv_sec := tv_sec (pi_sent p) + (hs_ping_interval home - 2)\<rparr>) (uint (ping_jitter r))"
    have "home' = home\<lparr>hs_currently_outstanding := hs_currently_outstanding home + 1, hs_when := ?w, hs_ev := Some (ping_home_server_cb, ?w)\<rparr>"
      using tries True assms r by (simp add: ping_def ping_home_server_def Let_def)
    then show ?thesis using tries True by (intro pinged) simp_all
  next
    case False
    have "home' = home\<lparr>hs_when := pi_start p, hs_currently_outstanding := hs_currently_outstanding home + 1\<rparr>"
      using tries False assms by (simp add: ping_def ping_home_server_def Let_def)
    then show ?thesis using tries False by (cases "hs_ev home") (auto intro: dropped)
  qed
qed

lemma ping_ok:
  assumes "ping p home s = (home', s')" "home_ready home" "c \<longrightarrow> hs_ping_check home \<noteq> HOME_PING_CHECK_NONE \<or> check_pending home"
  shows "home_ok (c \<and> pi_inserted p) home'"
  using assms(1) by (cases rule: ping_cases) (use assms(2,3) in \<open>auto simp: home_ok_simps\<close>)

lemma dead_ok:
  assumes "mark_home_server_dead p w home s = (home', s')" "home_ok c home"
  shows "home_ok (c \<and> pi_inserted p) home'"
proof (cases "hs_ping_check home = HOME_PING_CHECK_NONE")
  case True
  then show ?thesis using assms by (auto simp: mark_home_server_dead_def Let_def home_ok_simps)
next
  case pings: False
  let ?dead = "home\<lparr>hs_state := HOME_STATE_IS_DEAD, hs_num_received_pings := 0\<rparr>"
  have ready: "home_ready ?dead" using assms(2) pings by (auto simp: home_ok_simps)
  show ?thesis
  proof (cases "hs_state home = HOME_STATE_ALIVE")
    case True
    then have "ping p ?dead s = (home', s')" using assms(1) pings by (simp add: mark_home_server_dead_def Let_def)
    then show ?thesis by (rule ping_ok) (use ready pings in auto)
  next
    case False
    then have "home' = ?dead" using assms(1) pings by (simp add: mark_home_server_dead_def Let_def)
    then show ?thesis using ready assms(2) pings False by (simp add: home_ok_def check_pending_def)
  qed
qed

lemma zombie_ok:
  assumes "check_for_zombie_home_server p now w home s = (home', s')" "home_ok c home"
  shows "home_ok (c \<and> pi_inserted p) home'"
  using assms(1) dead_ok [OF _ assms(2), of p w s home' s'] home_ok_weaken [OF assms(2), of "c \<and> pi_inserted p"]
  by (auto simp: check_for_zombie_home_server_def Let_def split: if_split_asm)

lemma silent_ok:
  assumes "no_response_to_proxied_request p now now' w home s = (home', s')" "home_ok c home"
  shows "home_ok (c \<and> pi_inserted p) home'"
proof -
  obtain home1 s1 where z: "check_for_zombie_home_server p now w home s = (home1, s1)" by fastforce
  then have ok: "home_ok (c \<and> pi_inserted p) home1" using zombie_ok assms(2) by blast
  let ?zombie = "home1\<lparr>hs_state := HOME_STATE_ZOMBIE, hs_zombie_period_start := \<lparr>tv_sec = hs_last_packet home1, tv_usec = USEC div 2\<rparr>,
      hs_ev := None, hs_currently_outstanding := 0, hs_num_received_pings := 0\<rparr>"
  consider "home' = home" | "home' = home1" | "ping p ?zombie s1 = (home', s')"
    using assms(1) z by (auto simp: no_response_to_proxied_request_def Let_def split: if_split_asm)
  then show ?thesis
  proof cases
    case 1
    then show ?thesis using home_ok_weaken [OF assms(2)] by simp
  next
    case 3
    then show ?thesis by (rule ping_ok) (use ok in \<open>auto simp: home_ok_simps\<close>)
  qed (use ok in simp)
qed

lemma event_ok:
  assumes "run_home_event p now home s = (home', s')" "home_ok c home"
  shows "home_ok (c \<and> pi_inserted p) home'"
proof (cases "hs_ev home")
  case None
  then show ?thesis using assms home_ok_weaken [OF assms(2)] by (simp add: run_home_event_def)
next
  case (Some e)
  obtain cb w where e: "e = (cb, w)" by fastforce
  show ?thesis
  proof (cases cb)
    case ping_home_server_cb
    then have "ping p (home\<lparr>hs_ev := None\<rparr>) s = (home', s')" using assms(1) Some e by (simp add: run_home_event_def)
    then show ?thesis by (rule ping_ok) (use assms(2) Some e ping_home_server_cb in \<open>auto simp: home_ok_simps split: if_split_asm\<close>)
  next
    case revive_home_server_cb
    then show ?thesis using assms Some e by (auto simp: run_home_event_def revive_home_server_def home_ok_simps)
  qed
qed

lemma answer_ok: "home_ok c home \<Longrightarrow> home_ok c (received_response_to_ping now home)"
  by (auto simp: received_response_to_ping_def Let_def home_ok_simps)

lemma lost_ok:
  assumes "no_response_to_ping p now w home s = (home', s')" "home_ok c home"
  shows "home_ok (c \<and> pi_inserted p) home'"
proof -
  have "home_ok c (home\<lparr>hs_num_received_pings := 0\<rparr>)" using assms(2) by (auto simp: home_ok_simps)
  with assms(1) show ?thesis unfolding no_response_to_ping_def by (rule zombie_ok)
qed

lemma alive_ok: "home_ok c home \<Longrightarrow> home_ok c (home\<lparr>hs_state := HOME_STATE_ALIVE\<rparr>)"
  by (simp add: home_ok_simps)

lemma reply_ok: "home_ok c home \<Longrightarrow> home_ok c (received_reply now home)"
  by (simp add: received_reply_def home_ok_simps)

lemma revive_ok: "home_ok c home \<Longrightarrow> home_ok c (revive_home_server now home)"
  by (simp add: revive_home_server_def home_ok_simps)

lemma counter_ok: "home_ok c home \<Longrightarrow> home_ok c (outstanding_inc home)" "home_ok c home \<Longrightarrow> home_ok c (outstanding_dec home)"
  by (auto simp: outstanding_inc_def outstanding_dec_def home_ok_simps)

lemmas home_ok_intros = alive_ok reply_ok revive_ok counter_ok answer_ok lost_ok silent_ok zombie_ok event_ok dead_ok

lemma home_step_ok: "home_step placed home home' \<Longrightarrow> home_ok c home \<Longrightarrow> home_ok (c \<and> placed) home'"
  by (induction rule: home_step.induct) (simp_all add: home_ok_intros)

lemma home_start_ok: "home_start home \<Longrightarrow> home_ok True home"
  by (auto simp: home_start_def home_ok_simps)

lemma home_history_ok: "home_history home dropped \<Longrightarrow> home_ok (\<not> dropped) home"
proof (induction rule: home_history.induct)
  case (start home)
  then show ?case using home_start_ok by simp
next
  case (step home dropped placed home')
  then have "home_ok (\<not> dropped \<and> placed) home'" using home_step_ok by blast
  then show ?case by (auto simp: home_ok_def check_pending_def)
qed

lemma dropped_no_event: "home_history home dropped \<Longrightarrow> dropped \<Longrightarrow> hs_ev home = None"
  by (cases rule: home_history.cases) auto

text \<open>Answers to status checks, one after the other.\<close>

lemma answers_alive:
  assumes "hs_state home \<noteq> HOME_STATE_ALIVE" and "hs_num_pings_to_alive home \<le> hs_num_received_pings home + int (length answers)"
    and "hs_num_received_pings home < hs_num_pings_to_alive home"
  shows "hs_state (fold received_response_to_ping answers home) = HOME_STATE_ALIVE"
  using assms
proof (induction answers arbitrary: home)
  case (Cons t answers)
  have alive: "hs_state (fold received_response_to_ping ts h) = HOME_STATE_ALIVE" if "hs_state h = HOME_STATE_ALIVE" for ts h
    using that by (induction ts arbitrary: h) (simp_all add: received_response_to_ping_def Let_def)
  show ?case
  proof (cases "hs_num_received_pings home + 1 < hs_num_pings_to_alive home")
    case True
    then have "received_response_to_ping t home = home\<lparr>hs_num_received_pings := hs_num_received_pings home + 1\<rparr>"
      using Cons.prems(1) by (simp add: received_response_to_ping_def Let_def)
    then show ?thesis using Cons.IH [of "received_response_to_ping t home"] Cons.prems True by simp
  next
    case False
    then have "hs_state (received_response_to_ping t home) = HOME_STATE_ALIVE"
      using Cons.prems(1) by (simp add: received_response_to_ping_def Let_def)
    then show ?thesis using alive by simp
  qed
qed simp

text \<open>C9: A home server that is down is not down for want of an event, unless a status check was lost. Whatever replies, lost replies, expired
  events, administrator's commands and duplicates it has seen: a dead server that is not checked has its revival pending, which makes it
  alive; as many answers as are configured make a zombie or dead server that is checked alive; and such a server has its next status check
  pending exactly when no check since it was alive last found the list of proxied requests full (\<open>dropped\<close>) -- after such a check the code
  schedules no other. A check that runs and finds a place schedules the next. The count of outstanding requests is not negative.\<close>

theorem home_never_stuck:
  assumes "home_history home dropped"
  shows "0 \<le> hs_currently_outstanding home \<and>
    (hs_state home = HOME_STATE_IS_DEAD \<and> hs_ping_check home = HOME_PING_CHECK_NONE \<longrightarrow>
       (\<exists>w. hs_ev home = Some (revive_home_server_cb, w)) \<and> hs_state (fst (run_home_event p now home s)) = HOME_STATE_ALIVE) \<and>
    (hs_state home \<noteq> HOME_STATE_ALIVE \<and> hs_ping_check home \<noteq> HOME_PING_CHECK_NONE \<longrightarrow>
       ((\<exists>w. hs_ev home = Some (ping_home_server_cb, w)) \<longleftrightarrow> \<not> dropped) \<and>
       (\<not> dropped \<and> pi_inserted p \<longrightarrow> hs_ev (fst (run_home_event p now home s)) \<noteq> None) \<and>
       (int (length answers) = hs_num_pings_to_alive home \<longrightarrow> hs_state (fold received_response_to_ping answers home) = HOME_STATE_ALIVE))"
proof -
  have ok: "home_ok (\<not> dropped) home" by (rule home_history_ok [OF assms])
  have fits: "\<exists>w. hs_ev home = Some (if hs_ping_check home = HOME_PING_CHECK_NONE then revive_home_server_cb else ping_home_server_cb, w)"
    if "hs_ev home \<noteq> None" using ok that by (cases "hs_ev home") (auto simp: home_ok_simps)
  have pinged: "hs_ev (fst (run_home_event p now home s)) \<noteq> None"
    if "hs_state home \<noteq> HOME_STATE_ALIVE" "hs_ping_check home \<noteq> HOME_PING_CHECK_NONE" "hs_ev home = Some (ping_home_server_cb, w)" "pi_inserted p" for w
    using that by (simp add: run_home_event_def ping_def ping_home_server_def Let_def split: prod.split)
  show ?thesis
  proof (intro conjI impI; (elim conjE)?)
    show "0 \<le> hs_currently_outstanding home" using ok by (simp add: home_ok_def home_ready_def)
  next
    assume dead: "hs_state home = HOME_STATE_IS_DEAD" "hs_ping_check home = HOME_PING_CHECK_NONE"
    then show w: "\<exists>w. hs_ev home = Some (revive_home_server_cb, w)" using ok fits by (simp add: home_ok_simps)
    then show "hs_state (fst (run_home_event p now home s)) = HOME_STATE_ALIVE" by (auto simp: run_home_event_def revive_home_server_def)
  next
    assume down: "hs_state home \<noteq> HOME_STATE_ALIVE" "hs_ping_check home \<noteq> HOME_PING_CHECK_NONE"
    have w: "\<exists>w. hs_ev home = Some (ping_home_server_cb, w)" if "\<not> dropped" using that down ok fits by (simp add: home_ok_simps)
    then show "(\<exists>w. hs_ev home = Some (ping_home_server_cb, w)) \<longleftrightarrow> \<not> dropped" using dropped_no_event [OF assms] by auto
    show "hs_ev (fst (run_home_event p now home s)) \<noteq> None" if "\<not> dropped" "pi_inserted p" using w pinged down that by blast
    show "hs_state (fold received_response_to_ping answers home) = HOME_STATE_ALIVE" if "int (length answers) = hs_num_pings_to_alive home"
      by (rule answers_alive) (use down ok that in \<open>simp_all add: home_ok_def home_ready_def\<close>)
  qed
qed

theorem home_never_stuck_witness:
  "(\<exists>w. hs_ev (fst (no_response_to_proxied_request
        \<lparr>pi_now = \<lparr>tv_sec = 100, tv_usec = 0\<rparr>, pi_start = \<lparr>tv_sec = 100, tv_usec = 0\<rparr>, pi_inserted = True, pi_sent = \<lparr>tv_sec = 100, tv_usec = 1\<rparr>\<rparr>
        \<lparr>tv_sec = 100, tv_usec = 0\<rparr> \<lparr>tv_sec = 100, tv_usec = 0\<rparr> \<lparr>tv_sec = 100, tv_usec = 0\<rparr> sample_home (lib_start 0 0))) = Some (ping_home_server_cb, w)) \<and>
   hs_state (fold received_response_to_ping (replicate 3 \<lparr>tv_sec = 200, tv_usec = 0\<rparr>)
     (fst (no_response_to_proxied_request
        \<lparr>pi_now = \<lparr>tv_sec = 100, tv_usec = 0\<rparr>, pi_start = \<lparr>tv_sec = 100, tv_usec = 0\<rparr>, pi_inserted = True, pi_sent = \<lparr>tv_sec = 100, tv_usec = 1\<rparr>\<rparr>
        \<lparr>tv_sec = 100, tv_usec = 0\<rparr> \<lparr>tv_sec = 100, tv_usec = 0\<rparr> \<lparr>tv_sec = 100, tv_usec = 0\<rparr> sample_home (lib_start 0 0)))) = HOME_STATE_ALIVE"
proof -
  let ?t = "\<lparr>tv_sec = 100, tv_usec = 0\<rparr>"
  let ?p = "\<lparr>pi_now = ?t, pi_start = ?t, pi_inserted = True, pi_sent = \<lparr>tv_sec = 100, tv_usec = 1\<rparr>\<rparr>"
  obtain home s where z: "no_response_to_proxied_request ?p ?t ?t ?t sample_home (lib_start 0 0) = (home, s)" by fastforce
  then have step: "home_step (pi_inserted ?p) sample_home home" by (rule home_step.silent)
  have "home_history sample_home False" by (rule home_history.start) (simp add: home_start_def sample_home_def)
  from home_history.step [OF this step] have "home_history home False" by simp
  note stuck = home_never_stuck [OF this, of undefined undefined undefined "replicate 3 \<lparr>tv_sec = 200, tv_usec = 0\<rparr>"]
  have "hs_state home = HOME_STATE_ZOMBIE \<and> hs_ping_check home = HOME_PING_CHECK_STATUS_SERVER \<and> hs_num_pings_to_alive home = 3"
    using z by (auto simp: no_response_to_proxied_request_def check_for_zombie_home_server_def ping_def ping_home_server_def sample_home_def
        Let_def split: prod.split_asm)
  with stuck show ?thesis unfolding z by simp
qed

text \<open>When a status check finds no place, the server has no event any more, and nothing checks it again.\<close>

lemma uninserted_ping_stuck:
  assumes "\<not> pi_inserted p" and "hs_ev home = Some (ping_home_server_cb, w)" and "hs_state home = HOME_STATE_IS_DEAD"
    and "hs_ping_check home \<noteq> HOME_PING_CHECK_NONE"
  shows "hs_ev (fst (run_home_event p now home s)) = None \<and> hs_state (fst (run_home_event p now home s)) = HOME_STATE_IS_DEAD \<and>
    run_home_event p' now' (fst (run_home_event p now home s)) s' = (fst (run_home_event p now home s), s')"
  using assms by (simp add: run_home_event_def ping_def ping_home_server_def)

text \<open>The jitter has 23 bits, up to more than eight seconds, where two seconds either way are meant.\<close>

lemma ping_jitter_bound: "uint (ping_jitter r) < 2 ^ 23"
proof -
  have "ping_jitter r = take_bit 23 (r XOR drop_bit 10 r)"
    by (simp add: ping_jitter_def Let_def take_bit_eq_mask mask_eq_exp_minus_1)
  then show ?thesis by (simp only: unsigned_take_bit_eq take_bit_int_less_exp)
qed

lemma ping_jitter_long: "4 * USEC < uint (ping_jitter (0x7fe000 OR 0x1fff))"
  by (simp add: ping_jitter_def USEC_def)

end
