(* ===== verification/Proxy_Ids.thy ===== *)
theory Proxy_Ids
  imports Proxy_Table Home_Choice
begin

text \<open>
  The table of proxied requests and the packet list agree: the identifiers in use are those of the requests in the table, and a reply finds its request.
\<close>

section \<open>The list\<close>

text \<open>A packet list holds the packets with the keys \<open>K\<close>, and the identifiers \<open>used\<close> are in use.\<close>

definition key_id :: "packet_key \<Rightarrow> int \<times> dest \<times> int" where
  "key_id k = (case k of (fd, i, sport, dport, dst, src) \<Rightarrow> (fd, (dport, dst), i))"

lemma key_id_packet [simp]: "key_id (packet_key p) = id_of p"
  by (simp add: key_id_def packet_key_def id_of_def req_dest_def)

definition list_rep :: "dest set \<Rightarrow> fr_packet_list \<Rightarrow> packet_key set \<Rightarrow> (int \<times> dest \<times> int) set \<Rightarrow> bool" where
  "list_rep D pl K used \<longleftrightarrow>
     id_history D pl used \<and> inj_on key_id K \<and> (\<exists>m. rb_rep packet_key addressed False (pl_tree pl) m \<and> dom m = K)"

text \<open>What an operation keeps of the sockets.\<close>

definition socket_view :: "fr_packet_socket \<Rightarrow> int \<times> fr_ipaddr \<times> nat \<times> bool" where
  "socket_view ps = (ps_sockfd ps, ps_ipaddr ps, ps_port ps, ps_inaddr_any ps)"

definition same_sockets :: "fr_packet_list \<Rightarrow> fr_packet_list \<Rightarrow> bool" where
  "same_sockets pl pl' \<longleftrightarrow> map socket_view (pl_sockets pl') = map socket_view (pl_sockets pl)"

lemma same_sockets_refl [simp]: "same_sockets pl pl"
  by (simp add: same_sockets_def)

lemma same_sockets_trans: "same_sockets pl pl' \<Longrightarrow> same_sockets pl' pl'' \<Longrightarrow> same_sockets pl pl''"
  by (simp add: same_sockets_def)

lemma same_sockets_nth: "same_sockets pl pl' \<Longrightarrow> i < length (pl_sockets pl) \<Longrightarrow> socket_view (pl_sockets pl' ! i) = socket_view (pl_sockets pl ! i)"
  unfolding same_sockets_def by (metis map_eq_imp_length_eq nth_map)

lemma count_sockets: "map socket_view (ss[j := (ss ! j)\<lparr>ps_num_outgoing := n\<rparr>]) = map socket_view ss"
  by (cases "j < length ss") (simp_all add: map_update list_update_same_conv list_update_beyond socket_view_def)

lemma id_alloc_sockets: "fr_packet_list_id_alloc pl r s = Some (b, r', pl', s') \<Longrightarrow> same_sockets pl pl' \<and> pl_tree pl' = pl_tree pl"
  by (auto simp: fr_packet_list_id_alloc_def id_take_def Let_def same_sockets_def count_sockets split: option.split_asm prod.split_asm if_split_asm)

lemma id_free_sockets: "fr_packet_list_id_free pl r = Some (b, pl') \<Longrightarrow> same_sockets pl pl' \<and> pl_tree pl' = pl_tree pl"
  by (auto simp: fr_packet_list_id_free_def Let_def same_sockets_def count_sockets split: option.split_asm prod.split_asm if_split_asm)

lemma id_history_slots:
  assumes "dst_hash_ok D" and "id_history D pl used"
  obtains S where "slots_ok pl S" and "ids_rep D pl S" and "used = used_of pl S"
  using id_history_rep [OF assms] by (auto simp: ids_rep_def)

text \<open>Taking a packet off the list releases its identifier.\<close>

lemma yank_tree_rep:
  assumes "rb_rep packet_key addressed False (pl_tree pl) m" and "p \<in> addressed"
  shows "\<exists>q pl'. fr_packet_list_yank pl p = Some (q, pl') \<and> pl' = pl\<lparr>pl_tree := pl_tree pl'\<rparr> \<and>
    rb_rep packet_key addressed False (pl_tree pl') (m(packet_key p := None))"
proof (cases "m (packet_key p)")
  case None
  then show ?thesis using assms packet_tree.rbtree_find_rep [OF assms] by (auto simp: fr_packet_list_yank_def fun_upd_idem)
next
  case (Some q)
  then have "q \<in> set (inorder (rb_root (pl_tree pl)))" "packet_key q = packet_key p"
    using assms(1) map_of_sorted [of packet_key "inorder (rb_root (pl_tree pl))"] by (auto simp: rb_rep_def tree_map_def)
  moreover then have "q \<in> addressed" using assms(1) by (auto simp: rb_rep_def)
  ultimately show ?thesis
    using Some packet_tree.rbtree_deletebydata_rep [OF assms(1), of q] packet_tree.rbtree_find_rep [OF assms]
    by (fastforce simp: fr_packet_list_yank_def)
qed

lemma yank_and_free_rep:
  assumes "dst_hash_ok D" and "list_rep D pl K used" and "p \<in> addressed" and "id_of p \<in> used"
  shows "\<exists>pl'. yank_and_free p pl = Some pl' \<and> list_rep D pl' (K - {packet_key p}) (used - {id_of p}) \<and> same_sockets pl pl'"
proof -
  obtain m where m: "rb_rep packet_key addressed False (pl_tree pl) m" "dom m = K" and inj: "inj_on key_id K" and hist: "id_history D pl used"
    using assms(2) by (auto simp: list_rep_def)
  obtain q pl1 where y: "fr_packet_list_yank pl p = Some (q, pl1)" "pl1 = pl\<lparr>pl_tree := pl_tree pl1\<rparr>"
      "rb_rep packet_key addressed False (pl_tree pl1) (m(packet_key p := None))" using yank_tree_rep [OF m(1) assms(3)] by blast
  have hist1: "id_history D pl1 used" by (rule id_history.yank [OF hist assms(3) y(1)])
  have valid: "ip_valid (pk_dst_ipaddr p)" using assms(3) by (simp add: addressed_def)
  obtain S where S: "ids_rep D pl1 S" "used = used_of pl1 S" using id_history_rep [OF assms(1) hist1] by blast
  obtain j k where jk: "(j, req_dest p, k) \<in> S" "pk_sockfd p = ps_sockfd (pl_sockets pl1 ! j)" "pk_id p = int k"
    using assms(4) S(2) by (auto simp: used_of_def id_of_def)
  then obtain pl2 where free: "fr_packet_list_id_free pl1 p = Some (True, pl2)" using id_free_rep [OF assms(1) S(1) valid, of j] by auto
  then have "id_history D pl2 (used - {id_of p})" using id_history.id_free [OF hist1 valid assms(4)] by blast
  moreover have "same_sockets pl1 pl2" "pl_tree pl2 = pl_tree pl1" using id_free_sockets [OF free] by auto
  moreover have "same_sockets pl pl1" by (subst y(2)) (simp add: same_sockets_def)
  moreover have "\<exists>m. rb_rep packet_key addressed False (pl_tree pl1) m \<and> dom m = K - {packet_key p}"
    by (rule exI [of _ "m(packet_key p := None)"]) (use y(3) m(2) in auto)
  moreover have "inj_on key_id (K - {packet_key p})" using inj by (rule inj_on_subset) blast
  ultimately show ?thesis using y(1) free same_sockets_trans by (auto simp: yank_and_free_def list_rep_def)
qed

text \<open>A packet with an identifier of its own is inserted.\<close>

lemma insert_rep:
  assumes "list_rep D pl K (insert (id_of p) (key_id ` K))" and "id_of p \<notin> key_id ` K" and "p \<in> addressed"
  shows "\<exists>pl'. fr_packet_list_insert pl p = Some (True, pl') \<and> list_rep D pl' (insert (packet_key p) K) (key_id ` insert (packet_key p) K) \<and>
    same_sockets pl pl'"
proof -
  obtain m where m: "rb_rep packet_key addressed False (pl_tree pl) m" "dom m = K" and inj: "inj_on key_id K"
    and hist: "id_history D pl (insert (id_of p) (key_id ` K))" using assms(1) by (auto simp: list_rep_def)
  have fresh: "packet_key p \<notin> K" using assms(2) by (metis image_eqI key_id_packet)
  then have none: "m (packet_key p) = None" using m(2) by auto
  from packet_tree.tree.ins [OF m(1) assms(3)] none obtain t where
    t: "rb_rep packet_key addressed False t (m(packet_key p \<mapsto> p))" "map_option (\<lambda>(b, _, tree). (b, tree)) (rbtree_insert packet_entry_cmp (pl_tree pl) p) = Some (True, t)"
    by auto
  then have ins: "fr_packet_list_insert pl p = Some (True, pl\<lparr>pl_tree := t\<rparr>)" by (auto simp: fr_packet_list_insert_def)
  from id_history.insert [OF hist assms(3) this] have "id_history D (pl\<lparr>pl_tree := t\<rparr>) (key_id ` insert (packet_key p) K)" by simp
  moreover have "inj_on key_id (insert (packet_key p) K)" using inj assms(2) fresh by (simp add: inj_on_insert)
  moreover have "same_sockets pl (pl\<lparr>pl_tree := t\<rparr>)" by (simp add: same_sockets_def)
  ultimately show ?thesis using ins t(1) m(2) by (auto simp: list_rep_def)
qed

section \<open>Allocating an identifier\<close>

text \<open>A packet that has the address and port of a socket of the list, and a list whose sockets are all known to the table.\<close>

definition homed :: "fr_packet_list \<Rightarrow> radius_packet \<Rightarrow> bool" where
  "homed pl p \<longleftrightarrow> pk_sockfd p \<noteq> - 1 \<and>
     (\<exists>i<length (pl_sockets pl). \<exists>any. socket_view (pl_sockets pl ! i) = (pk_sockfd p, pk_src_ipaddr p, pk_src_port p, any))"

definition sockets_known :: "fr_packet_list \<Rightarrow> int list \<Rightarrow> bool" where
  "sockets_known pl fds \<longleftrightarrow> length fds = 32 \<and>
     (\<forall>i<length (pl_sockets pl). case socket_view (pl_sockets pl ! i) of (fd, ip, port, any) \<Rightarrow> fd \<noteq> - 1 \<longrightarrow> fd \<in> set fds \<and> ip_valid ip)"

lemma same_sockets_length: "same_sockets pl pl' \<Longrightarrow> length (pl_sockets pl') = length (pl_sockets pl)"
  unfolding same_sockets_def by (rule map_eq_imp_length_eq)

lemma homed_same: "homed pl p \<Longrightarrow> same_sockets pl pl' \<Longrightarrow> homed pl' p"
  by (auto simp: homed_def same_sockets_length same_sockets_nth)

lemma sockets_known_same: "sockets_known pl fds \<Longrightarrow> same_sockets pl pl' \<Longrightarrow> sockets_known pl' fds"
  by (simp add: sockets_known_def same_sockets_length same_sockets_nth)

lemma homed_known: "homed pl p \<Longrightarrow> sockets_known pl fds \<Longrightarrow> pk_sockfd p \<in> set fds \<and> ip_valid (pk_src_ipaddr p)"
  by (fastforce simp: homed_def sockets_known_def)

lemma id_alloc_dst: "fr_packet_list_id_alloc pl r s = Some (b, r', pl', s') \<Longrightarrow> pk_dst_ipaddr r' = pk_dst_ipaddr r \<and> pk_dst_port r' = pk_dst_port r"
  by (auto simp: fr_packet_list_id_alloc_def id_take_def Let_def split: option.split_asm prod.split_asm if_split_asm)

definition allocated :: "dest set \<Rightarrow> fr_packet_list \<Rightarrow> (int \<times> dest \<times> int) set \<Rightarrow> radius_packet \<Rightarrow> bool \<Rightarrow> radius_packet \<Rightarrow> fr_packet_list \<Rightarrow> bool" where
  "allocated D pl used r b r' pl' \<longleftrightarrow>
     pk_dst_ipaddr r' = pk_dst_ipaddr r \<and> pk_dst_port r' = pk_dst_port r \<and> id_history D pl' (if b then insert (id_of r') used else used) \<and>
     (b \<longrightarrow> id_of r' \<notin> used \<and> homed pl' r') \<and> pl_tree pl' = pl_tree pl"

lemma id_alloc_allocated:
  assumes "dst_hash_ok D" and "id_history D pl used" and "ip_valid (pk_dst_ipaddr r)" and "req_dest r \<in> D"
  shows "\<exists>b r' pl' s'. fr_packet_list_id_alloc pl r (s :: lib_state) = Some (b, r', pl', s') \<and> allocated D pl used r b r' pl' \<and> same_sockets pl pl'"
proof -
  obtain S where S: "slots_ok pl S" "ids_rep D pl S" "used = used_of pl S" by (rule id_history_slots [OF assms(1,2)])
  obtain b r' pl' s' where a: "fr_packet_list_id_alloc pl r s = Some (b, r', pl', s')" "if b then id_taken D pl S r r' pl' else ids_rep D pl' S"
    using id_alloc_rep [OF assms(1) S(2) assms(3,4)] by blast
  have same: "same_sockets pl pl'" "pl_tree pl' = pl_tree pl" using id_alloc_sockets [OF a(1)] by auto
  have "id_of r' \<notin> used \<and> homed pl r'" if b
  proof -
    from a(2) that obtain j k where jk: "j < MAX_SOCKETS" "(j, req_dest r, k) \<notin> S" "ps_sockfd (pl_sockets pl ! j) \<noteq> - 1"
        "r' = r\<lparr>pk_id := int k, pk_sockfd := ps_sockfd (pl_sockets pl ! j), pk_src_ipaddr := ps_ipaddr (pl_sockets pl ! j),
          pk_src_port := ps_port (pl_sockets pl ! j)\<rparr>" by (auto simp: id_taken_def)
    have "i = j" if "(i, req_dest r, k) \<in> S" "ps_sockfd (pl_sockets pl ! i) = ps_sockfd (pl_sockets pl ! j)" for i
      using slots_okD(5) [OF S(1), of i j] slots_okD(6) [OF S(1) that(1)] bit_u32 jk(1,3) that(2) by fastforce
    then have "id_of r' \<notin> used" using jk(2,4) S(3) by (auto simp: used_of_def id_of_def req_dest_def)
    moreover have "homed pl r'" using jk slots_okD(2) [OF S(1)] by (auto simp: homed_def socket_view_def)
    ultimately show ?thesis by blast
  qed
  then show ?thesis
    using a(1) same homed_same id_alloc_dst [OF a(1)] id_history.id_alloc [OF assms(2-4) a(1)] by (auto simp: allocated_def)
qed

text \<open>A new socket has a descriptor the list does not have, and a name.\<close>

definition fresh_socket :: "fr_packet_list \<Rightarrow> int \<Rightarrow> (sockaddr_storage \<times> nat) option \<Rightarrow> bool" where
  "fresh_socket pl fd sockname \<longleftrightarrow> fd \<noteq> - 1 \<and> fr_socket_find pl fd = None \<and>
     (\<exists>sa len ip port. sockname = Some (sa, len) \<and> fr_sockaddr2ipaddr sa len ipaddr0 = Some (ip, port) \<and> ip_valid ip)"

lemma probe_cong: "i < MAX_SOCKETS \<Longrightarrow> \<forall>j<MAX_SOCKETS. P (ss' ! j) = P (ss ! j) \<Longrightarrow> probe P ss' i n = probe P ss i n"
  by (induction n arbitrary: i) simp_all

lemma find_same:
  assumes "same_sockets pl pl'" and "length (pl_sockets pl) = MAX_SOCKETS"
  shows "fr_socket_find pl' fd = fr_socket_find pl fd"
proof -
  have "ps_sockfd (pl_sockets pl' ! j) = ps_sockfd (pl_sockets pl ! j)" if "j < MAX_SOCKETS" for j
    using same_sockets_nth [OF assms(1)] assms(2) that by (fastforce simp: socket_view_def)
  then show ?thesis unfolding fr_socket_find_def by (intro probe_cong) (simp_all add: SOCK2OFFSET_less)
qed

lemma socket_add_slot:
  assumes "fresh_socket pl fd sockname" and "fr_packet_list_socket_add sockname pl fd = (b, pl')"
  shows "\<not> b \<and> pl' = pl \<or>
    (\<exists>i ip port any. i < MAX_SOCKETS \<and> ps_sockfd (pl_sockets pl ! i) = - 1 \<and> ip_valid ip \<and> pl_tree pl' = pl_tree pl \<and>
       map socket_view (pl_sockets pl') = (map socket_view (pl_sockets pl))[i := (fd, ip, port, any)])"
proof (cases "probe (\<lambda>ps. ps_sockfd ps = - 1) (pl_sockets pl) (SOCK2OFFSET fd) MAX_SOCKETS")
  case None
  then show ?thesis using assms(2) by (simp add: fr_packet_list_socket_add_def)
next
  case (Some i)
  have i: "i < MAX_SOCKETS" "ps_sockfd (pl_sockets pl ! i) = - 1" using probe_Some [OF Some SOCK2OFFSET_less] by auto
  obtain sa len ip port where sn: "sockname = Some (sa, len)" "fr_sockaddr2ipaddr sa len ipaddr0 = Some (ip, port)" "ip_valid ip"
    using assms(1) by (auto simp: fresh_socket_def)
  then have "ss_family sa = AF_INET \<or> ss_family sa = AF_INET6" by (auto simp: fr_sockaddr2ipaddr_def split: if_split_asm)
  then have "map socket_view (pl_sockets pl') = (map socket_view (pl_sockets pl))[i := (fd, ip, port, fr_inaddr_any ip = 1)]" "pl_tree pl' = pl_tree pl"
    using assms(2) Some sn(1,2) by (auto simp: fr_packet_list_socket_add_def Let_def socket0_def map_update socket_view_def)
  then show ?thesis using i sn(3) by blast
qed

lemma socket_add_known:
  assumes "fresh_socket pl fd sockname" and "fr_packet_list_socket_add sockname pl fd = (b, pl')"
    and "sockets_known pl fds" and "length (pl_sockets pl) = MAX_SOCKETS" and "set fds \<subseteq> insert (- 1) (set fds')" and "fd \<in> set fds'" and "length fds' = 32"
  shows "sockets_known pl' fds' \<and> pl_tree pl' = pl_tree pl \<and> (\<forall>p. homed pl p \<longrightarrow> homed pl' p)"
proof -
  have known: "sockets_known pl fds'" using assms(3,5,7) by (fastforce simp: sockets_known_def)
  from socket_add_slot [OF assms(1,2)] show ?thesis
  proof (elim disjE exE conjE)
    fix i ip port any
    assume i: "i < MAX_SOCKETS" "ps_sockfd (pl_sockets pl ! i) = - 1" and ip: "ip_valid ip" and tree: "pl_tree pl' = pl_tree pl"
      and upd: "map socket_view (pl_sockets pl') = (map socket_view (pl_sockets pl))[i := (fd, ip, port, any)]"
    have len: "length (pl_sockets pl') = MAX_SOCKETS" using arg_cong [OF upd, of length] assms(4) by simp
    have view: "socket_view (pl_sockets pl' ! j) = (if j = i then (fd, ip, port, any) else socket_view (pl_sockets pl ! j))" if "j < MAX_SOCKETS" for j
      using arg_cong [OF upd, of "\<lambda>xs. xs ! j"] that len assms(4) i(1) by (simp add: nth_list_update split: if_split_asm)
    have "sockets_known pl' fds'" unfolding sockets_known_def
    proof (intro conjI allI impI)
      show "length fds' = 32" by (rule assms(7))
      fix j
      assume "j < length (pl_sockets pl')"
      then show "case socket_view (pl_sockets pl' ! j) of (fd, ip, port, any) \<Rightarrow> fd \<noteq> - 1 \<longrightarrow> fd \<in> set fds' \<and> ip_valid ip"
        using view [of j] known assms(4,6) ip len by (auto simp: sockets_known_def)
    qed
    moreover have "homed pl' p" if p: "homed pl p" for p
    proof -
      obtain j any' where j: "j < MAX_SOCKETS" "socket_view (pl_sockets pl ! j) = (pk_sockfd p, pk_src_ipaddr p, pk_src_port p, any')" "pk_sockfd p \<noteq> - 1"
        using p assms(4) by (auto simp: homed_def)
      then have "j \<noteq> i" using i(2) by (auto simp: socket_view_def)
      then show ?thesis using view [OF j(1)] j len by (auto simp: homed_def)
    qed
    ultimately show ?thesis using tree by blast
  qed (use known in simp)
qed

lemma add_fds_keeps:
  assumes "proxy_add_fds fd fds = (Some i, fds')" and "length fds = 32"
  shows "set fds \<subseteq> insert (- 1) (set fds') \<and> fd \<in> set fds' \<and> length fds' = 32"
proof -
  from assms(1) obtain w :: u32 where i: "i = unat (w AND 0x1f)" "fds ! i = - 1" "fds' = fds[i := fd]"
    by (auto simp: proxy_add_fds_def find_Some_iff split: option.split_asm)
  have "w AND 0x1f = take_bit 5 w" by (simp add: take_bit_eq_mask mask_eq_exp_minus_1)
  then have "i < 32" using i(1) take_bit_nat_less_exp [of 5 "unat w"] by (simp add: unsigned_take_bit_eq)
  moreover have "x \<in> insert (- 1) (set (fds[i := fd]))" if "x \<in> set fds" for x
    using that i(2) assms(2) by (metis in_set_conv_nth insertCI length_list_update nth_list_update_neq)
  ultimately show ?thesis using i(3) assms(2) by (auto simp: set_update_memI)
qed

lemma proxy_id_alloc_allocated:
  assumes "dst_hash_ok D" and "id_history D (pq_list st) used" and "ip_valid (pk_dst_ipaddr r)" and "req_dest r \<in> D"
    and "sockets_known (pq_list st) (pq_fds st)" and "\<forall>fd sockname. opened = Some (fd, sockname) \<longrightarrow> fresh_socket (pq_list st) fd sockname"
  shows "\<exists>b r' st'. proxy_id_alloc opened r st = Some (b, r', st') \<and> allocated D (pq_list st) used r b r' (pq_list st') \<and>
    sockets_known (pq_list st') (pq_fds st') \<and> (\<forall>p. homed (pq_list st) p \<longrightarrow> homed (pq_list st') p) \<and>
    pq_requests st' = pq_requests st \<and> pq_homes st' = pq_homes st"
proof -
  have slots: "length (pl_sockets pl) = MAX_SOCKETS" if "id_history D pl u" for pl u
    by (rule id_history_slots [OF assms(1) that]) (rule slots_okD(2))
  obtain b r1 pl1 s1 where a: "fr_packet_list_id_alloc (pq_list st) r (pq_lib st) = Some (b, r1, pl1, s1)"
      "allocated D (pq_list st) used r b r1 pl1" "same_sockets (pq_list st) pl1"
    using id_alloc_allocated [OF assms(1-4)] by blast
  have known: "sockets_known pl1 (pq_fds st)" by (rule sockets_known_same [OF assms(5) a(3)])
  have homed: "homed pl1 p" if "homed (pq_list st) p" for p by (rule homed_same [OF that a(3)])
  show ?thesis
  proof (cases "b \<or> pq_all_used st \<or> opened = None")
    case True
    then show ?thesis using a known homed by (auto simp: proxy_id_alloc_def Let_def)
  next
    case False
    then obtain fd sockname where op: "opened = Some (fd, sockname)" by auto
    show ?thesis
    proof (cases "fst (proxy_add_fds fd (pq_fds st))")
      case None
      then show ?thesis using a known homed False op by (auto simp: proxy_id_alloc_def Let_def split: prod.split option.split)
    next
      case (Some i)
      then obtain fds' where fds: "proxy_add_fds fd (pq_fds st) = (Some i, fds')" by (metis prod.collapse)
      obtain c pl2 where add: "fr_packet_list_socket_add sockname pl1 fd = (c, pl2)" by fastforce
      have hist: "id_history D pl1 used" and dst: "pk_dst_ipaddr r1 = pk_dst_ipaddr r" "req_dest r1 = req_dest r" and tree1: "pl_tree pl1 = pl_tree (pq_list st)"
        using a(2) False by (simp_all add: allocated_def req_dest_def)
      have fresh: "fresh_socket pl1 fd sockname"
        using assms(6) op find_same [OF a(3) slots [OF assms(2)]] by (simp add: fresh_socket_def)
      have keeps: "set (pq_fds st) \<subseteq> insert (- 1) (set fds')" "fd \<in> set fds'" "length fds' = 32"
        using add_fds_keeps [OF fds] known by (simp_all add: sockets_known_def)
      from socket_add_known [OF fresh add known slots [OF hist] keeps]
      have k2: "sockets_known pl2 fds'" "pl_tree pl2 = pl_tree pl1" "\<forall>p. homed pl1 p \<longrightarrow> homed pl2 p" by auto
      have hist2: "id_history D pl2 used"
        using id_history.socket_add [OF hist _ _ add] fresh by (simp add: fresh_socket_def)
      obtain b3 r3 pl3 s3 where a3: "fr_packet_list_id_alloc pl2 r1 s1 = Some (b3, r3, pl3, s3)" "allocated D pl2 used r1 b3 r3 pl3" "same_sockets pl2 pl3"
        using id_alloc_allocated [OF assms(1) hist2, of r1 s1] assms(3,4) dst by auto
      have "allocated D (pq_list st) used r False r1 pl2" using a(2) False hist2 k2(2) by (simp add: allocated_def)
      moreover have "allocated D (pq_list st) used r b3 r3 pl3" using a3(2) a(2) tree1 k2(2) by (simp add: allocated_def)
      moreover have "sockets_known pl3 fds'" by (rule sockets_known_same [OF k2(1) a3(3)])
      ultimately show ?thesis
        using a(1) False op fds add a3(1) k2(1,3) homed homed_same [OF _ a3(3)] by (cases c) (simp_all add: proxy_id_alloc_def ex_bool_eq)
    qed
  qed
qed

section \<open>The table\<close>

definition live :: "proxy_state \<Rightarrow> nat \<Rightarrow> bool" where
  "live st r \<longleftrightarrow> r < length (pq_requests st) \<and> pq_requests st ! r \<noteq> None"

definition hashed :: "proxy_state \<Rightarrow> nat set" where
  "hashed st = {r. live st r \<and> au_in_proxy_hash (request_of st r)}"

definition proxy_of :: "proxy_state \<Rightarrow> nat \<Rightarrow> radius_packet" where
  "proxy_of st r = au_proxy (request_of st r)"

definition request_key :: "proxy_state \<Rightarrow> nat \<Rightarrow> packet_key" where
  "request_key st r = packet_key (proxy_of st r)"

text \<open>The identifiers in use are those of the requests in the table, and \<open>E\<close>.\<close>

definition proxy_rep :: "dest set \<Rightarrow> (int \<times> dest \<times> int) set \<Rightarrow> proxy_state \<Rightarrow> bool" where
  "proxy_rep D E st \<longleftrightarrow>
     sockets_known (pq_list st) (pq_fds st) \<and> list_rep D (pq_list st) (request_key st ` hashed st) (key_id ` request_key st ` hashed st \<union> E) \<and>
     E \<inter> key_id ` request_key st ` hashed st = {} \<and> inj_on (request_key st) (hashed st) \<and>
     (\<forall>r\<in>hashed st. proxy_of st r \<in> addressed \<and> homed (pq_list st) (proxy_of st r))"

abbreviation proxy_ok :: "dest set \<Rightarrow> proxy_state \<Rightarrow> bool" where
  "proxy_ok D \<equiv> proxy_rep D {}"

lemma hashed_finite: "finite (hashed st)"
  by (rule finite_subset [of _ "{..<length (pq_requests st)}"]) (auto simp: hashed_def live_def)

lemma set_request_simps [simp]:
  "pq_list (set_request r q st) = pq_list st" "pq_fds (set_request r q st) = pq_fds st" "pq_homes (set_request r q st) = pq_homes st"
  "pq_lib (set_request r q st) = pq_lib st" "live st r \<Longrightarrow> live (set_request r q st) x \<longleftrightarrow> live st x"
  "live st r \<Longrightarrow> request_of (set_request r q st) x = (if x = r then q else request_of st x)"
  by (auto simp: set_request_def live_def request_of_def nth_list_update)

lemma set_request_hashed [simp]:
  "live st r \<Longrightarrow> hashed (set_request r q st) = (if au_in_proxy_hash q then insert r (hashed st) else hashed st - {r})"
  by (auto simp: hashed_def)

lemma update_home_simps [simp]:
  "pq_list (update_home h f st) = pq_list st" "pq_fds (update_home h f st) = pq_fds st" "pq_requests (update_home h f st) = pq_requests st"
  "pq_lib (update_home h f st) = pq_lib st" "pq_all_used (update_home h f st) = pq_all_used st"
  by (simp_all add: update_home_def split: option.split)

lemma table_cong:
  assumes "pq_requests st' = pq_requests st"
  shows "live st' = live st" "request_of st' = request_of st" "hashed st' = hashed st" "proxy_of st' = proxy_of st" "request_key st' = request_key st"
proof -
  show *: "live st' = live st" "request_of st' = request_of st" using assms by (auto simp: live_def request_of_def)
  then show **: "hashed st' = hashed st" "proxy_of st' = proxy_of st" by (auto simp: hashed_def proxy_of_def)
  then show "request_key st' = request_key st" by (auto simp: request_key_def)
qed

lemma request_key_cong: "proxy_of st' r = proxy_of st r \<Longrightarrow> request_key st' r = request_key st r"
  by (simp add: request_key_def)

text \<open>How a change of the table keeps the invariant: nothing the list looks at changes, a request leaves, or one enters.\<close>

lemma proxy_rep_keep:
  assumes "proxy_rep D E st" and "pq_list st' = pq_list st" and "pq_fds st' = pq_fds st" and "hashed st' = hashed st"
    and "\<forall>r\<in>hashed st. request_key st' r = request_key st r \<and> proxy_of st' r \<in> addressed \<and> homed (pq_list st) (proxy_of st' r)"
  shows "proxy_rep D E st'"
proof -
  have "request_key st' ` hashed st' = request_key st ` hashed st" using assms(4,5) by auto
  moreover have "inj_on (request_key st') (hashed st')" using assms(1,4,5) inj_on_cong [of "hashed st" "request_key st'"] by (simp add: proxy_rep_def)
  ultimately show ?thesis using assms by (simp add: proxy_rep_def)
qed

lemma proxy_rep_list:
  assumes "proxy_rep D E st" and "hashed st' = hashed st" and "\<forall>r\<in>hashed st. proxy_of st' r = proxy_of st r"
    and "id_history D (pq_list st') (key_id ` request_key st ` hashed st \<union> E')" and "pl_tree (pq_list st') = pl_tree (pq_list st)"
    and "E' \<inter> key_id ` request_key st ` hashed st = {}" and "sockets_known (pq_list st') (pq_fds st')" and "\<forall>p. homed (pq_list st) p \<longrightarrow> homed (pq_list st') p"
  shows "proxy_rep D E' st'"
proof -
  have cong: "request_key st' x = request_key st x" if "x \<in> hashed st" for x using assms(3) that by (intro request_key_cong) simp
  then have "request_key st' ` hashed st' = request_key st ` hashed st" using assms(2) by auto
  moreover have "inj_on (request_key st') (hashed st')"
    using assms(1,2) inj_on_cong [of "hashed st" "request_key st'" "request_key st"] cong by (simp add: proxy_rep_def)
  ultimately show ?thesis using assms by (simp add: proxy_rep_def list_rep_def)
qed

lemma proxy_rep_leave:
  assumes "dst_hash_ok D" and "proxy_rep D E st" and "r \<in> hashed st" and "yank_and_free (proxy_of st r) (pq_list st) = Some pl"
    and "pq_list st' = pl" and "pq_fds st' = pq_fds st" and "hashed st' = hashed st - {r}" and "\<forall>x\<in>hashed st'. proxy_of st' x = proxy_of st x"
  shows "proxy_rep D E st'" and "same_sockets (pq_list st) pl"
proof -
  let ?K = "request_key st ` hashed st"
  have rep: "list_rep D (pq_list st) ?K (key_id ` ?K \<union> E)" and inj: "inj_on (request_key st) (hashed st)" and known: "sockets_known (pq_list st) (pq_fds st)"
    and adr: "\<forall>r\<in>hashed st. proxy_of st r \<in> addressed \<and> homed (pq_list st) (proxy_of st r)" and E: "E \<inter> key_id ` ?K = {}"
    using assms(2) by (auto simp: proxy_rep_def)
  have mem: "request_key st r \<in> ?K" using assms(3) by blast
  then have id: "id_of (proxy_of st r) \<in> key_id ` ?K" by (metis image_eqI key_id_packet request_key_def)
  with yank_and_free_rep [OF assms(1) rep, of "proxy_of st r"] adr assms(3,4)
  have rep': "list_rep D pl (?K - {request_key st r}) (key_id ` ?K \<union> E - {id_of (proxy_of st r)})" and same: "same_sockets (pq_list st) pl"
    by (auto simp: request_key_def)
  have cong: "request_key st' x = request_key st x" if "x \<in> hashed st - {r}" for x using assms(7,8) that by (intro request_key_cong) simp
  have keys: "request_key st' ` hashed st' = ?K - {request_key st r}"
    using image_cong [of "hashed st - {r}" "hashed st - {r}" "request_key st'" "request_key st"] cong
      inj_on_image_set_diff [OF inj, of "hashed st" "{r}"] assms(3,7) by simp
  have "inj_on key_id ?K" using rep by (simp add: list_rep_def)
  then have "key_id ` (?K - {request_key st r}) = key_id ` ?K - {id_of (proxy_of st r)}"
    using mem inj_on_image_set_diff [of key_id ?K ?K "{request_key st r}"] by (simp add: request_key_def [of st r])
  moreover from this have "key_id ` ?K \<union> E - {id_of (proxy_of st r)} = key_id ` (?K - {request_key st r}) \<union> E" using E id by blast
  moreover have "inj_on (request_key st') (hashed st - {r}) = inj_on (request_key st) (hashed st - {r})" by (rule inj_on_cong) (rule cong)
  moreover have "inj_on (request_key st) (hashed st - {r})" by (rule inj_on_subset [OF inj Diff_subset])
  ultimately have ids: "list_rep D pl (?K - {request_key st r}) (key_id ` (?K - {request_key st r}) \<union> E)" and inj': "inj_on (request_key st') (hashed st - {r})"
    using rep' by simp_all
  have "E \<inter> key_id ` (?K - {request_key st r}) = {}" using E by blast
  moreover have "\<forall>x\<in>hashed st - {r}. proxy_of st' x \<in> addressed \<and> homed pl (proxy_of st' x)" using adr assms(7,8) homed_same [OF _ same] by simp
  ultimately show "proxy_rep D E st'"
    unfolding proxy_rep_def keys assms(5,6) using ids inj' sockets_known_same [OF known same] assms(7) by simp
  show "same_sockets (pq_list st) pl" by (rule same)
qed

lemma proxy_rep_enter:
  assumes "proxy_rep D {id_of (proxy_of st' r)} st" and "r \<notin> hashed st" and "hashed st' = insert r (hashed st)"
    and "\<forall>x\<in>hashed st. proxy_of st' x = proxy_of st x" and "proxy_of st' r \<in> addressed" and "homed (pq_list st) (proxy_of st' r)"
    and "list_rep D (pq_list st') (insert (request_key st' r) (request_key st ` hashed st)) (key_id ` insert (request_key st' r) (request_key st ` hashed st))"
    and "same_sockets (pq_list st) (pq_list st')" and "pq_fds st' = pq_fds st"
  shows "proxy_ok D st'"
proof -
  let ?K = "request_key st ` hashed st"
  have cong: "request_key st' x = request_key st x" if "x \<in> hashed st" for x using assms(4) that by (intro request_key_cong) simp
  then have old: "request_key st' ` hashed st = ?K" using image_cong [of "hashed st" "hashed st" "request_key st'" "request_key st"] by simp
  have "id_of (proxy_of st' r) \<notin> key_id ` ?K" using assms(1) by (simp add: proxy_rep_def)
  then have "request_key st' r \<notin> ?K" by (metis image_eqI key_id_packet request_key_def)
  moreover have "inj_on (request_key st') (hashed st)"
    using assms(1) inj_on_cong [of "hashed st" "request_key st'" "request_key st"] cong by (simp add: proxy_rep_def)
  ultimately have "inj_on (request_key st') (hashed st')" unfolding assms(3) using assms(2) old by (simp add: inj_on_insert)
  moreover have "sockets_known (pq_list st') (pq_fds st')" using assms(1,9) sockets_known_same [OF _ assms(8)] by (simp add: proxy_rep_def)
  ultimately show ?thesis
    using assms(1,3-7) old homed_same [OF _ assms(8)] by (simp add: proxy_rep_def)
qed

section \<open>The operations\<close>

lemma proxy_of_set [simp]: "live st r \<Longrightarrow> proxy_of (set_request r q st) x = (if x = r then au_proxy q else proxy_of st x)"
  by (simp add: proxy_of_def)

lemma hashed_live: "r \<in> hashed st \<Longrightarrow> live st r \<and> au_in_proxy_hash (request_of st r)"
  by (simp add: hashed_def)

lemma hashed_yank:
  assumes "dst_hash_ok D" and "proxy_rep D E st" and "r \<in> hashed st"
  obtains pl where "yank_and_free (proxy_of st r) (pq_list st) = Some pl"
proof -
  have "id_of (proxy_of st r) \<in> key_id ` request_key st ` hashed st" using assms(3) by (metis image_eqI key_id_packet request_key_def)
  then show thesis using yank_and_free_rep [OF assms(1), of "pq_list st" "request_key st ` hashed st" "key_id ` request_key st ` hashed st \<union> E" "proxy_of st r"]
      assms(2,3) that by (auto simp: proxy_rep_def)
qed

lemma remove_ok:
  assumes "dst_hash_ok D" and "proxy_ok D st" and "live st r"
  shows "\<exists>st'. remove_from_proxy_hash r st = Some st' \<and> proxy_ok D st' \<and> hashed st' = hashed st - {r}"
proof (cases "r \<in> hashed st")
  case False
  then show ?thesis using assms by (auto simp: remove_from_proxy_hash_def hashed_def)
next
  case True
  then obtain pl where pl: "yank_and_free (proxy_of st r) (pq_list st) = Some pl" using hashed_yank [OF assms(1,2)] by blast
  let ?q = "request_of st r"
  let ?st = "update_home (if au_proxy_reply ?q = None then au_home_server ?q else None) outstanding_dec (st\<lparr>pq_list := pl\<rparr>)"
  let ?st' = "set_request r (?q\<lparr>au_in_proxy_hash := False\<rparr>) ?st"
  have req: "pq_requests ?st = pq_requests st" by simp
  have rem: "remove_from_proxy_hash r st = Some ?st'"
    using pl True by (simp add: remove_from_proxy_hash_def hashed_def proxy_of_def Let_def)
  have live: "live ?st r" using assms(3) by (simp only: table_cong [OF req])
  have hash: "hashed ?st' = hashed st - {r}" using live by (simp add: table_cong [OF req])
  moreover have "proxy_ok D ?st'"
    by (rule proxy_rep_leave(1) [OF assms(1,2) True pl]) (use live hash in \<open>auto simp: table_cong [OF req]\<close>)
  ultimately show ?thesis using rem by blast
qed

text \<open>The request a packet of the list is part of.\<close>

lemma find_unique: "P r \<Longrightarrow> r \<in> set xs \<Longrightarrow> \<forall>x\<in>set xs. x \<noteq> r \<longrightarrow> \<not> P x \<Longrightarrow> List.find P xs = Some r"
  by (induction xs) auto

lemma myptr_found:
  assumes "proxy_ok D st" and "r \<in> hashed st" and "request_key st r = packet_key p" and "p \<in> addressed"
  shows "fr_packet2myptr st p = Some r"
proof -
  let ?P = "\<lambda>r. case pq_requests st ! r of None \<Rightarrow> False | Some q \<Rightarrow> au_in_proxy_hash q \<and> packet_entry_cmp (au_proxy q) p = 0"
  have P: "?P x \<longleftrightarrow> x \<in> hashed st \<and> request_key st x = packet_key p" if "x < length (pq_requests st)" for x
  proof (cases "x \<in> hashed st")
    case True
    then have "packet_entry_cmp (proxy_of st x) p = 0 \<longleftrightarrow> packet_key (proxy_of st x) = packet_key p"
      using assms(1,4) fr_packet_cmp_key(2) by (auto simp: proxy_rep_def packet_entry_cmp_def)
    then show ?thesis using True by (auto simp: hashed_def live_def request_of_def proxy_of_def request_key_def)
  next
    case False
    then show ?thesis using that by (auto simp: hashed_def live_def request_of_def split: option.split)
  qed
  have "inj_on (request_key st) (hashed st)" using assms(1) by (simp add: proxy_rep_def)
  then have uniq: "\<not> ?P x" if "x < length (pq_requests st)" "x \<noteq> r" for x
    unfolding P [OF that(1)] using that(2) assms(2,3) inj_onD [of "request_key st" "hashed st" x r] by metis
  have "r < length (pq_requests st)" using assms(2) by (simp add: hashed_def live_def)
  moreover from this have "?P r" using P [of r] assms(2,3) by blast
  ultimately show ?thesis unfolding fr_packet2myptr_def by (intro find_unique) (use uniq in auto)
qed

text \<open>A packet on a socket of the list finds the request it answers, or nothing.\<close>

definition answers :: "fr_packet_list \<Rightarrow> radius_packet \<Rightarrow> radius_packet \<Rightarrow> bool" where
  "answers pl p reply \<longleftrightarrow>
     pk_sockfd reply = pk_sockfd p \<and> pk_id reply = pk_id p \<and> ip_key (pk_src_ipaddr reply) = ip_key (pk_dst_ipaddr p) \<and> pk_src_port reply = pk_dst_port p \<and>
     (\<exists>i. fr_socket_find pl (pk_sockfd p) = Some i \<and>
        (ps_inaddr_any (pl_sockets pl ! i) \<or> ip_key (pk_dst_ipaddr reply) = ip_key (pk_src_ipaddr p)))"

lemma find_byreply_cases:
  assumes "dst_hash_ok D" and "proxy_ok D st" and "reply \<in> addressed" and "pk_sockfd reply \<noteq> - 1"
  obtains (none) "fr_packet_list_find_byreply (pq_list st) reply = None" "\<forall>r\<in>hashed st. \<not> answers (pq_list st) (proxy_of st r) reply"
  | (found) p r where "fr_packet_list_find_byreply (pq_list st) reply = Some p" "fr_packet2myptr st p = Some r" "r \<in> hashed st"
      "answers (pq_list st) (proxy_of st r) reply" "\<forall>x\<in>hashed st. x \<noteq> r \<longrightarrow> \<not> answers (pq_list st) (proxy_of st x) reply"
proof -
  obtain m where m: "rb_rep packet_key addressed False (pl_tree (pq_list st)) m" "dom m = request_key st ` hashed st"
    and hist: "id_history D (pq_list st) (key_id ` request_key st ` hashed st)" and known: "sockets_known (pq_list st) (pq_fds st)"
    and inj: "inj_on (request_key st) (hashed st)"
    using assms(2) by (auto simp: proxy_rep_def list_rep_def)
  obtain S where slots: "slots_ok (pq_list st) S" by (rule id_history_slots [OF assms(1) hist])
  let ?pl = "pq_list st"
  show thesis
  proof (cases "fr_socket_find ?pl (pk_sockfd reply)")
    case None
    then show thesis by (intro none) (auto simp: fr_packet_list_find_byreply_def answers_def)
  next
    case (Some i)
    let ?ps = "pl_sockets ?pl ! i"
    define q where "q = packet0\<lparr>pk_sockfd := pk_sockfd reply, pk_id := pk_id reply,
      pk_src_ipaddr := (if ps_inaddr_any ?ps then ps_ipaddr ?ps else pk_dst_ipaddr reply), pk_src_port := ps_port ?ps,
      pk_dst_ipaddr := pk_src_ipaddr reply, pk_dst_port := pk_src_port reply\<rparr>"
    have i: "i < MAX_SOCKETS" "ps_sockfd ?ps = pk_sockfd reply" using find_slot [OF slots assms(4)] Some by auto
    then have valid: "ip_valid (ps_ipaddr ?ps)" using known slots_okD(2) [OF slots] assms(4) by (fastforce simp: sockets_known_def socket_view_def)
    have q: "q \<in> addressed" using valid assms(3) by (auto simp: q_def addressed_def)
    have byreply: "fr_packet_list_find_byreply ?pl reply = m (packet_key q)"
      using Some packet_tree.rbtree_find_rep [OF m(1) q] by (simp add: fr_packet_list_find_byreply_def q_def Let_def)
    have ans: "answers ?pl (proxy_of st r) reply \<longleftrightarrow> request_key st r = packet_key q" if r: "r \<in> hashed st" for r
    proof -
      have home: "homed ?pl (proxy_of st r)" using assms(2) r by (simp add: proxy_rep_def)
      have src: "ip_key (pk_src_ipaddr (proxy_of st r)) = ip_key (ps_ipaddr ?ps) \<and> pk_src_port (proxy_of st r) = ps_port ?ps"
        if fd: "pk_sockfd (proxy_of st r) = pk_sockfd reply"
      proof -
        obtain j any where j: "j < MAX_SOCKETS" "socket_view (pl_sockets ?pl ! j) =
            (pk_sockfd (proxy_of st r), pk_src_ipaddr (proxy_of st r), pk_src_port (proxy_of st r), any)"
          using home slots_okD(2) [OF slots] by (auto simp: homed_def)
        then have "j = i" using slots_okD(5) [OF slots j(1) i(1)] i(2) fd assms(4) by (simp add: socket_view_def)
        then show ?thesis using j(2) by (simp add: socket_view_def)
      qed
      show ?thesis using src Some by (auto simp: answers_def request_key_def packet_key_def q_def)
    qed
    show thesis
    proof (cases "m (packet_key q)")
      case None
      then have "packet_key q \<notin> request_key st ` hashed st" using m(2) by auto
      then have "\<forall>r\<in>hashed st. \<not> answers ?pl (proxy_of st r) reply" using ans by (metis imageI)
      then show thesis using None byreply by (intro none) simp_all
    next
      case (Some p)
      then have "p \<in> set (inorder (rb_root (pl_tree ?pl)))" and key: "packet_key p = packet_key q"
        using m(1) map_of_sorted [of packet_key "inorder (rb_root (pl_tree ?pl))"] by (auto simp: rb_rep_def tree_map_def)
      then have p: "p \<in> addressed" using m(1) by (auto simp: rb_rep_def)
      have "packet_key q \<in> request_key st ` hashed st" using m(2) Some by blast
      then obtain r where r: "r \<in> hashed st" "request_key st r = packet_key q" by (metis imageE)
      have uniq: "\<forall>x\<in>hashed st. x \<noteq> r \<longrightarrow> \<not> answers ?pl (proxy_of st x) reply" using ans r inj by (metis inj_onD)
      show thesis
        by (rule found [of p r]) (use byreply Some myptr_found [OF assms(2) r(1) _ p] r ans uniq key in simp_all)
    qed
  qed
qed

text \<open>What a reply that was matched does to its request.\<close>

definition reply_counted :: "auth_req \<Rightarrow> auth_req" where
  "reply_counted q = q\<lparr>au_num_proxied_responses := au_num_proxied_responses q + 1,
     au_in_proxy_hash := au_num_proxied_requests q \<noteq> au_num_proxied_responses q + 1\<rparr>"

lemma reply_counted_eq:
  "au_num_proxied_requests q = au_num_proxied_responses q + 1 \<Longrightarrow>
     reply_counted q = q\<lparr>au_num_proxied_responses := au_num_proxied_responses q + 1, au_in_proxy_hash := False\<rparr>"
  "au_num_proxied_requests q \<noteq> au_num_proxied_responses q + 1 \<Longrightarrow> au_in_proxy_hash q \<Longrightarrow>
     reply_counted q = q\<lparr>au_num_proxied_responses := au_num_proxied_responses q + 1\<rparr>"
  by (simp_all add: reply_counted_def)

lemma lookup_ok:
  assumes "dst_hash_ok D" and "proxy_ok D st" and "reply \<in> addressed" and "pk_sockfd reply \<noteq> - 1"
  obtains (none) "lookup_in_proxy_hash reply st = Some (None, st)" "\<forall>r\<in>hashed st. \<not> answers (pq_list st) (proxy_of st r) reply"
  | (found) r st' where "lookup_in_proxy_hash reply st = Some (Some r, st')" "r \<in> hashed st" "answers (pq_list st) (proxy_of st r) reply"
      "\<forall>x\<in>hashed st. x \<noteq> r \<longrightarrow> \<not> answers (pq_list st) (proxy_of st x) reply" "proxy_ok D st'"
      "pq_requests st' = (pq_requests st)[r := Some (reply_counted (request_of st r))]" "same_sockets (pq_list st) (pq_list st')"
      "pq_homes st' = pq_homes (update_home (if au_proxy_reply (request_of st r) = None then au_home_server (request_of st r) else None) outstanding_dec st)"
  using assms
proof (cases rule: find_byreply_cases)
  case none
  then show thesis by (intro that(1)) (simp_all add: lookup_in_proxy_hash_def)
next
  case (found p r)
  let ?q = "request_of st r"
  let ?h = "if au_proxy_reply ?q = None then au_home_server ?q else None"
  obtain pl0 where y0: "yank_and_free (proxy_of st r) (pq_list st) = Some pl0" by (rule hashed_yank [OF assms(1,2) found(3)])
  obtain pl where pl: "(if au_num_proxied_requests ?q = au_num_proxied_responses ?q + 1 then yank_and_free (proxy_of st r) (pq_list st) else Some (pq_list st)) = Some pl"
    using y0 by fastforce
  define st' where "st' = update_home ?h outstanding_dec (set_request r (reply_counted ?q) (st\<lparr>pq_list := pl\<rparr>))"
  have live: "live st r" and hash: "au_in_proxy_hash ?q" using hashed_live [OF found(3)] by auto
  have res: "lookup_in_proxy_hash reply st = Some (Some r, st')"
    using found(1,2) pl hash unfolding st'_def
    by (cases "au_num_proxied_requests ?q = au_num_proxied_responses ?q + 1")
      (simp_all add: lookup_in_proxy_hash_def Let_def reply_counted_eq proxy_of_def)
  have req: "pq_requests (st\<lparr>pq_list := pl\<rparr>) = pq_requests st" by simp
  have reqs: "pq_requests st' = pq_requests (set_request r (reply_counted ?q) st)" by (simp add: st'_def set_request_def)
  note cong = table_cong [OF reqs]
  have rest: "proxy_of st' x = proxy_of st x" for x using live unfolding cong by (simp add: reply_counted_def proxy_of_def)
  have hashed': "hashed st' = (if au_num_proxied_requests ?q = au_num_proxied_responses ?q + 1 then hashed st - {r} else hashed st)"
    using live found(3) unfolding cong by (auto simp: reply_counted_def)
  have lists: "pq_list st' = pl" "pq_fds st' = pq_fds st" by (simp_all add: st'_def)
  have "proxy_ok D st' \<and> same_sockets (pq_list st) pl"
  proof (cases "au_num_proxied_requests ?q = au_num_proxied_responses ?q + 1")
    case True
    then have y: "yank_and_free (proxy_of st r) (pq_list st) = Some pl" using pl by simp
    have "proxy_ok D st'" by (rule proxy_rep_leave(1) [OF assms(1,2) found(3) y lists]) (use True rest hashed' in simp_all)
    moreover have "same_sockets (pq_list st) pl" using y
      by (auto simp: yank_and_free_def fr_packet_list_yank_def same_sockets_def split: option.split_asm dest!: id_free_sockets)
    ultimately show ?thesis by blast
  next
    case False
    then have "pl = pq_list st" using pl by simp
    moreover have "proxy_ok D st'"
      by (rule proxy_rep_keep [OF assms(2)]) (use False lists pl rest hashed' assms(2) in \<open>simp_all add: request_key_def proxy_rep_def\<close>)
    ultimately show ?thesis by simp
  qed
  moreover have "pq_homes st' = pq_homes (update_home ?h outstanding_dec st)" by (simp add: st'_def update_home_def set_request_def split: option.split)
  ultimately show thesis
    using that(2) [OF res found(3-5)] lists reqs by (simp add: set_request_def)
qed

lemma insert_allocated_ok:
  assumes "live st r" and "list_rep D (pq_list st) K (insert (id_of (proxy_of st r)) (key_id ` K))" and "id_of (proxy_of st r) \<notin> key_id ` K"
    and "ip_valid (pk_dst_ipaddr (proxy_of st r))" and "homed (pq_list st) (proxy_of st r)" and "sockets_known (pq_list st) (pq_fds st)"
  shows "\<exists>st'. insert_allocated r st = Some (True, st') \<and> proxy_of st r \<in> addressed \<and>
    list_rep D (pq_list st') (insert (request_key st r) K) (key_id ` insert (request_key st r) K) \<and> same_sockets (pq_list st) (pq_list st') \<and>
    pq_fds st' = pq_fds st \<and> hashed st' = insert r (hashed st) \<and> proxy_of st' = proxy_of st"
proof -
  let ?p = "proxy_of st r"
  have fd: "pk_sockfd ?p \<in> set (pq_fds st)" and p: "?p \<in> addressed" using homed_known [OF assms(5,6)] assms(4) by (simp_all add: addressed_def)
  obtain pl where pl: "fr_packet_list_insert (pq_list st) ?p = Some (True, pl)" "list_rep D pl (insert (packet_key ?p) K) (key_id ` insert (packet_key ?p) K)"
      "same_sockets (pq_list st) pl" using insert_rep [OF assms(2,3) p] by blast
  have "\<exists>i<32. pq_fds st ! i = pk_sockfd ?p" using fd assms(6) by (auto simp: in_set_conv_nth sockets_known_def)
  then obtain i where i: "List.find (\<lambda>i. pq_fds st ! i = pk_sockfd ?p) [0..<32] = Some i"
    by (cases "List.find (\<lambda>i. pq_fds st ! i = pk_sockfd ?p) [0..<32]") (auto simp: find_None_iff)
  let ?st' = "set_request r ((request_of st r)\<lparr>au_proxy_listener := Some i, au_in_proxy_hash := True\<rparr>) (st\<lparr>pq_list := pl\<rparr>)"
  have req: "pq_requests (st\<lparr>pq_list := pl\<rparr>) = pq_requests st" by simp
  have live: "live (st\<lparr>pq_list := pl\<rparr>) r" unfolding table_cong [OF req] by (rule assms(1))
  have "insert_allocated r st = Some (True, ?st')" using i pl(1) by (simp add: insert_allocated_def proxy_of_def)
  moreover have "hashed ?st' = insert r (hashed st)" "proxy_of ?st' = proxy_of st" using live by (auto simp: table_cong [OF req] proxy_of_def)
  ultimately show ?thesis using pl(2,3) p by (auto simp: request_key_def)
qed

text \<open>The identifier is allocated, and the request is not yet in the list.\<close>

lemma insert_alloc:
  assumes "dst_hash_ok D" and "proxy_ok D st" and "ip_valid (pk_dst_ipaddr (proxy_of st r))" and "req_dest (proxy_of st r) \<in> D"
    and "\<forall>fd sockname. opened = Some (fd, sockname) \<longrightarrow> fresh_socket (pq_list st) fd sockname"
  shows "\<exists>b p st'. proxy_id_alloc opened (proxy_of st r) (update_home h f st) = Some (b, p, st') \<and> pq_requests st' = pq_requests st \<and>
    proxy_rep D (if b then {id_of p} else {}) st' \<and> pk_dst_ipaddr p = pk_dst_ipaddr (proxy_of st r) \<and> (b \<longrightarrow> homed (pq_list st') p)"
proof -
  let ?K = "request_key st ` hashed st"
  have hist: "id_history D (pq_list st) (key_id ` ?K)" and known: "sockets_known (pq_list st) (pq_fds st)"
    using assms(2) by (simp_all add: proxy_rep_def list_rep_def)
  from proxy_id_alloc_allocated [OF assms(1), of "update_home h f st" "key_id ` ?K" "proxy_of st r" opened] hist known assms(3-5)
  obtain b p st' where a: "proxy_id_alloc opened (proxy_of st r) (update_home h f st) = Some (b, p, st')"
      "allocated D (pq_list st) (key_id ` ?K) (proxy_of st r) b p (pq_list st')" "sockets_known (pq_list st') (pq_fds st')"
      "\<forall>p. homed (pq_list st) p \<longrightarrow> homed (pq_list st') p" "pq_requests st' = pq_requests st" by auto
  note al = a(2) [unfolded allocated_def]
  note cong = table_cong [OF a(5)]
  have "proxy_rep D (if b then {id_of p} else {}) st'"
    by (rule proxy_rep_list [OF assms(2)]) (use al a(3,4) cong in \<open>auto split: if_split_asm\<close>)
  then show ?thesis using a(1,5) al by blast
qed

lemma insert_ok:
  assumes "dst_hash_ok D" and "proxy_ok D st" and "live st r" and "ip_valid (pk_dst_ipaddr (proxy_of st r))" and "req_dest (proxy_of st r) \<in> D"
    and "\<forall>fd sockname. opened = Some (fd, sockname) \<longrightarrow> fresh_socket (pq_list st) fd sockname" and "r \<notin> hashed st"
  shows "\<exists>b st'. insert_into_proxy_hash opened r False st = Some (b, st') \<and> proxy_ok D st' \<and>
    hashed st' = (if b then insert r (hashed st) else hashed st) \<and>
    (b \<longleftrightarrow> (\<exists>p st2. proxy_id_alloc opened (proxy_of st r) (update_home (au_home_server (request_of st r)) outstanding_inc st) = Some (True, p, st2)))"
proof -
  let ?q = "request_of st r"
  obtain b p st2 where a: "proxy_id_alloc opened (proxy_of st r) (update_home (au_home_server ?q) outstanding_inc st) = Some (b, p, st2)"
      "pq_requests st2 = pq_requests st" "proxy_rep D (if b then {id_of p} else {}) st2" "pk_dst_ipaddr p = pk_dst_ipaddr (proxy_of st r)"
      "b \<longrightarrow> homed (pq_list st2) p" using insert_alloc [OF assms(1,2,4-6)] by blast
  note cong = table_cong [OF a(2)]
  define st3 where "st3 = set_request r (?q\<lparr>au_proxy := p\<rparr>) st2"
  have live: "live st2 r" unfolding cong by (rule assms(3))
  have off: "\<not> au_in_proxy_hash ?q" using assms(3,7) by (simp add: hashed_def)
  have hash3: "hashed st3 = hashed st" using live off assms(7) by (simp add: st3_def cong)
  have proxy3: "proxy_of st3 x = (if x = r then p else proxy_of st x)" for x using live by (simp add: st3_def cong)
  have rep3: "proxy_rep D (if b then {id_of p} else {}) st3"
    by (rule proxy_rep_keep [OF a(3)])
      (use a(3) assms(7) proxy3 hash3 in \<open>auto simp: st3_def cong request_key_def proxy_rep_def simp del: proxy_of_set set_request_hashed split: if_split_asm\<close>)
  show ?thesis
  proof (cases b)
    case False
    then have "insert_into_proxy_hash opened r False st = Some (False, st3)"
      using a(1) by (simp add: insert_into_proxy_hash_def st3_def proxy_of_def Let_def)
    then show ?thesis using rep3 hash3 False a(1) by auto
  next
    case True
    have "live st3 r" using live by (simp add: st3_def)
    moreover have "pq_list st3 = pq_list st2" by (simp add: st3_def)
    ultimately obtain st' where st': "insert_allocated r st3 = Some (True, st')" "proxy_of st3 r \<in> addressed"
        "list_rep D (pq_list st') (insert (request_key st3 r) (request_key st3 ` hashed st3)) (key_id ` insert (request_key st3 r) (request_key st3 ` hashed st3))"
        "same_sockets (pq_list st3) (pq_list st')" "pq_fds st' = pq_fds st3" "hashed st' = insert r (hashed st3)" "proxy_of st' = proxy_of st3"
      using insert_allocated_ok [of st3 r D "request_key st3 ` hashed st3"] rep3 True a(4,5) assms(4) proxy3 [of r] by (auto simp: proxy_rep_def)
    have "proxy_ok D st'"
      by (rule proxy_rep_enter [of D st' r st3])
        (use rep3 True st' hash3 assms(7) proxy3 [of r] a(5) in \<open>auto simp: st3_def request_key_def simp del: proxy_of_set set_request_hashed\<close>)
    moreover have "insert_into_proxy_hash opened r False st = Some (True, st')"
      using a(1) True st'(1) by (simp add: insert_into_proxy_hash_def st3_def proxy_of_def Let_def)
    ultimately show ?thesis using st'(6) hash3 a(1) True by auto
  qed
qed

lemma reinsert_ok:
  assumes "dst_hash_ok D" and "proxy_ok D st" and "r \<in> hashed st" and "req_dest (proxy_of st r) \<in> D"
    and "\<forall>fd sockname. opened = Some (fd, sockname) \<longrightarrow> fresh_socket (pq_list st) fd sockname"
  shows "\<exists>b st'. insert_into_proxy_hash opened r True st = Some (b, st') \<and> proxy_ok D st' \<and> hashed st' = hashed st"
proof -
  let ?q = "request_of st r"
  have valid: "ip_valid (pk_dst_ipaddr (proxy_of st r))" using assms(2,3) by (simp add: proxy_rep_def addressed_def)
  obtain b p st2 where a: "proxy_id_alloc opened (proxy_of st r) (update_home (au_home_server ?q) outstanding_inc st) = Some (b, p, st2)"
      "pq_requests st2 = pq_requests st" "proxy_rep D (if b then {id_of p} else {}) st2" "pk_dst_ipaddr p = pk_dst_ipaddr (proxy_of st r)"
      "b \<longrightarrow> homed (pq_list st2) p" using insert_alloc [OF assms(1,2) valid assms(4,5)] by blast
  note cong = table_cong [OF a(2)]
  show ?thesis
  proof (cases b)
    case False
    then have "insert_into_proxy_hash opened r True st = Some (False, st2)"
      using a(1) by (simp add: insert_into_proxy_hash_def proxy_of_def Let_def)
    then show ?thesis using a(3) cong False by auto
  next
    case True
    then have rep2: "proxy_rep D {id_of p} st2" and home: "homed (pq_list st2) p" using a(3,5) by simp_all
    have r2: "r \<in> hashed st2" unfolding cong by (rule assms(3))
    then obtain pl where pl: "yank_and_free (proxy_of st2 r) (pq_list st2) = Some pl" using hashed_yank [OF assms(1) rep2] by blast
    have req: "pq_requests (st2\<lparr>pq_list := pl\<rparr>) = pq_requests st" using a(2) by simp
    note cong' = table_cong [OF req]
    define st3 where "st3 = set_request r (?q\<lparr>au_proxy := p\<rparr>) (st2\<lparr>pq_list := pl\<rparr>)"
    define mid where "mid = set_request r (?q\<lparr>au_proxy := p, au_in_proxy_hash := False\<rparr>) (st2\<lparr>pq_list := pl\<rparr>)"
    have live: "live (st2\<lparr>pq_list := pl\<rparr>) r" and hash: "au_in_proxy_hash ?q" unfolding cong' using hashed_live [OF assms(3)] by auto
    have hashes: "hashed mid = hashed st - {r}" "hashed st3 = hashed st" using live hash assms(3) by (auto simp: mid_def st3_def cong')
    have proxies: "proxy_of mid x = (if x = r then p else proxy_of st x)" "proxy_of st3 x = (if x = r then p else proxy_of st x)" for x
      using live by (simp_all add: mid_def st3_def cong')
    have lists: "pq_list mid = pl" "pq_fds mid = pq_fds st2" "pq_list st3 = pl" "pq_fds st3 = pq_fds st2" by (simp_all add: mid_def st3_def)
    have rep_mid: "proxy_rep D {id_of p} mid"
      by (rule proxy_rep_leave(1) [OF assms(1) rep2 r2 pl lists(1,2)]) (use hashes proxies in \<open>simp_all add: cong\<close>)
    have "same_sockets (pq_list st2) pl"
      by (rule proxy_rep_leave(2) [OF assms(1) rep2 r2 pl lists(1,2)]) (use hashes proxies in \<open>simp_all add: cong\<close>)
    then have home_mid: "homed pl p" using homed_same [OF home] by blast
    have "live st3 r" using live by (simp add: st3_def)
    then obtain st' where st': "insert_allocated r st3 = Some (True, st')" "p \<in> addressed"
        "list_rep D (pq_list st') (insert (packet_key p) (request_key mid ` hashed mid)) (key_id ` insert (packet_key p) (request_key mid ` hashed mid))"
        "same_sockets pl (pq_list st')" "pq_fds st' = pq_fds st2" "hashed st' = hashed st" "proxy_of st' = proxy_of st3"
      using insert_allocated_ok [of st3 r D "request_key mid ` hashed mid"] rep_mid a(4) valid home_mid lists proxies(2) [of r] hashes(2) assms(3)
      by (auto simp: proxy_rep_def request_key_def [of st3] insert_absorb)
    have "proxy_ok D st'"
      by (rule proxy_rep_enter [of D st' r mid])
        (use rep_mid st' hashes proxies lists home_mid assms(3) in \<open>auto simp: request_key_def [of st'] insert_absorb\<close>)
    moreover have "insert_into_proxy_hash opened r True st = Some (True, st')"
      using a(1) True st'(1) pl by (simp add: insert_into_proxy_hash_def st3_def proxy_of_def [of st] proxy_of_def [of st2] cong Let_def)
    ultimately show ?thesis using st'(6) by blast
  qed
qed

text \<open>Changes that the list does not notice.\<close>

definition same_address :: "radius_packet \<Rightarrow> radius_packet \<Rightarrow> bool" where
  "same_address p p' \<longleftrightarrow>
     pk_sockfd p' = pk_sockfd p \<and> pk_id p' = pk_id p \<and> pk_src_ipaddr p' = pk_src_ipaddr p \<and> pk_src_port p' = pk_src_port p \<and>
     pk_dst_ipaddr p' = pk_dst_ipaddr p \<and> pk_dst_port p' = pk_dst_port p"

lemma same_address_refl [simp]: "same_address p p"
  by (simp add: same_address_def)

lemma proxy_rep_frame:
  assumes "pq_requests st' = pq_requests st" and "pq_list st' = pq_list st" and "pq_fds st' = pq_fds st"
  shows "proxy_rep D E st' = proxy_rep D E st"
  by (simp add: proxy_rep_def table_cong [OF assms(1)] assms(2,3))

lemma update_home_ok [simp]: "proxy_rep D E (update_home h f st) = proxy_rep D E st" "hashed (update_home h f st) = hashed st"
  "live (update_home h f st) = live st" "request_of (update_home h f st) = request_of st"
  by (rule proxy_rep_frame) (simp_all add: table_cong [OF update_home_simps(3)])

lemma change_ok:
  assumes "proxy_rep D E st" and "live st r" and "au_in_proxy_hash q = au_in_proxy_hash (request_of st r)" and "same_address (proxy_of st r) (au_proxy q)"
  shows "proxy_rep D E (set_request r q st) \<and> hashed (set_request r q st) = hashed st"
proof -
  have h: "hashed (set_request r q st) = hashed st" using assms(2,3) by (auto simp: hashed_def)
  moreover have "proxy_rep D E (set_request r q st)"
  proof (rule proxy_rep_keep [OF assms(1)])
    show "\<forall>x\<in>hashed st. request_key (set_request r q st) x = request_key st x \<and> proxy_of (set_request r q st) x \<in> addressed \<and>
        homed (pq_list st) (proxy_of (set_request r q st) x)"
      using assms(1,2,4) by (auto simp: proxy_rep_def request_key_def packet_key_def same_address_def addressed_def homed_def)
  qed (use h in simp_all)
  ultimately show ?thesis by blast
qed

lemma free_ok:
  assumes "proxy_rep D E st" and "r \<notin> hashed st"
  shows "proxy_rep D E (st\<lparr>pq_requests := (pq_requests st)[r := None]\<rparr>) \<and> hashed (st\<lparr>pq_requests := (pq_requests st)[r := None]\<rparr>) = hashed st"
proof -
  let ?st = "st\<lparr>pq_requests := (pq_requests st)[r := None]\<rparr>"
  have "x \<in> hashed ?st \<longleftrightarrow> x \<in> hashed st" for x
    using assms(2) by (cases "x = r") (auto simp: hashed_def live_def request_of_def cong: conj_cong)
  then have h: "hashed ?st = hashed st" by blast
  moreover have "proxy_of ?st x = proxy_of st x" if "x \<in> hashed st" for x
    using that assms(2) by (cases "x = r") (simp_all add: proxy_of_def request_of_def)
  then have "proxy_rep D E ?st"
    by (intro proxy_rep_keep [OF assms(1) _ _ h]) (use assms(1) in \<open>simp_all add: request_key_def proxy_rep_def\<close>)
  ultimately show ?thesis by blast
qed

lemma arrive_ok:
  assumes "proxy_rep D E st" and "\<not> au_in_proxy_hash q"
  shows "proxy_rep D E (st\<lparr>pq_requests := pq_requests st @ [Some q]\<rparr>) \<and> hashed (st\<lparr>pq_requests := pq_requests st @ [Some q]\<rparr>) = hashed st"
proof -
  let ?st = "st\<lparr>pq_requests := pq_requests st @ [Some q]\<rparr>"
  have h: "hashed ?st = hashed st"
    using assms(2) by (auto simp: hashed_def live_def request_of_def nth_append less_Suc_eq split: if_split_asm)
  moreover have "proxy_of ?st x = proxy_of st x" if "x \<in> hashed st" for x
    using that by (simp add: proxy_of_def request_of_def nth_append hashed_def live_def)
  then have "proxy_rep D E ?st"
    by (intro proxy_rep_keep [OF assms(1) _ _ h]) (use assms(1) in \<open>simp_all add: request_key_def proxy_rep_def\<close>)
  ultimately show ?thesis by blast
qed

section \<open>Replies\<close>

lemma ping_answered_ok:
  assumes "dst_hash_ok D" and "proxy_ok D st" and "live st r"
  shows "\<exists>st'. ping_answered now r packet st = Some st' \<and> proxy_ok D st' \<and> hashed st' = hashed st - {r}"
proof -
  let ?q = "(request_of st r)\<lparr>au_proxy_reply := Some packet, au_ev := None\<rparr>"
  have set: "proxy_ok D (set_request r ?q st) \<and> hashed (set_request r ?q st) = hashed st"
    by (rule change_ok [OF assms(2,3)]) (simp_all add: proxy_of_def)
  obtain st1 where st1: "remove_from_proxy_hash r (set_request r ?q st) = Some st1" "proxy_ok D st1" "hashed st1 = hashed st - {r}"
    using remove_ok [OF assms(1), of "set_request r ?q st" r] set assms(3) by auto
  let ?st2 = "update_home (au_home_server ?q) (received_response_to_ping now) st1"
  have "proxy_ok D ?st2" "r \<notin> hashed ?st2" "hashed ?st2 = hashed st - {r}" using st1(2,3) by simp_all
  from free_ok [OF this(1,2)] this(3) show ?thesis using st1(1) by (simp add: ping_answered_def Let_def)
qed

lemma set_request_beyond: "length (pq_requests st) \<le> r \<Longrightarrow> set_request r q st = st"
  by (simp add: set_request_def list_update_beyond)

lemma divorce_ok:
  assumes "proxy_rep D E st" and "live st r" and "own_coa r st"
  shows "proxy_rep D E (divorce r st) \<and> hashed (divorce r st) = hashed st \<and> live (divorce r st) r"
proof -
  obtain p q where p: "au_parent (request_of st r) = Some p" "pq_requests st ! p = Some q"
    using assms(3) by (auto simp: own_coa_def split: option.split_asm)
  define st1 where "st1 = set_request p ((request_of st p)\<lparr>au_coa := None\<rparr>) st"
  have st1: "proxy_rep D E st1 \<and> hashed st1 = hashed st \<and> live st1 r"
  proof (cases "live st p")
    case True
    from change_ok [OF assms(1) True, of "(request_of st p)\<lparr>au_coa := None\<rparr>"] show ?thesis using True assms(2) by (simp add: st1_def proxy_of_def)
  next
    case False
    then have "st1 = st" using p(2) unfolding st1_def by (intro set_request_beyond) (simp add: live_def)
    then show ?thesis using assms(1,2) by simp
  qed
  then have "live st1 r" by simp
  from change_ok [OF _ this, of D E "(request_of st1 r)\<lparr>au_parent := None\<rparr>"] st1 this show ?thesis
    by (simp add: divorce_def p(1) Let_def proxy_of_def flip: st1_def)
qed

lemma accept_reply_ok:
  assumes "proxy_rep D E st" and "live st r" and "accept_reply now r packet st = (res, st')"
  shows "proxy_rep D E st' \<and> hashed st' = hashed st"
proof -
  define st1 where "st1 = update_home (au_home_server (request_of st r)) (received_reply now) st"
  have st1: "proxy_rep D E st1" "hashed st1 = hashed st" "live st1 r" using assms(1,2) by (simp_all add: st1_def)
  define st2 where "st2 = (if own_coa r st1 then divorce r st1 else st1)"
  have st2: "proxy_rep D E st2" "hashed st2 = hashed st" "live st2 r" using st1 divorce_ok [OF st1(1,3)] by (auto simp: st2_def)
  let ?q = "(request_of st2 r)\<lparr>au_proxy_reply := Some packet, au_child_state := REQUEST_QUEUED, au_when := tv_add now USEC, au_delay := USEC,
      au_priority := RAD_LISTEN_PROXY, au_ev := Some (wait_a_bit_cb, tv_add now USEC)\<rparr>"
  have "st' = st2 \<or> st' = set_request r ?q st2"
    using assms(3) unfolding accept_reply_def Let_def st1_def [symmetric] st2_def [symmetric] by (simp split: if_split_asm)
  then show ?thesis using st2 change_ok [OF st2(1,3), of ?q] by (auto simp: proxy_of_def)
qed

lemma hashed_update:
  assumes "pq_requests st' = (pq_requests st)[r := Some q]" and "live st r"
  shows "live st' r" "request_of st' r = q" "hashed st' = (if au_in_proxy_hash q then insert r (hashed st) else hashed st - {r})"
    "x \<noteq> r \<Longrightarrow> request_of st' x = request_of st x"
proof -
  have "pq_requests st' = pq_requests (set_request r q st)" using assms(1) by (simp add: set_request_def)
  note cong = table_cong [OF this]
  show "live st' r" "request_of st' r = q" "hashed st' = (if au_in_proxy_hash q then insert r (hashed st) else hashed st - {r})"
    "x \<noteq> r \<Longrightarrow> request_of st' x = request_of st x"
    unfolding cong using assms(2) by simp_all
qed

lemma response_ok:
  assumes "dst_hash_ok D" and "proxy_ok D st" and "reply \<in> addressed" and "pk_sockfd reply \<noteq> - 1"
    and "received_proxy_response now reply st = Some (res, st')"
  shows "proxy_ok D st' \<and> hashed st' \<subseteq> hashed st"
  using assms(1-4)
proof (cases rule: lookup_ok)
  case none
  then show ?thesis using assms(2,5) by (simp add: received_proxy_response_def)
next
  case (found r st1)
  have live: "live st r" using hashed_live [OF found(2)] by simp
  have live1: "live st1 r" and sub: "hashed st1 \<subseteq> hashed st" using hashed_update [OF found(6) live] found(2) by (auto split: if_split_asm)
  have ping: "proxy_ok D st2 \<and> hashed st2 \<subseteq> hashed st" if "ping_answered now r p st1 = Some st2" for p st2
    using ping_answered_ok [OF assms(1) found(5) live1, of now p] that sub by auto
  have acc: "proxy_ok D st2 \<and> hashed st2 \<subseteq> hashed st" if "accept_reply now r p st1 = (res, st2)" for p st2
    using accept_reply_ok [OF found(5) live1 that] sub by simp
  show ?thesis
    using assms(5) found(1,5) sub ping acc by (auto simp: received_proxy_response_def Let_def split: if_split_asm option.split_asm sum.split_asm)
qed

section \<open>Histories of the table\<close>

text \<open>
  The states of the table. A new socket has a descriptor of its own and a name; what the rest of the server changes in a request leaves the addresses
  of its proxied packet alone while it is in the table, and a request is freed when it is not in the table.
\<close>

inductive proxy_history :: "dest set \<Rightarrow> proxy_state \<Rightarrow> bool" for D where
  init: "proxy_history D (proxy_init homes s)"
| listen: "proxy_history D st \<Longrightarrow> fresh_socket (pq_list st) fd sockname \<Longrightarrow> proxy_listen fd sockname st = Some st' \<Longrightarrow> proxy_history D st'"
| arrive: "proxy_history D st \<Longrightarrow> \<not> au_in_proxy_hash q \<Longrightarrow> proxy_history D (st\<lparr>pq_requests := pq_requests st @ [Some q]\<rparr>)"
| proxied: "proxy_history D st \<Longrightarrow> live st r \<Longrightarrow> r \<notin> hashed st \<Longrightarrow> ip_valid (pk_dst_ipaddr (proxy_of st r)) \<Longrightarrow> req_dest (proxy_of st r) \<in> D \<Longrightarrow>
    \<forall>fd sockname. opened = Some (fd, sockname) \<longrightarrow> fresh_socket (pq_list st) fd sockname \<Longrightarrow>
    insert_into_proxy_hash opened r False st = Some (b, st') \<Longrightarrow> proxy_history D st'"
| proxied_again: "proxy_history D st \<Longrightarrow> r \<in> hashed st \<Longrightarrow> req_dest (proxy_of st r) \<in> D \<Longrightarrow>
    \<forall>fd sockname. opened = Some (fd, sockname) \<longrightarrow> fresh_socket (pq_list st) fd sockname \<Longrightarrow>
    insert_into_proxy_hash opened r True st = Some (b, st') \<Longrightarrow> proxy_history D st'"
| response: "proxy_history D st \<Longrightarrow> reply \<in> addressed \<Longrightarrow> pk_sockfd reply \<noteq> - 1 \<Longrightarrow>
    received_proxy_response now reply st = Some (res, st') \<Longrightarrow> proxy_history D st'"
| given_up: "proxy_history D st \<Longrightarrow> live st r \<Longrightarrow> remove_from_proxy_hash r st = Some st' \<Longrightarrow> proxy_history D st'"
| freed: "proxy_history D st \<Longrightarrow> r \<notin> hashed st \<Longrightarrow> proxy_history D (st\<lparr>pq_requests := (pq_requests st)[r := None]\<rparr>)"
| changed: "proxy_history D st \<Longrightarrow> live st r \<Longrightarrow> au_in_proxy_hash q = au_in_proxy_hash (request_of st r) \<Longrightarrow> same_address (proxy_of st r) (au_proxy q) \<Longrightarrow>
    proxy_history D (set_request r q st)"
| others_changed: "proxy_history D st \<Longrightarrow> proxy_history D (st\<lparr>pq_homes := homes, pq_lib := s, pq_pl := pl, pq_sent := sent\<rparr>)"

lemma init_ok: "proxy_ok D (proxy_init homes s)"
proof -
  have "hashed (proxy_init homes s) = {}" by (simp add: hashed_def live_def proxy_init_def)
  moreover have "sockets_known (fr_packet_list_create True) (replicate 32 (- 1))"
    by (simp add: sockets_known_def fr_packet_list_create_def socket_view_def)
  moreover have "list_rep D (fr_packet_list_create True) {} {}"
    using id_history.create packet_tree.rbtree_create_rep by (auto simp: list_rep_def fr_packet_list_create_def)
  ultimately show ?thesis by (simp add: proxy_rep_def) (simp add: proxy_init_def)
qed

lemma listen_ok:
  assumes "dst_hash_ok D" and "proxy_ok D st" and "fresh_socket (pq_list st) fd sockname" and "proxy_listen fd sockname st = Some st'"
  shows "proxy_ok D st' \<and> pq_requests st' = pq_requests st"
proof -
  obtain i fds pl where f: "proxy_add_fds fd (pq_fds st) = (Some i, fds)" "fr_packet_list_socket_add sockname (pq_list st) fd = (True, pl)"
      "st' = st\<lparr>pq_fds := fds, pq_list := pl\<rparr>"
    using assms(4) by (auto simp: proxy_listen_def split: prod.split_asm option.split_asm if_split_asm)
  have hist: "id_history D (pq_list st) (key_id ` request_key st ` hashed st)" and known: "sockets_known (pq_list st) (pq_fds st)"
    using assms(2) by (simp_all add: proxy_rep_def list_rep_def)
  obtain S where "slots_ok (pq_list st) S" by (rule id_history_slots [OF assms(1) hist])
  then have len: "length (pl_sockets (pq_list st)) = MAX_SOCKETS" by (rule slots_okD(2))
  have keeps: "set (pq_fds st) \<subseteq> insert (- 1) (set fds)" "fd \<in> set fds" "length fds = 32"
    using add_fds_keeps [OF f(1)] known by (simp_all add: sockets_known_def)
  from socket_add_known [OF assms(3) f(2) known len keeps]
  have k: "sockets_known pl fds" "pl_tree pl = pl_tree (pq_list st)" "\<forall>p. homed (pq_list st) p \<longrightarrow> homed pl p" by auto
  have req: "pq_requests st' = pq_requests st" and lists: "pq_list st' = pl" "pq_fds st' = fds" using f(3) by simp_all
  have "id_history D pl (key_id ` request_key st ` hashed st)"
    using id_history.socket_add [OF hist _ _ f(2)] assms(3) by (simp add: fresh_socket_def)
  then have "proxy_ok D st'"
    by (intro proxy_rep_list [OF assms(2)]) (use k lists in \<open>simp_all add: table_cong [OF req]\<close>)
  then show ?thesis using req by blast
qed

lemma history_ok:
  assumes "dst_hash_ok D" and "proxy_history D st"
  shows "proxy_ok D st"
  using assms(2)
proof induction
  case (init homes s)
  then show ?case by (rule init_ok)
next
  case (listen st fd sockname st')
  then show ?case using listen_ok [OF assms(1)] by blast
next
  case (arrive st q)
  then show ?case using arrive_ok by blast
next
  case (proxied st r opened b st')
  then show ?case using insert_ok [OF assms(1), of st r opened] by auto
next
  case (proxied_again st r opened b st')
  then show ?case using reinsert_ok [OF assms(1), of st r opened] by auto
next
  case (response st reply now res st')
  then show ?case using response_ok [OF assms(1)] by blast
next
  case (given_up st r st')
  then show ?case using remove_ok [OF assms(1), of st r] by auto
next
  case (freed st r)
  then show ?case using free_ok by blast
next
  case (changed st r q)
  then show ?case using change_ok by blast
next
  case (others_changed st sent pl s homes)
  then show ?case using proxy_rep_frame [of "st\<lparr>pq_homes := homes, pq_lib := s, pq_pl := pl, pq_sent := sent\<rparr>" st] by simp
qed



section \<open>The properties\<close>

lemma answers_same:
  assumes "same_sockets pl pl'" and "length (pl_sockets pl) = MAX_SOCKETS"
  shows "answers pl' p reply = answers pl p reply"
proof -
  have find: "fr_socket_find pl' fd = fr_socket_find pl fd" for fd by (rule find_same [OF assms])
  have "ps_inaddr_any (pl_sockets pl' ! i) = ps_inaddr_any (pl_sockets pl ! i)" if "fr_socket_find pl fd = Some i" for i fd
    using probe_Some [OF that [unfolded fr_socket_find_def] SOCK2OFFSET_less] same_sockets_nth [OF assms(1)] assms(2) by (fastforce simp: socket_view_def)
  then show ?thesis unfolding answers_def find by blast
qed

lemma answers_unique:
  assumes "dst_hash_ok D" and "proxy_ok D st" and "reply \<in> addressed" and "pk_sockfd reply \<noteq> - 1" and "x \<in> hashed st" and "y \<in> hashed st"
    and "answers (pq_list st) (proxy_of st x) reply" and "answers (pq_list st) (proxy_of st y) reply"
  shows "x = y"
  using assms(1-4) by (cases rule: find_byreply_cases) (use assms(5-8) in \<open>metis\<close>)+

text \<open>A reply is verified after the request was matched with it: when the reply does not verify, the request is no longer waiting, and the
  reply that comes from the home server is dropped.\<close>

lemma spoofed_reply_evicts:
  assumes "dst_hash_ok D" and "proxy_history D st" and "r \<in> hashed st" and "spoofed \<in> addressed" and "pk_sockfd spoofed \<noteq> - 1"
    and "answers (pq_list st) (proxy_of st r) spoofed" and "au_home_server (request_of st r) = Some h" and "au_proxy_reply (request_of st r) = None"
    and "au_num_proxied_requests (request_of st r) = au_num_proxied_responses (request_of st r) + 1"
    and "rad_verify spoofed (Some (proxy_of st r)) (hs_secret (pq_homes st h)) = Some (Inl e)"
    and "reply \<in> addressed" and "pk_sockfd reply \<noteq> - 1" and "answers (pq_list st) (proxy_of st r) reply"
  shows "\<exists>st'. received_proxy_response now spoofed st = Some (None, st') \<and> received_proxy_response now' reply st' = Some (None, st')"
  using assms(1) history_ok [OF assms(1,2)] assms(4,5)
proof (cases rule: lookup_ok)
  case none
  then show ?thesis using assms(3,6) by blast
next
  case (found x st')
  have x: "x = r" using found(4) assms(3,6) by metis
  have live: "live st r" using hashed_live [OF assms(3)] by simp
  note upd = hashed_update [OF found(6) [unfolded x] live]
  have secret: "hs_secret (pq_homes st' h) = hs_secret (pq_homes st h)"
    using found(8) assms(7,8) x by (simp add: update_home_def outstanding_dec_def)
  have first: "received_proxy_response now spoofed st = Some (None, st')"
    using found(1) upd(2) assms(7,8,10) secret x by (simp add: received_proxy_response_def reply_counted_def proxy_of_def)
  have hashed: "hashed st' = hashed st - {r}" using upd(3) assms(9) by (simp add: reply_counted_def)
  have "id_history D (pq_list st) (key_id ` request_key st ` hashed st)"
    using history_ok [OF assms(1,2)] by (simp add: proxy_rep_def list_rep_def)
  then obtain S where "slots_ok (pq_list st) S" by (rule id_history_slots [OF assms(1)])
  then have same: "answers (pq_list st') p reply = answers (pq_list st) p reply" for p
    by (intro answers_same [OF found(7)]) (rule slots_okD(2))
  have "lookup_in_proxy_hash reply st' = Some (None, st')"
    using assms(1) found(5) assms(11,12)
  proof (cases rule: lookup_ok)
    case (found y st2)
    then have y: "y \<in> hashed st" "y \<noteq> r" using hashed by auto
    then have "answers (pq_list st) (proxy_of st y) reply" using found(3) upd(4) same by (simp add: proxy_of_def)
    then show ?thesis using answers_unique [OF assms(1) history_ok [OF assms(1,2)] assms(11,12) y(1) assms(3)] assms(13) y(2) by blast
  qed
  then show ?thesis using first by (auto simp: received_proxy_response_def)
qed

text \<open>A table with one socket and one request that is to be proxied.\<close>

definition sample_waiting :: auth_req where
  "sample_waiting = \<lparr>au_packet = Some packet0, au_has_proxy = True, au_proxy = sample_request, au_reply = None, au_proxy_reply = None,
     au_proxy_listener = None, au_received = \<lparr>tv_sec = 0, tv_usec = 0\<rparr>, au_when = \<lparr>tv_sec = 0, tv_usec = 0\<rparr>, au_delay = 0,
     au_child_state = REQUEST_PROXIED, au_priority = RAD_LISTEN_AUTH, au_ev = None, au_next_when = \<lparr>tv_sec = 0, tv_usec = 0\<rparr>,
     au_next_callback = None, au_in_request_hash = False, au_in_proxy_hash = False, au_home_server = Some 0,
     au_proxy_when = \<lparr>tv_sec = 0, tv_usec = 0\<rparr>, au_num_proxied_requests = 1, au_num_proxied_responses = 0, au_server = None, au_parent = None,
     au_coa = None\<rparr>"

definition sample_table :: proxy_state where
  "sample_table = \<lparr>pq_list = sample_list, pq_fds = (replicate 32 (- 1))[5 := 5], pq_all_used = False, pq_requests = [Some sample_waiting],
     pq_homes = (\<lambda>_. sample_home), pq_lib = lib_start 0 0, pq_pl = fr_packet_list_create False, pq_sent = []\<rparr>"

lemma sample_fresh: "fresh_socket (fr_packet_list_create True) 5 (Some sample_sockname)"
proof -
  let ?pl = "fr_packet_list_create True"
  have "slots_ok ?pl {}" using create_rep by (simp add: ids_rep_def)
  from find_slot [OF this, of 5] have "fr_socket_find ?pl 5 \<noteq> Some i" for i using create_slot [of i True] by auto
  then have "fr_socket_find ?pl 5 = None" by blast
  then show ?thesis by (simp add: fresh_socket_def sample_sockname_def fr_sockaddr2ipaddr_def ip_valid_def)
qed

lemma sample_table_history: "proxy_history {req_dest sample_request} sample_table"
proof -
  let ?init = "proxy_init (\<lambda>_. sample_home) (lib_start 0 0)"
  have fds: "proxy_add_fds 5 (replicate 32 (- 1)) = (Some 5, (replicate 32 (- 1))[5 := 5])"
    by (simp add: proxy_add_fds_def upt_conv_Cons)
  have "pl_mask (snd (fr_packet_list_socket_add sn pl fd)) = pl_mask pl" if "\<not> fst (fr_packet_list_socket_add sn pl fd)" for sn pl fd
    using that by (auto simp: fr_packet_list_socket_add_def Let_def split: option.split prod.split)
  moreover have "pl_mask (snd (fr_packet_list_socket_add (Some sample_sockname) (fr_packet_list_create True) 5)) \<noteq> 0"
    unfolding sample_list_def [symmetric] using sample_socket by (metis bit_0_eq bot_apply bot_bool_def)
  moreover have "pl_mask (fr_packet_list_create True) = 0" by (simp add: fr_packet_list_create_def)
  ultimately have "fst (fr_packet_list_socket_add (Some sample_sockname) (fr_packet_list_create True) 5)" by metis
  then have add: "fr_packet_list_socket_add (Some sample_sockname) (fr_packet_list_create True) 5 = (True, sample_list)"
    by (simp add: sample_list_def prod_eq_iff)
  have "proxy_listen 5 (Some sample_sockname) ?init = Some (?init\<lparr>pq_fds := (replicate 32 (- 1))[5 := 5], pq_list := sample_list\<rparr>)"
    by (simp add: proxy_listen_def proxy_init_def fds add)
  with proxy_history.listen [OF proxy_history.init] sample_fresh
  have "proxy_history {req_dest sample_request} (?init\<lparr>pq_fds := (replicate 32 (- 1))[5 := 5], pq_list := sample_list\<rparr>)"
    by (fastforce simp: proxy_init_def)
  from proxy_history.arrive [OF this, of sample_waiting] show ?thesis by (simp add: sample_table_def proxy_init_def sample_waiting_def)
qed

lemma sample_table_simps:
  "live sample_table 0" "hashed sample_table = {}" "proxy_of sample_table 0 = sample_request" "request_of sample_table 0 = sample_waiting"
  by (auto simp: live_def hashed_def proxy_of_def request_of_def sample_table_def sample_waiting_def)

lemma sample_inserted:
  obtains st where "insert_into_proxy_hash None 0 False sample_table = Some (True, st)" "proxy_history {req_dest sample_request} st" "hashed st = {0}"
proof -
  obtain p pl s where al: "fr_packet_list_id_alloc sample_list sample_request (lib_start 0 0) = Some (True, p, pl, s)" by (rule sample_alloc)
  have pa: "\<exists>p st2. proxy_id_alloc None sample_request (update_home (au_home_server sample_waiting) outstanding_inc sample_table) = Some (True, p, st2)"
    using al by (simp add: proxy_id_alloc_def Let_def) (simp add: sample_table_def)
  obtain b st where st: "insert_into_proxy_hash None 0 False sample_table = Some (b, st)" "hashed st = (if b then {0} else {})" "b"
    using insert_ok [OF single_dest_ok history_ok [OF single_dest_ok sample_table_history], of 0 None] sample_request_valid pa
    by (auto simp: sample_table_simps)
  then have "proxy_history {req_dest sample_request} st"
    using proxy_history.proxied [OF sample_table_history sample_table_simps(1), of None b st] sample_request_valid by (simp add: sample_table_simps)
  then show thesis using st that by simp
qed



text \<open>C8: A reply of a home server gets to its request, as long as the home servers do not collide in the hash table of the list. When a request waits for a reply and a packet comes to its socket from its destination, with its
  identifier, and verifies, \<open>received_proxy_response\<close> hands out this request, with the reply and queued for processing; its home server is
  alive and has one request less outstanding (none, when none was counted: \<open>outstanding_dec\<close>); and when every packet that was sent is answered, the request has left the table.\<close>

theorem proxy_reply_accepted:
  assumes "dst_hash_ok D" and "proxy_history D st" and "r \<in> hashed st" and "reply \<in> addressed" and "pk_sockfd reply \<noteq> - 1"
    and "answers (pq_list st) (au_proxy (request_of st r)) reply"
    and "rad_verify reply (Some (au_proxy (request_of st r))) (hs_secret (pq_homes st h)) = Some (Inr reply')"
    and "request_of st r = q" and "au_home_server q = Some h" and "au_packet q \<noteq> None" and "au_proxy_reply q = None" and "au_parent q = None"
    and "\<not> already_replied q" and "au_child_state q = REQUEST_PROXIED"
  shows "\<exists>st'. received_proxy_response now reply st = Some (Some r, st') \<and>
    au_proxy_reply (request_of st' r) = Some reply' \<and> au_child_state (request_of st' r) = REQUEST_QUEUED \<and>
    hs_state (pq_homes st' h) = HOME_STATE_ALIVE \<and> hs_last_packet (pq_homes st' h) = tv_sec now \<and>
    hs_currently_outstanding (pq_homes st' h) = hs_currently_outstanding (outstanding_dec (pq_homes st h)) \<and>
    hashed st' = (if au_num_proxied_requests q = au_num_proxied_responses q + 1 then hashed st - {r} else hashed st)"
  using assms(1) history_ok [OF assms(1,2)] assms(4,5)
proof (cases rule: lookup_ok)
  case none
  then show ?thesis using assms(3,6) by (auto simp: proxy_of_def)
next
  case (found x st1)
  have x: "x = r" using found(4) assms(3,6) by (auto simp: proxy_of_def)
  have live: "live st r" and hash: "au_in_proxy_hash q" using hashed_live [OF assms(3)] assms(8) by auto
  note upd = hashed_update [OF found(6) [unfolded x] live]
  let ?q1 = "reply_counted q"
  have q1: "au_home_server ?q1 = Some h" "au_packet ?q1 \<noteq> None" "au_proxy_reply ?q1 = None" "au_parent ?q1 = None" "\<not> already_replied ?q1"
      "au_child_state ?q1 = REQUEST_PROXIED" "au_proxy ?q1 = au_proxy q"
    using assms(9-14) by (simp_all add: reply_counted_def already_replied_def)
  have homes1: "pq_homes st1 = (pq_homes st)(h := outstanding_dec (pq_homes st h))"
    using found(8) assms(8,9,11) x by (simp add: update_home_def)
  then have secret: "hs_secret (pq_homes st1 h) = hs_secret (pq_homes st h)" by (simp add: outstanding_dec_def)
  let ?q2 = "?q1\<lparr>au_proxy_reply := Some reply', au_child_state := REQUEST_QUEUED, au_when := tv_add now USEC, au_delay := USEC,
      au_priority := RAD_LISTEN_PROXY, au_ev := Some (wait_a_bit_cb, tv_add now USEC)\<rparr>"
  let ?st' = "set_request r ?q2 (update_home (Some h) (received_reply now) st1)"
  have req: "request_of st1 r = ?q1" using upd(2) assms(8) by simp
  have "accept_reply now r reply' st1 = (Some r, ?st')"
    using req q1 by (simp add: accept_reply_def own_coa_def Let_def)
  then have res: "received_proxy_response now reply st = Some (Some r, ?st')"
    using found(1) x req q1 secret assms(7,8) by (simp add: received_proxy_response_def Let_def)
  have live1: "live (update_home (Some h) (received_reply now) st1) r" using upd(1) by simp
  have hashed': "hashed ?st' = (if au_num_proxied_requests q = au_num_proxied_responses q + 1 then hashed st - {r} else hashed st)"
    using live1 upd(3) assms(3,8) hash by (auto simp: reply_counted_def)
  have home': "pq_homes ?st' h = received_reply now (outstanding_dec (pq_homes st h))" using homes1 by (simp add: update_home_def)
  show ?thesis
    by (intro exI [of _ ?st'] conjI res hashed') (use live1 home' in \<open>simp_all add: received_reply_def\<close>)
qed

theorem proxy_reply_accepted_witness:
  "\<exists>st reply st'. received_proxy_response \<lparr>tv_sec = 100, tv_usec = 0\<rparr> reply st = Some (Some 0, st') \<and>
     au_child_state (request_of st' 0) = REQUEST_QUEUED \<and> hashed st = {0} \<and> hashed st' = {}"
proof -
  obtain st0 where st0: "proxy_history {req_dest sample_request} st0" "hashed st0 = {0}" by (rule sample_inserted)
  note ok = history_ok [OF single_dest_ok st0(1)]
  define p where "p = proxy_of st0 0"
  define q where "q = sample_waiting\<lparr>au_proxy := p, au_in_proxy_hash := True\<rparr>"
  define st where "st = set_request 0 q st0"
  have live: "live st0 0" and hash: "au_in_proxy_hash (request_of st0 0)" using hashed_live [of 0 st0] st0(2) by auto
  have hist: "proxy_history {req_dest sample_request} st"
    unfolding st_def by (rule proxy_history.changed [OF st0(1) live]) (simp_all add: q_def p_def hash)
  have req: "request_of st 0 = q" and hashed: "hashed st = {0}" using live st0(2) by (simp_all add: st_def q_def)
  have p: "p \<in> addressed" "homed (pq_list st) p" using ok st0(2) by (simp_all add: proxy_rep_def p_def st_def)
  define reply where "reply = packet0\<lparr>pk_sockfd := pk_sockfd p, pk_id := pk_id p, pk_src_ipaddr := pk_dst_ipaddr p, pk_src_port := pk_dst_port p,
      pk_dst_ipaddr := pk_src_ipaddr p, pk_code := PW_AUTHENTICATION_REQUEST, pk_data := Some (zeros 20)\<rparr>"
  have fd: "pk_sockfd reply \<noteq> - 1" and adr: "reply \<in> addressed" using p by (simp_all add: reply_def homed_def addressed_def)
  have ids: "id_history {req_dest sample_request} (pq_list st) (key_id ` request_key st ` hashed st)"
    using history_ok [OF single_dest_ok hist] by (simp add: proxy_rep_def list_rep_def)
  obtain S where "slots_ok (pq_list st) S" by (rule id_history_slots [OF single_dest_ok ids])
  with find_slot [OF this] slots_okD(2) [OF this] p(2) have "\<exists>i. fr_socket_find (pq_list st) (pk_sockfd p) = Some i"
    by (auto simp: homed_def socket_view_def)
  then have ans: "answers (pq_list st) (au_proxy (request_of st 0)) reply" by (auto simp: answers_def reply_def req q_def)
  have verify: "rad_verify reply (Some (au_proxy (request_of st 0))) (hs_secret (pq_homes st 0)) = Some (Inr reply)"
    by (simp add: rad_verify_def reply_def verify_loop.simps AUTH_HDR_LEN_def verify_digest_def PW_AUTHENTICATION_REQUEST_def FR_MAX_PACKET_CODE_def)
  from proxy_reply_accepted [OF single_dest_ok hist _ adr fd ans verify req, of "\<lparr>tv_sec = 100, tv_usec = 0\<rparr>"] hashed
  show ?thesis by (fastforce simp: q_def sample_waiting_def already_replied_def)
qed

end
