(* ===== verification/Request_Life.thy ===== *)
theory Request_Life
  imports Proxy_Ids
begin

text \<open>
  Requests from clients (\<^verbatim>\<open>winradiusd/event.cpp\<close>): how a packet becomes a request or is taken for a duplicate, the timers of a request and
  its end. The build has no threads: a request is processed to its end when it is received, and then waits for its clean-up. \<open>None\<close> stands for an
  access that goes wrong. A request has one event, its callback and time, as \<open>Event_List\<close> shows. Log messages, statistics and assertions are left out, and so are
  the module lists between \<open>received_request\<close> and the end of \<open>request_post_handler\<close>, proxying, and requests that originate CoA requests.
\<close>

section \<open>Releasing requests\<close>

definition remove_from_request_hash :: "nat \<Rightarrow> proxy_state \<Rightarrow> proxy_state option" where
  "remove_from_request_hash r st =
     (let q = request_of st r
      in if \<not> au_in_request_hash q then Some st
         else
           (case au_packet q of
              None \<Rightarrow> None
            | Some packet \<Rightarrow>
                map_option (\<lambda>(_, pl). set_request r (q\<lparr>au_in_request_hash := False\<rparr>) (st\<lparr>pq_pl := pl\<rparr>)) (fr_packet_list_yank (pq_pl st) packet)))"

text \<open>What \<open>ev_request_free\<close> does to the request itself, after the one it originated was freed.\<close>

definition free_request :: "nat \<Rightarrow> proxy_state \<Rightarrow> proxy_state option" where
  "free_request r st =
     (let st = (if own_coa r st
                then set_request (the (au_parent (request_of st r))) ((request_of st (the (au_parent (request_of st r))))\<lparr>au_coa := None\<rparr>) st else st);
          st = set_request r ((request_of st r)\<lparr>au_ev := None\<rparr>) st
      in case remove_from_proxy_hash r st of
           None \<Rightarrow> None
         | Some st \<Rightarrow> map_option (\<lambda>st. st\<lparr>pq_requests := (pq_requests st)[r := None]\<rparr>) (remove_from_request_hash r st))"

text \<open>The first argument bounds how many requests that were originated by one another are followed.\<close>

primrec ev_request_free :: "nat \<Rightarrow> nat \<Rightarrow> proxy_state \<Rightarrow> proxy_state option" where
  "ev_request_free 0 r st = None"
| "ev_request_free (Suc n) r st =
     (case au_coa (request_of st r) of
        None \<Rightarrow> free_request r st
      | Some c \<Rightarrow>
          (case ev_request_free n c (set_request c ((request_of st c)\<lparr>au_parent := None\<rparr>) st) of
             None \<Rightarrow> None
           | Some st \<Rightarrow> free_request r (set_request r ((request_of st r)\<lparr>au_coa := None\<rparr>) st)))"

definition free_it :: "nat \<Rightarrow> proxy_state \<Rightarrow> proxy_state option" where
  "free_it r st = ev_request_free (length (pq_requests st)) r st"

section \<open>Timers\<close>

definition insert_event :: "request_callback \<Rightarrow> nat \<Rightarrow> proxy_state \<Rightarrow> proxy_state" where
  "insert_event cb r st = set_request r ((request_of st r)\<lparr>au_ev := Some (cb, au_when (request_of st r))\<rparr>) st"

definition later :: "timeval \<Rightarrow> int \<Rightarrow> timeval" where
  "later t secs = t\<lparr>tv_sec := tv_sec t + secs\<rparr>"

definition wait_for_proxy_id_to_expire :: "timeval \<Rightarrow> nat \<Rightarrow> proxy_state \<Rightarrow> proxy_state option" where
  "wait_for_proxy_id_to_expire now r st =
     (let q = request_of st r;
          home = pq_homes st (the (au_home_server q));
          q = q\<lparr>au_when := later (au_proxy_when q) (if proxied_coa q then hs_coa_mrd home else hs_response_window home)\<rparr>;
          st = set_request r q st
      in if au_num_proxied_requests q = au_num_proxied_responses q \<or> timeval_cmp now (au_when q) > 0 then free_it r st
         else Some (insert_event wait_for_proxy_id_to_expire_cb r st))"

definition cleanup_delay :: "timeval \<Rightarrow> nat \<Rightarrow> proxy_state \<Rightarrow> proxy_state option" where
  "cleanup_delay now r st =
     (case remove_from_request_hash r st of
        None \<Rightarrow> None
      | Some st \<Rightarrow>
          if au_has_proxy (request_of st r) \<and> au_in_proxy_hash (request_of st r) then wait_for_proxy_id_to_expire now r st else free_it r st)"

record life_config =
  lc_max_requests :: int
  lc_max_request_time :: int
  lc_cleanup_delay :: int
  lc_reject_delay :: int

text \<open>The listener encodes, signs and sends the reply; that the encoded packet is kept with the reply is not modelled.\<close>

definition send_reply :: "nat \<Rightarrow> proxy_state \<Rightarrow> proxy_state" where
  "send_reply r st = (case au_reply (request_of st r) of None \<Rightarrow> st | Some p \<Rightarrow> st\<lparr>pq_sent := pq_sent st @ [p]\<rparr>)"

definition reject_delay :: "life_config \<Rightarrow> nat \<Rightarrow> proxy_state \<Rightarrow> proxy_state" where
  "reject_delay root r st =
     (let st = send_reply r st;
          q = request_of st r
      in insert_event cleanup_delay_cb r
           (set_request r (q\<lparr>au_when := later (au_when q) (lc_cleanup_delay root), au_child_state := REQUEST_CLEANUP_DELAY\<rparr>) st))"

text \<open>A request that was originated gets its own event.\<close>

definition tie_coa :: "nat \<Rightarrow> proxy_state \<Rightarrow> proxy_state" where
  "tie_coa r st =
     (case au_coa (request_of st r) of
        None \<Rightarrow> st
      | Some c \<Rightarrow>
          let q = request_of st c
          in case au_next_callback q of
               None \<Rightarrow> st
             | Some cb \<Rightarrow>
                 if au_proxy_reply q \<noteq> None then st
                 else
                   let st = insert_event cb c (set_request c (q\<lparr>au_when := au_next_when q\<rparr>) st);
                       st = set_request c ((request_of st c)\<lparr>au_next_callback := None, au_parent := None\<rparr>) st
                   in set_request r ((request_of st r)\<lparr>au_coa := None\<rparr>) st)"

definition wait_a_bit :: "timeval \<Rightarrow> nat \<Rightarrow> proxy_state \<Rightarrow> proxy_state option" where
  "wait_a_bit now r st =
     (let st = tie_coa r st; q = request_of st r
      in if au_child_state q \<in> {REQUEST_QUEUED, REQUEST_RUNNING, REQUEST_DONE} then
           let q = q\<lparr>au_child_state := REQUEST_DONE\<rparr>; st = set_request r q st
           in if \<not> au_in_request_hash q \<and> au_has_proxy q \<and> proxied_coa q then free_it r st else cleanup_delay now r st
         else
           let st = set_request r (q\<lparr>au_when := au_next_when q, au_next_callback := None\<rparr>) st
           in case au_next_callback q of
                None \<Rightarrow> free_it r st
              | Some callback \<Rightarrow> Some (insert_event callback r st))"

text \<open>
  The pending event of a request runs; it is taken off the queue before its callback is called. The callbacks for requests that were proxied and got no
  answer are not here: for them the event is left.
\<close>

definition run_request_event :: "life_config \<Rightarrow> timeval \<Rightarrow> nat \<Rightarrow> proxy_state \<Rightarrow> proxy_state option" where
  "run_request_event root now r st =
     (let st' = set_request r ((request_of st r)\<lparr>au_ev := None\<rparr>) st
      in case au_ev (request_of st r) of
           Some (wait_a_bit_cb, _) \<Rightarrow> wait_a_bit now r st'
         | Some (cleanup_delay_cb, _) \<Rightarrow> cleanup_delay now r st'
         | Some (reject_delay_cb, _) \<Rightarrow> Some (reject_delay root r st')
         | Some (wait_for_proxy_id_to_expire_cb, _) \<Rightarrow> wait_for_proxy_id_to_expire now r st'
         | _ \<Rightarrow> Some st)"

section \<open>After the module lists\<close>

text \<open>
  The end of \<open>request_post_handler\<close>, from the switch on the packet code: \<open>t\<close> is the time, \<open>response\<close> the attribute \<^verbatim>\<open>Response-Packet-Type\<close>, and
  \<open>postauth\<close> what the section \<^verbatim>\<open>post-auth\<close> does for a rejected request. The result says whether the reject is delayed. In the end the attributes of the
  packets are freed.
\<close>

definition set_reply_code :: "u32 \<Rightarrow> auth_req \<Rightarrow> auth_req" where
  "set_reply_code cd q = q\<lparr>au_reply := map_option (\<lambda>p. p\<lparr>pk_code := cd\<rparr>) (au_reply q)\<rparr>"

definition reply_code :: "auth_req \<Rightarrow> u32" where
  "reply_code q = (case au_reply q of None \<Rightarrow> 0 | Some p \<Rightarrow> pk_code p)"

definition packet_code :: "auth_req \<Rightarrow> u32" where
  "packet_code q = (case au_packet q of None \<Rightarrow> 0 | Some p \<Rightarrow> pk_code p)"

definition until_cleanup :: "int \<Rightarrow> auth_req \<Rightarrow> auth_req" where
  "until_cleanup secs q =
     q\<lparr>au_next_when := later (au_next_when q) secs, au_next_callback := Some cleanup_delay_cb, au_child_state := REQUEST_CLEANUP_DELAY\<rparr>"

definition schedule_reply :: "life_config \<Rightarrow> timeval \<Rightarrow> u32 option \<Rightarrow> (auth_req \<Rightarrow> auth_req) \<Rightarrow> auth_req \<Rightarrow> bool \<times> auth_req" where
  "schedule_reply root t response postauth q =
     (if packet_code q = PW_AUTHENTICATION_REQUEST then
        let q = q\<lparr>au_next_when := t\<rparr>
        in if reply_code q = 0 \<and> response = Some 256 then (False, until_cleanup (lc_max_request_time root) q)
           else
             let q = (if reply_code q = 0 then set_reply_code (case response of None \<Rightarrow> PW_AUTHENTICATION_REJECT | Some v \<Rightarrow> v) q else q)
             in if reply_code q = PW_AUTHENTICATION_REJECT then
                  let q = postauth q; when' = later (au_received q) (lc_reject_delay root)
                  in if timeval_cmp when' (au_next_when q) > 0 then
                       (True, q\<lparr>au_next_when := when', au_next_callback := Some reject_delay_cb, au_child_state := REQUEST_REJECT_DELAY\<rparr>)
                     else (False, until_cleanup (lc_cleanup_delay root) q)
                else (False, until_cleanup (lc_cleanup_delay root) q)
      else if packet_code q = PW_COA_REQUEST \<or> packet_code q = PW_DISCONNECT_REQUEST then (False, until_cleanup (lc_cleanup_delay root) q)
      else (False, q\<lparr>au_next_callback := None, au_child_state := REQUEST_DONE\<rparr>))"

definition free_pairs :: "auth_req \<Rightarrow> auth_req" where
  "free_pairs q =
     (let wipe = (\<lambda>p. p\<lparr>pk_vps := []\<rparr>);
          q = q\<lparr>au_packet := map_option wipe (au_packet q), au_reply := map_option wipe (au_reply q)\<rparr>
      in if au_has_proxy q then q\<lparr>au_proxy := wipe (au_proxy q), au_proxy_reply := map_option wipe (au_proxy_reply q)\<rparr> else q)"

definition finish_request ::
    "life_config \<Rightarrow> bool \<Rightarrow> bool \<Rightarrow> timeval \<Rightarrow> u32 option \<Rightarrow> (auth_req \<Rightarrow> auth_req) \<Rightarrow> nat \<Rightarrow> proxy_state \<Rightarrow> proxy_state option" where
  "finish_request root have_children detail t response postauth r st =
     (case schedule_reply root t response postauth (request_of st r) of
        (True, q) \<Rightarrow> Some (set_request r q st)
      | (False, q) \<Rightarrow>
          let st = set_request r q st;
              st = (if reply_code q \<noteq> 0 \<or> detail then send_reply r st else st);
              st = set_request r (free_pairs q) st
          in if have_children then Some st else wait_a_bit t r st)"

section \<open>Receiving\<close>

text \<open>The request a packet in the list is part of.\<close>

definition request2myptr :: "proxy_state \<Rightarrow> radius_packet \<Rightarrow> nat option" where
  "request2myptr st packet =
     List.find (\<lambda>r. case pq_requests st ! r of
         None \<Rightarrow> False
       | Some q \<Rightarrow> au_in_request_hash q \<and> (case au_packet q of None \<Rightarrow> False | Some p \<Rightarrow> packet_entry_cmp p packet = 0))
       [0..<length (pq_requests st)]"

text \<open>
  What is done about a packet that was received before. When the home server is found dead, the request is taken off the table of proxied requests; that
  it is then proxied to another home server, or finished when there is none, is not modelled here.
\<close>

datatype retransmit = Discarded | Failed_over | Resent_proxied | Reject_waiting | No_reply | Resent_reply

definition received_retransmit :: "ping_input \<Rightarrow> timeval \<Rightarrow> nat \<Rightarrow> proxy_state \<Rightarrow> (retransmit \<times> proxy_state) option" where
  "received_retransmit p now r st =
     (let q = request_of st r
      in case au_child_state q of
           REQUEST_QUEUED \<Rightarrow> Some (Discarded, st)
         | REQUEST_RUNNING \<Rightarrow> Some (Discarded, st)
         | REQUEST_PROXIED \<Rightarrow>
             if packet_code q \<noteq> PW_AUTHENTICATION_REQUEST then Some (Discarded, st)
             else
               let h = the (au_home_server q);
                   (home, s) = check_for_zombie_home_server p now (au_when q) (pq_homes st h) (pq_lib st);
                   st = st\<lparr>pq_homes := (pq_homes st)(h := home), pq_lib := s\<rparr>
               in if (case au_packet q of None \<Rightarrow> False | Some packet \<Rightarrow> pk_dst_port packet \<noteq> 0) \<and> hs_state home = HOME_STATE_IS_DEAD
                  then map_option (Pair Failed_over) (remove_from_proxy_hash r st)
                  else Some (Resent_proxied, set_request r (q\<lparr>au_num_proxied_requests := au_num_proxied_requests q + 1\<rparr>) st)
         | REQUEST_REJECT_DELAY \<Rightarrow> Some (Reject_waiting, st)
         | REQUEST_CLEANUP_DELAY \<Rightarrow> Some (if reply_code q = 0 then (No_reply, st) else (Resent_reply, send_reply r st))
         | REQUEST_DONE \<Rightarrow> Some (if reply_code q = 0 then (No_reply, st) else (Resent_reply, send_reply r st)))"

definition received_conflicting_request :: "nat \<Rightarrow> proxy_state \<Rightarrow> proxy_state option" where
  "received_conflicting_request r st = remove_from_request_hash r st"

definition can_handle_new_request :: "life_config \<Rightarrow> proxy_state \<Rightarrow> bool" where
  "can_handle_new_request root st \<longleftrightarrow> \<not> (lc_max_requests root \<noteq> 0 \<and> fr_packet_list_num_elements (pq_pl st) > lc_max_requests root)"

text \<open>The listener and the client of a packet, as far as they matter.\<close>

record origin =
  or_type :: rad_listen_type
  or_listener_server :: "string option"
  or_client_server :: "string option"

definition reply_template :: "radius_packet \<Rightarrow> radius_packet \<Rightarrow> radius_packet" where
  "reply_template packet reply =
     reply\<lparr>pk_sockfd := pk_sockfd packet, pk_dst_ipaddr := pk_src_ipaddr packet, pk_src_ipaddr := pk_dst_ipaddr packet,
       pk_dst_port := pk_src_port packet, pk_src_port := pk_dst_port packet, pk_id := pk_id packet, pk_code := 0, pk_vector := pk_vector packet,
       pk_vps := [], pk_data := None\<rparr>"

text \<open>A request after \<open>request_alloc\<close>, with the fields \<open>received_request\<close> fills in.\<close>

definition tv0 :: timeval where "tv0 = \<lparr>tv_sec = 0, tv_usec = 0\<rparr>"

definition new_request :: "origin \<Rightarrow> timeval \<Rightarrow> radius_packet \<Rightarrow> radius_packet \<Rightarrow> auth_req" where
  "new_request og t packet reply =
     \<lparr>au_packet = Some packet, au_has_proxy = False, au_proxy = packet0, au_reply = Some (reply_template packet reply), au_proxy_reply = None,
      au_proxy_listener = None, au_received = t, au_when = tv_add t USEC, au_delay = USEC, au_child_state = REQUEST_QUEUED,
      au_priority = (if pk_code packet = PW_STATUS_SERVER then RAD_LISTEN_NONE else or_type og), au_ev = Some (wait_a_bit_cb, tv_add t USEC),
      au_next_when = tv0, au_next_callback = None, au_in_request_hash = True, au_in_proxy_hash = False, au_home_server = None, au_proxy_when = tv0,
      au_num_proxied_requests = 0, au_num_proxied_responses = 0,
      au_server = (if or_client_server og \<noteq> None then or_client_server og else or_listener_server og), au_parent = None, au_coa = None\<rparr>"

definition accept_request :: "life_config \<Rightarrow> origin \<Rightarrow> timeval \<Rightarrow> radius_packet \<Rightarrow> proxy_state \<Rightarrow> (nat option \<times> proxy_state) option" where
  "accept_request root og t packet st =
     (if or_type og \<noteq> RAD_LISTEN_DETAIL \<and> \<not> can_handle_new_request root st then Some (None, st)
      else
        let (reply, s) = rad_alloc False (pq_lib st); st = st\<lparr>pq_lib := s\<rparr>
        in map_option (\<lambda>(b, pl).
             let st = st\<lparr>pq_pl := pl\<rparr>
             in if b then (Some (length (pq_requests st)), st\<lparr>pq_requests := pq_requests st @ [Some (new_request og t packet reply)]\<rparr>)
                else (None, st\<lparr>pq_requests := pq_requests st @ [None]\<rparr>))
           (fr_packet_list_insert (pq_pl st) packet))"

definition data_len :: "radius_packet \<Rightarrow> nat" where
  "data_len p = (case pk_data p of None \<Rightarrow> 0 | Some d \<Rightarrow> length d)"

definition same_request :: "radius_packet \<Rightarrow> radius_packet \<Rightarrow> bool" where
  "same_request old packet \<longleftrightarrow> data_len old = data_len packet \<and> pk_vector old = pk_vector packet"

text \<open>Whether the request that is there makes way for a packet that is not the same; \<open>t\<close> is the time.\<close>

definition replace_old :: "timeval \<Rightarrow> timeval \<Rightarrow> nat \<Rightarrow> proxy_state \<Rightarrow> (bool \<times> proxy_state) option" where
  "replace_old now t r st =
     (let q = request_of st r
      in if au_child_state q \<in> {REQUEST_REJECT_DELAY, REQUEST_CLEANUP_DELAY, REQUEST_DONE} then
           map_option (Pair True) (cleanup_delay now r (set_request r (q\<lparr>au_child_state := REQUEST_DONE\<rparr>) st))
         else if reply_code q \<noteq> 0 \<and> (case au_reply q of None \<Rightarrow> False | Some p \<Rightarrow> pk_data p \<noteq> None) then
           map_option (Pair True) (remove_from_request_hash r st)
         else if timeval_cmp (later t (- 1)) (au_received q) < 0 then Some (False, st)
         else map_option (Pair True) (received_conflicting_request r st))"

text \<open>\<open>now\<close> is the global time, \<open>t\<close> and \<open>t'\<close> the clock when the old request is judged and when the new one is set up. The result has the new request.\<close>

definition received_request ::
    "life_config \<Rightarrow> origin \<Rightarrow> ping_input \<Rightarrow> timeval \<Rightarrow> timeval \<Rightarrow> timeval \<Rightarrow> radius_packet \<Rightarrow> proxy_state \<Rightarrow> (nat option \<times> proxy_state) option" where
  "received_request root og p now t t' packet st =
     (case fr_packet_list_find (pq_pl st) packet of
        None \<Rightarrow> accept_request root og t' packet st
      | Some packet_p \<Rightarrow>
          (case request2myptr st packet_p of
             None \<Rightarrow> None
           | Some r \<Rightarrow>
               if same_request (the (au_packet (request_of st r))) packet then
                 map_option (\<lambda>(_, st). (None, st)) (received_retransmit p now r st)
               else
                 (case replace_old now t r st of
                    None \<Rightarrow> None
                  | Some (False, st) \<Rightarrow> Some (None, st)
                  | Some (True, st) \<Rightarrow> accept_request root og t' packet st)))"

end
