(* ===== verification/Request_Safety.thy ===== *)
theory Request_Safety
  imports Request_Life
begin

text \<open>
  The list of packets from clients and the requests agree, every request waits for an event, and a packet that is received again is not processed
  again.
\<close>

section \<open>The invariant\<close>

definition inhash :: "proxy_state \<Rightarrow> nat set" where
  "inhash st = {r. live st r \<and> au_in_request_hash (request_of st r)}"

definition client_key :: "proxy_state \<Rightarrow> nat \<Rightarrow> packet_key" where
  "client_key st r = packet_key (the (au_packet (request_of st r)))"

text \<open>No request has originated another one.\<close>

definition alone :: "auth_req \<Rightarrow> bool" where
  "alone q \<longleftrightarrow> au_coa q = None \<and> au_parent q = None"

definition life_ok :: "proxy_state \<Rightarrow> bool" where
  "life_ok st \<longleftrightarrow>
     (\<exists>m. rb_rep packet_key addressed False (pl_tree (pq_pl st)) m \<and> dom m = client_key st ` inhash st) \<and> inj_on (client_key st) (inhash st) \<and>
     (\<forall>r\<in>inhash st. \<exists>p\<in>addressed. au_packet (request_of st r) = Some p) \<and> (\<forall>r. live st r \<longrightarrow> alone (request_of st r))"

definition timed :: "proxy_state \<Rightarrow> bool" where
  "timed st \<longleftrightarrow> (\<forall>r. live st r \<longrightarrow> au_ev (request_of st r) \<noteq> None)"

text \<open>What the list and the invariant look at in a request.\<close>

definition life_of :: "auth_req \<Rightarrow> bool \<times> (packet_key \<times> bool) option \<times> nat option \<times> nat option" where
  "life_of q = (au_in_request_hash q, map_option (\<lambda>p. (packet_key p, p \<in> addressed)) (au_packet q), au_coa q, au_parent q)"

definition same_life :: "proxy_state \<Rightarrow> proxy_state \<Rightarrow> bool" where
  "same_life st st' \<longleftrightarrow> pq_pl st' = pq_pl st \<and> live st' = live st \<and> (\<forall>r. live st r \<longrightarrow> life_of (request_of st' r) = life_of (request_of st r))"

lemma life_of_packet:
  assumes "life_of q' = life_of q"
  shows "packet_key (the (au_packet q')) = packet_key (the (au_packet q))"
    and "(\<exists>p\<in>addressed. au_packet q' = Some p) \<longleftrightarrow> (\<exists>p\<in>addressed. au_packet q = Some p)"
    and "au_in_request_hash q' = au_in_request_hash q" and "alone q' = alone q"
  using assms by (cases "au_packet q"; cases "au_packet q'"; auto simp: life_of_def alone_def)+

lemma same_life_inhash:
  assumes "same_life st st'"
  shows "inhash st' = inhash st" and "\<And>r. r \<in> inhash st \<Longrightarrow> client_key st' r = client_key st r"
proof -
  have life: "live st' r = live st r" "live st r \<Longrightarrow> life_of (request_of st' r) = life_of (request_of st r)" for r using assms by (simp_all add: same_life_def)
  show "inhash st' = inhash st" using life life_of_packet(3) [OF life(2)] by (auto simp: inhash_def)
  show "client_key st' r = client_key st r" if "r \<in> inhash st" for r
    unfolding client_key_def by (rule life_of_packet(1) [OF life(2)]) (use that in \<open>simp add: inhash_def\<close>)
qed

lemma same_life_ok:
  assumes "life_ok st" and "same_life st st'"
  shows "life_ok st'"
proof -
  note same = same_life_inhash [OF assms(2)]
  have "client_key st' ` inhash st' = client_key st ` inhash st" using same by auto
  moreover have "inj_on (client_key st') (inhash st') = inj_on (client_key st) (inhash st)"
    unfolding same(1) by (rule inj_on_cong) (rule same(2))
  moreover have "\<exists>p\<in>addressed. au_packet (request_of st' r) = Some p" if "r \<in> inhash st'" for r
    using assms that life_of_packet(2) [of "request_of st' r" "request_of st r"] unfolding same(1) by (simp add: same_life_def life_ok_def inhash_def)
  moreover have "\<forall>r. live st' r \<longrightarrow> alone (request_of st' r)" 
    using assms life_of_packet(4) [of "request_of st' r" "request_of st r" for r] by (auto simp: same_life_def life_ok_def)
  moreover have "pq_pl st' = pq_pl st" using assms(2) by (simp add: same_life_def)
  ultimately show ?thesis using assms(1) by (simp add: life_ok_def)
qed

lemma same_life_refl [simp]: "same_life st st"
  by (simp add: same_life_def)

lemma same_life_trans: "same_life st st' \<Longrightarrow> same_life st' st'' \<Longrightarrow> same_life st st''"
  by (auto simp: same_life_def)

lemma same_life_set: "live st r \<Longrightarrow> life_of q = life_of (request_of st r) \<Longrightarrow> same_life st (set_request r q st)"
  by (auto simp: same_life_def) (simp add: set_request_def)

lemma same_life_frame: "pq_requests st' = pq_requests st \<Longrightarrow> pq_pl st' = pq_pl st \<Longrightarrow> same_life st st'"
  using table_cong [of st' st] by (simp add: same_life_def)

lemma set_request_pl [simp]: "pq_pl (set_request r q st) = pq_pl st" "pq_sent (set_request r q st) = pq_sent st"
  by (simp_all add: set_request_def)

lemma update_home_pl [simp]: "pq_pl (update_home h f st) = pq_pl st"
  by (simp add: update_home_def split: option.split)

section \<open>The operations\<close>

lemma remove_from_request_hash_ok:
  assumes "life_ok st" and "live st r"
  shows "\<exists>st'. remove_from_request_hash r st = Some st' \<and> life_ok st' \<and> live st' = live st \<and> inhash st' = inhash st - {r} \<and>
    pq_list st' = pq_list st \<and> pq_homes st' = pq_homes st \<and>
    (\<forall>x. live st x \<longrightarrow> request_of st' x = (if x = r then (request_of st r)\<lparr>au_in_request_hash := False\<rparr> else request_of st x))"
proof (cases "r \<in> inhash st")
  case False
  then have off: "\<not> au_in_request_hash (request_of st r)" using assms(2) by (simp add: inhash_def)
  then have "(request_of st r)\<lparr>au_in_request_hash := False\<rparr> = request_of st r" by simp
  then show ?thesis using assms(1) False off by (auto simp: remove_from_request_hash_def)
next
  case True
  let ?q = "request_of st r"
  obtain m p where m: "rb_rep packet_key addressed False (pl_tree (pq_pl st)) m" "dom m = client_key st ` inhash st"
    and inj: "inj_on (client_key st) (inhash st)" and p: "p \<in> addressed" "au_packet ?q = Some p" using assms(1) True by (auto simp: life_ok_def)
  obtain y pl where y: "fr_packet_list_yank (pq_pl st) p = Some (y, pl)" "rb_rep packet_key addressed False (pl_tree pl) (m(packet_key p := None))"
    using yank_tree_rep [OF m(1) p(1)] by blast
  let ?st = "st\<lparr>pq_pl := pl\<rparr>"
  have req: "pq_requests ?st = pq_requests st" by simp
  note cong = table_cong [OF req]
  define st' where "st' = set_request r (?q\<lparr>au_in_request_hash := False\<rparr>) ?st"
  have live: "live ?st r" unfolding cong by (rule assms(2))
  have req': "request_of st' x = (if x = r then ?q\<lparr>au_in_request_hash := False\<rparr> else request_of st x)" for x
    using live by (simp add: st'_def cong)
  have live': "live st' = live st" using live by (auto simp: st'_def cong)
  have hash': "inhash st' = inhash st - {r}" using live' req' by (auto simp: inhash_def)
  have key': "client_key st' x = client_key st x" if "x \<in> inhash st - {r}" for x using that req' by (simp add: client_key_def)
  have "packet_key p = client_key st r" using p(2) by (simp add: client_key_def)
  moreover have "client_key st' ` inhash st' = client_key st ` (inhash st - {r})" unfolding hash' using key' by (rule image_cong [OF refl])
  ultimately have dom: "dom (m(packet_key p := None)) = client_key st' ` inhash st'"
    using m(2) inj_on_image_set_diff [OF inj, of "inhash st" "{r}"] True by simp
  have "inj_on (client_key st') (inhash st') = inj_on (client_key st) (inhash st')" unfolding hash' by (rule inj_on_cong) (rule key')
  then have "inj_on (client_key st') (inhash st')" unfolding hash' using inj_on_subset [OF inj Diff_subset] by simp
  moreover have "pq_pl st' = pl" by (simp add: st'_def)
  moreover have "\<exists>m. rb_rep packet_key addressed False (pl_tree pl) m \<and> dom m = client_key st' ` inhash st'" using y(2) dom by blast
  moreover have "\<forall>x\<in>inhash st'. \<exists>p\<in>addressed. au_packet (request_of st' x) = Some p" using assms(1) hash' req' by (auto simp: life_ok_def)
  moreover have "\<forall>x. live st' x \<longrightarrow> alone (request_of st' x)" using assms req' live' by (auto simp: life_ok_def alone_def)
  ultimately have "life_ok st'" by (simp add: life_ok_def)
  moreover have "remove_from_request_hash r st = Some st'" using True p(2) y(1) by (simp add: remove_from_request_hash_def inhash_def st'_def Let_def)
  moreover have "pq_list st' = pq_list st" "pq_homes st' = pq_homes st" by (simp_all add: st'_def)
  ultimately show ?thesis using live' hash' req' by blast
qed

text \<open>Freeing a request that did not originate another one.\<close>

lemma remove_from_proxy_hash_life:
  assumes "remove_from_proxy_hash r st = Some st'" and "live st r"
  shows "same_life st st' \<and> (\<forall>x. x \<noteq> r \<longrightarrow> request_of st' x = request_of st x) \<and> au_ev (request_of st' r) = au_ev (request_of st r)"
proof (cases "au_in_proxy_hash (request_of st r)")
  case True
  let ?q = "request_of st r"
  obtain pl where st': "st' = set_request r (?q\<lparr>au_in_proxy_hash := False\<rparr>)
      (update_home (if au_proxy_reply ?q = None then au_home_server ?q else None) outstanding_dec (st\<lparr>pq_list := pl\<rparr>))"
    using assms(1) True by (auto simp: remove_from_proxy_hash_def Let_def)
  let ?st = "update_home (if au_proxy_reply ?q = None then au_home_server ?q else None) outstanding_dec (st\<lparr>pq_list := pl\<rparr>)"
  have req: "pq_requests ?st = pq_requests st" by simp
  note cong = table_cong [OF req]
  have live: "live ?st r" unfolding cong by (rule assms(2))
  have "same_life st ?st" by (rule same_life_frame) simp_all
  moreover have "same_life ?st st'" unfolding st' by (rule same_life_set [OF live]) (unfold cong, simp add: life_of_def)
  ultimately have "same_life st st'" by (rule same_life_trans)
  moreover have "request_of st' x = (if x = r then ?q\<lparr>au_in_proxy_hash := False\<rparr> else request_of st x)" for x
    unfolding st' set_request_simps(6) [OF live] cong by simp
  ultimately show ?thesis by simp
qed (use assms in \<open>simp add: remove_from_proxy_hash_def\<close>)

lemma free_it_ok:
  assumes "life_ok st" and "live st r" and "free_it r st = Some st'"
  shows "life_ok st' \<and> live st' = (\<lambda>x. x \<noteq> r \<and> live st x) \<and> inhash st' = inhash st - {r} \<and> (\<forall>x. x \<noteq> r \<and> live st x \<longrightarrow> request_of st' x = request_of st x)"
proof -
  have al: "alone (request_of st r)" using assms(1,2) by (simp add: life_ok_def)
  obtain n where n: "length (pq_requests st) = Suc n" using assms(2) by (cases "pq_requests st") (auto simp: live_def)
  let ?st0 = "set_request r ((request_of st r)\<lparr>au_ev := None\<rparr>) st"
  obtain st1 st2 where st1: "remove_from_proxy_hash r ?st0 = Some st1" and st2: "remove_from_request_hash r st1 = Some st2"
      and st': "st' = st2\<lparr>pq_requests := (pq_requests st2)[r := None]\<rparr>"
    using assms(3) al by (auto simp: free_it_def n free_request_def alone_def own_coa_def Let_def split: option.split_asm)
  have s0: "same_life st ?st0" by (rule same_life_set [OF assms(2)]) (simp add: life_of_def)
  have live0: "live ?st0 r" using assms(2) by simp
  have s1: "same_life st st1" and others1: "\<forall>x. x \<noteq> r \<longrightarrow> request_of st1 x = request_of st x"
  proof -
    note f = remove_from_proxy_hash_life [OF st1 live0]
    show "same_life st st1" by (rule same_life_trans [OF s0]) (use f in blast)
    show "\<forall>x. x \<noteq> r \<longrightarrow> request_of st1 x = request_of st x" using f set_request_simps(6) [OF assms(2)] by metis
  qed
  have ok1: "life_ok st1" and live1: "live st1 r" using same_life_ok [OF assms(1) s1] s1 assms(2) by (simp_all add: same_life_def)
  from remove_from_request_hash_ok [OF ok1 live1] obtain s2 where f: "remove_from_request_hash r st1 = Some s2" "life_ok s2" "live s2 = live st1"
      "inhash s2 = inhash st1 - {r}"
      "\<forall>x. live st1 x \<longrightarrow> request_of s2 x = (if x = r then (request_of st1 r)\<lparr>au_in_request_hash := False\<rparr> else request_of st1 x)" by blast
  have eq: "s2 = st2" using f(1) st2 by simp
  have same1: "live st1 = live st" "inhash st1 = inhash st" using s1 same_life_inhash(1) [OF s1] by (simp_all add: same_life_def)
  note ok2 = f(2) [unfolded eq] and live2 = f(3) [unfolded eq same1] and in2 = f(4) [unfolded eq same1]
  have others2: "request_of st2 x = request_of st x" if "live st x" "x \<noteq> r" for x using f(5) others1 that unfolding eq same1 by simp
  have live': "live st' x \<longleftrightarrow> x \<noteq> r \<and> live st x" for x unfolding st' live2 [symmetric] by (cases "x = r") (auto simp: live_def)
  have req': "request_of st' x = request_of st2 x" if "x \<noteq> r" for x using that by (simp add: st' request_of_def)
  have "x \<in> inhash st' \<longleftrightarrow> x \<in> inhash st2" for x
  proof (cases "x = r")
    case True
    then show ?thesis using live' [of x] in2 by (simp add: inhash_def [of st'])
  next
    case False
    then show ?thesis using live' [of x] live2 req' [OF False] by (simp add: inhash_def)
  qed
  then have in': "inhash st' = inhash st2" by blast
  have key': "client_key st' x = client_key st2 x" if "x \<in> inhash st2" for x using that in2 req' [of x] by (auto simp: client_key_def)
  have "client_key st' ` inhash st' = client_key st2 ` inhash st2" unfolding in' using key' by (rule image_cong [OF refl])
  moreover have "inj_on (client_key st') (inhash st') = inj_on (client_key st2) (inhash st2)" unfolding in' by (rule inj_on_cong) (rule key')
  moreover have "\<forall>x\<in>inhash st'. \<exists>p\<in>addressed. au_packet (request_of st' x) = Some p"
    using ok2 in' in2 req' unfolding life_ok_def by (metis DiffD2 singletonI)
  moreover have "\<forall>x. live st' x \<longrightarrow> alone (request_of st' x)" using ok2 live' live2 req' unfolding life_ok_def by metis
  moreover have "pq_pl st' = pq_pl st2" by (simp add: st')
  ultimately have "life_ok st'" using ok2 by (simp add: life_ok_def)
  then show ?thesis using live' in' in2 req' others2 by (simp add: fun_eq_iff)
qed

text \<open>What an operation on one request does: the others stay, and the request is freed or has an event.\<close>

definition settled :: "nat \<Rightarrow> proxy_state \<Rightarrow> proxy_state \<Rightarrow> bool" where
  "settled r st st' \<longleftrightarrow> life_ok st' \<and> (\<forall>x. live st' x \<longrightarrow> live st x) \<and> inhash st' \<subseteq> inhash st \<and>
     (\<forall>x. x \<noteq> r \<and> live st x \<longrightarrow> live st' x \<and> request_of st' x = request_of st x) \<and> (live st' r \<longrightarrow> au_ev (request_of st' r) \<noteq> None)"

lemma free_it_settled: "life_ok st \<Longrightarrow> live st r \<Longrightarrow> free_it r st = Some st' \<Longrightarrow> settled r st st'"
  using free_it_ok [of st r st'] by (auto simp: settled_def)

lemma set_ok:
  assumes "life_ok st" and "live st r" and "life_of q = life_of (request_of st r)"
  shows "life_ok (set_request r q st)" and "inhash (set_request r q st) = inhash st"
  using same_life_ok [OF assms(1) same_life_set [OF assms(2,3)]] same_life_inhash(1) [OF same_life_set [OF assms(2,3)]] by simp_all

lemma settled_set:
  assumes "settled r (set_request r q st) st'" and "life_ok st" and "live st r" and "life_of q = life_of (request_of st r)"
  shows "settled r st st'"
  using assms(1) set_ok [OF assms(2-4)] assms(3) by (simp add: settled_def)

lemma event_settled:
  assumes "life_ok st" and "live st r"
  shows "settled r st (insert_event cb r st)"
  using set_ok [OF assms, of "(request_of st r)\<lparr>au_ev := Some (cb, au_when (request_of st r))\<rparr>"] assms(2)
  by (simp add: settled_def insert_event_def life_of_def)

lemma life_of_simps [simp]:
  "life_of (q\<lparr>au_when := w\<rparr>) = life_of q" "life_of (q\<lparr>au_ev := e\<rparr>) = life_of q" "life_of (q\<lparr>au_child_state := c\<rparr>) = life_of q"
  "life_of (q\<lparr>au_next_callback := cb\<rparr>) = life_of q" "life_of (q\<lparr>au_next_when := w\<rparr>) = life_of q"
  "life_of (q\<lparr>au_num_proxied_requests := n\<rparr>) = life_of q"
  by (simp_all add: life_of_def)

lemma wait_for_proxy_settled:
  assumes "life_ok st" and "live st r" and "wait_for_proxy_id_to_expire now r st = Some st'"
  shows "settled r st st'"
proof -
  obtain w where w: "free_it r (set_request r ((request_of st r)\<lparr>au_when := w\<rparr>) st) = Some st' \<or>
      st' = insert_event wait_for_proxy_id_to_expire_cb r (set_request r ((request_of st r)\<lparr>au_when := w\<rparr>) st)"
    using assms(3) by (auto simp: wait_for_proxy_id_to_expire_def Let_def split: if_split_asm)
  let ?st = "set_request r ((request_of st r)\<lparr>au_when := w\<rparr>) st"
  have ok: "life_ok ?st" "live ?st r" using set_ok(1) [OF assms(1,2), of "(request_of st r)\<lparr>au_when := w\<rparr>"] assms(2) by simp_all
  then have "settled r ?st st'" using w free_it_settled event_settled by blast
  then show ?thesis by (rule settled_set [OF _ assms(1,2)]) simp
qed

lemma cleanup_settled:
  assumes "life_ok st" and "live st r" and "cleanup_delay now r st = Some st'"
  shows "settled r st st' \<and> r \<notin> inhash st'"
proof -
  from remove_from_request_hash_ok [OF assms(1,2)] obtain s1 where f: "remove_from_request_hash r st = Some s1" "life_ok s1" "live s1 = live st"
      "inhash s1 = inhash st - {r}"
      "\<forall>x. live st x \<longrightarrow> request_of s1 x = (if x = r then (request_of st r)\<lparr>au_in_request_hash := False\<rparr> else request_of st x)" by blast
  have live: "live s1 r" using f(3) assms(2) by simp
  have "wait_for_proxy_id_to_expire now r s1 = Some st' \<or> free_it r s1 = Some st'"
    using assms(3) f(1) by (simp add: cleanup_delay_def split: if_split_asm)
  then have "settled r s1 st'" using wait_for_proxy_settled [OF f(2) live] free_it_settled [OF f(2) live] by blast
  moreover have "inhash st' \<subseteq> inhash s1" using calculation by (simp add: settled_def)
  ultimately show ?thesis using f(3-5) by (auto simp: settled_def)
qed

lemma tie_coa_alone: "alone (request_of st r) \<Longrightarrow> tie_coa r st = st"
  by (simp add: tie_coa_def alone_def)

lemma wait_a_bit_settled:
  assumes "life_ok st" and "live st r" and "wait_a_bit now r st = Some st'"
  shows "settled r st st'"
proof -
  have alone: "tie_coa r st = st" using assms(1,2) by (simp add: tie_coa_alone life_ok_def)
  let ?q = "request_of st r"
  let ?done = "?q\<lparr>au_child_state := REQUEST_DONE\<rparr>"
  let ?next = "?q\<lparr>au_when := au_next_when ?q, au_next_callback := None\<rparr>"
  have ok: "life_ok (set_request r ?done st)" "life_ok (set_request r ?next st)" "live (set_request r q st) r" for q
    using set_ok(1) [OF assms(1,2)] assms(2) by simp_all
  from assms(3) consider "free_it r (set_request r ?done st) = Some st'" | "cleanup_delay now r (set_request r ?done st) = Some st'"
    | "free_it r (set_request r ?next st) = Some st'" | cb where "st' = insert_event cb r (set_request r ?next st)"
    by (auto simp: wait_a_bit_def alone Let_def split: if_split_asm option.split_asm)
  then show ?thesis
  proof cases
    case 1
    from settled_set [OF free_it_settled [OF ok(1,3) this] assms(1,2)] show ?thesis by simp
  next
    case 2
    then have "settled r (set_request r ?done st) st'" using cleanup_settled [OF ok(1,3)] by blast
    from settled_set [OF this assms(1,2)] show ?thesis by simp
  next
    case 3
    from settled_set [OF free_it_settled [OF ok(2,3) this] assms(1,2)] show ?thesis by simp
  next
    case 4
    from settled_set [OF event_settled [OF ok(2,3)] assms(1,2)] show ?thesis by (simp add: 4)
  qed
qed

lemma send_reply_simps [simp]:
  "pq_requests (send_reply r st) = pq_requests st" "pq_pl (send_reply r st) = pq_pl st"
  by (simp_all add: send_reply_def split: option.split)

lemma send_reply_same:
  "live (send_reply r st) = live st" "request_of (send_reply r st) = request_of st" "inhash (send_reply r st) = inhash st" "life_ok (send_reply r st) = life_ok st"
proof -
  have "same_life st (send_reply r st)" "same_life (send_reply r st) st" by (rule same_life_frame; simp)+
  then show "inhash (send_reply r st) = inhash st" "life_ok (send_reply r st) = life_ok st"
    using same_life_inhash(1) same_life_ok by blast+
qed (simp_all add: table_cong [OF send_reply_simps(1)])

lemma settled_send: "settled r (send_reply r st) st' = settled r st st'"
  by (simp add: settled_def send_reply_same)

lemma reject_delay_settled:
  assumes "life_ok st" and "live st r"
  shows "settled r st (reject_delay root r st)"
proof -
  let ?st = "send_reply r st"
  let ?q = "(request_of ?st r)\<lparr>au_when := later (au_when (request_of ?st r)) (lc_cleanup_delay root), au_child_state := REQUEST_CLEANUP_DELAY\<rparr>"
  have ok: "life_ok ?st" "live ?st r" using assms by (simp_all add: send_reply_same)
  have ok': "life_ok (set_request r ?q ?st)" "live (set_request r ?q ?st) r" using set_ok(1) [OF ok, of ?q] ok(2) by simp_all
  have "settled r (set_request r ?q ?st) (reject_delay root r st)" unfolding reject_delay_def Let_def by (rule event_settled [OF ok'])
  then have "settled r ?st (reject_delay root r st)" by (rule settled_set [OF _ ok]) simp
  then show ?thesis by (simp only: settled_send)
qed

lemma run_event_settled:
  assumes "life_ok st" and "live st r" and "au_ev (request_of st r) \<noteq> None" and "run_request_event root now r st = Some st'"
  shows "settled r st st'"
proof -
  let ?q = "(request_of st r)\<lparr>au_ev := None\<rparr>"
  let ?st = "set_request r ?q st"
  have ok: "life_ok ?st" "live ?st r" using set_ok(1) [OF assms(1,2), of ?q] assms(2) by simp_all
  have refl: "settled r st st" using assms(1-3) by (simp add: settled_def)
  obtain cb w where ev: "au_ev (request_of st r) = Some (cb, w)" using assms(3) by auto
  consider "wait_a_bit now r ?st = Some st'" | "cleanup_delay now r ?st = Some st'" | "st' = reject_delay root r ?st"
    | "wait_for_proxy_id_to_expire now r ?st = Some st'" | "st' = st"
    using assms(4) by (cases cb) (simp_all add: run_request_event_def ev Let_def)
  then have "settled r ?st st' \<or> st' = st"
    by cases (use wait_a_bit_settled [OF ok] cleanup_settled [OF ok] reject_delay_settled [OF ok] wait_for_proxy_settled [OF ok] in auto)
  then show ?thesis using settled_set [OF _ assms(1,2), of ?q st'] refl by auto
qed

lemma settled_timed: "settled r st st' \<Longrightarrow> timed st \<Longrightarrow> timed st'"
  unfolding settled_def timed_def by metis

text \<open>The end of the processing of a request; what \<^verbatim>\<open>post-auth\<close> does leaves the packets and the event alone.\<close>

definition tame :: "(auth_req \<Rightarrow> auth_req) \<Rightarrow> bool" where
  "tame f \<longleftrightarrow> (\<forall>q. life_of (f q) = life_of q \<and> au_ev (f q) = au_ev q \<and> au_in_proxy_hash (f q) = au_in_proxy_hash q \<and> au_proxy (f q) = au_proxy q)"

lemma set_reply_code_life [simp]: "life_of (set_reply_code cd q) = life_of q" "au_ev (set_reply_code cd q) = au_ev q"
  by (simp_all add: set_reply_code_def life_of_def)

lemma until_cleanup_life [simp]: "life_of (until_cleanup secs q) = life_of q" "au_ev (until_cleanup secs q) = au_ev q"
  by (simp_all add: until_cleanup_def)

lemma schedule_life: "tame postauth \<Longrightarrow> schedule_reply root t response postauth q = (b, q') \<Longrightarrow> life_of q' = life_of q \<and> au_ev q' = au_ev q"
  by (auto simp: schedule_reply_def Let_def tame_def split: if_split_asm)

lemma set_settled:
  assumes "life_ok st" and "live st r" and "life_of q = life_of (request_of st r)" and "au_ev q \<noteq> None"
  shows "settled r st (set_request r q st)"
  using set_ok [OF assms(1-3)] assms(2,4) by (simp add: settled_def)

lemma free_pairs_life [simp]: "life_of (free_pairs q) = life_of q" "au_ev (free_pairs q) = au_ev q"
  by (cases "au_packet q"; simp add: free_pairs_def life_of_def Let_def packet_key_def addressed_def)+

lemma finish_settled:
  assumes "life_ok st" and "live st r" and "au_ev (request_of st r) \<noteq> None" and "tame postauth"
    and "finish_request root have_children detail t response postauth r st = Some st'"
  shows "settled r st st'"
proof -
  obtain b q where q: "schedule_reply root t response postauth (request_of st r) = (b, q)" by fastforce
  have life: "life_of q = life_of (request_of st r)" "au_ev q = au_ev (request_of st r)" using schedule_life [OF assms(4) q] by auto
  let ?st = "set_request r q st"
  have ok: "life_ok ?st" "live ?st r" using set_ok(1) [OF assms(1,2) life(1)] assms(2) by simp_all
  define st1 where "st1 = (if reply_code q \<noteq> 0 \<or> detail then send_reply r ?st else ?st)"
  have ok1: "life_ok st1" "live st1 r" using ok by (simp_all add: st1_def send_reply_same)
  have req1: "request_of st1 r = q" using assms(2) by (simp add: st1_def send_reply_same)
  let ?st2 = "set_request r (free_pairs q) st1"
  have life2: "life_of (free_pairs q) = life_of (request_of st1 r)" by (simp add: req1)
  have ok2: "life_ok ?st2" "live ?st2 r" using set_ok(1) [OF ok1 life2] ok1(2) by simp_all
  have through: "settled r st x" if "settled r ?st2 x" for x
  proof -
    have "settled r st1 x" by (rule settled_set [OF that ok1 life2])
    then have "settled r ?st x" by (simp add: st1_def settled_send split: if_split_asm)
    then show ?thesis by (rule settled_set [OF _ assms(1,2) life(1)])
  qed
  from assms(5) consider "st' = ?st" | "st' = ?st2" | "wait_a_bit t r ?st2 = Some st'"
    by (cases b; cases have_children) (simp_all add: finish_request_def q Let_def st1_def)
  then show ?thesis
  proof cases
    case 1
    show ?thesis unfolding 1 by (rule set_settled [OF assms(1,2) life(1)]) (use life(2) assms(3) in simp)
  next
    case 2
    have "settled r ?st2 ?st2" using ok2 life(2) assms(3) ok1(2) by (simp add: settled_def)
    then show ?thesis unfolding 2 by (rule through)
  next
    case 3
    then have "settled r ?st2 st'" by (rule wait_a_bit_settled [OF ok2])
    then show ?thesis by (rule through)
  qed
qed

section \<open>Receiving a packet\<close>

lemma find_cases:
  assumes "life_ok st" and "packet \<in> addressed"
  obtains (none) "fr_packet_list_find (pq_pl st) packet = None" "\<forall>r\<in>inhash st. client_key st r \<noteq> packet_key packet"
  | (found) p r where "fr_packet_list_find (pq_pl st) packet = Some p" "request2myptr st p = Some r" "r \<in> inhash st" "client_key st r = packet_key packet"
proof -
  obtain m where m: "rb_rep packet_key addressed False (pl_tree (pq_pl st)) m" "dom m = client_key st ` inhash st"
    and inj: "inj_on (client_key st) (inhash st)" and adr: "\<forall>r\<in>inhash st. \<exists>p\<in>addressed. au_packet (request_of st r) = Some p"
    using assms(1) by (auto simp: life_ok_def)
  have find: "fr_packet_list_find (pq_pl st) packet = m (packet_key packet)"
    using packet_tree.rbtree_find_rep [OF m(1) assms(2)] by (simp add: fr_packet_list_find_def)
  show thesis
  proof (cases "m (packet_key packet)")
    case None
    then have "packet_key packet \<notin> client_key st ` inhash st" using m(2) by auto
    then have "\<forall>r\<in>inhash st. client_key st r \<noteq> packet_key packet" by (metis imageI)
    then show thesis using None find none by simp
  next
    case (Some p)
    then have "p \<in> set (inorder (rb_root (pl_tree (pq_pl st))))" and key: "packet_key p = packet_key packet"
      using m(1) map_of_sorted [of packet_key "inorder (rb_root (pl_tree (pq_pl st)))"] by (auto simp: rb_rep_def tree_map_def)
    then have p: "p \<in> addressed" using m(1) by (auto simp: rb_rep_def)
    have "packet_key packet \<in> client_key st ` inhash st" using m(2) Some by blast
    then obtain r where r: "r \<in> inhash st" "client_key st r = packet_key packet" by (metis imageE)
    let ?P = "\<lambda>r. case pq_requests st ! r of
         None \<Rightarrow> False
       | Some q \<Rightarrow> au_in_request_hash q \<and> (case au_packet q of None \<Rightarrow> False | Some p' \<Rightarrow> packet_entry_cmp p' p = 0)"
    have P: "?P x \<longleftrightarrow> x \<in> inhash st \<and> client_key st x = packet_key p" if "x < length (pq_requests st)" for x
    proof (cases "x \<in> inhash st")
      case True
      then obtain p' where p': "p' \<in> addressed" "au_packet (request_of st x) = Some p'" using adr by blast
      then have "packet_entry_cmp p' p = 0 \<longleftrightarrow> packet_key p' = packet_key p" using fr_packet_cmp_key(2) p by (simp add: packet_entry_cmp_def)
      then show ?thesis using True p'(2) by (auto simp: inhash_def live_def request_of_def client_key_def)
    next
      case False
      then show ?thesis using that by (auto simp: inhash_def live_def request_of_def split: option.split)
    qed
    have uniq: "\<not> ?P x" if "x < length (pq_requests st)" "x \<noteq> r" for x
      unfolding P [OF that(1)] using that(2) r key inj_onD [OF inj, of x r] by metis
    have "r < length (pq_requests st)" using r(1) by (simp add: inhash_def live_def)
    moreover from this have "?P r" using P [of r] r key by metis
    ultimately have "request2myptr st p = Some r" unfolding request2myptr_def by (intro find_unique) (use uniq in auto)
    then show thesis using find Some r found by simp
  qed
qed

lemma append_request:
  "live (st\<lparr>pq_requests := pq_requests st @ [x]\<rparr>) r \<longleftrightarrow> live st r \<or> r = length (pq_requests st) \<and> x \<noteq> None"
  "live st r \<Longrightarrow> request_of (st\<lparr>pq_requests := pq_requests st @ [x]\<rparr>) r = request_of st r"
  "request_of (st\<lparr>pq_requests := pq_requests st @ [x]\<rparr>) (length (pq_requests st)) = the x"
  "\<not> live st (length (pq_requests st))"
  by (auto simp: live_def request_of_def nth_append less_Suc_eq)

text \<open>A packet that no request in the list has becomes a request, unless there are too many.\<close>

lemma accept_ok:
  assumes "life_ok st" and "packet \<in> addressed" and "\<forall>r\<in>inhash st. client_key st r \<noteq> packet_key packet"
  shows "\<exists>res st'. accept_request root og t packet st = Some (res, st') \<and> life_ok st' \<and> (\<forall>r. live st r \<longrightarrow> live st' r \<and> request_of st' r = request_of st r) \<and>
    pq_list st' = pq_list st \<and> pq_fds st' = pq_fds st \<and> pq_sent st' = pq_sent st \<and>
    (if or_type og = RAD_LISTEN_DETAIL \<or> can_handle_new_request root st
     then (\<exists>reply. res = Some (length (pq_requests st)) \<and> pq_requests st' = pq_requests st @ [Some (new_request og t packet reply)])
     else res = None \<and> st' = st)"
proof (cases "or_type og = RAD_LISTEN_DETAIL \<or> can_handle_new_request root st")
  case False
  then show ?thesis using assms(1) by (auto simp: accept_request_def)
next
  case True
  obtain m where m: "rb_rep packet_key addressed False (pl_tree (pq_pl st)) m" "dom m = client_key st ` inhash st"
    and inj: "inj_on (client_key st) (inhash st)" and adr: "\<forall>r\<in>inhash st. \<exists>p\<in>addressed. au_packet (request_of st r) = Some p"
    and al: "\<forall>r. live st r \<longrightarrow> alone (request_of st r)" using assms(1) by (auto simp: life_ok_def)
  have fresh: "packet_key packet \<notin> client_key st ` inhash st" using assms(3) by (metis imageE)
  then have none: "m (packet_key packet) = None" using m(2) by auto
  from packet_tree.tree.ins [OF m(1) assms(2)] none obtain tr where
    tr: "rb_rep packet_key addressed False tr (m(packet_key packet \<mapsto> packet))"
      "map_option (\<lambda>(b, _, tree). (b, tree)) (rbtree_insert packet_entry_cmp (pl_tree (pq_pl st)) packet) = Some (True, tr)" by auto
  then have ins: "fr_packet_list_insert (pq_pl st) packet = Some (True, (pq_pl st)\<lparr>pl_tree := tr\<rparr>)" by (auto simp: fr_packet_list_insert_def)
  obtain reply s where reply: "rad_alloc False (pq_lib st) = (reply, s)" by fastforce
  let ?n = "length (pq_requests st)"
  let ?q = "new_request og t packet reply"
  define st1 where "st1 = st\<lparr>pq_lib := s, pq_pl := (pq_pl st)\<lparr>pl_tree := tr\<rparr>\<rparr>"
  define st' where "st' = st1\<lparr>pq_requests := pq_requests st1 @ [Some ?q]\<rparr>"
  have req1: "pq_requests st1 = pq_requests st" by (simp add: st1_def)
  note cong = table_cong [OF req1]
  have res: "accept_request root og t packet st = Some (Some ?n, st')"
    using True reply ins by (auto simp: accept_request_def st'_def st1_def Let_def)
  have live': "live st' r \<longleftrightarrow> live st r \<or> r = ?n" for r using append_request(1) [of st1 "Some ?q" r, folded st'_def] unfolding cong req1 by simp
  have old: "request_of st' r = request_of st r" if "live st r" for r
    using append_request(2) [of st1 r "Some ?q", folded st'_def] that unfolding cong by simp
  have new: "request_of st' ?n = ?q" using append_request(3) [of st1 "Some ?q", folded st'_def] unfolding req1 by simp
  have q: "au_in_request_hash ?q" "au_packet ?q = Some packet" "alone ?q" by (simp_all add: new_request_def alone_def)
  have out: "?n \<notin> inhash st" using append_request(4) [of st] by (simp add: inhash_def)
  have hash': "inhash st' = insert ?n (inhash st)"
  proof (intro set_eqI)
    fix x
    show "x \<in> inhash st' \<longleftrightarrow> x \<in> insert ?n (inhash st)"
      using live' [of x] old [of x] new q(1) append_request(4) [of st] by (cases "x = ?n") (auto simp: inhash_def)
  qed
  have key': "client_key st' x = client_key st x" if "x \<in> inhash st" for x using old [of x] that by (simp add: client_key_def inhash_def)
  have keyn: "client_key st' ?n = packet_key packet" using new q(2) by (simp add: client_key_def)
  have img: "client_key st' ` inhash st = client_key st ` inhash st" using key' by (rule image_cong [OF refl])
  have "inj_on (client_key st') (inhash st) = inj_on (client_key st) (inhash st)" by (rule inj_on_cong) (rule key')
  then have "inj_on (client_key st') (inhash st')" unfolding hash' using inj fresh img keyn out by (simp add: inj_on_insert)
  moreover have "dom (m(packet_key packet \<mapsto> packet)) = client_key st' ` inhash st'" using m(2) img keyn unfolding hash' by simp
  moreover have "pl_tree (pq_pl st') = tr" by (simp add: st'_def st1_def)
  moreover have "\<exists>p\<in>addressed. au_packet (request_of st' r) = Some p" if "r \<in> inhash st'" for r
    using that unfolding hash' using adr old [of r] new q(2) assms(2) by (auto simp: inhash_def)
  moreover have "alone (request_of st' r)" if "live st' r" for r using that live' [of r] al old [of r] new q(3) by auto
  ultimately have "life_ok st'" unfolding life_ok_def using tr(1) by blast
  moreover have "pq_requests st' = pq_requests st @ [Some ?q]" by (simp add: st'_def req1)
  moreover have "pq_list st' = pq_list st" "pq_fds st' = pq_fds st" "pq_sent st' = pq_sent st" by (simp_all add: st'_def st1_def)
  ultimately show ?thesis using res True live' old by auto
qed

end
