(* ===== verification/Request_Receive.thy ===== *)
theory Request_Receive
  imports Request_Safety
begin

text \<open>
  The operations on requests return, the states the server goes through, and what becomes of a packet from a client.
\<close>

section \<open>The operations return\<close>

lemma set_proxy_ok:
  assumes "proxy_ok D st" and "live st r" and "au_in_proxy_hash q = au_in_proxy_hash (request_of st r)" and "au_proxy q = au_proxy (request_of st r)"
  shows "proxy_ok D (set_request r q st)"
  using change_ok [OF assms(1-3)] assms(4) by (simp add: proxy_of_def)

lemma pl_proxy_ok [simp]: "proxy_ok D (st\<lparr>pq_pl := pl\<rparr>) = proxy_ok D st"
  using proxy_rep_frame [of "st\<lparr>pq_pl := pl\<rparr>" st] by simp

lemma send_proxy_ok [simp]: "proxy_ok D (send_reply r st) = proxy_ok D st"
proof (cases "au_reply (request_of st r)")
  case (Some p)
  then show ?thesis using proxy_rep_frame [of "st\<lparr>pq_sent := pq_sent st @ [p]\<rparr>" st] by (simp add: send_reply_def)
qed (simp add: send_reply_def)

lemma request_hash_proxy_ok:
  assumes "proxy_ok D st" and "live st r" and "remove_from_request_hash r st = Some st'"
  shows "proxy_ok D st'"
proof (cases "au_in_request_hash (request_of st r)")
  case True
  then obtain pl where st': "st' = set_request r ((request_of st r)\<lparr>au_in_request_hash := False\<rparr>) (st\<lparr>pq_pl := pl\<rparr>)"
    using assms(3) by (auto simp: remove_from_request_hash_def Let_def split: option.split_asm)
  have req: "pq_requests (st\<lparr>pq_pl := pl\<rparr>) = pq_requests st" by simp
  note cong = table_cong [OF req]
  show ?thesis unfolding st' by (rule set_proxy_ok) (use assms(1,2) in \<open>simp_all add: cong\<close>)
qed (use assms in \<open>simp add: remove_from_request_hash_def\<close>)

lemma free_it_returns:
  assumes "dst_hash_ok D" and "proxy_ok D st" and "life_ok st" and "live st r"
  shows "\<exists>st'. free_it r st = Some st' \<and> proxy_ok D st'"
proof -
  have al: "alone (request_of st r)" using assms(3,4) by (simp add: life_ok_def)
  obtain n where n: "length (pq_requests st) = Suc n" using assms(4) by (cases "pq_requests st") (auto simp: live_def)
  let ?st0 = "set_request r ((request_of st r)\<lparr>au_ev := None\<rparr>) st"
  have ok0: "proxy_ok D ?st0" "live ?st0 r" "life_ok ?st0"
    using set_proxy_ok [OF assms(2,4)] set_ok(1) [OF assms(3,4), of "(request_of st r)\<lparr>au_ev := None\<rparr>"] assms(4) by simp_all
  obtain st1 where st1: "remove_from_proxy_hash r ?st0 = Some st1" "proxy_ok D st1" "hashed st1 = hashed ?st0 - {r}"
    using remove_ok [OF assms(1) ok0(1,2)] by blast
  have same: "same_life ?st0 st1" using remove_from_proxy_hash_life [OF st1(1) ok0(2)] by blast
  have ok1: "life_ok st1" "live st1 r" using same_life_ok [OF ok0(3) same] same ok0(2) by (simp_all add: same_life_def)
  obtain st2 where st2: "remove_from_request_hash r st1 = Some st2" "live st2 = live st1"
      "request_of st2 r = (request_of st1 r)\<lparr>au_in_request_hash := False\<rparr>"
    using remove_from_request_hash_ok [OF ok1] ok1(2) by force
  have ok2: "proxy_ok D st2" by (rule request_hash_proxy_ok [OF st1(2) ok1(2) st2(1)])
  have "r \<notin> hashed st2" using st1(3) st2(2,3) by (auto simp: hashed_def)
  from free_ok [OF ok2 this] show ?thesis
    using al st1(1) st2(1) by (simp add: free_it_def n free_request_def alone_def own_coa_def Let_def)
qed

lemma event_proxy_ok: "proxy_ok D st \<Longrightarrow> live st r \<Longrightarrow> proxy_ok D (insert_event cb r st)"
  unfolding insert_event_def by (rule set_proxy_ok) simp_all

lemma wait_for_proxy_returns:
  assumes "dst_hash_ok D" and "proxy_ok D st" and "life_ok st" and "live st r"
  shows "\<exists>st'. wait_for_proxy_id_to_expire now r st = Some st' \<and> proxy_ok D st'"
proof -
  have ok: "proxy_ok D (set_request r ((request_of st r)\<lparr>au_when := w\<rparr>) st)" "live (set_request r ((request_of st r)\<lparr>au_when := w\<rparr>) st) r"
      "life_ok (set_request r ((request_of st r)\<lparr>au_when := w\<rparr>) st)" for w
    using set_proxy_ok [OF assms(2,4)] set_ok(1) [OF assms(3,4), of "(request_of st r)\<lparr>au_when := w\<rparr>"] assms(4) by simp_all
  show ?thesis
    unfolding wait_for_proxy_id_to_expire_def Let_def using free_it_returns [OF assms(1) ok(1,3,2)] event_proxy_ok [OF ok(1,2)] by simp
qed

lemma cleanup_returns:
  assumes "dst_hash_ok D" and "proxy_ok D st" and "life_ok st" and "live st r"
  shows "\<exists>st'. cleanup_delay now r st = Some st' \<and> proxy_ok D st'"
proof -
  obtain st1 where st1: "remove_from_request_hash r st = Some st1" "life_ok st1" "live st1 = live st"
    using remove_from_request_hash_ok [OF assms(3,4)] by blast
  have "proxy_ok D st1" "live st1 r" using request_hash_proxy_ok [OF assms(2,4) st1(1)] st1(3) assms(4) by simp_all
  then show ?thesis
    using wait_for_proxy_returns [OF assms(1) _ st1(2)] free_it_returns [OF assms(1) _ st1(2)] by (simp add: cleanup_delay_def st1(1))
qed

lemma wait_a_bit_returns:
  assumes "dst_hash_ok D" and "proxy_ok D st" and "life_ok st" and "live st r"
  shows "\<exists>st'. wait_a_bit now r st = Some st' \<and> proxy_ok D st'"
proof -
  have alone: "tie_coa r st = st" using assms(3,4) by (simp add: tie_coa_alone life_ok_def)
  let ?q = "request_of st r"
  let ?done = "?q\<lparr>au_child_state := REQUEST_DONE\<rparr>"
  let ?next = "?q\<lparr>au_when := au_next_when ?q, au_next_callback := None\<rparr>"
  have ok: "proxy_ok D (set_request r ?done st)" "life_ok (set_request r ?done st)" "proxy_ok D (set_request r ?next st)" "life_ok (set_request r ?next st)"
      "live (set_request r q st) r" for q
    using set_proxy_ok [OF assms(2,4)] set_ok(1) [OF assms(3,4)] assms(4) by simp_all
  note ret = free_it_returns [OF assms(1) ok(1,2,5)] free_it_returns [OF assms(1) ok(3,4,5)] cleanup_returns [OF assms(1) ok(1,2,5)] event_proxy_ok [OF ok(3,5)]
  show ?thesis
    unfolding wait_a_bit_def Let_def alone by (simp split: option.split) (use ret in blast)
qed

lemma reject_delay_proxy_ok:
  assumes "proxy_ok D st" and "live st r"
  shows "proxy_ok D (reject_delay root r st)"
  unfolding reject_delay_def Let_def
  by (intro event_proxy_ok set_proxy_ok) (use assms in \<open>simp_all add: send_reply_same\<close>)

lemma run_event_returns:
  assumes "dst_hash_ok D" and "proxy_ok D st" and "life_ok st" and "live st r"
  shows "\<exists>st'. run_request_event root now r st = Some st' \<and> proxy_ok D st'"
proof -
  let ?st = "set_request r ((request_of st r)\<lparr>au_ev := None\<rparr>) st"
  have ok: "proxy_ok D ?st" "life_ok ?st" "live ?st r"
    using set_proxy_ok [OF assms(2,4)] set_ok(1) [OF assms(3,4), of "(request_of st r)\<lparr>au_ev := None\<rparr>"] assms(4) by simp_all
  note ret = wait_a_bit_returns [OF assms(1) ok, of now] cleanup_returns [OF assms(1) ok, of now] wait_for_proxy_returns [OF assms(1) ok, of now]
    reject_delay_proxy_ok [OF ok(1,3), of root] assms(2)
  show ?thesis
  proof (cases "au_ev (request_of st r)")
    case (Some e)
    then show ?thesis using ret by (cases e; cases "fst e") (auto simp: run_request_event_def Let_def)
  qed (use ret in \<open>simp add: run_request_event_def Let_def\<close>)
qed

lemma schedule_simps [simp]:
  "au_in_proxy_hash (until_cleanup secs q) = au_in_proxy_hash q" "au_proxy (until_cleanup secs q) = au_proxy q"
  "au_in_proxy_hash (set_reply_code cd q) = au_in_proxy_hash q" "au_proxy (set_reply_code cd q) = au_proxy q"
  by (simp_all add: until_cleanup_def set_reply_code_def)

lemma schedule_proxy:
  assumes "tame postauth" and "schedule_reply root t response postauth q = (b, q')"
  shows "au_in_proxy_hash q' = au_in_proxy_hash q \<and> au_proxy q' = au_proxy q"
proof -
  have f: "au_in_proxy_hash (postauth q) = au_in_proxy_hash q" "au_proxy (postauth q) = au_proxy q" for q using assms(1) by (simp_all add: tame_def)
  show ?thesis using assms(2) by (auto simp: schedule_reply_def Let_def f split: if_split_asm)
qed

lemma finish_returns:
  assumes "dst_hash_ok D" and "proxy_ok D st" and "life_ok st" and "live st r" and "tame postauth"
  shows "\<exists>st'. finish_request root have_children detail t response postauth r st = Some st' \<and> proxy_ok D st'"
proof -
  obtain b q where q: "schedule_reply root t response postauth (request_of st r) = (b, q)" by fastforce
  let ?st = "set_request r q st"
  have life: "life_of q = life_of (request_of st r)" using schedule_life [OF assms(5) q] by auto
  have ok: "proxy_ok D ?st" "life_ok ?st" "live ?st r"
    using set_proxy_ok [OF assms(2,4)] schedule_proxy [OF assms(5) q] set_ok(1) [OF assms(3,4) life] assms(4) by simp_all
  define st1 where "st1 = (if reply_code q \<noteq> 0 \<or> detail then send_reply r ?st else ?st)"
  have ok1: "proxy_ok D st1" "life_ok st1" "live st1 r" and req1: "request_of st1 r = q" using ok assms(4) by (simp_all add: st1_def send_reply_same)
  let ?st2 = "set_request r (free_pairs q) st1"
  have "same_address (proxy_of st1 r) (au_proxy (free_pairs q))" "au_in_proxy_hash (free_pairs q) = au_in_proxy_hash (request_of st1 r)"
    by (simp_all add: proxy_of_def req1 free_pairs_def Let_def same_address_def)
  then have ok2: "proxy_ok D ?st2" "life_ok ?st2" "live ?st2 r"
    using change_ok [OF ok1(1,3)] set_ok(1) [OF ok1(2,3), of "free_pairs q"] ok1(3) req1 by simp_all
  show ?thesis
    using wait_a_bit_returns [OF assms(1) ok2, of t] ok(1) ok2(1) by (cases b) (simp_all add: finish_request_def q Let_def st1_def)
qed

section \<open>Receiving a packet\<close>

text \<open>What is sent to the client when a packet of a request comes again.\<close>

definition sent_again :: "auth_req \<Rightarrow> radius_packet list" where
  "sent_again q =
     (if au_child_state q \<in> {REQUEST_CLEANUP_DELAY, REQUEST_DONE} \<and> reply_code q \<noteq> 0 then (case au_reply q of None \<Rightarrow> [] | Some p \<Rightarrow> [p]) else [])"

text \<open>What an operation that only serves an old request leaves: the list, the requests in it and their events.\<close>

definition undisturbed :: "nat \<Rightarrow> proxy_state \<Rightarrow> proxy_state \<Rightarrow> bool" where
  "undisturbed r st st' \<longleftrightarrow> same_life st st' \<and> length (pq_requests st') = length (pq_requests st) \<and>
     (\<forall>x. x \<noteq> r \<longrightarrow> request_of st' x = request_of st x) \<and>
     au_ev (request_of st' r) = au_ev (request_of st r) \<and> au_child_state (request_of st' r) = au_child_state (request_of st r) \<and>
     au_reply (request_of st' r) = au_reply (request_of st r) \<and> au_packet (request_of st' r) = au_packet (request_of st r)"

lemma undisturbed_refl [simp]: "undisturbed r st st"
  by (simp add: undisturbed_def)

lemma undisturbed_frame: "pq_requests st' = pq_requests st \<Longrightarrow> pq_pl st' = pq_pl st \<Longrightarrow> undisturbed r st st'"
  using table_cong [of st' st] same_life_frame [of st' st] by (simp add: undisturbed_def)

lemma undisturbed_trans: "undisturbed r st st' \<Longrightarrow> undisturbed r st' st'' \<Longrightarrow> undisturbed r st st''"
  unfolding undisturbed_def using same_life_trans by metis

lemma remove_undisturbed:
  assumes "remove_from_proxy_hash r st = Some st'" and "live st r"
  shows "undisturbed r st st' \<and> pq_sent st' = pq_sent st"
proof (cases "au_in_proxy_hash (request_of st r)")
  case True
  let ?q = "request_of st r"
  obtain pl where st': "st' = set_request r (?q\<lparr>au_in_proxy_hash := False\<rparr>)
      (update_home (if au_proxy_reply ?q = None then au_home_server ?q else None) outstanding_dec (st\<lparr>pq_list := pl\<rparr>))"
    using assms(1) True by (auto simp: remove_from_proxy_hash_def Let_def)
  let ?st = "update_home (if au_proxy_reply ?q = None then au_home_server ?q else None) outstanding_dec (st\<lparr>pq_list := pl\<rparr>)"
  have req: "pq_requests ?st = pq_requests st" by simp
  note cong = table_cong [OF req]
  have live: "live ?st r" unfolding cong by (rule assms(2))
  have "request_of st' x = (if x = r then ?q\<lparr>au_in_proxy_hash := False\<rparr> else request_of st x)" for x
    unfolding st' set_request_simps(6) [OF live] cong by simp
  moreover have "length (pq_requests st') = length (pq_requests st)" by (simp add: st' set_request_def)
  moreover have "pq_sent st' = pq_sent st" by (simp add: st' update_home_def split: option.split)
  moreover have "same_life st st'" using remove_from_proxy_hash_life [OF assms] by blast
  ultimately show ?thesis by (simp add: undisturbed_def)
qed (use assms in \<open>simp add: remove_from_proxy_hash_def\<close>)

lemma set_undisturbed:
  assumes "live st r" and "life_of q = life_of (request_of st r)" and "au_ev q = au_ev (request_of st r)" and "au_child_state q = au_child_state (request_of st r)"
    and "au_reply q = au_reply (request_of st r)" and "au_packet q = au_packet (request_of st r)"
  shows "undisturbed r st (set_request r q st)"
  using assms same_life_set [OF assms(1,2)] by (simp add: undisturbed_def) (simp add: set_request_def)

lemma retransmit_ok:
  assumes "dst_hash_ok D" and "proxy_ok D st" and "live st r"
  shows "\<exists>res st'. received_retransmit p now r st = Some (res, st') \<and> proxy_ok D st' \<and> undisturbed r st st' \<and>
    pq_sent st' = pq_sent st @ sent_again (request_of st r) \<and> (res = Failed_over \<or> pq_list st' = pq_list st)"
proof (cases "au_child_state (request_of st r) = REQUEST_PROXIED \<and> packet_code (request_of st r) = PW_AUTHENTICATION_REQUEST")
  case True
  let ?q = "request_of st r"
  obtain home s where z: "check_for_zombie_home_server p now (au_when ?q) (pq_homes st (the (au_home_server ?q))) (pq_lib st) = (home, s)" by fastforce
  define st1 where "st1 = st\<lparr>pq_homes := (pq_homes st)(the (au_home_server ?q) := home), pq_lib := s\<rparr>"
  have req: "pq_requests st1 = pq_requests st" by (simp add: st1_def)
  note cong = table_cong [OF req]
  have ok1: "proxy_ok D st1" "live st1 r" using assms(2,3) proxy_rep_frame [of st1 st] by (simp_all add: cong) (simp add: st1_def)
  have und1: "undisturbed r st st1" by (rule undisturbed_frame) (simp_all add: st1_def)
  obtain st2 where st2: "remove_from_proxy_hash r st1 = Some st2" "proxy_ok D st2" using remove_ok [OF assms(1) ok1] by blast
  let ?st3 = "set_request r (?q\<lparr>au_num_proxied_requests := au_num_proxied_requests ?q + 1\<rparr>) st1"
  have "proxy_ok D ?st3" by (rule set_proxy_ok [OF ok1]) (simp_all add: cong)
  moreover have "undisturbed r st1 ?st3" by (rule set_undisturbed [OF ok1(2)]) (simp_all add: cong)
  moreover have "pq_sent st1 = pq_sent st" "pq_list st1 = pq_list st" by (simp_all add: st1_def)
  moreover have "sent_again ?q = []" using True by (simp add: sent_again_def)
  moreover have "received_retransmit p now r st = Some (Failed_over, st2) \<or> received_retransmit p now r st = Some (Resent_proxied, ?st3)"
    using True z st2(1) by (simp add: received_retransmit_def Let_def st1_def)
  ultimately show ?thesis using remove_undisturbed [OF st2(1) ok1(2)] st2(2) undisturbed_trans [OF und1] by auto
next
  case False
  have send: "undisturbed r st (send_reply r st)" "pq_list (send_reply r st) = pq_list st"
    by (rule undisturbed_frame) (simp_all add: send_reply_def split: option.split)
  have "\<exists>res. received_retransmit p now r st = Some (res, if sent_again (request_of st r) = [] then st else send_reply r st)"
    using False by (cases "au_child_state (request_of st r)")
      (auto simp: received_retransmit_def sent_again_def reply_code_def send_reply_def Let_def split: option.split)
  moreover have "pq_sent (send_reply r st) = pq_sent st @ sent_again (request_of st r)" if "sent_again (request_of st r) \<noteq> []"
    using that by (auto simp: sent_again_def send_reply_def split: option.split_asm if_split_asm)
  ultimately show ?thesis using assms(2) send by auto
qed

lemma undisturbed_ok:
  assumes "undisturbed r st st'" and "life_ok st" and "timed st"
  shows "life_ok st'" and "timed st'"
proof -
  have "same_life st st'" using assms(1) by (simp add: undisturbed_def)
  then show "life_ok st'" by (rule same_life_ok [OF assms(2)])
  have "live st' = live st" using \<open>same_life st st'\<close> by (simp add: same_life_def)
  moreover have "au_ev (request_of st' x) = au_ev (request_of st x)" for x using assms(1) by (cases "x = r") (simp_all add: undisturbed_def)
  ultimately show "timed st'" using assms(3) by (simp add: timed_def)
qed

text \<open>When the old request stays: it is not finished, its reply is not encoded, and it is not a second old.\<close>

definition keeps_old :: "timeval \<Rightarrow> auth_req \<Rightarrow> bool" where
  "keeps_old t q \<longleftrightarrow>
     au_child_state q \<notin> {REQUEST_REJECT_DELAY, REQUEST_CLEANUP_DELAY, REQUEST_DONE} \<and>
     \<not> (reply_code q \<noteq> 0 \<and> (case au_reply q of None \<Rightarrow> False | Some p \<Rightarrow> pk_data p \<noteq> None)) \<and> timeval_cmp (later t (- 1)) (au_received q) < 0"

lemma replace_ok:
  assumes "dst_hash_ok D" and "proxy_ok D st" and "life_ok st" and "timed st" and "live st r"
  shows "\<exists>b st'. replace_old now t r st = Some (b, st') \<and> (b \<longleftrightarrow> \<not> keeps_old t (request_of st r)) \<and> proxy_ok D st' \<and> life_ok st' \<and> timed st' \<and>
    (\<forall>x. live st' x \<longrightarrow> live st x) \<and> (\<forall>x. x \<noteq> r \<and> live st x \<longrightarrow> live st' x \<and> request_of st' x = request_of st x) \<and>
    (if b then inhash st' = inhash st - {r} else st' = st)"
proof -
  let ?q = "request_of st r"
  show ?thesis
  proof (cases "au_child_state ?q \<in> {REQUEST_REJECT_DELAY, REQUEST_CLEANUP_DELAY, REQUEST_DONE}")
    case True
    let ?d = "?q\<lparr>au_child_state := REQUEST_DONE\<rparr>"
    let ?st = "set_request r ?d st"
    have ok: "proxy_ok D ?st" "life_ok ?st" "live ?st r" and same: "inhash ?st = inhash st"
      using set_proxy_ok [OF assms(2,5)] set_ok [OF assms(3,5), of ?d] assms(5) by simp_all
    obtain st' where st': "cleanup_delay now r ?st = Some st'" "proxy_ok D st'" using cleanup_returns [OF assms(1) ok] by blast
    then have set1: "settled r ?st st'" "r \<notin> inhash st'" using cleanup_settled [OF ok(2,3)] by blast+
    have set0: "settled r st st'" by (rule settled_set [OF set1(1) assms(3,5)]) simp
    have "inhash st - {r} \<subseteq> inhash st'" using set0 by (auto simp: settled_def inhash_def)
    moreover have "inhash st' \<subseteq> inhash st" using set0 by (simp add: settled_def)
    ultimately have "inhash st' = inhash st - {r}" using set1(2) by blast
    then show ?thesis using st' set0 settled_timed [OF set0 assms(4)] True by (auto simp: replace_old_def Let_def keeps_old_def settled_def)
  next
    case False
    from remove_from_request_hash_ok [OF assms(3,5)] obtain st' where f: "remove_from_request_hash r st = Some st'" "life_ok st'" "live st' = live st"
        "inhash st' = inhash st - {r}"
        "\<forall>x. live st x \<longrightarrow> request_of st' x = (if x = r then ?q\<lparr>au_in_request_hash := False\<rparr> else request_of st x)" by blast
    have ok: "proxy_ok D st'" by (rule request_hash_proxy_ok [OF assms(2,5) f(1)])
    have "timed st'" using assms(4,5) f(3,5) by (simp add: timed_def)
    then show ?thesis
      using False f ok assms(2-4) by (auto simp: replace_old_def Let_def keeps_old_def received_conflicting_request_def)
  qed
qed

text \<open>A packet becomes a request when it is from a detail file or there are not too many requests.\<close>

definition accepted :: "life_config \<Rightarrow> origin \<Rightarrow> timeval \<Rightarrow> radius_packet \<Rightarrow> proxy_state \<Rightarrow> nat option \<Rightarrow> proxy_state \<Rightarrow> bool" where
  "accepted root og t packet st res st' \<longleftrightarrow>
     (\<forall>r. live st r \<longrightarrow> live st' r \<and> request_of st' r = request_of st r) \<and>
     (if or_type og = RAD_LISTEN_DETAIL \<or> can_handle_new_request root st
      then (\<exists>reply. res = Some (length (pq_requests st)) \<and> pq_requests st' = pq_requests st @ [Some (new_request og t packet reply)])
      else res = None \<and> st' = st)"

lemma accept_returns:
  assumes "proxy_ok D st" and "life_ok st" and "timed st" and "packet \<in> addressed" and "\<forall>r\<in>inhash st. client_key st r \<noteq> packet_key packet"
  shows "\<exists>res st'. accept_request root og t packet st = Some (res, st') \<and> accepted root og t packet st res st' \<and> pq_sent st' = pq_sent st \<and>
    proxy_ok D st' \<and> life_ok st' \<and> timed st'"
proof -
  obtain res st' where a: "accept_request root og t packet st = Some (res, st')" "life_ok st'" "accepted root og t packet st res st'"
      "pq_list st' = pq_list st" "pq_fds st' = pq_fds st" "pq_sent st' = pq_sent st"
    using accept_ok [OF assms(2,4,5), of root og t] unfolding accepted_def by auto
  have "proxy_ok D st' \<and> timed st'"
  proof (cases "or_type og = RAD_LISTEN_DETAIL \<or> can_handle_new_request root st")
    case True
    then obtain reply where req: "pq_requests st' = pq_requests st @ [Some (new_request og t packet reply)]" using a(3) by (auto simp: accepted_def)
    let ?q = "new_request og t packet reply"
    let ?st = "st\<lparr>pq_requests := pq_requests st @ [Some ?q]\<rparr>"
    have "\<not> au_in_proxy_hash ?q" by (simp add: new_request_def)
    then have "proxy_ok D ?st" using arrive_ok [OF assms(1)] by blast
    moreover have eq: "pq_requests st' = pq_requests ?st" using req by simp
    ultimately have "proxy_ok D st'" using proxy_rep_frame [of st' ?st] a(4,5) by simp
    moreover have "au_ev ?q \<noteq> None" by (simp add: new_request_def)
    then have "timed ?st"
      using assms(3) append_request(1) [of st "Some ?q"] append_request(2) [of st _ "Some ?q"] append_request(3) [of st "Some ?q"]
      by (auto simp: timed_def)
    then have "timed st'" using table_cong [OF eq] by (simp add: timed_def)
    ultimately show ?thesis by blast
  next
    case False
    then show ?thesis using a(3) assms(1,3) by (simp add: accepted_def)
  qed
  then show ?thesis using a by blast
qed

text \<open>The home server of a proxied request is found dead: then the request is given to another one.\<close>

definition fails_over :: "ping_input \<Rightarrow> timeval \<Rightarrow> proxy_state \<Rightarrow> nat \<Rightarrow> bool" where
  "fails_over p now st r \<longleftrightarrow> (case received_retransmit p now r st of Some (Failed_over, _) \<Rightarrow> True | _ \<Rightarrow> False)"

lemma received_duplicate:
  assumes "dst_hash_ok D" and "proxy_ok D st" and "life_ok st" and "packet \<in> addressed" and "r \<in> inhash st" and "client_key st r = packet_key packet"
    and "same_request (the (au_packet (request_of st r))) packet"
  shows "\<exists>st'. received_request root og p now t t' packet st = Some (None, st') \<and> proxy_ok D st' \<and> undisturbed r st st' \<and>
    pq_sent st' = pq_sent st @ sent_again (request_of st r) \<and> (fails_over p now st r \<or> pq_list st' = pq_list st)"
  using assms(3,4)
proof (cases rule: find_cases)
  case none
  then show ?thesis using assms(5,6) by blast
next
  case (found x r')
  have "inj_on (client_key st) (inhash st)" using assms(3) by (simp add: life_ok_def)
  then have "r' = r" using found(3,4) assms(5,6) by (metis inj_onD)
  moreover have "live st r" using assms(5) by (simp add: inhash_def)
  from retransmit_ok [OF assms(1,2) this, of p now] obtain res st' where
    "received_retransmit p now r st = Some (res, st')" "proxy_ok D st'" "undisturbed r st st'" "pq_sent st' = pq_sent st @ sent_again (request_of st r)"
    "res = Failed_over \<or> pq_list st' = pq_list st" by blast
  ultimately show ?thesis using found(1,2) assms(7) by (auto simp: received_request_def fails_over_def)
qed

text \<open>
  A packet that is not the same as one that is there: it is dropped when the request with its address and identifier stays, otherwise that request leaves
  the list first.
\<close>

definition made_way :: "radius_packet \<Rightarrow> proxy_state \<Rightarrow> proxy_state \<Rightarrow> bool" where
  "made_way packet st st' \<longleftrightarrow> inhash st' = {r \<in> inhash st. client_key st r \<noteq> packet_key packet} \<and> (\<forall>r. live st' r \<longrightarrow> live st r) \<and>
     (\<forall>r. live st r \<and> \<not> (r \<in> inhash st \<and> client_key st r = packet_key packet) \<longrightarrow> live st' r \<and> request_of st' r = request_of st r)"

lemma received_new:
  assumes "dst_hash_ok D" and "proxy_ok D st" and "life_ok st" and "timed st" and "packet \<in> addressed"
    and "\<forall>r\<in>inhash st. client_key st r = packet_key packet \<longrightarrow> \<not> same_request (the (au_packet (request_of st r))) packet"
  shows "\<exists>res st'. received_request root og p now t t' packet st = Some (res, st') \<and> proxy_ok D st' \<and> life_ok st' \<and> timed st' \<and>
    (if \<exists>r\<in>inhash st. client_key st r = packet_key packet \<and> keeps_old t (request_of st r) then res = None \<and> st' = st
     else \<exists>st1. made_way packet st st1 \<and> life_ok st1 \<and> accepted root og t' packet st1 res st')"
  using assms(3,5)
proof (cases rule: find_cases)
  case none
  obtain res st' where a: "accept_request root og t' packet st = Some (res, st')" "accepted root og t' packet st res st'" "proxy_ok D st'" "life_ok st'" "timed st'"
    using accept_returns [OF assms(2-5) none(2), of root og t'] by blast
  moreover have "made_way packet st st" using none(2) by (auto simp: made_way_def)
  ultimately show ?thesis using none assms(3) by (auto simp: received_request_def)
next
  case (found x r)
  have inj: "inj_on (client_key st) (inhash st)" using assms(3) by (simp add: life_ok_def)
  have only: "r' = r" if "r' \<in> inhash st" "client_key st r' = packet_key packet" for r' using that found(3,4) inj by (metis inj_onD)
  have live: "live st r" using found(3) by (simp add: inhash_def)
  have differs: "\<not> same_request (the (au_packet (request_of st r))) packet" using assms(6) found(3,4) by blast
  obtain b st1 where b: "replace_old now t r st = Some (b, st1)" "b \<longleftrightarrow> \<not> keeps_old t (request_of st r)" "proxy_ok D st1" "life_ok st1" "timed st1"
      "\<forall>x. live st1 x \<longrightarrow> live st x" "\<forall>x. x \<noteq> r \<and> live st x \<longrightarrow> live st1 x \<and> request_of st1 x = request_of st x"
      "if b then inhash st1 = inhash st - {r} else st1 = st"
    using replace_ok [OF assms(1-4) live, of now t] by blast
  show ?thesis
  proof (cases b)
    case False
    then have "received_request root og p now t t' packet st = Some (None, st)"
      using found(1,2) differs b(1,8) by (simp add: received_request_def)
    moreover have "\<exists>r\<in>inhash st. client_key st r = packet_key packet \<and> keeps_old t (request_of st r)" using False b(2) found(3,4) by blast
    ultimately show ?thesis using assms(2-4) by simp
  next
    case True
    then have hash1: "inhash st1 = inhash st - {r}" using b(8) by simp
    have same1: "client_key st1 x = client_key st x" if "x \<in> inhash st1" for x
      using that b(7) unfolding hash1 by (auto simp: client_key_def inhash_def)
    have free: "\<forall>x\<in>inhash st1. client_key st1 x \<noteq> packet_key packet" using same1 only unfolding hash1 by fastforce
    obtain res st' where a: "accept_request root og t' packet st1 = Some (res, st')" "accepted root og t' packet st1 res st'" "proxy_ok D st'" "life_ok st'" "timed st'"
      using accept_returns [OF b(3-5) assms(5) free, of root og t'] by blast
    have "x \<in> inhash st1 \<longleftrightarrow> x \<in> inhash st \<and> client_key st x \<noteq> packet_key packet" for x
      using only [of x] found(4) unfolding hash1 by (cases "x = r") auto
    then have "inhash st1 = {x \<in> inhash st. client_key st x \<noteq> packet_key packet}" by blast
    moreover have "x \<noteq> r" if "\<not> (x \<in> inhash st \<and> client_key st x = packet_key packet)" for x using that found(3,4) by metis
    ultimately have "made_way packet st st1" using b(6,7) by (simp add: made_way_def)
    moreover have "\<not> (\<exists>r\<in>inhash st. client_key st r = packet_key packet \<and> keeps_old t (request_of st r))" using True b(2) only by blast
    moreover have "received_request root og p now t t' packet st = Some (res, st')"
      using found(1,2) differs b(1) True a(1) by (simp add: received_request_def)
    ultimately show ?thesis using a b(4) by auto
  qed
qed

lemma received_ok:
  assumes "dst_hash_ok D" and "proxy_ok D st" and "life_ok st" and "timed st" and "packet \<in> addressed"
  shows "\<exists>res st'. received_request root og p now t t' packet st = Some (res, st') \<and> proxy_ok D st' \<and> life_ok st' \<and> timed st'"
proof (cases "\<exists>r\<in>inhash st. client_key st r = packet_key packet \<and> same_request (the (au_packet (request_of st r))) packet")
  case True
  then obtain r where r: "r \<in> inhash st" "client_key st r = packet_key packet" "same_request (the (au_packet (request_of st r))) packet" by blast
  from received_duplicate [OF assms(1-3,5) this] show ?thesis using undisturbed_ok [OF _ assms(3,4)] by blast
next
  case False
  then show ?thesis using received_new [OF assms] by blast
qed

section \<open>Histories\<close>

text \<open>
  What the rest of the server does between the steps: the table of proxied requests stays consistent, as \<open>Proxy_Ids\<close> shows of its operations; the list of
  packets, the packets of clients and the links between requests are left alone; requests that are not in the list (status checks) come and go; and
  each request that is there has an event.
\<close>

definition elsewhere_ok :: "proxy_state \<Rightarrow> proxy_state \<Rightarrow> bool" where
  "elsewhere_ok st st' \<longleftrightarrow> pq_pl st' = pq_pl st \<and> (\<forall>r\<in>inhash st. live st' r) \<and>
     (\<forall>r. live st' r \<longrightarrow> au_ev (request_of st' r) \<noteq> None \<and>
        (live st r \<and> life_of (request_of st' r) = life_of (request_of st r) \<or>
         \<not> live st r \<and> \<not> au_in_request_hash (request_of st' r) \<and> alone (request_of st' r)))"

inductive request_history :: "dest set \<Rightarrow> proxy_state \<Rightarrow> bool" for D where
  init: "request_history D (proxy_init homes s)"
| received: "request_history D st \<Longrightarrow> packet \<in> addressed \<Longrightarrow> received_request root og p now t t' packet st = Some (res, st') \<Longrightarrow> request_history D st'"
| finished: "request_history D st \<Longrightarrow> live st r \<Longrightarrow> tame postauth \<Longrightarrow>
    finish_request root have_children detail t response postauth r st = Some st' \<Longrightarrow> request_history D st'"
| timer: "request_history D st \<Longrightarrow> live st r \<Longrightarrow> run_request_event root now r st = Some st' \<Longrightarrow> request_history D st'"
| elsewhere: "request_history D st \<Longrightarrow> proxy_ok D st' \<Longrightarrow> elsewhere_ok st st' \<Longrightarrow> request_history D st'"

lemma elsewhere_life_ok:
  assumes "life_ok st" and "elsewhere_ok st st'"
  shows "life_ok st'" and "timed st'"
proof -
  have life: "life_of (request_of st' r) = life_of (request_of st r)" if "live st r" "live st' r" for r using assms(2) that unfolding elsewhere_ok_def by blast
  have "r \<in> inhash st' \<longleftrightarrow> r \<in> inhash st" for r
  proof
    assume r: "r \<in> inhash st'"
    then have "live st r" using assms(2) unfolding elsewhere_ok_def inhash_def by blast
    then show "r \<in> inhash st" using r life_of_packet(3) [OF life, of r] by (simp add: inhash_def)
  next
    assume r: "r \<in> inhash st"
    then have "live st' r" using assms(2) unfolding elsewhere_ok_def by blast
    then show "r \<in> inhash st'" using r life_of_packet(3) [OF life, of r] by (simp add: inhash_def)
  qed
  then have hash: "inhash st' = inhash st" by blast
  have both: "live st r \<and> live st' r" if "r \<in> inhash st" for r using that assms(2) by (auto simp: elsewhere_ok_def inhash_def)
  have key: "client_key st' r = client_key st r" if "r \<in> inhash st" for r
    unfolding client_key_def by (rule life_of_packet(1)) (use life both [OF that] in blast)
  have "client_key st' ` inhash st' = client_key st ` inhash st" unfolding hash using key by (rule image_cong [OF refl])
  moreover have "inj_on (client_key st') (inhash st') = inj_on (client_key st) (inhash st)" unfolding hash by (rule inj_on_cong) (rule key)
  moreover have "\<exists>p\<in>addressed. au_packet (request_of st' r) = Some p" if "r \<in> inhash st'" for r
    using that assms(1) life_of_packet(2) [OF life] both unfolding hash life_ok_def by blast
  moreover have "alone (request_of st' r)" if "live st' r" for r
    using that assms life_of_packet(4) [OF life, of r] unfolding elsewhere_ok_def life_ok_def by blast
  moreover have "pq_pl st' = pq_pl st" using assms(2) by (simp add: elsewhere_ok_def)
  ultimately show "life_ok st'" using assms(1) by (simp add: life_ok_def)
  show "timed st'" using assms(2) by (simp add: elsewhere_ok_def timed_def)
qed

lemma init_life_ok: "life_ok (proxy_init homes s)" "timed (proxy_init homes s)"
proof -
  have no: "\<not> live (proxy_init homes s) r" for r by (simp add: live_def proxy_init_def)
  then have "inhash (proxy_init homes s) = {}" by (simp add: inhash_def)
  moreover have "rb_rep packet_key addressed False (pl_tree (fr_packet_list_create False)) Map.empty"
    using packet_tree.rbtree_create_rep by (simp add: fr_packet_list_create_def)
  ultimately show "life_ok (proxy_init homes s)" using no by (auto simp: life_ok_def proxy_init_def)
  show "timed (proxy_init homes s)" using no by (simp add: timed_def)
qed

lemma request_history_ok:
  assumes "dst_hash_ok D" and "request_history D st"
  shows "proxy_ok D st \<and> life_ok st \<and> timed st"
  using assms(2)
proof induction
  case (init homes s)
  then show ?case using init_ok init_life_ok by blast
next
  case (received st packet root og p now t t' res st')
  then show ?case using received_ok [OF assms(1), of st packet root og p now t t'] by auto
next
  case (finished st r postauth root have_children detail t response st')
  then have ev: "au_ev (request_of st r) \<noteq> None" by (simp add: timed_def)
  obtain st'' where "finish_request root have_children detail t response postauth r st = Some st''" "proxy_ok D st''"
    using finish_returns [OF assms(1) _ _ finished.hyps(2,3)] finished.IH by blast
  moreover have "settled r st st'" using finish_settled [OF _ finished.hyps(2) ev finished.hyps(3,4)] finished.IH by blast
  moreover have "timed st'" "life_ok st'" using settled_timed [OF calculation(3)] finished.IH calculation(3) by (simp_all add: settled_def)
  ultimately show ?case using finished.hyps(4) by simp
next
  case (timer st r root now st')
  then have ev: "au_ev (request_of st r) \<noteq> None" by (simp add: timed_def)
  obtain st'' where "run_request_event root now r st = Some st''" "proxy_ok D st''"
    using run_event_returns [OF assms(1) _ _ timer.hyps(2)] timer.IH by blast
  moreover have "settled r st st'" using run_event_settled [OF _ timer.hyps(2) ev timer.hyps(3)] timer.IH by blast
  moreover have "timed st'" "life_ok st'" using settled_timed [OF calculation(3)] timer.IH calculation(3) by (simp_all add: settled_def)
  ultimately show ?case using timer.hyps(3) by simp
next
  case (elsewhere st st')
  then show ?case using elsewhere_life_ok by blast
qed

section \<open>The properties\<close>

lemma list_of_clients:
  assumes "life_ok st"
  shows "packet_key ` set (inorder (rb_root (pl_tree (pq_pl st)))) = client_key st ` inhash st"
    and "fr_packet_list_num_elements (pq_pl st) = int (card (inhash st))"
proof -
  obtain m where m: "rb_rep packet_key addressed False (pl_tree (pq_pl st)) m" "dom m = client_key st ` inhash st" and inj: "inj_on (client_key st) (inhash st)"
    using assms by (auto simp: life_ok_def)
  have "dom m = packet_key ` set (inorder (rb_root (pl_tree (pq_pl st))))"
    using m(1) by (auto simp: rb_rep_def tree_map_def dom_map_of_conv_image_fst image_image)
  then show "packet_key ` set (inorder (rb_root (pl_tree (pq_pl st)))) = client_key st ` inhash st" using m(2) by simp
  have "nat (fr_packet_list_num_elements (pq_pl st)) = card (inhash st)"
    using packet_tree.tree.count [OF m(1)] m(2) card_image [OF inj] by (simp add: fr_packet_list_num_elements_def)
  moreover have "0 \<le> fr_packet_list_num_elements (pq_pl st)"
    using m(1) by (simp add: rb_rep_def fr_packet_list_num_elements_def rbtree_num_elements_def)
  ultimately show "fr_packet_list_num_elements (pq_pl st) = int (card (inhash st))" by simp
qed




text \<open>An Access-Request from a client, and the server that just started.\<close>

definition sample_client :: radius_packet where
  "sample_client = packet0\<lparr>pk_sockfd := 7, pk_id := 3, pk_src_ipaddr := \<lparr>ip_af = AF_INET, ip_addr = [10, 0, 0, 9], ip_scope = 0\<rparr>, pk_src_port := 5000,
     pk_dst_ipaddr := \<lparr>ip_af = AF_INET, ip_addr = [10, 0, 0, 1], ip_scope = 0\<rparr>, pk_dst_port := 1812, pk_code := PW_AUTHENTICATION_REQUEST,
     pk_vector := zeros 16, pk_data := Some (zeros 20)\<rparr>"

definition sample_origin :: origin where
  "sample_origin = \<lparr>or_type = RAD_LISTEN_AUTH, or_listener_server = None, or_client_server = None\<rparr>"

definition sample_root :: life_config where
  "sample_root = \<lparr>lc_max_requests = 1024, lc_max_request_time = 30, lc_cleanup_delay = 5, lc_reject_delay = 1\<rparr>"

abbreviation sample_start :: proxy_state where
  "sample_start \<equiv> proxy_init (\<lambda>_. sample_home) (lib_start 0 0)"

definition sample_ping :: ping_input where
  "sample_ping = \<lparr>pi_now = tv0, pi_start = tv0, pi_inserted = True, pi_sent = tv0\<rparr>"

lemma sample_client_addressed: "sample_client \<in> addressed"
  by (simp add: sample_client_def addressed_def ip_valid_def)

lemma start_empty: "inhash sample_start = {}" "\<not> live sample_start r"
  by (simp_all add: inhash_def live_def proxy_init_def)

lemma accepted_hash:
  assumes "accepted root og t packet st res st'"
  shows "res = None \<and> st' = st \<or>
    (\<exists>n reply. res = Some n \<and> \<not> live st n \<and> live st' n \<and> request_of st' n = new_request og t packet reply \<and> inhash st' = insert n (inhash st))"
proof (cases "or_type og = RAD_LISTEN_DETAIL \<or> can_handle_new_request root st")
  case True
  let ?n = "length (pq_requests st)"
  obtain reply where res: "res = Some ?n" and req: "pq_requests st' = pq_requests st @ [Some (new_request og t packet reply)]"
    and old: "\<forall>r. live st r \<longrightarrow> live st' r \<and> request_of st' r = request_of st r" using assms True by (auto simp: accepted_def)
  let ?q = "new_request og t packet reply"
  have "pq_requests st' = pq_requests (st\<lparr>pq_requests := pq_requests st @ [Some ?q]\<rparr>)" using req by simp
  note cong = table_cong [OF this]
  have live: "live st' x \<longleftrightarrow> live st x \<or> x = ?n" for x unfolding cong append_request(1) by simp
  have new: "request_of st' ?n = ?q" unfolding cong append_request(3) by simp
  have "x \<in> inhash st' \<longleftrightarrow> x = ?n \<or> x \<in> inhash st" for x
    using live [of x] new old append_request(4) [of st] by (cases "x = ?n") (auto simp: inhash_def new_request_def)
  then have "inhash st' = insert ?n (inhash st)" by blast
  then show ?thesis using res live new append_request(4) [of st] by blast
next
  case False
  then show ?thesis using assms by (simp add: accepted_def)
qed

lemma can_handle_iff:
  "life_ok st \<Longrightarrow> can_handle_new_request root st \<longleftrightarrow> lc_max_requests root = 0 \<or> int (card (inhash st)) \<le> lc_max_requests root"
  using list_of_clients(2) [of st] by (auto simp: can_handle_new_request_def)

lemma sample_received:
  obtains n reply st where "received_request sample_root sample_origin sample_ping tv0 tv0 tv0 sample_client sample_start = Some (Some n, st)"
    and "request_history {req_dest sample_request} st" and "inhash st = {n}" and "request_of st n = new_request sample_origin tv0 sample_client reply"
proof -
  let ?D = "{req_dest sample_request}"
  have hist: "request_history ?D sample_start" by (rule request_history.init)
  note ok = request_history_ok [OF single_dest_ok hist]
  from received_new [OF single_dest_ok [of "req_dest sample_request"] _ _ _ sample_client_addressed, where st = sample_start and root = sample_root and og = sample_origin and p = sample_ping
      and now = tv0 and t = tv0 and t' = tv0] ok start_empty(1)
  obtain res st st1 where st: "received_request sample_root sample_origin sample_ping tv0 tv0 tv0 sample_client sample_start = Some (res, st)"
      "made_way sample_client sample_start st1" "life_ok st1" "accepted sample_root sample_origin tv0 sample_client st1 res st" by auto
  have empty: "inhash st1 = {}" using st(2) start_empty(1) by (simp add: made_way_def)
  have "can_handle_new_request sample_root st1" unfolding can_handle_iff [OF st(3)] empty by (simp add: sample_root_def)
  then have "res \<noteq> None" using st(4) by (auto simp: accepted_def)
  with accepted_hash [OF st(4)] empty obtain n reply where
    n: "res = Some n" "request_of st n = new_request sample_origin tv0 sample_client reply" "inhash st = {n}" by auto
  moreover have "request_history ?D st" by (rule request_history.received [OF hist sample_client_addressed st(1)])
  ultimately show thesis using that st(1) by blast
qed


text \<open>C12: A packet that is received again is not processed again. When a request in the list has the socket, source, destination and identifier of a packet,
  and its packet has the same length and authenticator, and its home server was not just found dead (then it is proxied anew), \<open>received_request\<close> makes
  no new request; the list, the requests and their events and replies stay; and a reply is sent exactly when the request is finished and was answered: the
  one of the request. (Home servers do not collide in the other list, no request originates CoA requests.)\<close>

theorem duplicate_not_reprocessed:
  assumes "dst_hash_ok D" and "request_history D st" and "packet \<in> addressed" and "r \<in> inhash st" and "au_packet (request_of st r) = Some old"
    and "packet_key old = packet_key packet" and "data_len old = data_len packet" and "pk_vector old = pk_vector packet" and "\<not> fails_over p now st r"
  shows "\<exists>st'. received_request root og p now t t' packet st = Some (None, st') \<and> pq_pl st' = pq_pl st \<and> live st' = live st \<and> inhash st' = inhash st \<and>
    pq_list st' = pq_list st \<and>
    (\<forall>x. x \<noteq> r \<longrightarrow> request_of st' x = request_of st x) \<and> au_ev (request_of st' r) = au_ev (request_of st r) \<and>
    au_child_state (request_of st' r) = au_child_state (request_of st r) \<and> au_reply (request_of st' r) = au_reply (request_of st r) \<and>
    pq_sent st' = pq_sent st @
      (if au_child_state (request_of st r) \<in> {REQUEST_CLEANUP_DELAY, REQUEST_DONE} \<and> already_replied (request_of st r)
       then [the (au_reply (request_of st r))] else [])"
proof -
  let ?q = "request_of st r"
  have ok: "proxy_ok D st" "life_ok st" using request_history_ok [OF assms(1,2)] by simp_all
  have "client_key st r = packet_key packet" "same_request (the (au_packet ?q)) packet"
    using assms(5-8) by (simp_all add: client_key_def same_request_def)
  from received_duplicate [OF assms(1) ok assms(3,4) this, of root og p now t t'] obtain st' where
    st': "received_request root og p now t t' packet st = Some (None, st')" "undisturbed r st st'" "pq_sent st' = pq_sent st @ sent_again ?q" "pq_list st' = pq_list st" using assms(9) by blast
  have same: "same_life st st'" using st'(2) by (simp add: undisturbed_def)
  have "sent_again ?q = (if au_child_state ?q \<in> {REQUEST_CLEANUP_DELAY, REQUEST_DONE} \<and> already_replied ?q then [the (au_reply ?q)] else [])"
    by (cases "au_reply ?q") (auto simp: sent_again_def already_replied_def reply_code_def)
  then show ?thesis using st' same same_life_inhash(1) [OF same] unfolding undisturbed_def same_life_def by auto
qed

theorem duplicate_not_reprocessed_witness:
  "\<exists>r reply st st'. inhash st = {r} \<and> received_request sample_root sample_origin sample_ping tv0 tv0 tv0 sample_client st = Some (None, st') \<and>
     inhash st' = {r} \<and> pk_code reply = PW_AUTHENTICATION_ACK \<and> pq_sent st' = pq_sent st @ [reply]"
proof -
  let ?D = "{req_dest sample_request}"
  obtain n reply st0 where st0: "request_history ?D st0" "inhash st0 = {n}" "request_of st0 n = new_request sample_origin tv0 sample_client reply"
    by (rule sample_received)
  let ?q0 = "new_request sample_origin tv0 sample_client reply"
  let ?reply = "(reply_template sample_client reply)\<lparr>pk_code := PW_AUTHENTICATION_ACK\<rparr>"
  let ?q = "?q0\<lparr>au_reply := Some ?reply, au_child_state := REQUEST_CLEANUP_DELAY\<rparr>"
  define st where "st = set_request n ?q st0"
  note ok0 = request_history_ok [OF single_dest_ok st0(1)]
  have live: "live st0 n" using st0(2) by (auto simp: inhash_def)
  have life: "life_of ?q = life_of (request_of st0 n)" by (simp add: st0(3) life_of_def)
  have req: "request_of st x = (if x = n then ?q else request_of st0 x)" for x using live by (simp add: st_def)
  have live': "live st = live st0" using live by (auto simp: st_def)
  have "proxy_ok D st" if "proxy_ok D st0" for D unfolding st_def by (rule set_proxy_ok [OF that live]) (simp_all add: st0(3))
  moreover have "elsewhere_ok st0 st"
    unfolding elsewhere_ok_def live' req using ok0 life by (auto simp: timed_def inhash_def new_request_def st_def)
  ultimately have hist: "request_history ?D st" using request_history.elsewhere [OF st0(1)] ok0 by blast
  have hash: "inhash st = {n}" using set_ok(2) [OF _ live life] ok0 st0(2) by (simp add: st_def)
  have q: "au_packet (request_of st n) = Some sample_client" "n \<in> inhash st" unfolding hash req by (simp_all add: new_request_def)
  have "\<not> fails_over sample_ping tv0 st n" unfolding fails_over_def received_retransmit_def req by (simp add: Let_def)
  from duplicate_not_reprocessed [OF single_dest_ok hist sample_client_addressed q(2,1) refl refl refl this, of sample_root sample_origin tv0 tv0]
  obtain st' where "received_request sample_root sample_origin sample_ping tv0 tv0 tv0 sample_client st = Some (None, st')" "inhash st' = inhash st"
      "pq_sent st' = pq_sent st @ [?reply]"
    unfolding req by (auto simp: already_replied_def PW_AUTHENTICATION_ACK_def)
  then show ?thesis using hash by (intro exI [of _ n] exI [of _ ?reply] exI [of _ st] exI [of _ st']) simp
qed

text \<open>C13: A packet from a client that is not a copy of one that is there becomes a request, or is dropped for a reason the code names. A request in the list
  with its socket, source, destination and identifier that is not finished, has no encoded reply and is less than a second old stays, and the packet is
  dropped. Otherwise such a request leaves the list; then the packet is a new request in the list, queued, with its clean-up event a second after it was
  received, unless it is not from a detail file and the list has more than \<^verbatim>\<open>max_requests\<close> packets. All other requests stay as they are. (Home servers do
  not collide in the other list, no request originates CoA requests.)\<close>

theorem new_packet_accepted:
  assumes "dst_hash_ok D" and "request_history D st" and "packet \<in> addressed"
    and "\<forall>r\<in>inhash st. client_key st r = packet_key packet \<longrightarrow> \<not> same_request (the (au_packet (request_of st r))) packet"
    and others: "others = {r \<in> inhash st. client_key st r \<noteq> packet_key packet}"
  shows "\<exists>res st'. received_request root og p now t t' packet st = Some (res, st') \<and>
    (\<forall>r. live st r \<and> (r \<in> inhash st \<longrightarrow> r \<in> others) \<longrightarrow> live st' r \<and> request_of st' r = request_of st r) \<and>
    (if \<exists>r\<in>inhash st. client_key st r = packet_key packet \<and> keeps_old t (request_of st r) then res = None \<and> st' = st
     else if or_type og = RAD_LISTEN_DETAIL \<or> lc_max_requests root = 0 \<or> int (card others) \<le> lc_max_requests root then
       (\<exists>n. res = Some n \<and> n \<notin> others \<and> inhash st' = insert n others \<and> live st' n \<and> au_packet (request_of st' n) = Some packet \<and>
          au_child_state (request_of st' n) = REQUEST_QUEUED \<and> au_ev (request_of st' n) = Some (wait_a_bit_cb, tv_add t' USEC))
     else res = None \<and> inhash st' = others)"
proof -
  have ok: "proxy_ok D st" "life_ok st" "timed st" using request_history_ok [OF assms(1,2)] by simp_all
  let ?kept = "\<exists>r\<in>inhash st. client_key st r = packet_key packet \<and> keeps_old t (request_of st r)"
  obtain res st' where st': "received_request root og p now t t' packet st = Some (res, st')"
      "if ?kept then res = None \<and> st' = st else \<exists>st1. made_way packet st st1 \<and> life_ok st1 \<and> accepted root og t' packet st1 res st'"
    using received_new [OF assms(1) ok assms(3,4), of root og p now t t'] by blast
  show ?thesis
  proof (cases ?kept)
    case True
    then have "res = None \<and> st' = st" using st'(2) by simp
    then show ?thesis using st'(1) True by (intro exI [of _ None] exI [of _ st]) simp
  next
    case False
    from st'(2) [unfolded if_not_P [OF False]] obtain st1 where
      st1: "made_way packet st st1" "life_ok st1" "accepted root og t' packet st1 res st'" by blast
    have hash1: "inhash st1 = others" using st1(1) by (simp add: made_way_def others)
    have keep: "live st1 r \<and> request_of st1 r = request_of st r" if "live st r" "r \<in> inhash st \<longrightarrow> r \<in> others" for r
      using st1(1) that unfolding made_way_def others by blast
    then have keep': "live st' r \<and> request_of st' r = request_of st r" if "live st r" "r \<in> inhash st \<longrightarrow> r \<in> others" for r
      using st1(3) that by (simp add: accepted_def)
    have room: "can_handle_new_request root st1 \<longleftrightarrow> lc_max_requests root = 0 \<or> int (card others) \<le> lc_max_requests root"
      using can_handle_iff [OF st1(2)] unfolding hash1 .
    have out: "n \<notin> others" if "\<not> live st1 n" for n using that unfolding hash1 [symmetric] by (simp add: inhash_def)
    show ?thesis
    proof (cases "or_type og = RAD_LISTEN_DETAIL \<or> can_handle_new_request root st1")
      case True
      then have "res \<noteq> None" using st1(3) by (auto simp: accepted_def)
      with accepted_hash [OF st1(3)] obtain n reply where n: "res = Some n" "\<not> live st1 n" "live st' n"
        "request_of st' n = new_request og t' packet reply" "inhash st' = insert n others" unfolding hash1 by blast
      then have "\<exists>n. res = Some n \<and> n \<notin> others \<and> inhash st' = insert n others \<and> live st' n \<and> au_packet (request_of st' n) = Some packet \<and>
          au_child_state (request_of st' n) = REQUEST_QUEUED \<and> au_ev (request_of st' n) = Some (wait_a_bit_cb, tv_add t' USEC)"
        using out by (simp add: new_request_def)
      then show ?thesis using st'(1) keep' True unfolding room if_not_P [OF False] by (intro exI [of _ res] exI [of _ st']) simp
    next
      case full: False
      then have "res = None" "st' = st1" using st1(3) by (simp_all add: accepted_def)
      then show ?thesis using st'(1) keep' full hash1 unfolding room if_not_P [OF False] by (intro exI [of _ res] exI [of _ st']) simp
    qed
  qed
qed

definition sample_other :: radius_packet where
  "sample_other = sample_client\<lparr>pk_vector := replicate 16 1\<rparr>"

text \<open>Another packet with the identifier: at once it is dropped, two seconds later it takes the place of the first.\<close>

theorem new_packet_accepted_witness:
  "\<exists>n st n' st'. inhash st = {n} \<and>
     received_request sample_root sample_origin sample_ping tv0 tv0 tv0 sample_other st = Some (None, st) \<and>
     received_request sample_root sample_origin sample_ping tv0 (later tv0 2) (later tv0 2) sample_other st = Some (Some n', st') \<and> inhash st' = {n'} \<and>
     au_packet (request_of st' n') = Some sample_other"
proof -
  let ?D = "{req_dest sample_request}"
  obtain n reply st where st: "request_history ?D st" "inhash st = {n}" "request_of st n = new_request sample_origin tv0 sample_client reply"
    by (rule sample_received)
  have other: "packet_key sample_other = packet_key sample_client" "sample_other \<in> addressed" "\<not> same_request sample_client sample_other"
    using sample_client_addressed by (simp_all add: sample_other_def packet_key_def addressed_def same_request_def sample_client_def zeros_def)
  have key: "client_key st n = packet_key sample_other" using st(3) other(1) by (simp add: client_key_def new_request_def)
  have old: "au_packet (request_of st n) = Some sample_client" "au_child_state (request_of st n) = REQUEST_QUEUED" "reply_code (request_of st n) = 0"
      "au_received (request_of st n) = tv0" using st(3) by (simp_all add: new_request_def reply_code_def reply_template_def)
  have keeps: "keeps_old tv0 (request_of st n)" "\<not> keeps_old (later tv0 2) (request_of st n)"
    using old by (simp_all add: keeps_old_def timeval_cmp_def later_def tv0_def)
  have differ: "\<forall>r\<in>inhash st. client_key st r = packet_key sample_other \<longrightarrow> \<not> same_request (the (au_packet (request_of st r))) sample_other"
    using st(2) old(1) other(3) by simp
  have none: "{r \<in> inhash st. client_key st r \<noteq> packet_key sample_other} = {}" using st(2) key by auto
  note acc = new_packet_accepted [OF single_dest_ok st(1) other(2) differ refl, of sample_root sample_origin sample_ping tv0]
  have "received_request sample_root sample_origin sample_ping tv0 tv0 tv0 sample_other st = Some (None, st)"
    using acc [of tv0 tv0] st(2) key keeps(1) by simp
  moreover obtain n' st' where "received_request sample_root sample_origin sample_ping tv0 (later tv0 2) (later tv0 2) sample_other st = Some (Some n', st')"
      "inhash st' = {n'}" "au_packet (request_of st' n') = Some sample_other"
    using acc [of "later tv0 2" "later tv0 2"] st(2) key keeps(2) unfolding none by (auto simp: sample_root_def)
  ultimately show ?thesis using st(2) by blast
qed

text \<open>
  A request to change an authorization that was answered has its clean-up at \<^verbatim>\<open>cleanup_delay\<close> seconds after the epoch, in place of after its reply.
\<close>

lemma coa_cleaned_at_once:
  "packet_code q \<in> {PW_COA_REQUEST, PW_DISCONNECT_REQUEST} \<Longrightarrow> au_next_when q = tv0 \<Longrightarrow> schedule_reply root t response postauth q = (b, q') \<Longrightarrow>
     \<not> b \<and> au_next_callback q' = Some cleanup_delay_cb \<and> au_next_when q' = \<lparr>tv_sec = lc_cleanup_delay root, tv_usec = 0\<rparr>"
  by (auto simp: schedule_reply_def until_cleanup_def later_def tv0_def PW_COA_REQUEST_def PW_DISCONNECT_REQUEST_def PW_AUTHENTICATION_REQUEST_def)

text \<open>
  The limit of requests is one more than \<^verbatim>\<open>max_requests\<close>: with as many packets in the list, one more is accepted.
\<close>

lemma max_requests_exceeded:
  "life_ok st \<Longrightarrow> int (card (inhash st)) = lc_max_requests root \<Longrightarrow> can_handle_new_request root st"
  by (simp add: can_handle_iff)

end
