(* ===== verification/Modcall.thy ===== *)
theory Modcall
  imports Password_Hiding Value_Pair Dict_Hash
begin

text \<open>
  The policy interpreter of the server, \<^verbatim>\<open>winradiusd/modcall.cpp\<close>: a tree of module calls, groups and control statements is run by a loop with a stack
  of its own. A child pointer on the stack is a position in the children of a group; the labels of the loop are functions. What
  a module does to the request, conditions, updates, expansion and nested servers are functions of an environment. Debug
  output and the locks of modules are left out.
\<close>

section \<open>Return codes and actions\<close>

datatype rcode =
    RLM_MODULE_REJECT | RLM_MODULE_FAIL | RLM_MODULE_OK | RLM_MODULE_HANDLED | RLM_MODULE_INVALID
  | RLM_MODULE_USERLOCK | RLM_MODULE_NOTFOUND | RLM_MODULE_NOOP | RLM_MODULE_UPDATED

definition rcode_table :: "(string \<times> rcode) list" where
  "rcode_table = [(''reject'', RLM_MODULE_REJECT), (''fail'', RLM_MODULE_FAIL), (''ok'', RLM_MODULE_OK), (''handled'', RLM_MODULE_HANDLED),
     (''invalid'', RLM_MODULE_INVALID), (''userlock'', RLM_MODULE_USERLOCK), (''notfound'', RLM_MODULE_NOTFOUND), (''noop'', RLM_MODULE_NOOP),
     (''updated'', RLM_MODULE_UPDATED)]"

type_synonym actions = "rcode \<Rightarrow> int"

definition MOD_ACTION_RETURN :: int where "MOD_ACTION_RETURN = - 1"
definition MOD_ACTION_REJECT :: int where "MOD_ACTION_REJECT = - 2"

datatype grouptype = GROUPTYPE_SIMPLE | GROUPTYPE_REDUNDANT | GROUPTYPE_APPEND

datatype component =
    RLM_COMPONENT_AUTH | RLM_COMPONENT_AUTZ | RLM_COMPONENT_PREACCT | RLM_COMPONENT_ACCT | RLM_COMPONENT_SESS
  | RLM_COMPONENT_PRE_PROXY | RLM_COMPONENT_POST_PROXY | RLM_COMPONENT_POST_AUTH | RLM_COMPONENT_RECV_COA | RLM_COMPONENT_SEND_COA

fun default_component_results :: "component \<Rightarrow> rcode" where
  "default_component_results RLM_COMPONENT_AUTH = RLM_MODULE_REJECT"
| "default_component_results RLM_COMPONENT_AUTZ = RLM_MODULE_NOTFOUND"
| "default_component_results RLM_COMPONENT_SESS = RLM_MODULE_FAIL"
| "default_component_results _ = RLM_MODULE_NOOP"

text \<open>A row of the table of default actions, in the order of the return codes.\<close>

fun action_row :: "int list \<Rightarrow> actions" where
  "action_row [reject, fail, ok, handled, invalid, userlock, notfound, noop, updated] r =
     (case r of RLM_MODULE_REJECT \<Rightarrow> reject | RLM_MODULE_FAIL \<Rightarrow> fail | RLM_MODULE_OK \<Rightarrow> ok | RLM_MODULE_HANDLED \<Rightarrow> handled
      | RLM_MODULE_INVALID \<Rightarrow> invalid | RLM_MODULE_USERLOCK \<Rightarrow> userlock | RLM_MODULE_NOTFOUND \<Rightarrow> notfound | RLM_MODULE_NOOP \<Rightarrow> noop
      | RLM_MODULE_UPDATED \<Rightarrow> updated)"
| "action_row _ r = 0"

definition redundant_row :: "int list" where
  "redundant_row = [MOD_ACTION_RETURN, 1, MOD_ACTION_RETURN, MOD_ACTION_RETURN, MOD_ACTION_RETURN, MOD_ACTION_RETURN, MOD_ACTION_RETURN,
     MOD_ACTION_RETURN, MOD_ACTION_RETURN]"

definition append_row :: "int list" where
  "append_row = [MOD_ACTION_RETURN, 1, MOD_ACTION_RETURN, MOD_ACTION_RETURN, MOD_ACTION_RETURN, MOD_ACTION_RETURN, 2,
     MOD_ACTION_RETURN, MOD_ACTION_RETURN]"

definition autz_row :: "int list" where
  "autz_row = [MOD_ACTION_RETURN, MOD_ACTION_RETURN, 3, MOD_ACTION_RETURN, MOD_ACTION_RETURN, MOD_ACTION_RETURN, 1, 2, 4]"

definition acct_row :: "int list" where
  "acct_row = [MOD_ACTION_RETURN, MOD_ACTION_RETURN, 2, MOD_ACTION_RETURN, MOD_ACTION_RETURN, MOD_ACTION_RETURN, MOD_ACTION_RETURN, 1, 3]"

text \<open>The rows that repeat are named.\<close>

fun defaultactions :: "component \<Rightarrow> grouptype \<Rightarrow> actions" where
  "defaultactions RLM_COMPONENT_AUTH GROUPTYPE_SIMPLE =
     action_row [MOD_ACTION_RETURN, 1, MOD_ACTION_RETURN, MOD_ACTION_RETURN, 1, MOD_ACTION_RETURN, MOD_ACTION_RETURN, 1, 1]"
| "defaultactions RLM_COMPONENT_PREACCT GROUPTYPE_SIMPLE = action_row acct_row"
| "defaultactions RLM_COMPONENT_ACCT GROUPTYPE_SIMPLE = action_row acct_row"
| "defaultactions RLM_COMPONENT_ACCT GROUPTYPE_REDUNDANT = action_row [1, 1, MOD_ACTION_RETURN, MOD_ACTION_RETURN, 1, 1, 1, 2, 4]"
| "defaultactions RLM_COMPONENT_SESS _ = action_row redundant_row"
| "defaultactions _ GROUPTYPE_SIMPLE = action_row autz_row"
| "defaultactions _ GROUPTYPE_REDUNDANT = action_row redundant_row"
| "defaultactions _ GROUPTYPE_APPEND = action_row append_row"

section \<open>The tree\<close>

datatype group_kind =
    MOD_GROUP | MOD_LOAD_BALANCE | MOD_REDUNDANT_LOAD_BALANCE | MOD_IF | MOD_ELSE | MOD_ELSIF | MOD_SWITCH | MOD_CASE | MOD_POLICY

text \<open>A server name is known by the address of its copy: the loop compares the pointers.\<close>

type_synonym name_ptr = "nat list"

datatype modcallable =
    MOD_SINGLE string actions component string
  | MOD_UPDATE string actions "value_pair list"
  | MOD_REFERENCE string actions name_ptr
  | MOD_XLAT string actions bool string
  | Modgroup group_kind "string option" actions "modcallable list"

fun mc_actions :: "modcallable \<Rightarrow> actions" where
  "mc_actions (MOD_SINGLE nm acts method modinst) = acts"
| "mc_actions (MOD_UPDATE nm acts vps) = acts"
| "mc_actions (MOD_REFERENCE nm acts ref) = acts"
| "mc_actions (MOD_XLAT nm acts exec fmt) = acts"
| "mc_actions (Modgroup kind nm acts children) = acts"

fun mc_kind :: "modcallable \<Rightarrow> group_kind option" where
  "mc_kind (Modgroup kind nm acts children) = Some kind"
| "mc_kind _ = None"

fun mc_name :: "modcallable \<Rightarrow> string option" where
  "mc_name (MOD_SINGLE nm acts method modinst) = Some nm"
| "mc_name (MOD_UPDATE nm acts vps) = Some nm"
| "mc_name (MOD_REFERENCE nm acts ref) = Some nm"
| "mc_name (MOD_XLAT nm acts exec fmt) = Some nm"
| "mc_name (Modgroup kind nm acts children) = nm"

text \<open>\<open>add_child\<close> appends to the children of a group.\<close>

fun add_child :: "modcallable \<Rightarrow> modcallable \<Rightarrow> modcallable" where
  "add_child (Modgroup kind nm acts children) c = Modgroup kind nm acts (children @ [c])"
| "add_child g c = g"

definition add_to_modcallable :: "modcallable option \<Rightarrow> modcallable \<Rightarrow> component \<Rightarrow> string \<Rightarrow> modcallable" where
  "add_to_modcallable parent self component nm =
     (case parent of
        None \<Rightarrow> add_child (Modgroup MOD_GROUP (Some nm) (defaultactions component GROUPTYPE_SIMPLE) []) self
      | Some g \<Rightarrow> add_child g self)"

section \<open>Requests and what is called\<close>

text \<open>The fields of a request the loop uses; \<open>rq_more\<close> is the rest of it.\<close>

record 'r request =
  rq_stop :: bool
  rq_parent_stop :: bool
  rq_server :: name_ptr
  rq_module :: string
  rq_component :: string
  rq_simul_max :: "rcode option"
  rq_lib :: lib_state
  rq_more :: 'r

text \<open>
  What the loop calls: the methods of module instances, conditions (\<open>None\<close> when they do not parse), updates of attribute lists, the
  section of another server, expansion into a buffer of a size, programs, and the printed value of an attribute, empty when the request has none.
\<close>

record 'r callbacks =
  cb_dead :: "string \<Rightarrow> bool"
  cb_method :: "string \<Rightarrow> component \<Rightarrow> 'r request \<Rightarrow> rcode \<times> 'r request"
  cb_condition :: "string \<Rightarrow> rcode \<Rightarrow> 'r request \<Rightarrow> bool option \<times> 'r request"
  cb_update :: "value_pair list \<Rightarrow> string \<Rightarrow> 'r request \<Rightarrow> rcode \<times> 'r request"
  cb_server :: "component \<Rightarrow> 'r request \<Rightarrow> rcode \<times> 'r request"
  cb_xlat :: "nat \<Rightarrow> string \<Rightarrow> 'r request \<Rightarrow> string \<times> 'r request"
  cb_exec :: "string \<Rightarrow> 'r request \<Rightarrow> 'r request"
  cb_attribute :: "nat \<Rightarrow> string \<Rightarrow> 'r request \<Rightarrow> string"

definition call_modsingle :: "'r callbacks \<Rightarrow> component \<Rightarrow> string \<Rightarrow> 'r request \<Rightarrow> rcode \<times> 'r request" where
  "call_modsingle cb component modinst request =
     (if cb_dead cb modinst then (RLM_MODULE_FAIL, request)
      else
        let (myresult, request) = cb_method cb modinst component (request\<lparr>rq_module := modinst\<rparr>)
        in (myresult, request\<lparr>rq_module := []\<rparr>))"

text \<open>The random choice of load balancing: \<open>seen\<close> children came before the one at \<open>i\<close>, \<open>n\<close> are left.\<close>

fun lb_pick :: "nat \<Rightarrow> nat \<Rightarrow> nat \<Rightarrow> nat \<Rightarrow> lib_state \<Rightarrow> nat \<times> lib_state" where
  "lb_pick q i seen 0 s = (q, s)"
| "lb_pick q i seen (Suc n) s =
     (let (r, s) = fr_rand s; seen = seen + 1
      in lb_pick (if (of_nat seen * (r AND 0xffff) :: u32) < 0x10000 then i else q) (i + 1) seen n s)"

fun switch_case :: "string \<Rightarrow> modcallable list \<Rightarrow> nat \<Rightarrow> nat option \<Rightarrow> nat option" where
  "switch_case buf [] i null_case = null_case"
| "switch_case buf (p # ps) i null_case =
     (case mc_name p of
        None \<Rightarrow> switch_case buf ps (i + 1) (if null_case = None then Some i else null_case)
      | Some nm \<Rightarrow> if buf = nm then Some i else switch_case buf ps (i + 1) null_case)"

text \<open>The first child of a group that is entered.\<close>

definition group_entry ::
    "'r callbacks \<Rightarrow> group_kind \<Rightarrow> string option \<Rightarrow> modcallable list \<Rightarrow> 'r request \<Rightarrow> nat option \<times> 'r request" where
  "group_entry cb kind nm children request =
     (if kind = MOD_LOAD_BALANCE \<or> kind = MOD_REDUNDANT_LOAD_BALANCE then
        if children = [] then (None, request)
        else let (q, s) = lb_pick 0 1 1 (length children - 1) (rq_lib request) in (Some q, request\<lparr>rq_lib := s\<rparr>)
      else if kind = MOD_SWITCH then
        let var = (case nm of None \<Rightarrow> [] | Some v \<Rightarrow> v);
            (buf, request) =
              (if CHR ''%'' \<notin> set var then (cb_attribute cb 1024 var request, request) else cb_xlat cb 1024 var request)
        in (switch_case buf children 0 None, request)
      else (if children = [] then None else Some 0, request))"

section \<open>The stack\<close>

definition MODCALL_STACK_MAX :: nat where "MODCALL_STACK_MAX = 32"

text \<open>One level: the group whose children are run (none at the bottom), the children, the position of the current child and of the first.\<close>

record call_frame =
  cf_parent :: "group_kind option"
  cf_children :: "modcallable list"
  cf_pos :: "nat option"
  cf_start :: "nat option"
  cf_priority :: int
  cf_result :: rcode

record 'r machine =
  ms_stack :: "call_frame list"
  ms_myresult :: rcode
  ms_was_if :: bool
  ms_if_taken :: bool
  ms_request :: "'r request"

text \<open>A pass of the loop ends the run, calls \<^verbatim>\<open>exit\<close> or fails an assertion, or goes on.\<close>

datatype 'r outcome = Done rcode "'r request" | Exit | Next "'r machine"

text \<open>\<open>unroll\<close> down to the test for a parent: whether the child's action returns, and the frame.\<close>

definition settle :: "modcallable \<Rightarrow> rcode \<Rightarrow> call_frame \<Rightarrow> bool \<times> call_frame" where
  "settle child myresult f =
     (let action = mc_actions child myresult
      in if action = MOD_ACTION_RETURN then (True, f\<lparr>cf_result := myresult, cf_pos := None\<rparr>)
         else if action = MOD_ACTION_REJECT then (True, f\<lparr>cf_pos := None, cf_result := RLM_MODULE_REJECT\<rparr>)
         else if cf_priority f \<le> action then (False, f\<lparr>cf_result := myresult, cf_priority := action\<rparr>)
         else (False, f))"

text \<open>The switch on the type of the parent: the next child.\<close>

definition advance :: "group_kind \<Rightarrow> call_frame \<Rightarrow> call_frame" where
  "advance kind f =
     (let i = the (cf_pos f); after = (if i + 1 < length (cf_children f) then Some (i + 1) else None)
      in if kind = MOD_SWITCH \<or> kind = MOD_LOAD_BALANCE then f\<lparr>cf_pos := None\<rparr>
         else if kind = MOD_REDUNDANT_LOAD_BALANCE then
           let p = (if after = None then Some 0 else after) in f\<lparr>cf_pos := (if p = cf_start f then None else p)\<rparr>
         else f\<lparr>cf_pos := after\<rparr>)"

text \<open>The labels \<open>unroll\<close>, \<open>next_section\<close> and \<open>do_return\<close>; \<open>kind\<close> is the type of the variable \<^verbatim>\<open>parent\<close>.\<close>

definition kind_if :: "group_kind option \<Rightarrow> bool" where
  "kind_if kind \<longleftrightarrow> kind = Some MOD_IF \<or> kind = Some MOD_ELSIF"

fun do_return :: "group_kind option \<Rightarrow> call_frame list \<Rightarrow> 'r request \<Rightarrow> 'r outcome" where
  "do_return kind [] request = Exit"
| "do_return kind [f] request = Exit"
| "do_return kind (f # g # fs) request =
     (let myresult = cf_result f
      in if fs = [] then Done myresult request
         else
           case cf_pos g of
             None \<Rightarrow> Exit
           | Some i \<Rightarrow>
               let (ret, g) = settle (cf_children g ! i) myresult g
               in if ret then do_return (cf_parent g) (g # fs) request
                  else case cf_parent g of
                    None \<Rightarrow> Done (cf_result g) request
                  | Some k \<Rightarrow>
                      let g = advance k g
                      in if cf_pos g = None then do_return (cf_parent g) (g # fs) request
                         else Next \<lparr>ms_stack = g # fs, ms_myresult = myresult, ms_was_if = kind_if kind, ms_if_taken = kind_if kind, ms_request = request\<rparr>)"

definition next_section :: "call_frame \<Rightarrow> call_frame list \<Rightarrow> rcode \<Rightarrow> bool \<Rightarrow> bool \<Rightarrow> 'r request \<Rightarrow> 'r outcome" where
  "next_section f fs myresult was_if if_taken request =
     (case cf_parent f of
        None \<Rightarrow> Done (cf_result f) request
      | Some k \<Rightarrow>
          let f = advance k f
          in if cf_pos f = None then do_return (cf_parent f) (f # fs) request
             else Next \<lparr>ms_stack = f # fs, ms_myresult = myresult, ms_was_if = was_if, ms_if_taken = if_taken, ms_request = request\<rparr>)"

definition unroll :: "modcallable \<Rightarrow> call_frame \<Rightarrow> call_frame list \<Rightarrow> rcode \<Rightarrow> bool \<Rightarrow> bool \<Rightarrow> 'r request \<Rightarrow> 'r outcome" where
  "unroll child f fs myresult was_if if_taken request =
     (let (ret, f) = settle child myresult f
      in if ret then do_return (cf_parent f) (f # fs) request else next_section f fs myresult was_if if_taken request)"

definition handle_result ::
    "component \<Rightarrow> modcallable \<Rightarrow> call_frame \<Rightarrow> call_frame list \<Rightarrow> rcode \<Rightarrow> bool \<Rightarrow> bool \<Rightarrow> 'r request \<Rightarrow> 'r outcome" where
  "handle_result component child f fs myresult was_if if_taken request =
     unroll child f fs myresult was_if if_taken (if component \<noteq> RLM_COMPONENT_SESS then request\<lparr>rq_simul_max := Some myresult\<rparr> else request)"

text \<open>Entering a group. When it has nothing to run, \<^verbatim>\<open>parent\<close> is still the group around it.\<close>

definition enter_group ::
    "'r callbacks \<Rightarrow> component \<Rightarrow> group_kind \<Rightarrow> string option \<Rightarrow> modcallable list \<Rightarrow> call_frame \<Rightarrow> call_frame list \<Rightarrow>
     rcode \<Rightarrow> bool \<Rightarrow> bool \<Rightarrow> 'r request \<Rightarrow> 'r outcome" where
  "enter_group cb component kind nm children f fs myresult was_if if_taken request =
     (if MODCALL_STACK_MAX \<le> length (f # fs) then Exit
      else
        let (pos, request) = group_entry cb kind nm children request;
            g = \<lparr>cf_parent = Some kind, cf_children = children, cf_pos = pos, cf_start = pos, cf_priority = 0,
                 cf_result = default_component_results component\<rparr>
        in if pos = None then do_return (cf_parent f) (g # f # fs) request
           else Next \<lparr>ms_stack = g # f # fs, ms_myresult = myresult, ms_was_if = was_if, ms_if_taken = if_taken, ms_request = request\<rparr>)"

section \<open>The loop\<close>

definition modcall_body :: "'r callbacks \<Rightarrow> component \<Rightarrow> 'r machine \<Rightarrow> 'r outcome" where
  "modcall_body cb component ms =
     (case ms_stack ms of
        [] \<Rightarrow> Exit
      | f # fs \<Rightarrow>
          if rq_stop (ms_request ms) \<or> rq_parent_stop (ms_request ms) then Done RLM_MODULE_FAIL (ms_request ms)
          else
            case cf_pos f of
              None \<Rightarrow> Done (cf_result f) (ms_request ms)
            | Some i \<Rightarrow>
                let child = cf_children f ! i;
                    was_if = ms_was_if ms; if_taken = ms_if_taken ms; request = ms_request ms;
                    is_else = mc_kind child = Some MOD_ELSE \<or> mc_kind child = Some MOD_ELSIF;
                    myresult = (if is_else then cf_result f else ms_myresult ms)
                in if is_else \<and> (\<not> was_if \<or> if_taken) then unroll child f fs myresult was_if if_taken request
                   else
                     case child of
                       MOD_SINGLE nm acts method modinst \<Rightarrow>
                         let (myresult, request) = call_modsingle cb method modinst request
                         in handle_result component child f fs myresult was_if if_taken request
                     | MOD_UPDATE nm acts vps \<Rightarrow>
                         let (rcode, request) = cb_update cb vps nm request;
                             myresult = (if rcode \<noteq> RLM_MODULE_UPDATED then rcode else myresult)
                         in handle_result component child f fs myresult was_if if_taken request
                     | MOD_REFERENCE nm acts ref_name \<Rightarrow>
                         if rq_server request = ref_name then handle_result component child f fs RLM_MODULE_NOOP was_if if_taken request
                         else
                           let server = rq_server request;
                               (myresult, request) = cb_server cb component (request\<lparr>rq_server := ref_name\<rparr>)
                           in handle_result component child f fs myresult was_if if_taken (request\<lparr>rq_server := server\<rparr>)
                     | MOD_XLAT nm acts exec fmt \<Rightarrow>
                         handle_result component child f fs myresult was_if if_taken
                           (if exec then cb_exec cb fmt request else snd (cb_xlat cb 128 fmt request))
                     | Modgroup kind nm acts children \<Rightarrow>
                         if kind = MOD_IF \<or> kind = MOD_ELSIF then
                           let (condition, request) = cb_condition cb (case nm of None \<Rightarrow> [] | Some c \<Rightarrow> c) myresult request
                           in if condition \<noteq> Some True then next_section (f\<lparr>cf_result := myresult\<rparr>) fs myresult True False request
                              else enter_group cb component kind nm children f fs myresult was_if if_taken request
                         else enter_group cb component kind nm children f fs myresult was_if if_taken request)"

text \<open>\<open>None\<close> would be a loop that does not end, \<open>Inl ()\<close> is \<^verbatim>\<open>exit\<close>.\<close>

partial_function (option) modcall_loop :: "'r callbacks \<Rightarrow> component \<Rightarrow> 'r machine \<Rightarrow> (unit + rcode \<times> 'r request) option" where
  "modcall_loop cb component ms =
     (case modcall_body cb component ms of
        Done r request \<Rightarrow> Some (Inr (r, request))
      | Exit \<Rightarrow> Some (Inl ())
      | Next ms \<Rightarrow> modcall_loop cb component ms)"

definition modcall :: "'r callbacks \<Rightarrow> component \<Rightarrow> modcallable option \<Rightarrow> 'r request \<Rightarrow> (unit + rcode \<times> 'r request) option" where
  "modcall cb component c request =
     modcall_loop cb component
       \<lparr>ms_stack = [\<lparr>cf_parent = None, cf_children = (case c of None \<Rightarrow> [] | Some c \<Rightarrow> [c]), cf_pos = map_option (\<lambda>_. 0) c, cf_start = None,
          cf_priority = 0, cf_result = default_component_results component\<rparr>],
        ms_myresult = default_component_results component, ms_was_if = False, ms_if_taken = False, ms_request = request\<rparr>"

end
