(* ===== verification/Modcall_Compile.thy ===== *)
theory Modcall_Compile
  imports Modcall
begin

text \<open>
  The compiler of policies, the second half of \<^verbatim>\<open>winradiusd/modcall.cpp\<close>: sections of the configuration become the trees the interpreter runs. The
  lookups in the configuration of \<^verbatim>\<open>conffile.cpp\<close> it uses are here too. Loading a module, reading a pair as an attribute and checking a
  condition are functions of an environment; log messages and the name handed back for them are left out.
\<close>

section \<open>Configuration items\<close>

text \<open>A section has an address, which is what sections are compared by.\<close>

datatype conf_item =
    CONF_PAIR (cp_attr: string) (cp_value: "string option") (cp_op: fr_token)
  | CONF_SECTION (cs_addr: nat) (cs_name1: string) (cs_name2: "string option") (cs_children: "conf_item list")
  | CONF_DATA

definition cf_item_is_section :: "conf_item \<Rightarrow> bool" where
  "cf_item_is_section ci \<longleftrightarrow> (case ci of CONF_SECTION _ _ _ _ \<Rightarrow> True | _ \<Rightarrow> False)"

definition cf_item_is_pair :: "conf_item \<Rightarrow> bool" where
  "cf_item_is_pair ci \<longleftrightarrow> (case ci of CONF_PAIR _ _ _ \<Rightarrow> True | _ \<Rightarrow> False)"

text \<open>The trees by name of a section keep the first of equal entries, so that looking there finds the first section that fits.\<close>

definition cf_section_sub_find :: "conf_item list \<Rightarrow> string \<Rightarrow> conf_item option" where
  "cf_section_sub_find children nm = List.find (\<lambda>ci. cf_item_is_section ci \<and> cs_name1 ci = nm) children"

definition cf_section_sub_find_name2 :: "conf_item list \<Rightarrow> string option \<Rightarrow> string option \<Rightarrow> conf_item option" where
  "cf_section_sub_find_name2 children name1 name2 =
     List.find (\<lambda>ci. cf_item_is_section ci \<and>
       (case name1 of
          None \<Rightarrow> Some (case cs_name2 ci of None \<Rightarrow> cs_name1 ci | Some n \<Rightarrow> n) = name2
        | Some n \<Rightarrow> cs_name1 ci = n \<and> cs_name2 ci = name2)) children"

section \<open>The environment\<close>

record module_instance =
  mi_name :: string
  mi_methods :: "component \<Rightarrow> bool"

record compile_env =
  ce_config :: conf_item
  ce_instance :: "string \<Rightarrow> module_instance option"
  ce_pairtovp :: "conf_item \<Rightarrow> value_pair option"
  ce_condition :: "string \<Rightarrow> bool"

fun comp2str :: "component \<Rightarrow> string" where
  "comp2str RLM_COMPONENT_AUTH = ''authenticate''"
| "comp2str RLM_COMPONENT_AUTZ = ''authorize''"
| "comp2str RLM_COMPONENT_PREACCT = ''preacct''"
| "comp2str RLM_COMPONENT_ACCT = ''accounting''"
| "comp2str RLM_COMPONENT_SESS = ''session''"
| "comp2str RLM_COMPONENT_PRE_PROXY = ''pre-proxy''"
| "comp2str RLM_COMPONENT_POST_PROXY = ''post-proxy''"
| "comp2str RLM_COMPONENT_POST_AUTH = ''post-auth''"
| "comp2str RLM_COMPONENT_RECV_COA = ''recv-coa''"
| "comp2str RLM_COMPONENT_SEND_COA = ''send-coa''"

definition components :: "component list" where
  "components = [RLM_COMPONENT_AUTH, RLM_COMPONENT_AUTZ, RLM_COMPONENT_PREACCT, RLM_COMPONENT_ACCT, RLM_COMPONENT_SESS,
     RLM_COMPONENT_PRE_PROXY, RLM_COMPONENT_POST_PROXY, RLM_COMPONENT_POST_AUTH, RLM_COMPONENT_RECV_COA, RLM_COMPONENT_SEND_COA]"

text \<open>
  What compiling gives: a tree, \<^verbatim>\<open>NULL\<close>, a failed assertion or a write out of bounds, or, when the fuel is used up, nothing yet.
\<close>

datatype compiled = Built modcallable | NoTree | Faulted | Unfinished

section \<open>Actions\<close>

definition fr_str2int :: "(string \<times> 'n) list \<Rightarrow> string \<Rightarrow> 'n option" where
  "fr_str2int table nm = map_option snd (List.find (\<lambda>(n, _). strcasecmp n nm = 0) table)"

text \<open>\<^verbatim>\<open>atoi\<close> of digits stops at the largest integer.\<close>

definition action_atoi :: "string \<Rightarrow> int" where
  "action_atoi s = min 2147483647 (int (atoi_digits s))"

definition compile_action :: "actions \<Rightarrow> string \<Rightarrow> string option \<Rightarrow> actions option" where
  "compile_action acts attr val =
     (case val of
        None \<Rightarrow> None
      | Some v \<Rightarrow>
          let action =
                (if strcasecmp v ''return'' = 0 then Some MOD_ACTION_RETURN
                 else if strcasecmp v ''break'' = 0 then Some MOD_ACTION_RETURN
                 else if strcasecmp v ''reject'' = 0 then Some MOD_ACTION_REJECT
                 else if list_all isdigit v then (if action_atoi v = 0 then None else Some (action_atoi v))
                 else None)
          in case action of
               None \<Rightarrow> None
             | Some a \<Rightarrow>
                 if strcasecmp attr ''default'' \<noteq> 0 then
                   (case fr_str2int rcode_table attr of None \<Rightarrow> None | Some r \<Rightarrow> Some (acts(r := a)))
                 else Some (\<lambda>r. if acts r = 0 then a else acts r))"

section \<open>Freeing a tree\<close>

text \<open>Everything but a module call is taken for a group, which is asserted.\<close>

fun modcallable_free :: "modcallable \<Rightarrow> bool" where
  "modcallable_free (MOD_SINGLE nm acts method modinst) = True"
| "modcallable_free (MOD_UPDATE nm acts vps) = True"
| "modcallable_free (MOD_REFERENCE nm acts ref_name) = False"
| "modcallable_free (MOD_XLAT nm acts exec fmt) = False"
| "modcallable_free (Modgroup kind nm acts children) = list_all modcallable_free children"

definition free_and_fail :: "modcallable \<Rightarrow> compiled" where
  "free_and_fail c = (if modcallable_free c then NoTree else Faulted)"

section \<open>Single entries\<close>

definition attrlist_names :: "string list" where
  "attrlist_names = [''request'', ''reply'', ''proxy-request'', ''proxy-reply'', ''config'', ''control'', ''coa'', ''coa-reply'',
     ''disconnect'', ''disconnect-reply'']"

fun update_pairs :: "compile_env \<Rightarrow> conf_item list \<Rightarrow> value_pair list \<Rightarrow> value_pair list option" where
  "update_pairs env [] vps = Some vps"
| "update_pairs env (ci # cis) vps =
     (if cf_item_is_section ci then None
      else if \<not> cf_item_is_pair ci then update_pairs env cis vps
      else
        case ce_pairtovp env ci of
          None \<Rightarrow> None
        | Some vp \<Rightarrow>
            if vp_op vp \<notin> {T_OP_EQ, T_OP_CMP_EQ, T_OP_ADD, T_OP_SUB, T_OP_LE, T_OP_GE, T_OP_CMP_FALSE, T_OP_SET} then None
            else if vp_op vp \<in> {T_OP_LE, T_OP_GE} \<and> vp_type vp \<notin> {PW_TYPE_BYTE, PW_TYPE_SHORT, PW_TYPE_INTEGER} then None
            else update_pairs env cis (vps @ [vp]))"

text \<open>The memory of the new node is zeroed and its actions are not set.\<close>

definition do_compile_modupdate :: "compile_env \<Rightarrow> conf_item \<Rightarrow> string \<Rightarrow> compiled" where
  "do_compile_modupdate env cs name2 =
     (if cs_name2 cs = None then NoTree
      else
        let vp_name = (if take 6 name2 = ''outer.'' then drop 6 name2 else name2)
        in if vp_name \<notin> set attrlist_names then NoTree
           else
             case update_pairs env (cs_children cs) [] of
               None \<Rightarrow> NoTree
             | Some [] \<Rightarrow> NoTree
             | Some vps \<Rightarrow> Built (MOD_UPDATE name2 (\<lambda>_. 0) vps))"

fun switch_cases :: "conf_item list \<Rightarrow> bool \<Rightarrow> bool" where
  "switch_cases [] had_seen_default = True"
| "switch_cases (ci # cis) had_seen_default =
     (if \<not> cf_item_is_section ci then \<not> cf_item_is_pair ci \<and> switch_cases cis had_seen_default
      else if cs_name1 ci \<noteq> ''case'' then False
      else
        case cs_name2 ci of
          None \<Rightarrow> \<not> had_seen_default \<and> switch_cases cis True
        | Some n \<Rightarrow> n \<noteq> [] \<and> switch_cases cis had_seen_default)"

text \<open>Each node has a copy of the name of the server of its own: the copy is known by the position of the node.\<close>

definition do_compile_modserver :: "name_ptr \<Rightarrow> component \<Rightarrow> string \<Rightarrow> conf_item \<Rightarrow> compiled" where
  "do_compile_modserver here component nm cs =
     (case cf_section_sub_find_name2 (cs_children cs) (Some (comp2str component)) None of
        None \<Rightarrow> NoTree
      | Some subcs \<Rightarrow> Built (MOD_REFERENCE nm (defaultactions component GROUPTYPE_SIMPLE) here))"

text \<open>What is before and after the last occurrence of a character.\<close>

definition strrchr_split :: "char \<Rightarrow> string \<Rightarrow> (string \<times> string) option" where
  "strrchr_split c s =
     (if c \<in> set s
      then Some (rev (tl (dropWhile (\<lambda>x. x \<noteq> c) (rev s))), rev (takeWhile (\<lambda>x. x \<noteq> c) (rev s)))
      else None)"

definition do_compile_modxlat :: "component \<Rightarrow> string \<Rightarrow> modcallable" where
  "do_compile_modxlat component fmt =
     (if take 1 fmt \<noteq> ''%'' then
        MOD_XLAT ''expand'' (defaultactions component GROUPTYPE_SIMPLE) True
          (case strrchr_split (CHR ''`'') (drop 1 fmt) of None \<Rightarrow> drop 1 fmt | Some (p, _) \<Rightarrow> p)
      else MOD_XLAT ''expand'' (defaultactions component GROUPTYPE_SIMPLE) False fmt)"

fun all_children_are_modules :: "conf_item list \<Rightarrow> bool" where
  "all_children_are_modules [] = True"
| "all_children_are_modules (ci # cis) =
     ((case ci of
         CONF_SECTION _ name1 _ _ \<Rightarrow> name1 \<notin> {''if'', ''else'', ''elsif'', ''update'', ''switch'', ''case''}
       | CONF_PAIR _ val _ \<Rightarrow> val = None
       | CONF_DATA \<Rightarrow> True) \<and> all_children_are_modules cis)"

text \<open>The section of a virtual module, with the sections around it, unless the entry is inside of it.\<close>

definition virtual_module :: "compile_env \<Rightarrow> component \<Rightarrow> nat list \<Rightarrow> string \<Rightarrow> (nat list \<times> conf_item) option" where
  "virtual_module env component outer modrefname =
     (let config = ce_config env;
          within = (\<lambda>nm names. case cf_section_sub_find (cs_children config) nm of
             None \<Rightarrow> None
           | Some cs \<Rightarrow> (case List.find (\<lambda>n. cf_section_sub_find_name2 (cs_children cs) None (Some n) \<noteq> None) names of
                None \<Rightarrow> None
              | Some n \<Rightarrow> map_option (Pair [cs_addr cs, cs_addr config]) (cf_section_sub_find_name2 (cs_children cs) None (Some n))));
          found = (case within ''instantiate'' [modrefname] of
             None \<Rightarrow> within ''policy'' [take 255 (modrefname @ ''.'' @ comp2str component), modrefname]
           | Some v \<Rightarrow> Some v)
      in case found of
           None \<Rightarrow> None
         | Some (around, subcs) \<Rightarrow> if cs_addr subcs \<in> set outer then None else Some (around, subcs))"

text \<open>The instance a name refers to, and the component whose method is called: it may be written as module and method.\<close>

datatype module_ref = Instance module_instance component | Server string | NoModule | BadMethod | BadWrite

definition module_method :: "compile_env \<Rightarrow> string \<Rightarrow> module_ref" where
  "module_method env modrefname =
     (case strrchr_split (CHR ''.'') modrefname of
        None \<Rightarrow> NoModule
      | Some (p, method) \<Rightarrow>
          (case List.find (\<lambda>i. comp2str i = method) components of
             None \<Rightarrow> NoModule
           | Some i \<Rightarrow>
               if 256 \<le> length p then BadWrite
               else
                 case (if cf_section_sub_find (cs_children (ce_config env)) ''modules'' = None then None else ce_instance env p) of
                   None \<Rightarrow> NoModule
                 | Some self \<Rightarrow> if mi_methods self i then Instance self i else BadMethod))"

definition resolve_module :: "compile_env \<Rightarrow> component \<Rightarrow> string \<Rightarrow> module_ref" where
  "resolve_module env component modrefname =
     (let self = (case cf_section_sub_find (cs_children (ce_config env)) ''modules'' of
            None \<Rightarrow> None
          | Some modules \<Rightarrow>
              if cf_section_sub_find_name2 (cs_children modules) None (Some modrefname) = None then None else ce_instance env modrefname)
      in case self of
           Some self \<Rightarrow> Instance self component
         | None \<Rightarrow>
             (case module_method env modrefname of
                NoModule \<Rightarrow> if take 7 modrefname = ''server['' then Server (take 255 (drop 7 modrefname)) else NoModule
              | r \<Rightarrow> r))"

text \<open>A call of a real module: the actions of the section around, changed by the entries of the call.\<close>

fun call_actions :: "conf_item list \<Rightarrow> actions \<Rightarrow> actions option" where
  "call_actions [] acts = Some acts"
| "call_actions (ci # cis) acts =
     (case ci of
        CONF_SECTION _ _ _ _ \<Rightarrow> None
      | CONF_DATA \<Rightarrow> call_actions cis acts
      | CONF_PAIR attr val _ \<Rightarrow> (case compile_action acts attr val of None \<Rightarrow> None | Some acts \<Rightarrow> call_actions cis acts))"

text \<open>Inside an Auth-Type the actions of \<^verbatim>\<open>authorize\<close> are used.\<close>

definition default_for :: "group_kind option \<Rightarrow> component \<Rightarrow> grouptype \<Rightarrow> actions" where
  "default_for parent component grouptype =
     (if parent = None \<or> component \<noteq> RLM_COMPONENT_AUTH then defaultactions component grouptype
      else defaultactions RLM_COMPONENT_AUTZ grouptype)"

definition compile_module ::
    "compile_env \<Rightarrow> name_ptr \<Rightarrow> group_kind option \<Rightarrow> component \<Rightarrow> conf_item \<Rightarrow> string \<Rightarrow> grouptype \<Rightarrow> compiled" where
  "compile_module env here parent component ci modrefname grouptype =
     (case resolve_module env component modrefname of
        NoModule \<Rightarrow> NoTree
      | BadMethod \<Rightarrow> NoTree
      | BadWrite \<Rightarrow> Faulted
      | Server buf \<Rightarrow>
          (case strrchr_split (CHR '']'') buf of
             None \<Rightarrow> NoTree
           | Some (p, rest) \<Rightarrow>
               if rest \<noteq> [] \<or> p = [] then NoTree
               else
                 case cf_section_sub_find_name2 (cs_children (ce_config env)) (Some ''server'') (Some p) of
                   None \<Rightarrow> NoTree
                 | Some cs \<Rightarrow> do_compile_modserver here component modrefname cs)
      | Instance self component \<Rightarrow>
          (case (if cf_item_is_section ci then call_actions (cs_children ci) (default_for parent component grouptype)
                 else Some (default_for parent component grouptype)) of
             None \<Rightarrow> NoTree
           | Some acts \<Rightarrow> if mi_methods self component then Built (MOD_SINGLE modrefname acts component (mi_name self)) else NoTree))"

section \<open>Groups\<close>

fun with_type :: "group_kind \<Rightarrow> compiled \<Rightarrow> compiled" where
  "with_type kind (Built (Modgroup _ nm acts children)) = Built (Modgroup kind nm acts children)"
| "with_type kind r = r"

fun as_case :: "string option \<Rightarrow> compiled \<Rightarrow> compiled" where
  "as_case nm (Built (Modgroup _ _ acts children)) = Built (Modgroup MOD_CASE nm (\<lambda>_. MOD_ACTION_RETURN) children)"
| "as_case nm r = r"

definition check_condition :: "compile_env \<Rightarrow> string \<Rightarrow> compiled \<Rightarrow> compiled" where
  "check_condition env name2 r =
     (case r of Built c \<Rightarrow> if ce_condition env name2 then Built c else free_and_fail c | _ \<Rightarrow> r)"

text \<open>The loop over the entries of a group; \<open>single\<close> compiles the entry that becomes the child at a position.\<close>

fun compile_items ::
    "(nat \<Rightarrow> conf_item \<Rightarrow> compiled) \<Rightarrow> group_kind \<Rightarrow> string \<Rightarrow> actions \<Rightarrow> modcallable list \<Rightarrow> conf_item list \<Rightarrow> compiled" where
  "compile_items single kind nm acts children [] = Built (Modgroup kind (Some nm) acts children)"
| "compile_items single kind nm acts children (ci # cis) =
     (let sub =
        (case single (length children) ci of
           Built c \<Rightarrow> compile_items single kind nm acts (children @ [c]) cis
         | NoTree \<Rightarrow> free_and_fail (Modgroup kind (Some nm) acts children)
         | r \<Rightarrow> r)
      in case ci of
           CONF_SECTION _ _ _ _ \<Rightarrow> sub
         | CONF_DATA \<Rightarrow> compile_items single kind nm acts children cis
         | CONF_PAIR attr None _ \<Rightarrow> sub
         | CONF_PAIR attr (Some v) _ \<Rightarrow>
             (case compile_action acts attr (Some v) of
                None \<Rightarrow> free_and_fail (Modgroup kind (Some nm) acts children)
              | Some acts \<Rightarrow> compile_items single kind nm acts children cis))"

fun fill_actions :: "actions \<Rightarrow> compiled \<Rightarrow> compiled" where
  "fill_actions dflt (Built (Modgroup kind nm acts children)) =
     Built (Modgroup kind nm (\<lambda>r. if acts r = 0 then dflt r else acts r) children)"
| "fill_actions dflt r = r"

definition group_name_type :: "conf_item \<Rightarrow> string \<times> group_kind" where
  "group_name_type cs =
     (case cs_name2 cs of
        Some n \<Rightarrow> (n, MOD_GROUP)
      | None \<Rightarrow> if cs_name1 cs = ''group'' then ([], MOD_GROUP) else (cs_name1 cs, MOD_POLICY))"

text \<open>A section where a module is expected; \<open>modgroup\<close> compiles it as a group of a type, in a group of a type.\<close>

definition compile_section ::
    "compile_env \<Rightarrow> name_ptr \<Rightarrow> group_kind option \<Rightarrow> component \<Rightarrow> conf_item \<Rightarrow> grouptype \<Rightarrow> (grouptype \<Rightarrow> grouptype \<Rightarrow> compiled) \<Rightarrow> compiled" where
  "compile_section env here parent component cs grouptype modgroup =
     (let modrefname = cs_name1 cs;
          name2 = (case cs_name2 cs of None \<Rightarrow> ''_UnNamedGroup'' | Some x \<Rightarrow> x);
          modules = all_children_are_modules (cs_children cs);
          balanced = (parent = Some MOD_LOAD_BALANCE \<or> parent = Some MOD_REDUNDANT_LOAD_BALANCE)
      in if modrefname = ''group'' then modgroup GROUPTYPE_SIMPLE grouptype
         else if modrefname = ''redundant'' then (if modules then modgroup GROUPTYPE_REDUNDANT grouptype else NoTree)
         else if modrefname = ''append'' then modgroup GROUPTYPE_APPEND grouptype
         else if modrefname = ''load-balance'' then
           (if modules then with_type MOD_LOAD_BALANCE (modgroup GROUPTYPE_SIMPLE grouptype) else NoTree)
         else if modrefname = ''redundant-load-balance'' then
           (if modules then with_type MOD_REDUNDANT_LOAD_BALANCE (modgroup GROUPTYPE_REDUNDANT grouptype) else NoTree)
         else if modrefname = ''if'' then
           (if cs_name2 cs = None then NoTree else check_condition env name2 (with_type MOD_IF (modgroup GROUPTYPE_SIMPLE grouptype)))
         else if modrefname = ''elsif'' then
           (if balanced \<or> cs_name2 cs = None then NoTree
            else check_condition env name2 (with_type MOD_ELSIF (modgroup GROUPTYPE_SIMPLE grouptype)))
         else if modrefname = ''else'' then
           (if balanced \<or> cs_name2 cs \<noteq> None then NoTree else with_type MOD_ELSE (modgroup GROUPTYPE_SIMPLE grouptype))
         else if modrefname = ''update'' then do_compile_modupdate env cs name2
         else if modrefname = ''switch'' then
           (if cs_name2 cs = None \<or> cs_children cs = [] \<or> \<not> switch_cases (cs_children cs) False then NoTree
            else with_type MOD_SWITCH (modgroup GROUPTYPE_SIMPLE GROUPTYPE_SIMPLE))
         else if modrefname = ''case'' then
           (if parent = None then NoTree else as_case (cs_name2 cs) (modgroup GROUPTYPE_SIMPLE grouptype))
         else compile_module env here parent component cs modrefname grouptype)"

definition is_xlat :: "string \<Rightarrow> bool" where
  "is_xlat modrefname \<longleftrightarrow> take 2 modrefname = ''%{'' \<or> take 1 modrefname = ''`''"

text \<open>
  \<open>outer\<close> are the sections around the entry, \<open>here\<close> the position of its node. \<open>do_compile_modsingle\<close> and \<open>do_compile_modgroup\<close> call each
  other; every entry inside another uses one unit of fuel, as a policy that refers to another and back never ends.
\<close>

definition compile_group ::
    "(name_ptr \<Rightarrow> group_kind option \<Rightarrow> component \<Rightarrow> nat list \<Rightarrow> conf_item \<Rightarrow> grouptype \<Rightarrow> compiled) \<Rightarrow>
     name_ptr \<Rightarrow> group_kind option \<Rightarrow> component \<Rightarrow> nat list \<Rightarrow> conf_item \<Rightarrow> grouptype \<Rightarrow> grouptype \<Rightarrow> compiled" where
  "compile_group single here parent component outer cs grouptype parentgrouptype =
     (case group_name_type cs of
        (nm, kind) \<Rightarrow>
          fill_actions (default_for parent component parentgrouptype)
            (compile_items (\<lambda>i ci. single (i # here) (Some kind) component (cs_addr cs # outer) ci grouptype)
               kind nm (\<lambda>_. 0) [] (cs_children cs)))"

primrec do_compile_modsingle ::
    "nat \<Rightarrow> compile_env \<Rightarrow> name_ptr \<Rightarrow> group_kind option \<Rightarrow> component \<Rightarrow> nat list \<Rightarrow> conf_item \<Rightarrow> grouptype \<Rightarrow> compiled" where
  "do_compile_modsingle 0 env here parent component outer ci grouptype = Unfinished"
| "do_compile_modsingle (Suc n) env here parent component outer ci grouptype =
     (case ci of
        CONF_DATA \<Rightarrow> NoTree
      | CONF_PAIR modrefname val _ \<Rightarrow>
          if val \<noteq> None then NoTree
          else if is_xlat modrefname then Built (do_compile_modxlat component modrefname)
          else
            (case virtual_module env component outer modrefname of
               None \<Rightarrow> compile_module env here parent component ci modrefname grouptype
             | Some (around, subcs) \<Rightarrow>
                 if cs_name2 subcs \<noteq> None then do_compile_modsingle n env here parent component around subcs grouptype
                 else compile_group (do_compile_modsingle n env) here parent component around subcs GROUPTYPE_SIMPLE grouptype)
      | CONF_SECTION _ _ _ _ \<Rightarrow>
          compile_section env here parent component ci grouptype
            (compile_group (do_compile_modsingle n env) here parent component outer ci))"

definition do_compile_modgroup ::
    "nat \<Rightarrow> compile_env \<Rightarrow> name_ptr \<Rightarrow> group_kind option \<Rightarrow> component \<Rightarrow> nat list \<Rightarrow> conf_item \<Rightarrow> grouptype \<Rightarrow> grouptype \<Rightarrow> compiled" where
  "do_compile_modgroup n env = compile_group (do_compile_modsingle n env)"

declare do_compile_modsingle.simps(2) [simp del]

definition compile_modsingle :: "nat \<Rightarrow> compile_env \<Rightarrow> name_ptr \<Rightarrow> group_kind option \<Rightarrow> component \<Rightarrow> nat list \<Rightarrow> conf_item \<Rightarrow> compiled" where
  "compile_modsingle n env here parent component outer ci = do_compile_modsingle n env here parent component outer ci GROUPTYPE_SIMPLE"

definition compile_modgroup :: "nat \<Rightarrow> compile_env \<Rightarrow> name_ptr \<Rightarrow> group_kind option \<Rightarrow> component \<Rightarrow> nat list \<Rightarrow> conf_item \<Rightarrow> compiled" where
  "compile_modgroup n env here parent component outer cs =
     do_compile_modgroup n env here parent component outer cs GROUPTYPE_SIMPLE GROUPTYPE_SIMPLE"

end
