(* ===== verification/Modcall_Exec.thy ===== *)
theory Modcall_Exec
  imports Modcall
begin

text \<open>
  The meaning of a policy as a recursive function over its tree, without stack, positions and jumps, and the proof that the loop of
  \<^verbatim>\<open>modcall\<close> computes it: the loop ends, and as long as groups are nested less than 32 deep it never exits. What groups of modules return
  follows from the recursive form.
\<close>

section \<open>The recursive form\<close>

text \<open>The children of a group that are run, in order, when it is entered at position \<open>i\<close>.\<close>

definition plan :: "group_kind \<Rightarrow> modcallable list \<Rightarrow> nat \<Rightarrow> modcallable list" where
  "plan kind children i =
     (if kind = MOD_SWITCH \<or> kind = MOD_LOAD_BALANCE then [children ! i]
      else if kind = MOD_REDUNDANT_LOAD_BALANCE then drop i children @ take i children
      else drop i children)"

lemma lb_pick_less: "q < i \<Longrightarrow> fst (lb_pick q i seen n s) < i + n"
proof (induction n arbitrary: q i seen s)
  case (Suc n)
  obtain r s' where r: "fr_rand s = (r, s')" by fastforce
  let ?q = "if (of_nat (seen + 1) * (r AND 0xffff) :: u32) < 0x10000 then i else q"
  have "lb_pick q i seen (Suc n) s = lb_pick ?q (i + 1) (seen + 1) n s'" using r by (simp add: Let_def)
  moreover have "fst (lb_pick ?q (i + 1) (seen + 1) n s') < i + 1 + n" by (rule Suc.IH) (use Suc.prems in simp)
  ultimately show ?case by simp
qed simp

lemma switch_case_less: "switch_case buf ps i null_case = Some k \<Longrightarrow> (\<forall>j. null_case = Some j \<longrightarrow> j < i + length ps) \<Longrightarrow> k < i + length ps"
  by (induction ps arbitrary: i null_case) (fastforce split: option.split_asm if_split_asm)+

lemma group_entry_less: "group_entry cb kind nm children q = (Some i, q') \<Longrightarrow> i < length children"
  using lb_pick_less [of 0 1 1 "length children - 1" "rq_lib q"]
  by (cases "children = []") (auto simp: group_entry_def Let_def split: if_split_asm prod.split_asm dest: switch_case_less)

lemma size_list_nth: "i < length xs \<Longrightarrow> size (xs ! i) < size_list size xs"
  by (induction xs arbitrary: i) (auto simp: nth_Cons split: nat.split, fastforce)

lemma plan_size: "i < length children \<Longrightarrow> size_list size (plan kind children i) \<le> size_list size children"
proof -
  assume i: "i < length children"
  have "size_list size (drop i children) + size_list size (take i children) = size_list size children"
    by (metis add.commute append_take_drop_id size_list_append)
  then show ?thesis using size_list_nth [OF i] by (simp add: plan_def)
qed

lemma plan_not_Nil: "i < length children \<Longrightarrow> plan kind children i \<noteq> []"
  by (simp add: plan_def)

lemma plan_subset: "i < length children \<Longrightarrow> c \<in> set (plan kind children i) \<Longrightarrow> c \<in> set children"
  by (auto simp: plan_def dest: in_set_dropD in_set_takeD split: if_split_asm)

datatype 'r ran = Halted "'r request" | Value rcode "'r request"

datatype 'r child_ran = CHalted "'r request" | CFalse rcode "'r request" | CResult rcode bool bool "'r request"

function exec_list ::
    "'r callbacks \<Rightarrow> component \<Rightarrow> group_kind \<Rightarrow> modcallable list \<Rightarrow> int \<Rightarrow> rcode \<Rightarrow> bool \<Rightarrow> bool \<Rightarrow> rcode \<Rightarrow> 'r request \<Rightarrow> 'r ran"
  and exec_child ::
    "'r callbacks \<Rightarrow> component \<Rightarrow> group_kind \<Rightarrow> modcallable \<Rightarrow> rcode \<Rightarrow> bool \<Rightarrow> bool \<Rightarrow> rcode \<Rightarrow> 'r request \<Rightarrow> 'r child_ran"
where
  "exec_list cb component kind [] priority result was_if if_taken my q = Value result q"
| "exec_list cb component kind (c # cs) priority result was_if if_taken my q =
     (if rq_stop q \<or> rq_parent_stop q then Halted q
      else
        case exec_child cb component kind c result was_if if_taken my q of
          CHalted q \<Rightarrow> Halted q
        | CFalse my q \<Rightarrow> exec_list cb component kind cs priority my True False my q
        | CResult my was_if if_taken q \<Rightarrow>
            let action = mc_actions c my
            in if action = MOD_ACTION_RETURN then Value my q
               else if action = MOD_ACTION_REJECT then Value RLM_MODULE_REJECT q
               else if priority \<le> action then exec_list cb component kind cs action my was_if if_taken my q
               else exec_list cb component kind cs priority result was_if if_taken my q)"
| "exec_child cb component kind c result was_if if_taken my q =
     (let is_else = mc_kind c = Some MOD_ELSE \<or> mc_kind c = Some MOD_ELSIF;
          my = (if is_else then result else my);
          done = (\<lambda>my q. CResult my was_if if_taken (if component \<noteq> RLM_COMPONENT_SESS then q\<lparr>rq_simul_max := Some my\<rparr> else q))
      in if is_else \<and> (\<not> was_if \<or> if_taken) then CResult my was_if if_taken q
         else
           case c of
             MOD_SINGLE nm acts method modinst \<Rightarrow> (case call_modsingle cb method modinst q of (my, q) \<Rightarrow> done my q)
           | MOD_UPDATE nm acts vps \<Rightarrow> (case cb_update cb vps nm q of (r, q) \<Rightarrow> done (if r \<noteq> RLM_MODULE_UPDATED then r else my) q)
           | MOD_REFERENCE nm acts ref_name \<Rightarrow>
               if rq_server q = ref_name then done RLM_MODULE_NOOP q
               else (case cb_server cb component (q\<lparr>rq_server := ref_name\<rparr>) of (my, q') \<Rightarrow> done my (q'\<lparr>rq_server := rq_server q\<rparr>))
           | MOD_XLAT nm acts exec fmt \<Rightarrow> done my (if exec then cb_exec cb fmt q else snd (cb_xlat cb 128 fmt q))
           | Modgroup k nm acts children \<Rightarrow>
               (case (if k = MOD_IF \<or> k = MOD_ELSIF then cb_condition cb (case nm of None \<Rightarrow> [] | Some x \<Rightarrow> x) my q else (Some True, q)) of
                  (condition, q) \<Rightarrow>
                    if condition \<noteq> Some True then CFalse my q
                    else
                      case group_entry cb k nm children q of
                        (None, q) \<Rightarrow> CResult (default_component_results component) (kind_if (Some kind)) (kind_if (Some kind)) q
                      | (Some i, q) \<Rightarrow>
                          (case exec_list cb component k (plan k children i) 0 (default_component_results component) was_if if_taken my q of
                             Halted q \<Rightarrow> CHalted q
                           | Value r q \<Rightarrow> CResult r (kind_if (Some k)) (kind_if (Some k)) q)))"
  by pat_completeness auto
termination
proof (relation "measure (\<lambda>x. case x of Inl (cb, component, kind, cs, _) \<Rightarrow> 2 * size_list size cs
    | Inr (cb, component, kind, c, _) \<Rightarrow> 2 * size c + 1)", goal_cases)
  case (6 cb component kind c result was_if if_taken my q a b d k nm acts children condition q1 pos q2 i)
  then have "group_entry cb k nm children q1 = (Some i, q2)" by simp
  from plan_size [OF group_entry_less [OF this], of k] 6 show ?case by simp
qed auto

declare exec_list.simps [simp del] exec_child.simps [simp del]

definition policy_eval :: "'r callbacks \<Rightarrow> component \<Rightarrow> modcallable \<Rightarrow> 'r request \<Rightarrow> rcode \<times> 'r request" where
  "policy_eval cb component c q =
     (if rq_stop q \<or> rq_parent_stop q then (RLM_MODULE_FAIL, q)
      else
        case c of
          Modgroup k nm acts children \<Rightarrow>
            (case group_entry cb k nm children q of
               (None, q) \<Rightarrow> (default_component_results component, q)
             | (Some i, q) \<Rightarrow>
                 (case exec_list cb component k (plan k children i) 0 (default_component_results component) False False
                     (default_component_results component) q of
                    Halted q \<Rightarrow> (RLM_MODULE_FAIL, q)
                  | Value r q \<Rightarrow> (r, q)))
        | _ \<Rightarrow> (RLM_MODULE_FAIL, q))"

fun mc_depth :: "modcallable \<Rightarrow> nat" where
  "mc_depth (Modgroup kind nm acts children) = Suc (foldr (\<lambda>c m. max (mc_depth c) m) children 0)"
| "mc_depth _ = 0"

lemma depth_child: "c \<in> set children \<Longrightarrow> mc_depth c < mc_depth (Modgroup kind nm acts children)"
  by (induction children) auto

section \<open>The loop computes it\<close>

definition finish :: "'r callbacks \<Rightarrow> component \<Rightarrow> 'r outcome \<Rightarrow> (unit + rcode \<times> 'r request) option" where
  "finish cb component out =
     (case out of Done r q \<Rightarrow> Some (Inr (r, q)) | Exit \<Rightarrow> Some (Inl ()) | Next ms \<Rightarrow> modcall_loop cb component ms)"

lemma modcall_loop_step: "modcall_loop cb component ms = finish cb component (modcall_body cb component ms)"
  by (subst modcall_loop.simps) (simp add: finish_def)

text \<open>The children of a frame that are still to be run.\<close>

definition pending :: "group_kind \<Rightarrow> call_frame \<Rightarrow> modcallable list" where
  "pending kind f =
     (case cf_pos f of
        None \<Rightarrow> []
      | Some i \<Rightarrow>
          if kind = MOD_SWITCH \<or> kind = MOD_LOAD_BALANCE then [cf_children f ! i]
          else if kind = MOD_REDUNDANT_LOAD_BALANCE then
            let s = the (cf_start f) in if s \<le> i then drop i (cf_children f) @ take s (cf_children f) else take (s - i) (drop i (cf_children f))
          else drop i (cf_children f))"

definition frame_ok :: "call_frame \<Rightarrow> bool" where
  "frame_ok f \<longleftrightarrow> (\<forall>i. cf_pos f = Some i \<longrightarrow> i < length (cf_children f)) \<and> (\<exists>s. cf_start f = Some s \<and> s < length (cf_children f))"

lemma pending_plan: "pending kind \<lparr>cf_parent = p, cf_children = children, cf_pos = Some i, cf_start = Some i, cf_priority = x, cf_result = r\<rparr> = plan kind children i"
  by (simp add: pending_def plan_def)

lemma pending_Nil: "frame_ok f \<Longrightarrow> pending kind f = [] \<longleftrightarrow> cf_pos f = None"
  by (auto simp: pending_def frame_ok_def Let_def split: option.split)

lemma pending_Cons:
  assumes "frame_ok f" and "pending kind f = c # cs"
  obtains i where "cf_pos f = Some i" and "i < length (cf_children f)" and "cf_children f ! i = c" and "pending kind (advance kind f) = cs"
    and "frame_ok (advance kind f)"
proof -
  obtain i where i: "cf_pos f = Some i" "i < length (cf_children f)" using assms by (auto simp: pending_def frame_ok_def split: option.split_asm)
  obtain s where s: "cf_start f = Some s" "s < length (cf_children f)" using assms(1) by (auto simp: frame_ok_def)
  have drop: "drop i (cf_children f) = cf_children f ! i # drop (Suc i) (cf_children f)" using i(2) by (simp add: Cons_nth_drop_Suc)
  have "cf_children f ! i = c \<and> pending kind (advance kind f) = cs \<and> frame_ok (advance kind f)"
  proof (cases "kind = MOD_REDUNDANT_LOAD_BALANCE")
    case False
    then show ?thesis using assms(2) i s drop
      by (auto simp: pending_def advance_def frame_ok_def Let_def split: if_split_asm)
  next
    case True
    have t: "take (s - i) (drop i (cf_children f)) = cf_children f ! i # take (s - Suc i) (drop (Suc i) (cf_children f))" if "i < s"
    proof -
      have "s - i = Suc (s - Suc i)" using that by simp
      then show ?thesis using drop by simp
    qed
    show ?thesis using assms(2) i s drop t True
      by (cases "s \<le> i"; cases "Suc i < length (cf_children f)") (auto simp: pending_def advance_def frame_ok_def Let_def split: if_split_asm)
  qed
  then show thesis using that i by blast
qed

lemma do_return_head: "cf_result f = cf_result f' \<Longrightarrow> do_return kind (f # fs) q = do_return kind (f' # fs) q"
  by (cases fs) auto

lemma do_return_unroll:
  "fs \<noteq> [] \<Longrightarrow> cf_pos f = Some i \<Longrightarrow>
   do_return kind (g # f # fs) q = unroll (cf_children f ! i) f fs (cf_result g) (kind_if kind) (kind_if kind) q"
  by (simp add: unroll_def next_section_def Let_def split: prod.split option.split)

text \<open>After a child: the loop goes on with the rest of the children.\<close>

lemma next_section_exec:
  fixes cb :: "'r callbacks"
  assumes "cf_parent f = Some kind" and "frame_ok f" and "pending kind f = c # cs" and "fs \<noteq> []"
    and rest: "\<And>f' was_if if_taken my q. cf_parent f' = Some kind \<Longrightarrow> frame_ok f' \<Longrightarrow> pending kind f' = cs \<Longrightarrow> cs \<noteq> [] \<Longrightarrow>
      modcall_loop cb component \<lparr>ms_stack = f' # fs, ms_myresult = my, ms_was_if = was_if, ms_if_taken = if_taken, ms_request = q\<rparr> =
        (case exec_list cb component kind cs (cf_priority f') (cf_result f') was_if if_taken my q of
           Halted q \<Rightarrow> Some (Inr (RLM_MODULE_FAIL, q))
         | Value r q \<Rightarrow> finish cb component (do_return (Some kind) (f'\<lparr>cf_result := r\<rparr> # fs) q))"
  shows "finish cb component (next_section f fs my was_if if_taken q) =
      (case exec_list cb component kind cs (cf_priority f) (cf_result f) was_if if_taken my q of
         Halted q \<Rightarrow> Some (Inr (RLM_MODULE_FAIL, q))
       | Value r q \<Rightarrow> finish cb component (do_return (Some kind) (f\<lparr>cf_result := r\<rparr> # fs) q))"
proof -
  from pending_Cons [OF assms(2,3)] have adv: "pending kind (advance kind f) = cs" "frame_ok (advance kind f)" by blast+
  have fields: "cf_parent (advance kind f) = cf_parent f" "cf_priority (advance kind f) = cf_priority f" "cf_result (advance kind f) = cf_result f"
    by (simp_all add: advance_def Let_def)
  have ns: "next_section f fs my was_if if_taken q =
      (if cs = [] then do_return (Some kind) (advance kind f # fs) q
       else Next \<lparr>ms_stack = advance kind f # fs, ms_myresult = my, ms_was_if = was_if, ms_if_taken = if_taken, ms_request = q\<rparr>)"
    using pending_Nil [OF adv(2), of kind] adv(1) fields assms(1) by (simp add: next_section_def Let_def)
  show ?thesis
  proof (cases "cs = []")
    case True
    have "do_return (Some kind) (advance kind f # fs) q = do_return (Some kind) (f # fs) q" by (rule do_return_head) (simp add: fields)
    then show ?thesis using ns True by (simp add: exec_list.simps)
  next
    case False
    have "do_return (Some kind) ((advance kind f)\<lparr>cf_result := r\<rparr> # fs) q = do_return (Some kind) (f\<lparr>cf_result := r\<rparr> # fs) q" for r and q :: "'r request"
      by (rule do_return_head) simp
    then show ?thesis using ns False rest [of "advance kind f"] adv fields assms(1) by (simp add: finish_def [of cb component "Next _"] cong: ran.case_cong)
  qed
qed

text \<open>One child. Running the children of a group inside is a hypothesis here.\<close>

lemma body_child:
  assumes "cf_parent f = Some kind" and "cf_pos f = Some j" and "cf_children f ! j = c" and "fs \<noteq> []" and "\<not> (rq_stop q \<or> rq_parent_stop q)"
    and "length (f # fs) + mc_depth c \<le> MODCALL_STACK_MAX"
    and inner: "\<And>k nm acts children i was_if if_taken my q. c = Modgroup k nm acts children \<Longrightarrow> i < length children \<Longrightarrow>
      modcall_loop cb component
        \<lparr>ms_stack = \<lparr>cf_parent = Some k, cf_children = children, cf_pos = Some i, cf_start = Some i, cf_priority = 0,
             cf_result = default_component_results component\<rparr> # f # fs,
         ms_myresult = my, ms_was_if = was_if, ms_if_taken = if_taken, ms_request = q\<rparr> =
        (case exec_list cb component k (plan k children i) 0 (default_component_results component) was_if if_taken my q of
           Halted q \<Rightarrow> Some (Inr (RLM_MODULE_FAIL, q))
         | Value r q \<Rightarrow> finish cb component (unroll c f fs r (kind_if (Some k)) (kind_if (Some k)) q))"
  shows "modcall_loop cb component \<lparr>ms_stack = f # fs, ms_myresult = my, ms_was_if = was_if, ms_if_taken = if_taken, ms_request = q\<rparr> =
      (case exec_child cb component kind c (cf_result f) was_if if_taken my q of
         CHalted q \<Rightarrow> Some (Inr (RLM_MODULE_FAIL, q))
       | CFalse my q \<Rightarrow> finish cb component (next_section (f\<lparr>cf_result := my\<rparr>) fs my True False q)
       | CResult my was_if if_taken q \<Rightarrow> finish cb component (unroll c f fs my was_if if_taken q))"
proof (cases c)
  case (Modgroup k nm acts children)
  have entry: "finish cb component (enter_group cb component k nm children f fs my was_if if_taken q) =
      (case (case group_entry cb k nm children q of
               (None, q) \<Rightarrow> CResult (default_component_results component) (kind_if (Some kind)) (kind_if (Some kind)) q
             | (Some i, q) \<Rightarrow>
                 (case exec_list cb component k (plan k children i) 0 (default_component_results component) was_if if_taken my q of
                    Halted q \<Rightarrow> CHalted q
                  | Value r q \<Rightarrow> CResult r (kind_if (Some k)) (kind_if (Some k)) q)) of
         CHalted q \<Rightarrow> Some (Inr (RLM_MODULE_FAIL, q))
       | CFalse my q \<Rightarrow> finish cb component (next_section (f\<lparr>cf_result := my\<rparr>) fs my True False q)
       | CResult my was_if if_taken q \<Rightarrow> finish cb component (unroll c f fs my was_if if_taken q))" for my was_if if_taken q
  proof -
    have room: "\<not> MODCALL_STACK_MAX \<le> length (f # fs)" using assms(6) Modgroup by simp
    obtain pos q' where e: "group_entry cb k nm children q = (pos, q')" by fastforce
    show ?thesis
    proof (cases pos)
      case None
      then show ?thesis using e room assms(1-4) by (simp add: enter_group_def do_return_unroll del: do_return.simps)
    next
      case (Some i)
      then have "i < length children" using e group_entry_less by blast
      from inner [OF Modgroup this] show ?thesis using e room Some
        by (simp add: enter_group_def finish_def [of cb component "Next _"] split: ran.split)
    qed
  qed
  define is_else where "is_else \<longleftrightarrow> k = MOD_ELSE \<or> k = MOD_ELSIF"
  define my' where "my' = (if is_else then cf_result f else my)"
  obtain cnd q1 where cnd: "(if k = MOD_IF \<or> k = MOD_ELSIF then cb_condition cb (case nm of None \<Rightarrow> [] | Some x \<Rightarrow> x) my' q else (Some True, q)) = (cnd, q1)"
    by fastforce
  have body: "modcall_body cb component \<lparr>ms_stack = f # fs, ms_myresult = my, ms_was_if = was_if, ms_if_taken = if_taken, ms_request = q\<rparr> =
      (if is_else \<and> (\<not> was_if \<or> if_taken) then unroll c f fs my' was_if if_taken q
       else if cnd \<noteq> Some True then next_section (f\<lparr>cf_result := my'\<rparr>) fs my' True False q1
       else enter_group cb component k nm children f fs my' was_if if_taken q1)"
    using assms(2,3,5) cnd by (cases k) (simp_all add: modcall_body_def Modgroup Let_def is_else_def my'_def)
  have child: "exec_child cb component kind c (cf_result f) was_if if_taken my q =
      (if is_else \<and> (\<not> was_if \<or> if_taken) then CResult my' was_if if_taken q
       else if cnd \<noteq> Some True then CFalse my' q1
       else (case group_entry cb k nm children q1 of
               (None, q) \<Rightarrow> CResult (default_component_results component) (kind_if (Some kind)) (kind_if (Some kind)) q
             | (Some i, q) \<Rightarrow>
                 (case exec_list cb component k (plan k children i) 0 (default_component_results component) was_if if_taken my' q of
                    Halted q \<Rightarrow> CHalted q
                  | Value r q \<Rightarrow> CResult r (kind_if (Some k)) (kind_if (Some k)) q)))"
    using cnd by (cases k) (simp_all add: exec_child.simps Modgroup Let_def is_else_def my'_def cong: prod.case_cong option.case_cong ran.case_cong)
  show ?thesis
  proof (cases "is_else \<and> (\<not> was_if \<or> if_taken)")
    case True
    show ?thesis unfolding modcall_loop_step body child if_P [OF True] by simp
  next
    case False
    show ?thesis unfolding modcall_loop_step body child if_not_P [OF False] by (cases "cnd = Some True") (simp_all add: entry)
  qed
qed (use assms(1-3,5) in \<open>subst modcall_loop_step, simp add: modcall_body_def exec_child.simps Let_def handle_result_def split: prod.split\<close>)+

lemma frame_update [simp]:
  "pending kind (f\<lparr>cf_result := r\<rparr>) = pending kind f" "pending kind (f\<lparr>cf_priority := p\<rparr>) = pending kind f"
  "frame_ok (f\<lparr>cf_result := r\<rparr>) = frame_ok f" "frame_ok (f\<lparr>cf_priority := p\<rparr>) = frame_ok f"
  by (cases "cf_pos f"; simp add: pending_def frame_ok_def Let_def)+

text \<open>All children of a group that are still to be run, from the stack the loop has.\<close>

lemma modcall_loop_exec:
  fixes cb :: "'r callbacks"
  assumes "cf_parent f = Some kind" and "frame_ok f" and "pending kind f = cs" and "cs \<noteq> []" and "fs \<noteq> []"
    and "\<forall>c\<in>set cs. length (f # fs) + mc_depth c \<le> MODCALL_STACK_MAX"
  shows "modcall_loop cb component \<lparr>ms_stack = f # fs, ms_myresult = my, ms_was_if = was_if, ms_if_taken = if_taken, ms_request = q\<rparr> =
      (case exec_list cb component kind cs (cf_priority f) (cf_result f) was_if if_taken my q of
         Halted q \<Rightarrow> Some (Inr (RLM_MODULE_FAIL, q))
       | Value r q \<Rightarrow> finish cb component (do_return (Some kind) (f\<lparr>cf_result := r\<rparr> # fs) q))"
  using assms
proof (induction "size_list size cs" arbitrary: cs f fs kind my was_if if_taken q rule: less_induct)
  case less
  obtain c cs' where cs: "cs = c # cs'" using less.prems(4) by (cases cs) auto
  from less.prems(3) cs have pend: "pending kind f = c # cs'" by simp
  obtain j where j: "cf_pos f = Some j" "j < length (cf_children f)" "cf_children f ! j = c" by (rule pending_Cons [OF less.prems(2) pend])
  have hyp: "modcall_loop cb component \<lparr>ms_stack = f' # fs', ms_myresult = my, ms_was_if = was_if, ms_if_taken = if_taken, ms_request = q\<rparr> =
        (case exec_list cb component k ds (cf_priority f') (cf_result f') was_if if_taken my q of
           Halted q \<Rightarrow> Some (Inr (RLM_MODULE_FAIL, q))
         | Value r q \<Rightarrow> finish cb component (do_return (Some k) (f'\<lparr>cf_result := r\<rparr> # fs') q))"
    if "size_list size ds < size_list size cs" "cf_parent f' = Some k" "frame_ok f'" "pending k f' = ds" "ds \<noteq> []" "fs' \<noteq> []"
      "\<forall>c\<in>set ds. length (f' # fs') + mc_depth c \<le> MODCALL_STACK_MAX" for f' fs' k ds was_if if_taken my and q :: "'r request"
    using less.hyps that by blast
  have rest: "finish cb component (next_section f' fs my was_if if_taken q) =
      (case exec_list cb component kind cs' (cf_priority f') (cf_result f') was_if if_taken my q of
         Halted q \<Rightarrow> Some (Inr (RLM_MODULE_FAIL, q))
       | Value r q \<Rightarrow> finish cb component (do_return (Some kind) (f'\<lparr>cf_result := r\<rparr> # fs) q))"
    if "cf_parent f' = Some kind" "frame_ok f'" "pending kind f' = c # cs'" for f' was_if if_taken my and q :: "'r request"
    by (rule next_section_exec [OF that less.prems(5)], rule hyp) (use cs less.prems in auto)
  have after: "finish cb component (unroll c f fs my was_if if_taken q) =
      (case (let action = mc_actions c my
            in if action = MOD_ACTION_RETURN then Value my q
               else if action = MOD_ACTION_REJECT then Value RLM_MODULE_REJECT q
               else if cf_priority f \<le> action then exec_list cb component kind cs' action my was_if if_taken my q
               else exec_list cb component kind cs' (cf_priority f) (cf_result f) was_if if_taken my q) of
         Halted q \<Rightarrow> Some (Inr (RLM_MODULE_FAIL, q))
       | Value r q \<Rightarrow> finish cb component (do_return (Some kind) (f\<lparr>cf_result := r\<rparr> # fs) q))" for was_if if_taken my and q :: "'r request"
  proof -
    have head: "do_return (Some kind) (f\<lparr>cf_result := x, cf_pos := None\<rparr> # fs) q = do_return (Some kind) (f\<lparr>cf_result := x\<rparr> # fs) q"
      "do_return (Some kind) (f\<lparr>cf_pos := None, cf_result := x\<rparr> # fs) q = do_return (Some kind) (f\<lparr>cf_result := x\<rparr> # fs) q"
      "do_return (Some kind) (f\<lparr>cf_priority := p, cf_result := r\<rparr> # fs) q = do_return (Some kind) (f\<lparr>cf_result := r\<rparr> # fs) q"
      for x r p and q :: "'r request" by (rule do_return_head, simp)+
    show ?thesis using less.prems(1,2) pend
      by (simp add: unroll_def settle_def Let_def head rest cong: ran.case_cong)
  qed
  have inner: "modcall_loop cb component
        \<lparr>ms_stack = \<lparr>cf_parent = Some k, cf_children = children, cf_pos = Some i, cf_start = Some i, cf_priority = 0,
             cf_result = default_component_results component\<rparr> # f # fs,
         ms_myresult = my, ms_was_if = was_if, ms_if_taken = if_taken, ms_request = q\<rparr> =
        (case exec_list cb component k (plan k children i) 0 (default_component_results component) was_if if_taken my q of
           Halted q \<Rightarrow> Some (Inr (RLM_MODULE_FAIL, q))
         | Value r q \<Rightarrow> finish cb component (unroll c f fs r (kind_if (Some k)) (kind_if (Some k)) q))"
    if "c = Modgroup k nm acts children" "i < length children" for k nm acts children i was_if if_taken my and q :: "'r request"
  proof -
    let ?g = "\<lparr>cf_parent = Some k, cf_children = children, cf_pos = Some i, cf_start = Some i, cf_priority = 0,
             cf_result = default_component_results component\<rparr>"
    have "modcall_loop cb component \<lparr>ms_stack = ?g # f # fs, ms_myresult = my, ms_was_if = was_if, ms_if_taken = if_taken, ms_request = q\<rparr> =
        (case exec_list cb component k (plan k children i) (cf_priority ?g) (cf_result ?g) was_if if_taken my q of
           Halted q \<Rightarrow> Some (Inr (RLM_MODULE_FAIL, q))
         | Value r q \<Rightarrow> finish cb component (do_return (Some k) (?g\<lparr>cf_result := r\<rparr> # f # fs) q))"
    proof (rule hyp)
      show "size_list size (plan k children i) < size_list size cs" using plan_size [OF that(2), of k] that(1) cs by simp
      show "\<forall>d\<in>set (plan k children i). length (?g # f # fs) + mc_depth d \<le> MODCALL_STACK_MAX"
        using plan_subset [OF that(2)] less.prems(6) cs that(1) depth_child [of _ children k nm acts] by fastforce
    qed (use that(2) in \<open>simp_all add: pending_plan frame_ok_def plan_not_Nil\<close>)
    then show ?thesis using less.prems(5) j by (simp add: do_return_unroll del: do_return.simps cong: ran.case_cong)
  qed
  have "length (f # fs) + mc_depth c \<le> MODCALL_STACK_MAX" using less.prems(6) cs by simp
  have child: "modcall_loop cb component \<lparr>ms_stack = f # fs, ms_myresult = my, ms_was_if = was_if, ms_if_taken = if_taken, ms_request = q\<rparr> =
      (case exec_child cb component kind c (cf_result f) was_if if_taken my q of
         CHalted q \<Rightarrow> Some (Inr (RLM_MODULE_FAIL, q))
       | CFalse my q \<Rightarrow> finish cb component (next_section (f\<lparr>cf_result := my\<rparr>) fs my True False q)
       | CResult my was_if if_taken q \<Rightarrow> finish cb component (unroll c f fs my was_if if_taken q))" if "\<not> (rq_stop q \<or> rq_parent_stop q)"
    by (rule body_child [OF less.prems(1) j(1,3) less.prems(5) that], fact, rule inner)
  show ?case
  proof (cases "rq_stop q \<or> rq_parent_stop q")
    case True
    then show ?thesis by (simp add: cs exec_list.simps modcall_loop_step modcall_body_def finish_def)
  next
    case False
    show ?thesis unfolding child [OF False] cs exec_list.simps(2) if_not_P [OF False]
      by (simp add: after rest pend less.prems(1,2) split: child_ran.split cong: ran.case_cong)
  qed
qed

lemma modcall_eval:
  fixes cb :: "'r callbacks"
  assumes "c = Modgroup kind nm acts children" and "kind \<notin> {MOD_IF, MOD_ELSE, MOD_ELSIF}" and "mc_depth c < MODCALL_STACK_MAX"
  shows "modcall cb component (Some c) q = Some (Inr (policy_eval cb component c q))"
proof -
  let ?d = "default_component_results component"
  let ?b = "\<lparr>cf_parent = None, cf_children = [c], cf_pos = Some 0, cf_start = None, cf_priority = 0, cf_result = ?d\<rparr>"
  let ?g = "\<lambda>i. \<lparr>cf_parent = Some kind, cf_children = children, cf_pos = Some i, cf_start = Some i, cf_priority = 0, cf_result = ?d\<rparr>"
  obtain pos q' where e: "group_entry cb kind nm children q = (pos, q')" by fastforce
  have start: "modcall cb component (Some c) q =
      (if rq_stop q \<or> rq_parent_stop q then Some (Inr (RLM_MODULE_FAIL, q))
       else finish cb component (enter_group cb component kind nm children ?b [] ?d False False q))"
    using assms(1,2) by (simp add: modcall_def modcall_loop_step modcall_body_def finish_def [of cb component "Done _ _"])
  show ?thesis
  proof (cases pos)
    case None
    then show ?thesis unfolding start using e assms(1) by (simp add: policy_eval_def enter_group_def MODCALL_STACK_MAX_def finish_def)
  next
    case (Some i)
    then have i: "i < length children" using e group_entry_less by blast
    have "modcall_loop cb component \<lparr>ms_stack = ?g i # [?b], ms_myresult = ?d, ms_was_if = False, ms_if_taken = False, ms_request = q'\<rparr> =
        (case exec_list cb component kind (plan kind children i) (cf_priority (?g i)) (cf_result (?g i)) False False ?d q' of
           Halted q \<Rightarrow> Some (Inr (RLM_MODULE_FAIL, q))
         | Value r q \<Rightarrow> finish cb component (do_return (Some kind) ((?g i)\<lparr>cf_result := r\<rparr> # [?b]) q))"
    proof (rule modcall_loop_exec)
      show "\<forall>d\<in>set (plan kind children i). length (?g i # [?b]) + mc_depth d \<le> MODCALL_STACK_MAX"
        using plan_subset [OF i] assms(1,3) depth_child [of _ children kind nm acts] by fastforce
    qed (use i in \<open>simp_all add: pending_plan frame_ok_def plan_not_Nil\<close>)
    then show ?thesis unfolding start using e Some assms(1)
      by (simp add: policy_eval_def enter_group_def MODCALL_STACK_MAX_def finish_def split: ran.split)
  qed
qed

text \<open>C5: A policy is what its recursive meaning says. For a tree whose root is a group and whose groups are nested less than 32 deep, the loop of
  \<^verbatim>\<open>modcall\<close> ends, never calls \<^verbatim>\<open>exit\<close> and never fails an assertion, whatever the modules and conditions answer, and it returns the
  code and the request that \<open>policy_eval\<close> computes by recursion over the tree.
\<close>

theorem modcall_refines_eval:
  fixes cb :: "'r callbacks"
  assumes "c = Modgroup kind nm acts children" and "kind \<notin> {MOD_IF, MOD_ELSE, MOD_ELSIF}" and "mc_depth c < MODCALL_STACK_MAX"
  shows "modcall cb component (Some c) q = Some (Inr (policy_eval cb component c q))"
  using assms by (rule modcall_eval)

text \<open>A request and modules for examples: a module named in the request's text fails, another one answers ok.\<close>

definition sample_cb :: "string list callbacks" where
  "sample_cb = \<lparr>cb_dead = (\<lambda>_. False), cb_method = (\<lambda>m comp q. (if m \<in> set (rq_more q) then RLM_MODULE_FAIL else RLM_MODULE_OK, q)),
     cb_condition = (\<lambda>nm r q. (Some (nm = ''true''), q)), cb_update = (\<lambda>vps nm q. (RLM_MODULE_UPDATED, q)),
     cb_server = (\<lambda>comp q. (RLM_MODULE_NOOP, q)), cb_xlat = (\<lambda>n f q. (f, q)), cb_exec = (\<lambda>f q. q), cb_attribute = (\<lambda>n a q. a)\<rparr>"

definition policy_request :: "string list request" where
  "policy_request = \<lparr>rq_stop = False, rq_parent_stop = False, rq_server = [], rq_module = [], rq_component = [], rq_simul_max = None,
     rq_lib = lib_start 0 0, rq_more = [''sql1'']\<rparr>"

definition sample_policy :: modcallable where
  "sample_policy = Modgroup MOD_GROUP (Some ''authorize'') (defaultactions RLM_COMPONENT_AUTZ GROUPTYPE_SIMPLE)
     [Modgroup MOD_IF (Some ''false'') (defaultactions RLM_COMPONENT_AUTZ GROUPTYPE_SIMPLE)
        [MOD_SINGLE ''sql1'' (defaultactions RLM_COMPONENT_AUTZ GROUPTYPE_SIMPLE) RLM_COMPONENT_AUTZ ''sql1''],
      Modgroup MOD_ELSE (Some ''else'') (defaultactions RLM_COMPONENT_AUTZ GROUPTYPE_SIMPLE)
        [MOD_SINGLE ''files'' (defaultactions RLM_COMPONENT_AUTZ GROUPTYPE_SIMPLE) RLM_COMPONENT_AUTZ ''files'']]"

theorem modcall_refines_eval_witness:
  "modcall sample_cb RLM_COMPONENT_AUTZ (Some sample_policy) policy_request =
     Some (Inr (RLM_MODULE_OK, policy_request\<lparr>rq_simul_max := Some RLM_MODULE_OK\<rparr>))"
proof -
  have "modcall sample_cb RLM_COMPONENT_AUTZ (Some sample_policy) policy_request =
      Some (Inr (policy_eval sample_cb RLM_COMPONENT_AUTZ sample_policy policy_request))"
    by (rule modcall_refines_eval [OF sample_policy_def]) (simp_all add: sample_policy_def MODCALL_STACK_MAX_def)
  also have "policy_eval sample_cb RLM_COMPONENT_AUTZ sample_policy policy_request =
      (RLM_MODULE_OK, policy_request\<lparr>rq_simul_max := Some RLM_MODULE_OK\<rparr>)"
    by (simp add: policy_eval_def sample_policy_def policy_request_def group_entry_def exec_list.simps exec_child.simps plan_def sample_cb_def
        autz_row_def MOD_ACTION_RETURN_def MOD_ACTION_REJECT_def call_modsingle_def kind_if_def)
  finally show ?thesis .
qed

section \<open>Redundant groups\<close>

text \<open>
  A call of a module: its name, its actions, the method and the instance. Calls are made one after the other until the action for an answer is to return it or
  to reject; otherwise the answer is the one of greatest priority, the last of them if there are several.
\<close>

type_synonym call = "string \<times> actions \<times> component \<times> string"

definition module_call :: "call \<Rightarrow> modcallable" where
  "module_call m = (case m of (nm, acts, method, modinst) \<Rightarrow> MOD_SINGLE nm acts method modinst)"

fun failover :: "'r callbacks \<Rightarrow> component \<Rightarrow> call list \<Rightarrow> int \<Rightarrow> rcode \<Rightarrow> 'r request \<Rightarrow> rcode \<times> 'r request" where
  "failover cb component [] priority result q = (result, q)"
| "failover cb component ((nm, acts, method, modinst) # ms) priority result q =
     (if rq_stop q \<or> rq_parent_stop q then (RLM_MODULE_FAIL, q)
      else
        case call_modsingle cb method modinst q of
          (r, q) \<Rightarrow>
            let q = (if component \<noteq> RLM_COMPONENT_SESS then q\<lparr>rq_simul_max := Some r\<rparr> else q)
            in if acts r = MOD_ACTION_RETURN then (r, q)
               else if acts r = MOD_ACTION_REJECT then (RLM_MODULE_REJECT, q)
               else if priority \<le> acts r then failover cb component ms (acts r) r q
               else failover cb component ms priority result q)"

text \<open>The first module that does not fail.\<close>

fun first_working :: "'r callbacks \<Rightarrow> component \<Rightarrow> call list \<Rightarrow> 'r request \<Rightarrow> rcode \<times> 'r request" where
  "first_working cb component [] q = (RLM_MODULE_FAIL, q)"
| "first_working cb component ((nm, acts, method, modinst) # ms) q =
     (if rq_stop q \<or> rq_parent_stop q then (RLM_MODULE_FAIL, q)
      else
        case call_modsingle cb method modinst q of
          (r, q) \<Rightarrow>
            let q = (if component \<noteq> RLM_COMPONENT_SESS then q\<lparr>rq_simul_max := Some r\<rparr> else q)
            in if r = RLM_MODULE_FAIL then first_working cb component ms q else (r, q))"

lemma redundant_action:
  "component \<noteq> RLM_COMPONENT_ACCT \<Longrightarrow>
   defaultactions component GROUPTYPE_REDUNDANT r = (if r = RLM_MODULE_FAIL then 1 else MOD_ACTION_RETURN)"
  by (cases component; cases r) (simp_all add: redundant_row_def)

lemma calls_exec:
  "(case exec_list cb component kind (map module_call ms) priority result was_if if_taken my q of
      Halted q \<Rightarrow> (RLM_MODULE_FAIL, q) | Value r q \<Rightarrow> (r, q)) = failover cb component ms priority result q"
proof (induction ms arbitrary: priority result was_if if_taken my q)
  case (Cons m ms)
  then show ?case by (cases m) (auto simp: exec_list.simps exec_child.simps module_call_def Let_def split: prod.split)
qed (simp add: exec_list.simps)

lemma failover_default:
  assumes "component \<noteq> RLM_COMPONENT_ACCT" and "\<forall>m\<in>set ms. fst (snd m) = defaultactions component GROUPTYPE_REDUNDANT"
    and "priority \<le> 1" and "ms \<noteq> [] \<or> result = RLM_MODULE_FAIL"
  shows "failover cb component ms priority result q = first_working cb component ms q"
  using assms(2-4)
proof (induction ms arbitrary: priority result q)
  case (Cons m ms)
  then show ?case
    by (cases m) (auto simp: redundant_action [OF assms(1)] Let_def MOD_ACTION_RETURN_def MOD_ACTION_REJECT_def split: prod.split)
qed simp

lemma calls_depth: "mc_depth (Modgroup kind nm acts (map module_call ms)) = 1"
  by (induction ms) (auto simp: module_call_def)

text \<open>C22: Failover with load balancing. A \<^verbatim>\<open>redundant-load-balance\<close> group of calls of modules, whatever their actions, makes the calls one after the
  other, each at most once, from a random one of them around the group, until the action for the answer of one is to return it or to reject;
  otherwise the answer is the one of greatest priority. With the actions the compiler gives by default outside accounting, that is: until one
  does not fail, whose answer is the answer of the group, which fails only when every module did or the request was stopped. (In accounting the
  calls also go on after reject, invalid, userlock, notfound, noop and updated.)\<close>

theorem redundant_load_balance_failover:
  fixes cb :: "'r callbacks"
  assumes "ms \<noteq> []" and "\<not> rq_stop q" and "\<not> rq_parent_stop q" and "lb_pick 0 1 1 (length ms - 1) (rq_lib q) = (i, s)"
  shows "i < length ms \<and>
    modcall cb component (Some (Modgroup MOD_REDUNDANT_LOAD_BALANCE nm acts (map module_call ms))) q =
      Some (Inr (failover cb component (rotate i ms) 0 (default_component_results component) (q\<lparr>rq_lib := s\<rparr>))) \<and>
    (component \<noteq> RLM_COMPONENT_ACCT \<and> (\<forall>m\<in>set ms. fst (snd m) = defaultactions component GROUPTYPE_REDUNDANT) \<longrightarrow>
       failover cb component (rotate i ms) 0 (default_component_results component) (q\<lparr>rq_lib := s\<rparr>) =
         first_working cb component (rotate i ms) (q\<lparr>rq_lib := s\<rparr>))"
proof (intro conjI impI)
  let ?c = "Modgroup MOD_REDUNDANT_LOAD_BALANCE nm acts (map module_call ms)"
  have "i < 1 + (length ms - 1)" using lb_pick_less [of 0 1 1 "length ms - 1" "rq_lib q"] assms(4) by simp
  then show i: "i < length ms" using assms(1) by (cases ms) auto
  have "plan MOD_REDUNDANT_LOAD_BALANCE (map module_call ms) i = map module_call (rotate i ms)"
    using i by (simp add: plan_def rotate_drop_take drop_map take_map)
  moreover have "mc_depth ?c < MODCALL_STACK_MAX" unfolding calls_depth by (simp add: MODCALL_STACK_MAX_def)
  ultimately show "modcall cb component (Some ?c) q =
      Some (Inr (failover cb component (rotate i ms) 0 (default_component_results component) (q\<lparr>rq_lib := s\<rparr>)))"
    using assms calls_exec [of cb component MOD_REDUNDANT_LOAD_BALANCE "rotate i ms" 0 "default_component_results component" False False
        "default_component_results component" "q\<lparr>rq_lib := s\<rparr>"]
    by (simp add: modcall_eval [OF refl] policy_eval_def group_entry_def)
qed (rule failover_default, use assms(1) in simp_all)

theorem redundant_load_balance_failover_witness:
  "\<exists>i s. lb_pick 0 1 1 1 (lib_start 0 0) = (i, s) \<and> i < 2 \<and>
     modcall sample_cb RLM_COMPONENT_AUTZ (Some (Modgroup MOD_REDUNDANT_LOAD_BALANCE None (\<lambda>_. 0)
        (map module_call [(''sql1'', defaultactions RLM_COMPONENT_AUTZ GROUPTYPE_REDUNDANT, RLM_COMPONENT_AUTZ, ''sql1''),
           (''sql2'', defaultactions RLM_COMPONENT_AUTZ GROUPTYPE_REDUNDANT, RLM_COMPONENT_AUTZ, ''sql2'')]))) policy_request =
       Some (Inr (RLM_MODULE_OK, policy_request\<lparr>rq_simul_max := Some RLM_MODULE_OK, rq_lib := s\<rparr>))"
proof -
  let ?a = "defaultactions RLM_COMPONENT_AUTZ GROUPTYPE_REDUNDANT"
  let ?ms = "[(''sql1'', ?a, RLM_COMPONENT_AUTZ, ''sql1''), (''sql2'', ?a, RLM_COMPONENT_AUTZ, ''sql2'')]"
  obtain i s where i: "lb_pick 0 1 1 1 (lib_start 0 0) = (i, s)" by fastforce
  have "?ms \<noteq> []" "\<not> rq_stop policy_request" "\<not> rq_parent_stop policy_request" "lb_pick 0 1 1 (length ?ms - 1) (rq_lib policy_request) = (i, s)"
    using i by (simp_all add: policy_request_def)
  note run = redundant_load_balance_failover [OF this, of sample_cb RLM_COMPONENT_AUTZ None "\<lambda>_. 0"]
  then have "i = 0 \<or> i = 1" by auto
  then have "first_working sample_cb RLM_COMPONENT_AUTZ (rotate i ?ms) (policy_request\<lparr>rq_lib := s\<rparr>) =
      (RLM_MODULE_OK, policy_request\<lparr>rq_simul_max := Some RLM_MODULE_OK, rq_lib := s\<rparr>)"
    by (auto simp: sample_cb_def policy_request_def call_modsingle_def)
  then show ?thesis using run i by auto
qed

end
