(* ===== verification/Policy_Types.thy ===== *)
theory Policy_Types
  imports Modcall_Compile Modcall_Exec
begin

text \<open>
  What the compiler of policies promises to the interpreter: a type of trees that every tree built has, and that meets what the interpreter needs.
  The fuel of the compiler is enough when sections do not refer to virtual modules.
\<close>

section \<open>The type of a tree\<close>

definition rcodes :: "rcode list" where
  "rcodes = map snd rcode_table"

definition action_typed :: "int \<Rightarrow> bool" where
  "action_typed a \<longleftrightarrow> a = MOD_ACTION_RETURN \<or> a = MOD_ACTION_REJECT \<or> 1 \<le> a \<and> a \<le> 2147483647"

definition actions_typed :: "actions \<Rightarrow> bool" where
  "actions_typed acts \<longleftrightarrow> list_all (\<lambda>r. action_typed (acts r)) rcodes"

text \<open>An update has no actions; only a \<^verbatim>\<open>case\<close> may have no name, it always returns, and a \<^verbatim>\<open>switch\<close> has nothing else.\<close>

fun mc_typed :: "modcallable \<Rightarrow> bool" where
  "mc_typed (MOD_SINGLE nm acts method modinst) = actions_typed acts"
| "mc_typed (MOD_UPDATE nm acts vps) = (list_all (\<lambda>r. acts r = 0) rcodes \<and> vps \<noteq> [])"
| "mc_typed (MOD_REFERENCE nm acts ref_name) = actions_typed acts"
| "mc_typed (MOD_XLAT nm acts exec fmt) = actions_typed acts"
| "mc_typed (Modgroup kind nm acts children) =
     (actions_typed acts \<and> list_all mc_typed children \<and> (nm = None \<longrightarrow> kind = MOD_CASE) \<and>
      (kind = MOD_CASE \<longrightarrow> list_all (\<lambda>r. acts r = MOD_ACTION_RETURN) rcodes) \<and>
      (kind = MOD_SWITCH \<longrightarrow> list_all (\<lambda>c. mc_kind c = Some MOD_CASE) children))"

lemma rcodes_all: "list_all P rcodes \<longleftrightarrow> (\<forall>r. P r)"
proof
  assume *: "list_all P rcodes"
  show "\<forall>r. P r"
  proof
    fix r show "P r" using * by (cases r) (simp_all add: rcodes_def rcode_table_def)
  qed
qed (simp add: list_all_iff)

lemma actions_typed_iff: "actions_typed acts \<longleftrightarrow> (\<forall>r. action_typed (acts r))"
  by (simp add: actions_typed_def rcodes_all)

lemma defaultactions_typed: "actions_typed (defaultactions component grouptype)"
proof -
  have rows: "actions_typed (action_row redundant_row)" "actions_typed (action_row append_row)" "actions_typed (action_row autz_row)"
    "actions_typed (action_row acct_row)"
    "actions_typed (action_row [MOD_ACTION_RETURN, 1, MOD_ACTION_RETURN, MOD_ACTION_RETURN, 1, MOD_ACTION_RETURN, MOD_ACTION_RETURN, 1, 1])"
    "actions_typed (action_row [1, 1, MOD_ACTION_RETURN, MOD_ACTION_RETURN, 1, 1, 1, 2, 4])"
    by (simp_all add: actions_typed_def rcodes_def rcode_table_def action_typed_def redundant_row_def append_row_def autz_row_def acct_row_def)
  show ?thesis by (cases component; cases grouptype; simp add: rows)
qed

lemma default_for_typed: "actions_typed (default_for parent component grouptype)"
  by (simp add: default_for_def defaultactions_typed)

text \<open>Actions that may not be set yet.\<close>

definition actions_open :: "actions \<Rightarrow> bool" where
  "actions_open acts \<longleftrightarrow> (\<forall>r. acts r = 0 \<or> action_typed (acts r))"

lemma action_atoi_range: "0 \<le> action_atoi s \<and> action_atoi s \<le> 2147483647"
  by (simp add: action_atoi_def)

lemma compile_action_open:
  assumes "compile_action acts attr val = Some acts'"
  obtains a where "action_typed a" and "acts' = (\<lambda>r. if acts r = 0 then a else acts r) \<or> (\<exists>r. acts' = acts(r := a))"
proof -
  obtain v where v: "val = Some v" using assms by (auto simp: compile_action_def split: option.split_asm)
  define action where "action =
      (if strcasecmp v ''return'' = 0 then Some MOD_ACTION_RETURN
       else if strcasecmp v ''break'' = 0 then Some MOD_ACTION_RETURN
       else if strcasecmp v ''reject'' = 0 then Some MOD_ACTION_REJECT
       else if list_all isdigit v then (if action_atoi v = 0 then None else Some (action_atoi v))
       else None)"
  have typed: "action_typed a" if "action = Some a" for a
    using that action_atoi_range [of v] by (auto simp: action_def action_typed_def split: if_split_asm)
  have "compile_action acts attr val = (case action of None \<Rightarrow> None
      | Some a \<Rightarrow> if strcasecmp attr ''default'' \<noteq> 0 then (case fr_str2int rcode_table attr of None \<Rightarrow> None | Some r \<Rightarrow> Some (acts(r := a)))
          else Some (\<lambda>r. if acts r = 0 then a else acts r))"
    unfolding compile_action_def v by (simp only: option.case Let_def action_def)
  then show thesis using assms that typed by (auto split: option.split_asm if_split_asm)
qed

lemma compile_action_keeps_open: "compile_action acts attr val = Some acts' \<Longrightarrow> actions_open acts \<Longrightarrow> actions_open acts'"
  by (erule compile_action_open) (auto simp: actions_open_def, metis+)

lemma compile_action_keeps_typed: "compile_action acts attr val = Some acts' \<Longrightarrow> actions_typed acts \<Longrightarrow> actions_typed acts'"
  by (erule compile_action_open) (auto simp: actions_typed_iff)

lemma call_actions_typed: "call_actions cis acts = Some acts' \<Longrightarrow> actions_typed acts \<Longrightarrow> actions_typed acts'"
  by (induction cis arbitrary: acts) (auto split: conf_item.split_asm option.split_asm dest: compile_action_keeps_typed)

section \<open>Every tree built has it\<close>

lemma compile_module_typed: "compile_module env here parent component ci modrefname grouptype = Built c \<Longrightarrow> mc_typed c"
  by (auto simp: compile_module_def do_compile_modserver_def default_for_typed defaultactions_typed
      split: module_ref.split_asm option.split_asm if_split_asm prod.split_asm dest: call_actions_typed)

lemma do_compile_modupdate_typed: "do_compile_modupdate env cs name2 = Built c \<Longrightarrow> mc_typed c"
  by (auto simp: do_compile_modupdate_def Let_def rcodes_all split: if_split_asm option.split_asm list.split_asm)

text \<open>What the loop over the entries of a group builds: a group of what was built for its entries.\<close>

definition item_of :: "conf_item \<Rightarrow> bool" where
  "item_of ci \<longleftrightarrow> cf_item_is_section ci \<or> cf_item_is_pair ci \<and> cp_value ci = None"

lemma compile_items_built:
  assumes "compile_items single kind nm acts children cis = Built c" and "actions_open acts"
  shows "\<exists>acts' added. c = Modgroup kind (Some nm) acts' (children @ added) \<and> actions_open acts' \<and>
      (\<forall>d\<in>set added. \<exists>i. \<exists>ci\<in>set cis. item_of ci \<and> single i ci = Built d)"
  using assms
proof (induction cis arbitrary: acts children)
  case (Cons ci cis)
  have sub: ?case if run: "(case single (length children) ci of
           Built d \<Rightarrow> compile_items single kind nm acts (children @ [d]) cis
         | NoTree \<Rightarrow> free_and_fail (Modgroup kind (Some nm) acts children)
         | r \<Rightarrow> r) = Built c" and item: "item_of ci"
  proof -
    obtain d where d: "single (length children) ci = Built d" "compile_items single kind nm acts (children @ [d]) cis = Built c"
      using run by (auto simp: free_and_fail_def split: compiled.split_asm if_split_asm)
    from Cons.IH [OF d(2) Cons.prems(2)] obtain acts' added where *: "c = Modgroup kind (Some nm) acts' ((children @ [d]) @ added)" "actions_open acts'"
      "\<forall>e\<in>set added. \<exists>i. \<exists>ci\<in>set cis. item_of ci \<and> single i ci = Built e" by blast
    then show ?thesis using d(1) item by (intro exI [of _ acts'] exI [of _ "d # added"]) (simp, blast)
  qed
  have rest: ?case if "compile_items single kind nm acts' children cis = Built c" "actions_open acts'" for acts'
    using Cons.IH [OF that] by fastforce
  show ?case
  proof (cases ci)
    case (CONF_PAIR attr val op)
    show ?thesis
    proof (cases val)
      case None
      then show ?thesis using sub Cons.prems(1) CONF_PAIR by (simp add: Let_def item_of_def cf_item_is_pair_def)
    next
      case (Some v)
      then show ?thesis using rest compile_action_keeps_open [OF _ Cons.prems(2)] Cons.prems(1) CONF_PAIR
        by (auto simp: Let_def free_and_fail_def split: option.split_asm if_split_asm)
    qed
  qed (use sub rest Cons.prems in \<open>simp_all add: Let_def item_of_def cf_item_is_section_def\<close>)
qed auto

lemma compile_group_built:
  assumes "compile_group single here parent component outer cs grouptype parentgrouptype = Built c"
  shows "\<exists>kind nm acts children. c = Modgroup kind (Some nm) acts children \<and> kind \<in> {MOD_GROUP, MOD_POLICY} \<and> actions_typed acts \<and>
      (\<forall>d\<in>set children. \<exists>h p. \<exists>ci\<in>set (cs_children cs). item_of ci \<and> single h (Some p) component (cs_addr cs # outer) ci grouptype = Built d)"
proof -
  obtain nm kind where nk: "group_name_type cs = (nm, kind)" by fastforce
  then have kind: "kind \<in> {MOD_GROUP, MOD_POLICY}" by (auto simp: group_name_type_def split: option.split_asm if_split_asm)
  let ?items = "compile_items (\<lambda>i ci. single (i # here) (Some kind) component (cs_addr cs # outer) ci grouptype) kind nm (\<lambda>_. 0) [] (cs_children cs)"
  obtain b where b: "?items = Built b" using assms nk by (cases ?items) (auto simp: compile_group_def)
  have "actions_open (\<lambda>_. 0)" by (simp add: actions_open_def)
  from compile_items_built [OF b this] obtain acts children where m: "b = Modgroup kind (Some nm) acts children" "actions_open acts"
    "\<forall>d\<in>set children. \<exists>i. \<exists>ci\<in>set (cs_children cs). item_of ci \<and> single (i # here) (Some kind) component (cs_addr cs # outer) ci grouptype = Built d" by auto
  let ?acts = "\<lambda>r. if acts r = 0 then default_for parent component parentgrouptype r else acts r"
  have "c = Modgroup kind (Some nm) ?acts children" using assms nk b m(1) by (simp add: compile_group_def)
  moreover have "action_typed (?acts r)" for r
    using m(2) default_for_typed [of parent component parentgrouptype] by (auto simp: actions_typed_iff actions_open_def)
  ultimately show ?thesis using kind m(3)
    by (intro exI [of _ kind] exI [of _ nm] exI [of _ ?acts] exI [of _ children]) (simp add: actions_typed_iff, blast)
qed

text \<open>A \<^verbatim>\<open>case\<close> section gives a \<^verbatim>\<open>case\<close>.\<close>

lemma compile_case_kind:
  assumes "do_compile_modsingle n env here parent component outer ci grouptype = Built c" and "cf_item_is_section ci" and "cs_name1 ci = ''case''"
  shows "mc_kind c = Some MOD_CASE"
proof (cases n)
  case (Suc m)
  obtain a n2 ch where ci: "ci = CONF_SECTION a ''case'' n2 ch" using assms(2,3) by (cases ci) (auto simp: cf_item_is_section_def)
  let ?g = "compile_group (do_compile_modsingle m env) here parent component outer ci GROUPTYPE_SIMPLE grouptype"
  have "as_case n2 ?g = Built c" using assms(1) unfolding Suc do_compile_modsingle.simps(2) ci
    by (simp add: compile_section_def Let_def split: if_split_asm)
  then show ?thesis using compile_group_built [of "do_compile_modsingle m env" here parent component outer ci GROUPTYPE_SIMPLE grouptype] by (cases ?g) auto
qed (use assms in simp)

lemma switch_cases_items: "switch_cases cis seen \<Longrightarrow> ci \<in> set cis \<Longrightarrow> item_of ci \<Longrightarrow> cf_item_is_section ci \<and> cs_name1 ci = ''case''"
  by (induction cis arbitrary: seen) (auto simp: item_of_def split: if_split_asm option.split_asm)

lemma with_type_built: "with_type kind r = Built c \<Longrightarrow> r = Built (Modgroup k nm acts children) \<Longrightarrow> c = Modgroup kind nm acts children"
  by simp

lemma check_condition_built: "check_condition env name2 r = Built c \<Longrightarrow> r = Built c"
  by (auto simp: check_condition_def free_and_fail_def split: compiled.split_asm if_split_asm)

lemma compile_section_typed:
  assumes built: "compile_section env here parent component cs grouptype (compile_group single here parent component outer cs) = Built c"
    and group: "\<And>gt pgt d. compile_group single here parent component outer cs gt pgt = Built d \<Longrightarrow> \<exists>k nm acts children.
       d = Modgroup k (Some nm) acts children \<and> k \<in> {MOD_GROUP, MOD_POLICY} \<and> actions_typed acts \<and> list_all mc_typed children \<and>
       (switch_cases (cs_children cs) False \<longrightarrow> list_all (\<lambda>c. mc_kind c = Some MOD_CASE) children)"
  shows "mc_typed c"
proof -
  define g where "g = compile_group single here parent component outer cs"
  note group = group [folded g_def]
  have plain: "mc_typed d" if "g gt pgt = Built d" for gt pgt d using group [OF that] by auto
  have retyped: "mc_typed d" if "with_type k (g gt pgt) = Built d" "k \<notin> {MOD_CASE, MOD_SWITCH}" for gt pgt k d
    using that group [of gt pgt] by (cases "g gt pgt") auto
  have switch: "mc_typed d" if "with_type MOD_SWITCH (g gt pgt) = Built d" "switch_cases (cs_children cs) False" for gt pgt d
    using that group [of gt pgt] by (cases "g gt pgt") auto
  have cased: "mc_typed d" if "as_case nm (g gt pgt) = Built d" for gt pgt nm d
    using that group [of gt pgt] by (cases "g gt pgt") (auto simp: actions_typed_iff action_typed_def rcodes_all)
  show ?thesis using built [folded g_def] unfolding compile_section_def Let_def
    by (auto split: if_split_asm dest!: check_condition_built dest: plain retyped switch cased compile_module_typed do_compile_modupdate_typed)
qed

lemma do_compile_modsingle_typed: "do_compile_modsingle n env here parent component outer ci grouptype = Built c \<Longrightarrow> mc_typed c"
proof (induction n arbitrary: here parent component outer ci grouptype c)
  case (Suc n)
  have group: "\<exists>k nm acts children.
       d = Modgroup k (Some nm) acts children \<and> k \<in> {MOD_GROUP, MOD_POLICY} \<and> actions_typed acts \<and> list_all mc_typed children \<and>
       (switch_cases (cs_children cs) False \<longrightarrow> list_all (\<lambda>c. mc_kind c = Some MOD_CASE) children)"
    if "compile_group (do_compile_modsingle n env) here parent component outer cs gt pgt = Built d" for here parent outer cs gt pgt d
    using compile_group_built [OF that] Suc.IH compile_case_kind switch_cases_items unfolding list_all_iff by fastforce
  show ?case
  proof (cases ci)
    case (CONF_PAIR nm val op)
    have *: "mc_typed d" if "compile_group (do_compile_modsingle n env) here parent component outer cs gt pgt = Built d" for here parent outer cs gt pgt d
      using group [OF that] by auto
    show ?thesis using Suc.prems unfolding do_compile_modsingle.simps(2) CONF_PAIR
      by (auto simp: do_compile_modxlat_def defaultactions_typed split: if_split_asm option.split_asm dest: compile_module_typed Suc.IH *)
  next
    case (CONF_SECTION a n1 n2 ch)
    have "compile_section env here parent component ci grouptype (compile_group (do_compile_modsingle n env) here parent component outer ci) = Built c"
      using Suc.prems unfolding do_compile_modsingle.simps(2) CONF_SECTION by simp
    then show ?thesis by (rule compile_section_typed) (rule group)
  qed (use Suc.prems in \<open>simp add: do_compile_modsingle.simps(2)\<close>)
qed simp

section \<open>Fuel\<close>

text \<open>More fuel gives the same, or an answer instead of none.\<close>

definition fuel_le :: "compiled \<Rightarrow> compiled \<Rightarrow> bool" where
  "fuel_le r r' \<longleftrightarrow> r = Unfinished \<or> r = r'"

lemma fuel_le_refl [simp]: "fuel_le r r"
  by (simp add: fuel_le_def)

lemma compile_items_fuel:
  "(\<And>i ci. fuel_le (single i ci) (single' i ci)) \<Longrightarrow>
   fuel_le (compile_items single kind nm acts children cis) (compile_items single' kind nm acts children cis)"
proof (induction cis arbitrary: acts children)
  case (Cons ci cis)
  have sub: "fuel_le (case single (length children) ci of
           Built d \<Rightarrow> compile_items single kind nm acts (children @ [d]) cis
         | NoTree \<Rightarrow> free_and_fail (Modgroup kind (Some nm) acts children) | r \<Rightarrow> r)
      (case single' (length children) ci of
           Built d \<Rightarrow> compile_items single' kind nm acts (children @ [d]) cis
         | NoTree \<Rightarrow> free_and_fail (Modgroup kind (Some nm) acts children) | r \<Rightarrow> r)"
  proof (cases "single (length children) ci = Unfinished")
    case False
    then have "single (length children) ci = single' (length children) ci" using Cons.prems [of "length children" ci] by (simp add: fuel_le_def)
    then show ?thesis by (cases "single' (length children) ci") (simp_all add: Cons.IH [OF Cons.prems])
  qed (simp add: fuel_le_def)
  show ?case
    using sub Cons.IH [OF Cons.prems] by (auto simp: Let_def split: conf_item.split option.split)
qed simp

lemma compile_group_fuel:
  assumes "\<And>here parent component outer ci gt. fuel_le (single here parent component outer ci gt) (single' here parent component outer ci gt)"
  shows "fuel_le (compile_group single here parent component outer cs gt pgt) (compile_group single' here parent component outer cs gt pgt)"
proof -
  obtain nm kind where nk: "group_name_type cs = (nm, kind)" by fastforce
  have fill: "fuel_le r r' \<Longrightarrow> fuel_le (fill_actions d r) (fill_actions d r')" for d r r' by (auto simp: fuel_le_def)
  show ?thesis unfolding compile_group_def nk prod.case by (intro fill compile_items_fuel assms)
qed

lemma compile_section_fuel:
  assumes "\<And>gt pgt. fuel_le (g gt pgt) (g' gt pgt)"
  shows "fuel_le (compile_section env here parent component cs grouptype g) (compile_section env here parent component cs grouptype g')"
proof -
  have t: "fuel_le (with_type k (g gt pgt)) (with_type k (g' gt pgt))" "fuel_le (as_case nm (g gt pgt)) (as_case nm (g' gt pgt))"
    "fuel_le (check_condition env name2 (with_type k (g gt pgt))) (check_condition env name2 (with_type k (g' gt pgt)))" for k gt pgt nm name2
    using assms [of gt pgt] by (cases "g gt pgt = Unfinished"; simp add: fuel_le_def check_condition_def)+
  show ?thesis unfolding compile_section_def Let_def by (simp add: t assms)
qed

lemma do_compile_modsingle_step:
  assumes "\<And>here parent component outer ci gt.
     fuel_le (do_compile_modsingle n env here parent component outer ci gt) (do_compile_modsingle m env here parent component outer ci gt)"
  shows "fuel_le (do_compile_modsingle (Suc n) env here parent component outer ci gt) (do_compile_modsingle (Suc m) env here parent component outer ci gt)"
  unfolding do_compile_modsingle.simps(2)
  by (auto split: conf_item.split option.split intro!: compile_section_fuel compile_group_fuel assms)

lemma do_compile_modsingle_more:
  "fuel_le (do_compile_modsingle n env here parent component outer ci gt) (do_compile_modsingle (n + k) env here parent component outer ci gt)"
proof (induction n arbitrary: here parent component outer ci gt)
  case (Suc n)
  then show ?case using do_compile_modsingle_step [of n env "n + k"] by simp
qed (simp add: fuel_le_def)

text \<open>References between sections and virtual modules that do not run in circles: a rank falls from an entry to what it is compiled from.\<close>

definition acyclic_refs :: "compile_env \<Rightarrow> (conf_item \<Rightarrow> nat) \<Rightarrow> bool" where
  "acyclic_refs env rank \<longleftrightarrow>
     (\<forall>a n1 n2 children. \<forall>ci\<in>set children. rank ci < rank (CONF_SECTION a n1 n2 children)) \<and>
     (\<forall>nm op component outer around subcs. virtual_module env component outer nm = Some (around, subcs) \<longrightarrow>
        cf_item_is_section subcs \<and> rank subcs < rank (CONF_PAIR nm None op))"

lemma acyclic_refs_section: "acyclic_refs env rank \<Longrightarrow> ci \<in> set ch \<Longrightarrow> rank ci < rank (CONF_SECTION a n1 n2 ch)"
  unfolding acyclic_refs_def by blast

lemma acyclic_refs_virtual:
  "acyclic_refs env rank \<Longrightarrow> virtual_module env component outer nm = Some (around, subcs) \<Longrightarrow>
   cf_item_is_section subcs \<and> rank subcs < rank (CONF_PAIR nm None op)"
  unfolding acyclic_refs_def by blast

lemma compile_items_ends:
  "(\<And>i ci. ci \<in> set cis \<Longrightarrow> single i ci \<noteq> Unfinished) \<Longrightarrow> compile_items single kind nm acts children cis \<noteq> Unfinished"
proof (induction cis arbitrary: acts children)
  case (Cons ci cis)
  have rest: "compile_items single kind nm acts children cis \<noteq> Unfinished" for acts children using Cons by simp
  have "single (length children) ci \<noteq> Unfinished" using Cons.prems by simp
  then have "(case single (length children) ci of
           Built d \<Rightarrow> compile_items single kind nm acts (children @ [d]) cis
         | NoTree \<Rightarrow> free_and_fail (Modgroup kind (Some nm) acts children) | r \<Rightarrow> r) \<noteq> Unfinished"
    using rest by (simp add: free_and_fail_def split: compiled.split)
  then show ?case using rest by (cases ci) (auto simp: Let_def free_and_fail_def split: option.split)
qed simp

lemma compile_group_ends:
  assumes "\<And>h p c u ci gt. ci \<in> set (cs_children cs) \<Longrightarrow> single h p c u ci gt \<noteq> Unfinished"
  shows "compile_group single here parent component outer cs gt pgt \<noteq> Unfinished"
proof -
  obtain nm kind where nk: "group_name_type cs = (nm, kind)" by fastforce
  have fill: "r \<noteq> Unfinished \<Longrightarrow> fill_actions d r \<noteq> Unfinished" for d r by (cases "(d, r)" rule: fill_actions.cases) auto
  show ?thesis unfolding compile_group_def nk prod.case by (intro fill compile_items_ends assms)
qed

lemma compile_module_ends: "compile_module env here parent component ci modrefname grouptype \<noteq> Unfinished"
  by (auto simp: compile_module_def do_compile_modserver_def split: module_ref.split option.split prod.split)

lemma compile_section_ends:
  assumes "\<And>gt pgt. g gt pgt \<noteq> Unfinished"
  shows "compile_section env here parent component cs grouptype g \<noteq> Unfinished"
proof -
  have t: "r \<noteq> Unfinished \<Longrightarrow> with_type k r \<noteq> Unfinished" "r \<noteq> Unfinished \<Longrightarrow> as_case nm r \<noteq> Unfinished" for k r nm
    by (cases "(k, r)" rule: with_type.cases; simp) (cases "(nm, r)" rule: as_case.cases; simp)
  have "r \<noteq> Unfinished \<Longrightarrow> check_condition env name2 r \<noteq> Unfinished" for r name2
    by (simp add: check_condition_def free_and_fail_def split: compiled.split)
  with t show ?thesis unfolding compile_section_def Let_def
    by (simp add: assms compile_module_ends do_compile_modupdate_def Let_def split: option.split list.split)
qed

lemma do_compile_modsingle_ends:
  "acyclic_refs env rank \<Longrightarrow> rank ci < n \<Longrightarrow> do_compile_modsingle n env here parent component outer ci gt \<noteq> Unfinished"
proof (induction n arbitrary: here parent component outer ci gt)
  case (Suc n)
  have children: "do_compile_modsingle n env h p c u ci gt \<noteq> Unfinished"
    if sec: "cf_item_is_section cs" "rank cs \<le> n" "ci \<in> set (cs_children cs)" for h p c u ci gt cs
  proof -
    obtain a n1 n2 ch where "cs = CONF_SECTION a n1 n2 ch" using sec by (cases cs) (auto simp: cf_item_is_section_def)
    then have "rank ci < n" using sec(2,3) acyclic_refs_section [OF Suc.prems(1), of ci ch a n1 n2] by simp
    then show ?thesis using Suc.IH [OF Suc.prems(1)] by blast
  qed
  show ?case
  proof (cases ci)
    case (CONF_PAIR nm val op)
    have sub: "cf_item_is_section subcs \<and> rank subcs < n" if "virtual_module env component outer nm = Some (around, subcs)" "val = None" for around subcs
      using Suc.prems(2) that(2) acyclic_refs_virtual [OF Suc.prems(1) that(1), of op] unfolding CONF_PAIR by simp
    have "compile_group (do_compile_modsingle n env) here parent component around subcs GROUPTYPE_SIMPLE gt \<noteq> Unfinished"
      "do_compile_modsingle n env here parent component around subcs gt \<noteq> Unfinished"
      if "virtual_module env component outer nm = Some (around, subcs)" "val = None" for around subcs
      using sub [OF that] Suc.IH [OF Suc.prems(1)] children [of subcs] by (auto intro!: compile_group_ends)
    then show ?thesis unfolding do_compile_modsingle.simps(2) CONF_PAIR by (auto simp: compile_module_ends split: option.split)
  next
    case (CONF_SECTION a n1 n2 ch)
    show ?thesis unfolding do_compile_modsingle.simps(2) CONF_SECTION conf_item.case
      by (rule compile_section_ends, rule compile_group_ends, rule children [of "CONF_SECTION a n1 n2 ch"])
        (use Suc.prems(2) CONF_SECTION in \<open>simp_all add: cf_item_is_section_def\<close>)
  qed (simp add: do_compile_modsingle.simps(2))
qed simp

section \<open>Properties\<close>

lemma compiled_group_typed:
  assumes "compile_modgroup n env here parent component outer cs = Built c"
  shows "mc_typed c \<and> mc_kind c \<in> {Some MOD_GROUP, Some MOD_POLICY}"
proof -
  from assms have "compile_group (do_compile_modsingle n env) here parent component outer cs GROUPTYPE_SIMPLE GROUPTYPE_SIMPLE = Built c"
    by (simp add: compile_modgroup_def do_compile_modgroup_def)
  from compile_group_built [OF this] show ?thesis using do_compile_modsingle_typed by (fastforce simp: list_all_iff)
qed

text \<open>C16: The trees the interpreter is given have the type it relies on. Whatever a group section contains, when it is compiled the result is a
  group or a policy, every action of every node is return, reject or a positive priority (none of an update), every node but a \<^verbatim>\<open>case\<close> has a name,
  a \<^verbatim>\<open>case\<close> always returns, and a \<^verbatim>\<open>switch\<close> has only such children.
\<close>

theorem compile_modgroup_typed:
  assumes "compile_modgroup n env here parent component outer cs = Built c"
  shows "mc_typed c \<and> mc_kind c \<in> {Some MOD_GROUP, Some MOD_POLICY}"
  using assms by (rule compiled_group_typed)

text \<open>C17: The compiler ends. When the references of virtual modules do not run in circles, fuel of the rank of a section is enough to compile
  it, to a tree or a failure, and more fuel gives the same.
\<close>

theorem compile_modgroup_ends:
  assumes "acyclic_refs env rank" and "cf_item_is_section cs" and "rank cs \<le> n"
  shows "compile_modgroup n env here parent component outer cs \<noteq> Unfinished \<and>
    compile_modgroup (n + k) env here parent component outer cs = compile_modgroup n env here parent component outer cs"
proof -
  obtain a n1 n2 ch where cs: "cs = CONF_SECTION a n1 n2 ch" using assms(2) by (cases cs) (auto simp: cf_item_is_section_def)
  have "compile_modgroup n env here parent component outer cs \<noteq> Unfinished"
    unfolding compile_modgroup_def do_compile_modgroup_def
  proof (rule compile_group_ends)
    fix h p c u ci gt assume "ci \<in> set (cs_children cs)"
    then have "rank ci < n" using acyclic_refs_section [OF assms(1), of ci ch a n1 n2] assms(3) cs by simp
    then show "do_compile_modsingle n env h p c u ci gt \<noteq> Unfinished" by (rule do_compile_modsingle_ends [OF assms(1)])
  qed
  moreover have "fuel_le (compile_modgroup n env here parent component outer cs) (compile_modgroup (n + k) env here parent component outer cs)"
    unfolding compile_modgroup_def do_compile_modgroup_def by (rule compile_group_fuel, rule do_compile_modsingle_more)
  ultimately show ?thesis by (simp add: fuel_le_def)
qed

text \<open>A configuration for examples: the policy \<^verbatim>\<open>a\<close> calls the module \<^verbatim>\<open>sql\<close>, or, when \<open>circular\<close>, the policy \<^verbatim>\<open>b\<close>, which calls \<^verbatim>\<open>a\<close>.\<close>

definition conf_a :: "bool \<Rightarrow> conf_item" where
  "conf_a circular = CONF_SECTION 2 ''a'' None [CONF_PAIR (if circular then ''b'' else ''sql'') None T_EOL]"

definition conf_b :: conf_item where
  "conf_b = CONF_SECTION 3 ''b'' None [CONF_PAIR ''a'' None T_EOL]"

definition conf_env :: "bool \<Rightarrow> compile_env" where
  "conf_env circular = \<lparr>
     ce_config = CONF_SECTION 0 ''main'' None
       [CONF_SECTION 1 ''policy'' None (conf_a circular # (if circular then [conf_b] else [])),
        CONF_SECTION 4 ''modules'' None [CONF_SECTION 5 ''sql'' None []]],
     ce_instance = (\<lambda>nm. if nm = ''sql'' then Some \<lparr>mi_name = ''sql'', mi_methods = (\<lambda>_. True)\<rparr> else None),
     ce_pairtovp = (\<lambda>_. None), ce_condition = (\<lambda>_. True)\<rparr>"

definition conf_section :: conf_item where
  "conf_section = CONF_SECTION 6 ''authorize'' None [CONF_PAIR ''a'' None T_EOL, CONF_PAIR ''ok'' (Some ''return'') T_OP_EQ]"

fun conf_rank :: "conf_item \<Rightarrow> nat" where
  "conf_rank (CONF_PAIR nm v op) = (if nm = ''a'' then 2 else 0)"
| "conf_rank (CONF_SECTION a n1 n2 children) = Suc (sum_list (map conf_rank children))"
| "conf_rank CONF_DATA = 0"

lemma dotted_long: "\<exists>x y zs. take 255 (nm @ CHR ''.'' # m) = x # y # zs \<or> take 255 (nm @ CHR ''.'' # m) = CHR ''.'' # zs"
  by (cases nm; cases "tl nm") auto

lemma dotted_not [simp]: "''a'' \<noteq> take 255 (nm @ CHR ''.'' # m)" "''b'' \<noteq> take 255 (nm @ CHR ''.'' # m)"
  using dotted_long [of nm m] by auto

lemmas conf_env_simps = virtual_module_def conf_env_def conf_a_def conf_b_def cf_section_sub_find_def cf_section_sub_find_name2_def cf_item_is_section_def
  Let_def

lemma virtual_plain:
  "virtual_module (conf_env False) component outer nm = Some (around, subcs) \<Longrightarrow> nm = ''a'' \<and> subcs = conf_a False"
  by (auto simp: conf_env_simps simp del: take_append split: if_split_asm option.split_asm)

lemma sample_action: "compile_action (\<lambda>_. 0) ''ok'' (Some ''return'') = Some ((\<lambda>_. 0)(RLM_MODULE_OK := MOD_ACTION_RETURN))"
  by (simp add: compile_action_def strcasecmp_def first_octet_def islower_def toupper_def eval_nat_numeral Let_def fr_str2int_def rcode_table_def)

lemma sample_compiled:
  assumes "2 \<notin> set outer"
  shows "do_compile_modsingle 3 (conf_env False) here parent RLM_COMPONENT_AUTZ outer (CONF_PAIR ''a'' None T_EOL) gt =
    Built (Modgroup MOD_POLICY (Some ''a'') (default_for parent RLM_COMPONENT_AUTZ gt)
      [MOD_SINGLE ''sql'' (defaultactions RLM_COMPONENT_AUTZ GROUPTYPE_SIMPLE) RLM_COMPONENT_AUTZ ''sql''])"
proof -
  have three: "(3 :: nat) = Suc (Suc (Suc 0))" by simp
  have "take 255 (''a'' @ CHR ''.'' # comp2str RLM_COMPONENT_AUTZ) \<noteq> ''a''" by simp
  then have v: "virtual_module (conf_env False) RLM_COMPONENT_AUTZ outer ''a'' = Some ([1, 0], conf_a False)"
    using assms by (simp add: conf_env_simps)
  have v': "virtual_module (conf_env False) RLM_COMPONENT_AUTZ [2, Suc 0, 0] ''sql'' = None"
    by (simp add: conf_env_simps)
  have m: "compile_module (conf_env False) here (Some p) RLM_COMPONENT_AUTZ ci ''sql'' gt =
      Built (MOD_SINGLE ''sql'' (default_for (Some p) RLM_COMPONENT_AUTZ gt) RLM_COMPONENT_AUTZ ''sql'')" if "\<not> cf_item_is_section ci" for ci here gt p
    using that by (simp add: compile_module_def resolve_module_def conf_env_def cf_section_sub_find_def cf_section_sub_find_name2_def cf_item_is_section_def)
  show ?thesis unfolding three
    by (simp add: do_compile_modsingle.simps(2) v is_xlat_def conf_a_def compile_group_def group_name_type_def v' m [unfolded cf_item_is_section_def])
      (simp add: default_for_def)
qed

theorem compile_modgroup_typed_witness:
  "\<exists>c. compile_modgroup 3 (conf_env False) [] None RLM_COMPONENT_AUTZ [] conf_section = Built c \<and> mc_typed c \<and> mc_kind c = Some MOD_POLICY"
proof -
  have "\<exists>acts children. compile_modgroup 3 (conf_env False) [] None RLM_COMPONENT_AUTZ [] conf_section =
      Built (Modgroup MOD_POLICY (Some ''authorize'') acts children)"
    by (simp add: compile_modgroup_def do_compile_modgroup_def compile_group_def conf_section_def group_name_type_def sample_action sample_compiled)
  then show ?thesis using compile_modgroup_typed by fastforce
qed

lemma conf_acyclic: "acyclic_refs (conf_env False) conf_rank"
  unfolding acyclic_refs_def
proof (intro conjI allI ballI impI)
  fix a n1 n2 children and ci :: conf_item assume "ci \<in> set children"
  then show "conf_rank ci < conf_rank (CONF_SECTION a n1 n2 children)" by (simp add: member_le_sum_list less_Suc_eq_le)
next
  fix nm op component outer around subcs assume "virtual_module (conf_env False) component outer nm = Some (around, subcs)"
  from virtual_plain [OF this] show "cf_item_is_section subcs" "conf_rank subcs < conf_rank (CONF_PAIR nm None op)"
    by (simp_all add: conf_a_def cf_item_is_section_def)
qed

theorem compile_modgroup_ends_witness:
  "compile_modgroup 3 (conf_env False) [] None RLM_COMPONENT_AUTZ [] conf_section \<noteq> Unfinished \<and>
   compile_modgroup 100 (conf_env False) [] None RLM_COMPONENT_AUTZ [] conf_section =
     compile_modgroup 3 (conf_env False) [] None RLM_COMPONENT_AUTZ [] conf_section"
  using compile_modgroup_ends [OF conf_acyclic, of conf_section 3 "[]" None RLM_COMPONENT_AUTZ "[]" 97]
  by (simp add: conf_section_def cf_item_is_section_def)

text \<open>Two policies that refer to each other are compiled for ever: only an entry inside of its own policy is noticed.\<close>

lemma compile_cycle:
  "2 \<notin> set outer \<Longrightarrow> do_compile_modsingle n (conf_env True) here parent component outer (CONF_PAIR ''a'' None op) gt = Unfinished \<and>
   (3 \<notin> set outer' \<longrightarrow> do_compile_modsingle n (conf_env True) here' parent' component' outer' (CONF_PAIR ''b'' None op') gt' = Unfinished)"
proof (induction n arbitrary: outer outer' here here' parent parent' component component' op op' gt gt')
  case (Suc n)
  have v: "virtual_module (conf_env True) component outer ''a'' = Some ([1, 0], conf_a True)"
    using Suc.prems dotted_not [of "''a''" "comp2str component"] by (simp add: conf_env_simps)
  have w: "virtual_module (conf_env True) component' outer' ''b'' = Some ([1, 0], conf_b)" if "3 \<notin> set outer'"
    using that dotted_not [of "''b''" "comp2str component'"] by (simp add: conf_env_simps)
  have "compile_group (do_compile_modsingle n (conf_env True)) here parent component [1, 0] (conf_a True) GROUPTYPE_SIMPLE gt = Unfinished"
    using Suc.IH [of "[]"] by (simp add: compile_group_def conf_a_def group_name_type_def)
  moreover have "compile_group (do_compile_modsingle n (conf_env True)) here' parent' component' [1, 0] conf_b GROUPTYPE_SIMPLE gt' = Unfinished"
    using Suc.IH by (simp add: compile_group_def conf_b_def group_name_type_def)
  ultimately show ?case using v w
    by (simp add: do_compile_modsingle.simps(2) is_xlat_def conf_a_def [of True] conf_b_def)
qed simp

end
