(* ===== verification/Module_Lists.thy ===== *)
theory Module_Lists
  imports Policy_Types
begin

text \<open>
  The sections of virtual servers, the part of \<^verbatim>\<open>winradiusd/modules.cpp\<close> between the compiler of policies and their interpreter: the lists of modules of
  a server by component and index, filled from the configuration, the table of servers, and the call of a section for a request. The tree of
  lists is a map. Creating the values of types in the dictionary comes before and is not here.
\<close>

section \<open>Lists by index\<close>

fun section_type_name :: "component \<Rightarrow> string" where
  "section_type_name RLM_COMPONENT_AUTH = ''Auth-Type''"
| "section_type_name RLM_COMPONENT_AUTZ = ''Autz-Type''"
| "section_type_name RLM_COMPONENT_PREACCT = ''Pre-Acct-Type''"
| "section_type_name RLM_COMPONENT_ACCT = ''Acct-Type''"
| "section_type_name RLM_COMPONENT_SESS = ''Session-Type''"
| "section_type_name RLM_COMPONENT_PRE_PROXY = ''Pre-Proxy-Type''"
| "section_type_name RLM_COMPONENT_POST_PROXY = ''Post-Proxy-Type''"
| "section_type_name RLM_COMPONENT_POST_AUTH = ''Post-Auth-Type''"
| "section_type_name RLM_COMPONENT_RECV_COA = ''Recv-CoA-Type''"
| "section_type_name RLM_COMPONENT_SEND_COA = ''Send-CoA-Type''"

fun section_type_attr :: "component \<Rightarrow> u32" where
  "section_type_attr RLM_COMPONENT_AUTH = 1000"
| "section_type_attr RLM_COMPONENT_AUTZ = 1011"
| "section_type_attr RLM_COMPONENT_PREACCT = 1017"
| "section_type_attr RLM_COMPONENT_ACCT = 1012"
| "section_type_attr RLM_COMPONENT_SESS = 1013"
| "section_type_attr RLM_COMPONENT_PRE_PROXY = 1015"
| "section_type_attr RLM_COMPONENT_POST_PROXY = 1016"
| "section_type_attr RLM_COMPONENT_POST_AUTH = 1014"
| "section_type_attr RLM_COMPONENT_RECV_COA = 1131"
| "section_type_attr RLM_COMPONENT_SEND_COA = 1132"

text \<open>An entry without a list has been created and not filled.\<close>

type_synonym module_lists = "component \<times> u32 \<Rightarrow> modcallable option option"

definition lookup_by_index :: "module_lists \<Rightarrow> component \<Rightarrow> u32 \<Rightarrow> modcallable option option" where
  "lookup_by_index mls component idx = mls (component, idx)"

definition new_sublist :: "module_lists \<Rightarrow> component \<Rightarrow> u32 \<Rightarrow> module_lists option" where
  "new_sublist mls component idx =
     (case lookup_by_index mls component idx of
        Some c \<Rightarrow> if idx = 0 then Some mls else None
      | None \<Rightarrow> Some (mls((component, idx) := Some None)))"

section \<open>Loading\<close>

datatype loaded = Loaded module_lists | LoadError | LoadFault | LoadUnfinished

text \<open>\<open>free_and_then\<close>: the tree is freed, which may fail an assertion.\<close>

definition free_and_then :: "modcallable \<Rightarrow> loaded \<Rightarrow> loaded" where
  "free_and_then c r = (if modcallable_free c then r else LoadFault)"

definition load_subcomponent_section ::
    "nat \<Rightarrow> compile_env \<Rightarrow> dictionary \<Rightarrow> name_ptr \<Rightarrow> component \<Rightarrow> nat list \<Rightarrow> conf_item \<Rightarrow> u32 \<Rightarrow> module_lists \<Rightarrow> loaded" where
  "load_subcomponent_section n env d here component outer cs attr mls =
     (case cs_name2 cs of
        None \<Rightarrow> Loaded mls
      | Some name2 \<Rightarrow>
          (case compile_modgroup n env here None component outer cs of
             Unfinished \<Rightarrow> LoadUnfinished
           | Faulted \<Rightarrow> LoadFault
           | NoTree \<Rightarrow> LoadError
           | Built ml \<Rightarrow>
               (case dict_valbyname d attr name2 of
                  None \<Rightarrow> free_and_then ml LoadError
                | Some dval \<Rightarrow>
                    (case new_sublist mls component (dval_value dval) of
                       None \<Rightarrow> free_and_then ml (Loaded mls)
                     | Some mls \<Rightarrow> Loaded (mls((component, dval_value dval) := Some (Some ml)))))))"

text \<open>The index of an entry that is not a section of the type's name: for authentication, the value its name has.\<close>

definition entry_index :: "dictionary \<Rightarrow> component \<Rightarrow> conf_item \<Rightarrow> u32 option" where
  "entry_index d component modref =
     (if component = RLM_COMPONENT_AUTH then
        (case (if cf_item_is_pair modref then Some (cp_attr modref) else cs_name2 modref) of
           None \<Rightarrow> None
         | Some modrefname \<Rightarrow> map_option dval_value (dict_valbyname d (section_type_attr RLM_COMPONENT_AUTH) modrefname))
      else Some 0)"

fun load_entries ::
    "nat \<Rightarrow> compile_env \<Rightarrow> dictionary \<Rightarrow> name_ptr \<Rightarrow> component \<Rightarrow> nat list \<Rightarrow> string \<Rightarrow> u32 \<Rightarrow> nat \<Rightarrow> conf_item list \<Rightarrow> module_lists \<Rightarrow> loaded" where
  "load_entries n env d here component outer visiblename attr i [] mls = Loaded mls"
| "load_entries n env d here component outer visiblename attr i (modref # modrefs) mls =
     (if \<not> cf_item_is_section modref \<and> \<not> cf_item_is_pair modref then
        load_entries n env d here component outer visiblename attr (i + 1) modrefs mls
      else if cf_item_is_section modref \<and> cs_name1 modref = section_type_name component then
        (case load_subcomponent_section n env d (i # here) component outer modref attr mls of
           Loaded mls \<Rightarrow> load_entries n env d here component outer visiblename attr (i + 1) modrefs mls
         | r \<Rightarrow> r)
      else
        (case compile_modsingle n env (i # here) None component outer modref of
           Unfinished \<Rightarrow> LoadUnfinished
         | Faulted \<Rightarrow> LoadFault
         | NoTree \<Rightarrow> LoadError
         | Built self \<Rightarrow>
             (case entry_index d component modref of
                None \<Rightarrow> free_and_then self LoadError
              | Some idx \<Rightarrow>
                  (case new_sublist mls component idx of
                     None \<Rightarrow>
                       (if modcallable_free self then load_entries n env d here component outer visiblename attr (i + 1) modrefs mls
                        else LoadFault)
                   | Some mls \<Rightarrow>
                       load_entries n env d here component outer visiblename attr (i + 1) modrefs
                         (mls((component, idx) := Some (Some (add_to_modcallable (the (mls (component, idx))) self component visiblename))))))))"

definition load_component_section ::
    "nat \<Rightarrow> compile_env \<Rightarrow> dictionary \<Rightarrow> name_ptr \<Rightarrow> component \<Rightarrow> nat list \<Rightarrow> conf_item \<Rightarrow> module_lists \<Rightarrow> loaded" where
  "load_component_section n env d here component outer cs mls =
     (case dict_attrbyvalue d (section_type_attr component) of
        None \<Rightarrow> LoadError
      | Some dattr \<Rightarrow>
          load_entries n env d here component (cs_addr cs # outer) (case cs_name2 cs of None \<Rightarrow> cs_name1 cs | Some nm \<Rightarrow> nm) (da_attr dattr) 0
            (cs_children cs) mls)"

section \<open>Virtual servers\<close>

record virtual_server =
  vs_name :: "string option"
  vs_components :: module_lists
  vs_mc :: "component \<Rightarrow> modcallable option"
  vs_can_free :: bool

definition VIRTUAL_SERVER_HASH_SIZE :: u32 where "VIRTUAL_SERVER_HASH_SIZE = 256"

type_synonym server_table = "u32 \<Rightarrow> virtual_server list"

definition virtual_server_idx :: "string option \<Rightarrow> u32" where
  "virtual_server_idx nm =
     (case nm of None \<Rightarrow> 0 | Some s \<Rightarrow> fr_hash_string s AND (VIRTUAL_SERVER_HASH_SIZE - 1))"

definition virtual_server_find :: "server_table \<Rightarrow> string option \<Rightarrow> virtual_server option" where
  "virtual_server_find servers nm = List.find (\<lambda>server. vs_name server = nm) (servers (virtual_server_idx nm))"

text \<open>The end of \<^verbatim>\<open>load_byserver\<close>: the new server goes first, the next one of its name may be freed.\<close>

fun mark_older :: "string option \<Rightarrow> virtual_server list \<Rightarrow> virtual_server list" where
  "mark_older nm [] = []"
| "mark_older nm (server # servers) =
     (if vs_name server = nm then server\<lparr>vs_can_free := True\<rparr> # servers else server # mark_older nm servers)"

definition virtual_server_insert :: "server_table \<Rightarrow> virtual_server \<Rightarrow> server_table" where
  "virtual_server_insert servers server =
     (let i = virtual_server_idx (vs_name server) in servers(i := server # mark_older (vs_name server) (servers i)))"

text \<open>The loop of \<^verbatim>\<open>load_byserver\<close> over the components; the default list of a component is cached.\<close>

fun load_components ::
    "nat \<Rightarrow> compile_env \<Rightarrow> dictionary \<Rightarrow> name_ptr \<Rightarrow> bool \<Rightarrow> nat list \<Rightarrow> conf_item \<Rightarrow> component list \<Rightarrow>
     module_lists \<times> (component \<Rightarrow> modcallable option) \<Rightarrow> loaded \<times> (component \<Rightarrow> modcallable option)" where
  "load_components n env d here proxy outer cs [] (mls, mc) = (Loaded mls, mc)"
| "load_components n env d here proxy outer cs (component # comps) (mls, mc) =
     (case cf_section_sub_find (cs_children cs) (comp2str component) of
        None \<Rightarrow> load_components n env d here proxy outer cs comps (mls, mc)
      | Some subcs \<Rightarrow>
          if cs_children subcs = [] \<or> \<not> proxy \<and> (component = RLM_COMPONENT_PRE_PROXY \<or> component = RLM_COMPONENT_POST_PROXY) then
            load_components n env d here proxy outer cs comps (mls, mc)
          else
            (case load_component_section n env d (length comps # here) component (cs_addr cs # outer) subcs mls of
               Loaded mls \<Rightarrow>
                 load_components n env d here proxy outer cs comps
                   (mls, (case lookup_by_index mls component 0 of None \<Rightarrow> mc | Some list \<Rightarrow> mc(component := list)))
             | r \<Rightarrow> (r, mc)))"

section \<open>Calling a section\<close>

text \<open>\<open>names\<close> reads the name a server pointer points to.\<close>

definition indexed_modcall ::
    "'r callbacks \<Rightarrow> server_table \<Rightarrow> (name_ptr \<Rightarrow> string option) \<Rightarrow> component \<Rightarrow> u32 \<Rightarrow> 'r request \<Rightarrow> (unit + rcode \<times> 'r request) option" where
  "indexed_modcall cb servers names component idx request =
     (case virtual_server_find servers (names (rq_server request)) of
        None \<Rightarrow> Some (Inr (RLM_MODULE_FAIL, request))
      | Some server \<Rightarrow>
          let list =
                (if idx = 0 then vs_mc server component
                 else case lookup_by_index (vs_components server) component idx of None \<Rightarrow> None | Some list \<Rightarrow> list)
          in case modcall cb component list (request\<lparr>rq_component := comp2str component\<rparr>) of
               Some (Inr (rcode, request)) \<Rightarrow> Some (Inr (rcode, request\<lparr>rq_module := [], rq_component := ''<core>''\<rparr>))
             | r \<Rightarrow> r)"

section \<open>What is loaded can be run\<close>

definition root_typed :: "modcallable \<Rightarrow> bool" where
  "root_typed c \<longleftrightarrow> mc_typed c \<and> mc_kind c \<in> {Some MOD_GROUP, Some MOD_POLICY}"

definition lists_typed :: "module_lists \<Rightarrow> bool" where
  "lists_typed mls \<longleftrightarrow> (\<forall>k c. mls k = Some (Some c) \<longrightarrow> root_typed c)"

lemma add_to_modcallable_typed:
  assumes "mc_typed self" and "\<forall>c. parent = Some c \<longrightarrow> root_typed c"
  shows "root_typed (add_to_modcallable parent self component nm)"
proof (cases parent)
  case None
  then show ?thesis using assms(1) by (simp add: root_typed_def add_to_modcallable_def defaultactions_typed)
next
  case (Some g)
  then show ?thesis using assms by (cases g) (auto simp: root_typed_def add_to_modcallable_def)
qed

lemma lists_typed_upd:
  "lists_typed mls \<Longrightarrow> root_typed c \<Longrightarrow> lists_typed (mls(k := Some (Some c)))"
  by (auto simp: lists_typed_def)

lemma new_sublist_typed: "new_sublist mls component idx = Some mls' \<Longrightarrow> lists_typed mls \<Longrightarrow> lists_typed mls' \<and> mls' (component, idx) \<noteq> None"
  by (auto simp: new_sublist_def lookup_by_index_def lists_typed_def split: option.split_asm if_split_asm)

lemma load_subcomponent_typed:
  assumes "load_subcomponent_section n env d here component outer cs attr mls = Loaded mls'" and "lists_typed mls"
  shows "lists_typed mls'"
proof -
  have "lists_typed (m(k := Some (Some ml)))" if "compile_modgroup n env here None component outer cs = Built ml" "lists_typed m" for ml m k
    using that compiled_group_typed by (intro lists_typed_upd) (auto simp: root_typed_def)
  then show ?thesis using assms
    by (auto simp: load_subcomponent_section_def free_and_then_def split: option.split_asm compiled.split_asm if_split_asm dest: new_sublist_typed)
qed

lemma load_entries_typed:
  "load_entries n env d here component outer visiblename attr i modrefs mls = Loaded mls' \<Longrightarrow> lists_typed mls \<Longrightarrow> lists_typed mls'"
proof (induction modrefs arbitrary: i mls)
  case (Cons modref modrefs)
  have add: "lists_typed (m((component, idx) := Some (Some (add_to_modcallable (the (m (component, idx))) self component visiblename))))"
    if "compile_modsingle n env h None component outer modref = Built self" "new_sublist mls component idx = Some m" for h self idx m
  proof (intro lists_typed_upd add_to_modcallable_typed allI impI)
    show "mc_typed self" using that(1) unfolding compile_modsingle_def by (rule do_compile_modsingle_typed)
    from new_sublist_typed [OF that(2) Cons.prems(2)] show "lists_typed m" ..
    then show "the (m (component, idx)) = Some c \<Longrightarrow> root_typed c" for c
      using new_sublist_typed [OF that(2) Cons.prems(2)] unfolding lists_typed_def by force
  qed
  show ?case using Cons.prems
    by (auto simp: free_and_then_def split: if_split_asm option.split_asm compiled.split_asm loaded.split_asm)
      (blast intro: Cons.IH add load_subcomponent_typed)+
qed simp

lemma load_components_typed:
  "load_components n env d here proxy outer cs comps (mls, mc) = (Loaded mls', mc') \<Longrightarrow> lists_typed mls \<Longrightarrow>
   (\<forall>component c. mc component = Some c \<longrightarrow> root_typed c) \<Longrightarrow>
   lists_typed mls' \<and> (\<forall>component c. mc' component = Some c \<longrightarrow> root_typed c)"
proof (induction comps arbitrary: mls mc)
  case (Cons component comps)
  have typed: "lists_typed m" if "load_component_section n env d h component o' subcs mls = Loaded m" for h o' subcs m
    using that load_entries_typed Cons.prems(2) by (auto simp: load_component_section_def split: option.split_asm)
  have cached: "\<forall>c' t. (case lookup_by_index m component 0 of None \<Rightarrow> mc | Some list \<Rightarrow> mc(component := list)) c' = Some t \<longrightarrow>
      root_typed t" if "lists_typed m" for m
    using that Cons.prems(3) by (auto simp: lists_typed_def lookup_by_index_def split: option.split)
  show ?case
  proof (cases "cf_section_sub_find (cs_children cs) (comp2str component)")
    case None
    then show ?thesis using Cons.prems Cons.IH by simp
  next
    case (Some subcs)
    show ?thesis
    proof (cases "cs_children subcs = [] \<or> \<not> proxy \<and> (component = RLM_COMPONENT_PRE_PROXY \<or> component = RLM_COMPONENT_POST_PROXY)")
      case True
      then show ?thesis using Some Cons.prems Cons.IH by simp
    next
      case False
      let ?l = "load_component_section n env d (length comps # here) component (cs_addr cs # outer) subcs mls"
      obtain m where m: "?l = Loaded m" using Cons.prems(1) Some False by (cases ?l) auto
      have "load_components n env d here proxy outer cs comps (m, (case lookup_by_index m component 0 of None \<Rightarrow> mc | Some list \<Rightarrow> mc(component := list))) =
          (Loaded mls', mc')" using Cons.prems(1) Some False m by simp
      then show ?thesis by (rule Cons.IH) (use typed [OF m] cached [OF typed [OF m]] in auto)
    qed
  qed
qed simp

lemma virtual_server_insert_find: "virtual_server_find (virtual_server_insert servers server) (vs_name server) = Some server"
  by (simp add: virtual_server_find_def virtual_server_insert_def Let_def)

text \<open>What a section answers: its list by its recursive meaning, the default of the component without one.\<close>

definition section_eval :: "'r callbacks \<Rightarrow> component \<Rightarrow> modcallable option \<Rightarrow> 'r request \<Rightarrow> rcode \<times> 'r request" where
  "section_eval cb component list q =
     (case list of
        None \<Rightarrow> (if rq_stop q \<or> rq_parent_stop q then RLM_MODULE_FAIL else default_component_results component, q)
      | Some c \<Rightarrow> policy_eval cb component c q)"

lemma modcall_section:
  assumes "\<forall>c. list = Some c \<longrightarrow> root_typed c \<and> mc_depth c < MODCALL_STACK_MAX"
  shows "modcall cb component list q = Some (Inr (section_eval cb component list q))"
proof (cases list)
  case None
  then show ?thesis by (simp add: modcall_def modcall_loop_step modcall_body_def finish_def section_eval_def)
next
  case (Some c)
  then obtain kind nm acts children where c: "c = Modgroup kind nm acts children" "kind \<in> {MOD_GROUP, MOD_POLICY}"
    using assms by (cases c) (auto simp: root_typed_def)
  have "modcall cb component (Some c) q = Some (Inr (policy_eval cb component c q))"
    by (rule modcall_eval [OF c(1)]) (use c assms Some in auto)
  then show ?thesis using Some by (simp add: section_eval_def)
qed

text \<open>C6: From the configuration to the answer for a request. When the sections of a server have been loaded and the server entered into the
  table, a request for that server is answered by what its section means, the section of a component or the list of an index: every list
  that was loaded has the type the interpreter needs. This holds for lists whose groups are nested less than 32 deep: the compiler does not look
  at the depth, and for a deeper list the interpreter ends the server (\<open>deep_policy_exits\<close>).
\<close>

theorem loaded_server_answers:
  fixes cb :: "'r callbacks"
  assumes "load_components n env d here proxy outer cs comps (Map.empty, Map.empty) = (Loaded mls, mc)"
    and "vs_components server = mls" and "vs_mc server = mc" and "names (rq_server q) = vs_name server"
    and "list = (if idx = 0 then mc component else case mls (component, idx) of None \<Rightarrow> None | Some list \<Rightarrow> list)"
    and "\<forall>c. list = Some c \<longrightarrow> mc_depth c < MODCALL_STACK_MAX"
  shows "indexed_modcall cb (virtual_server_insert servers server) names component idx q =
    Some (Inr (case section_eval cb component list (q\<lparr>rq_component := comp2str component\<rparr>) of
      (r, q) \<Rightarrow> (r, q\<lparr>rq_module := [], rq_component := ''<core>''\<rparr>)))"
proof -
  have "lists_typed mls \<and> (\<forall>comp c. mc comp = Some c \<longrightarrow> root_typed c)"
    by (rule load_components_typed [OF assms(1)]) (simp_all add: lists_typed_def)
  then have "\<forall>c. list = Some c \<longrightarrow> root_typed c \<and> mc_depth c < MODCALL_STACK_MAX"
    using assms(5,6) by (auto simp: lists_typed_def split: if_split_asm option.split_asm)
  note run = modcall_section [OF this, of cb component "q\<lparr>rq_component := comp2str component\<rparr>"]
  have "indexed_modcall cb (virtual_server_insert servers server) names component idx q =
      (case modcall cb component list (q\<lparr>rq_component := comp2str component\<rparr>) of
         Some (Inr (rcode, request)) \<Rightarrow> Some (Inr (rcode, request\<lparr>rq_module := [], rq_component := ''<core>''\<rparr>))
       | r \<Rightarrow> r)"
    unfolding indexed_modcall_def assms(4) virtual_server_insert_find lookup_by_index_def option.case Let_def assms(2,3,5) ..
  then show ?thesis unfolding run by (simp split: prod.split)
qed

definition server_conf :: conf_item where
  "server_conf = CONF_SECTION 7 ''server'' None [CONF_SECTION 6 ''authorize'' None [CONF_PAIR ''a'' None T_EOL]]"

definition server_dict :: dictionary where
  "server_dict = dict_start\<lparr>attributes_byvalue :=
     (\<lambda>_. Some \<lparr>da_name = ''Autz-Type'', da_attr = 1011, da_type = PW_TYPE_INTEGER, da_vendor = 0, da_flags = flags0\<rparr>)\<rparr>"

definition server_list :: modcallable where
  "server_list = Modgroup MOD_GROUP (Some ''authorize'') (defaultactions RLM_COMPONENT_AUTZ GROUPTYPE_SIMPLE)
     [Modgroup MOD_POLICY (Some ''a'') (defaultactions RLM_COMPONENT_AUTZ GROUPTYPE_SIMPLE)
        [MOD_SINGLE ''sql'' (defaultactions RLM_COMPONENT_AUTZ GROUPTYPE_SIMPLE) RLM_COMPONENT_AUTZ ''sql'']]"

definition sample_server :: virtual_server where
  "sample_server = \<lparr>vs_name = None, vs_components = Map.empty((RLM_COMPONENT_AUTZ, 0) \<mapsto> Some server_list),
     vs_mc = Map.empty(RLM_COMPONENT_AUTZ \<mapsto> server_list), vs_can_free = False\<rparr>"

lemma server_loaded:
  "load_components 3 (conf_env False) server_dict [] True [] server_conf components (Map.empty, Map.empty) =
     (Loaded (vs_components sample_server), vs_mc sample_server)"
proof -
  have "load_component_section 3 (conf_env False) server_dict here RLM_COMPONENT_AUTZ [7] (CONF_SECTION 6 ''authorize'' None [CONF_PAIR ''a'' None T_EOL]) Map.empty =
      Loaded (vs_components sample_server)" for here
    by (simp add: load_component_section_def dict_attrbyvalue_def server_dict_def cf_item_is_section_def cf_item_is_pair_def compile_modsingle_def sample_compiled
        entry_index_def new_sublist_def lookup_by_index_def add_to_modcallable_def sample_server_def server_list_def default_for_def)
  then show ?thesis
    by (simp add: components_def server_conf_def cf_section_sub_find_def cf_item_is_section_def lookup_by_index_def sample_server_def)
qed

theorem loaded_server_answers_witness:
  "indexed_modcall sample_cb (virtual_server_insert (\<lambda>_. []) sample_server) (\<lambda>_. None) RLM_COMPONENT_AUTZ 0 policy_request =
     Some (Inr (RLM_MODULE_OK, policy_request\<lparr>rq_simul_max := Some RLM_MODULE_OK, rq_component := ''<core>''\<rparr>))"
proof -
  have "indexed_modcall sample_cb (virtual_server_insert (\<lambda>_. []) sample_server) (\<lambda>_. None) RLM_COMPONENT_AUTZ 0 policy_request =
      Some (Inr (case section_eval sample_cb RLM_COMPONENT_AUTZ (Some server_list) (policy_request\<lparr>rq_component := comp2str RLM_COMPONENT_AUTZ\<rparr>) of
        (r, q) \<Rightarrow> (r, q\<lparr>rq_module := [], rq_component := ''<core>''\<rparr>)))"
    by (rule loaded_server_answers [OF server_loaded]) (simp_all add: sample_server_def server_list_def MODCALL_STACK_MAX_def)
  also have "section_eval sample_cb RLM_COMPONENT_AUTZ (Some server_list) (policy_request\<lparr>rq_component := comp2str RLM_COMPONENT_AUTZ\<rparr>) =
      (RLM_MODULE_OK, policy_request\<lparr>rq_simul_max := Some RLM_MODULE_OK, rq_component := comp2str RLM_COMPONENT_AUTZ\<rparr>)"
    by (simp add: section_eval_def policy_eval_def server_list_def policy_request_def group_entry_def exec_list.simps exec_child.simps plan_def sample_cb_def
        autz_row_def MOD_ACTION_RETURN_def MOD_ACTION_REJECT_def call_modsingle_def kind_if_def)
  finally show ?thesis by (simp add: policy_request_def)
qed

text \<open>Groups nested too deep are compiled, and end the server when they are run.\<close>

fun nested_groups :: "nat \<Rightarrow> modcallable" where
  "nested_groups 0 = MOD_SINGLE ''ok'' (defaultactions RLM_COMPONENT_AUTZ GROUPTYPE_SIMPLE) RLM_COMPONENT_AUTZ ''ok''"
| "nested_groups (Suc n) = Modgroup MOD_GROUP (Some []) (defaultactions RLM_COMPONENT_AUTZ GROUPTYPE_SIMPLE) [nested_groups n]"

lemma nested_groups_exit:
  assumes "\<not> rq_stop q" and "\<not> rq_parent_stop q" and "MODCALL_STACK_MAX < length (f # fs) + n" and "length (f # fs) \<le> MODCALL_STACK_MAX"
    and "cf_children f = [nested_groups n]" and "cf_pos f = Some 0"
  shows "modcall_loop cb component \<lparr>ms_stack = f # fs, ms_myresult = my, ms_was_if = w, ms_if_taken = t, ms_request = q\<rparr> = Some (Inl ())"
  using assms(3-6)
proof (induction n arbitrary: f fs my)
  case (Suc n)
  show ?case
  proof (cases "MODCALL_STACK_MAX \<le> length (f # fs)")
    case True
    then show ?thesis using assms(1,2) Suc.prems by (simp add: modcall_loop_step modcall_body_def enter_group_def finish_def)
  next
    case False
    let ?g = "\<lparr>cf_parent = Some MOD_GROUP, cf_children = [nested_groups n], cf_pos = Some 0, cf_start = Some 0, cf_priority = 0,
      cf_result = default_component_results component\<rparr>"
    have "modcall_loop cb component \<lparr>ms_stack = f # fs, ms_myresult = my, ms_was_if = w, ms_if_taken = t, ms_request = q\<rparr> =
        modcall_loop cb component \<lparr>ms_stack = ?g # f # fs, ms_myresult = my, ms_was_if = w, ms_if_taken = t, ms_request = q\<rparr>"
      using assms(1,2) Suc.prems False
      by (subst modcall_loop_step) (simp add: modcall_body_def enter_group_def group_entry_def finish_def)
    also have "\<dots> = Some (Inl ())" by (rule Suc.IH) (use Suc.prems False in simp_all)
    finally show ?thesis .
  qed
qed simp

lemma deep_policy_exits:
  "\<not> rq_stop q \<Longrightarrow> \<not> rq_parent_stop q \<Longrightarrow> modcall cb component (Some (nested_groups 32)) q = Some (Inl ())"
  unfolding modcall_def by (rule nested_groups_exit) (simp_all add: MODCALL_STACK_MAX_def)

end
