(* ===== verification/Spec2Isabelle.thy ===== *)
theory Spec2Isabelle
  imports Packet_Exchange Md5_Rfc Random_Pool Event_List Fifo_Queue Dict_Hash Request_Receive Module_Lists
begin

text \<open>
  A verification of WinRadius, the Windows port of FreeRADIUS 2: its RADIUS library, and of its server the policies, the proxying and the life
  of requests.

  \<^bold>\<open>The program.\<close> \<^verbatim>\<open>src/WinRadius/src/lib\<close> is the protocol library (packets, attributes, dictionary, digests,
  containers), \<^verbatim>\<open>src/WinRadius/winradiusd\<close> the server over it, \<^verbatim>\<open>src/WinRadius/src/modules\<close> its modules and
  \<^verbatim>\<open>WinRadiusClient\<close> a test client. Everything the server receives passes \<open>rad_recv\<close>, \<open>rad_verify\<close> and
  \<open>rad_decode\<close>; everything it sends passes \<open>rad_encode\<close> and \<open>rad_sign\<close>. In between a request runs through the module lists of a
  virtual server, which the policy compiler made from the configuration, and may be proxied to a home server, whose reply comes back
  through the list of packets that wait. Timers of requests and home servers are events of one queue.

  \<^bold>\<open>Modelling.\<close> C functions are HOL functions of the same name. Octet buffers are lists of \<^verbatim>\<open>8 word\<close>, numbers of 32
  bits are \<^verbatim>\<open>32 word\<close>; a linked list of pairs is a list of \<open>value_pair\<close> records; static variables are fields
  of a state record that is passed on. A read or write outside a buffer, a null pointer and a loop that does not end
  are values of \<open>wire_error\<close>, so that memory safety is a statement about results; memory exhaustion and
  debug output are left out. The host is little-endian with 32-bit \<^verbatim>\<open>int\<close>.

  \<^bold>\<open>Theories.\<close>
  \<^item> \<open>Radius_Prelude\<close>: octets, \<open>memcpy_at\<close>, byte orders and the lemmas on them; the collection \<open>len_simps\<close>.
  \<^item> \<open>Md5\<close>, \<open>Md5_Rfc\<close>: \<^verbatim>\<open>md5.cpp\<close>, \<^verbatim>\<open>hmac.cpp\<close>. The streaming digest equals RFC 1321 written by its schedule, HMAC
    equals RFC 2104; the bit count loses a carry at 512 MB.
  \<^item> \<open>Random_Pool\<close>: \<^verbatim>\<open>isaac.cpp\<close>, the FNV hash of \<^verbatim>\<open>hash.cpp\<close>, \<open>fr_rand\<close> and \<open>fr_rand_seed\<close>; bounds of the pool.
  \<^item> \<open>Password_Hiding\<close>: the three ways \<^verbatim>\<open>radius.cpp\<close> hides passwords, with round trips, over a locale for a
    keyed 16-octet digest that is interpreted on MD5.
  \<^item> \<open>Dictionary\<close>: the tables of \<^verbatim>\<open>dict.cpp\<close>, lookups, insertions, \<^verbatim>\<open>VENDOR\<close> lines; an invariant of every dictionary
    that can be built, and lookup after insertion.
  \<^item> \<open>Value_Pair\<close>: pairs and lists of \<^verbatim>\<open>valuepair-lib.cpp\<close>; \<open>pairmove\<close> refines a merge per attribute, \<open>rad_sortvp\<close> is
    the stable sort.
  \<^item> \<open>Packet_Encode\<close>, \<open>Packet_Verify\<close>, \<open>Packet_Decode\<close>, \<open>Packet_Exchange\<close>: \<^verbatim>\<open>radius.cpp\<close> from a list of pairs to
    octets and back. \<open>rad_packet_ok\<close> is characterised exactly; \<open>rad_verify\<close> is safe behind it, and so is \<open>rad_decode\<close> for packets
    without attributes of vendors with continued attributes; encoded packets are well formed; values and packets survive the round trip; what one side signs the other side
    verifies.
  \<^item> \<open>Binary_Heap\<close>, \<open>Event_List\<close>: \<^verbatim>\<open>heap.cpp\<close>, \<^verbatim>\<open>event-lib.cpp\<close>. The array heap is a priority queue over a locale for the order;
    heap, events and the pointers their owners keep stay consistent; events run in the order of their times, and the loops end over callbacks
    that schedule for later.
  \<^item> \<open>Fifo_Queue\<close>: \<^verbatim>\<open>fifo.cpp\<close>, entries in a store; a bounded queue.
  \<^item> \<open>Hash_Table\<close>, \<open>Hash_Map\<close>, \<open>Dict_Hash\<close>: \<^verbatim>\<open>hash.cpp\<close> and the callbacks of \<^verbatim>\<open>dict.cpp\<close>. Without collisions the table is a map;
    vendor numbers have none, attribute numbers have some and then entries are lost. \<open>Dictionary\<close> models its tables as
    maps, which is what they are without collisions.
  \<^item> \<open>Red_Black_Tree\<close>, \<open>Red_Black_Props\<close>, \<open>Red_Black_Map\<close>: \<^verbatim>\<open>rbtree.cpp\<close>. Insertion and deletion keep the colours and the order, so that
    the tree is a map and its depth is logarithmic; what the walks do. \<open>Table_Spec\<close> is the contract of a container as a locale; the hash
    table and the tree are interpretations of it.
  \<^item> \<open>Ip_Address\<close>, \<open>Packet_List\<close>, \<open>Packet_Ids\<close>: addresses of \<^verbatim>\<open>misc.cpp\<close>, and \<^verbatim>\<open>packet.cpp\<close>. The list of packets is a tree by
    address and identifier; the bits that say which identifier is used on which socket are a set of identifiers, from which none is
    handed out twice and to which every one comes back, as long as no two destinations collide in the hash table; a reply finds its
    request.
  \<^item> \<open>Modcall\<close>, \<open>Modcall_Exec\<close>: the interpreter of \<^verbatim>\<open>modcall.cpp\<close> with its own stack and jumps, over the callbacks of the modules. It computes
    a recursive meaning of the policy; a redundant group fails over from one module to the next as the actions say.
  \<^item> \<open>Modcall_Compile\<close>, \<open>Policy_Types\<close>: the compiler of policies in \<^verbatim>\<open>modcall.cpp\<close>, over the configuration as a tree. What it builds is well
    typed, and it ends when modules do not refer to each other in circles.
  \<^item> \<open>Module_Lists\<close>: the module lists of virtual servers in \<^verbatim>\<open>modules.cpp\<close>; a loaded server answers by the meaning of its section.
  \<^item> \<open>Home_Servers\<close>, \<open>Home_Choice\<close>: \<open>home_server_ldb\<close> of \<^verbatim>\<open>realms.cpp\<close> and the states of a home server in \<^verbatim>\<open>event.cpp\<close>. Which server is
    chosen; a server that is down has the event pending that leads to the next check or to its revival, unless a status check found the
    list of proxied requests full (steps of a server as an \<open>inductive\<close> relation, the invariant by rule induction).
  \<^item> \<open>Proxy_Table\<close>, \<open>Proxy_Ids\<close>: the table of proxied requests of \<^verbatim>\<open>event.cpp\<close> over \<open>Packet_List\<close> and \<open>Home_Servers\<close>, and
    \<open>received_proxy_response\<close>. The identifiers in use are those of the requests that wait, and a reply gets to its request; a reply with
    a wrong signature takes its request off the list.
  \<^item> \<open>Request_Life\<close>, \<open>Request_Safety\<close>, \<open>Request_Receive\<close>: requests from clients in \<^verbatim>\<open>event.cpp\<close> without threads, from \<open>received_request\<close> over
    the end of \<open>request_post_handler\<close> and the timers to \<open>ev_request_free\<close>. The list of packets from clients and the requests agree, every step
    frees a request or leaves it with an event, duplicates are answered from the reply that is kept, and a new packet is accepted or dropped as
    the code says. What happens to a request elsewhere (modules, proxying) is a step that is only constrained (\<open>elsewhere_ok\<close>).

  \<^bold>\<open>Loops.\<close> All loops are total functions with a measure, except the walk of \<open>rad_verify\<close> over attributes, which
    checks no lengths and is a \<open>partial_function\<close>: \<open>rad_verify_returns\<close> shows it ends on accepted packets; the release of a FIFO,
    whose store could be cyclic, and the recursion that fills hash buckets, both shown to return; and the loops of the
    event list over callbacks, which are bounded by the clock readings and rounds given (\<open>event_loops_end\<close>: one more than there are
    events due suffices). Freeing a request follows the requests it originated with fuel, the number of all requests.
    The loop of \<open>modcall\<close> is a \<open>partial_function\<close> that is shown to return for every tree of the allowed depth. The compiler
    follows references between modules with fuel: \<open>compile_modgroup_ends\<close> shows how much suffices when they are not circular.
    \<open>home_server_ldb\<close> calls itself for the realm \<^verbatim>\<open>DEFAULT\<close>; two calls suffice when that realm is spelled so (\<open>home_server_choice\<close>), and no
    number suffices when it is spelled in another case.

  \<^bold>\<open>Not modelled.\<close> Socket, file, thread and database I/O; the text parsers of the dictionary, of values and of configuration files; of
  the server what a request goes through beside the module lists (authentication, accounting, sessions, originated CoA requests), the conditions
  and updates of policies, string expansion and the configuration of
  clients and realms; the modules, which are callbacks of the interpreter. The build has no threads and no regular expressions. The
  manifest lists the parts by file.
\<close>

end
